(* ===== verification/Prelude.thy ===== *)
theory Prelude
  imports Main "HOL-Library.Word" "HOL-Library.Monad_Syntax"
begin

text \<open>
  Shared vocabulary of the development: the C integer types of \<^verbatim>\<open>types.h\<close> as machine
  words, raw memory as byte lists with bounds-checked loads and stores, byte order, and
  the layout interface (locale \<open>layout\<close>) that every packed header struct of the
  program implements.

  A C function that may run into undefined behaviour (a null dereference, an access
  outside a buffer, a failed \<^verbatim>\<open>assert\<close>) returns an \<open>option\<close>: \<open>None\<close> is the crash,
  \<open>Some\<close> the state after a normal return. The host is little-endian (x86), as the
  repository's Mininet hosts are.
\<close>

unbundle bit_operations_syntax

section \<open>Integers\<close>

type_synonym u8 = "8 word"
type_synonym u16 = "16 word"
type_synonym u32 = "32 word"
type_synonym u64 = "64 word"
type_synonym bytes = "u8 list"

named_theorems byte_simps \<open>joining and splitting of words into bytes\<close>
named_theorems struct_defs \<open>encoders and decoders of packed structs\<close>

text \<open>A failed check stops the program.\<close>

definition ensure :: "bool \<Rightarrow> unit option" where
  "ensure b = (if b then Some () else None)"

lemma ensure_Some [simp]: "ensure b = Some u \<longleftrightarrow> b"
  by (simp add: ensure_def)

lemma ensure_None [simp]: "ensure b = None \<longleftrightarrow> \<not> b"
  by (simp add: ensure_def)

lemma ensure_bind [simp]: "Option.bind (ensure b) f = (if b then f () else None)"
  by (simp add: ensure_def)

text \<open>A loop whose body may crash.\<close>

fun fold_opt :: "('a \<Rightarrow> 's \<Rightarrow> 's option) \<Rightarrow> 'a list \<Rightarrow> 's \<Rightarrow> 's option" where
  "fold_opt f [] s = Some s"
| "fold_opt f (x # xs) s = Option.bind (f x s) (fold_opt f xs)"

lemma fold_opt_append: "fold_opt f (xs @ ys) s = Option.bind (fold_opt f xs s) (fold_opt f ys)"
  by (induction xs arbitrary: s) (auto split: bind_split)

lemma fold_opt_total: "fold_opt (\<lambda>x s. Some (f x s)) xs s = Some (fold f xs s)"
  by (induction xs arbitrary: s) auto

lemma fold_opt_invariant:
  assumes "fold_opt f xs s = Some t" and "I s"
    and "\<And>x s s'. x \<in> set xs \<Longrightarrow> I s \<Longrightarrow> f x s = Some s' \<Longrightarrow> I s'"
  shows "I t"
  using assms by (induction xs arbitrary: s) (auto simp: bind_eq_Some_conv)

section \<open>Bytes of a word, little-endian\<close>

definition mk16 :: "u8 \<Rightarrow> u8 \<Rightarrow> u16" where
  "mk16 b0 b1 = ucast b0 OR push_bit 8 (ucast b1)"

definition mk32 :: "u8 \<Rightarrow> u8 \<Rightarrow> u8 \<Rightarrow> u8 \<Rightarrow> u32" where
  "mk32 b0 b1 b2 b3 =
     ucast b0 OR push_bit 8 (ucast b1) OR push_bit 16 (ucast b2) OR push_bit 24 (ucast b3)"

definition byte_of :: "nat \<Rightarrow> 'a::len word \<Rightarrow> u8" where
  "byte_of k w = ucast (drop_bit (8 * k) w)"

lemma mk16_bytes [byte_simps]: "mk16 (byte_of 0 w) (byte_of 1 w) = w"
  by (rule bit_word_eqI) (auto simp: mk16_def byte_of_def bit_simps)

lemma byte_of_mk16 [byte_simps]:
  "byte_of 0 (mk16 b0 b1) = b0" "byte_of 1 (mk16 b0 b1) = b1"
  by (rule bit_word_eqI; auto simp: mk16_def byte_of_def bit_simps dest: bit_imp_le_length)+

lemma mk32_bytes [byte_simps]: "mk32 (byte_of 0 w) (byte_of 1 w) (byte_of 2 w) (byte_of 3 w) = w"
proof (rule bit_word_eqI)
  fix n :: nat
  assume "n < LENGTH(32)"
  then consider "n < 8" | "8 \<le> n" "n < 16" | "16 \<le> n" "n < 24" | "24 \<le> n" "n < 32"
    by force
  then show "bit (mk32 (byte_of 0 w) (byte_of 1 w) (byte_of 2 w) (byte_of 3 w)) n = bit w n"
    by cases (auto simp: mk32_def byte_of_def bit_simps)
qed

lemma byte_of_mk32 [byte_simps]:
  "byte_of 0 (mk32 b0 b1 b2 b3) = b0" "byte_of 1 (mk32 b0 b1 b2 b3) = b1"
  "byte_of 2 (mk32 b0 b1 b2 b3) = b2" "byte_of 3 (mk32 b0 b1 b2 b3) = b3"
  by (rule bit_word_eqI; auto simp: mk32_def byte_of_def bit_simps dest: bit_imp_le_length)+

text \<open>The same facts in the form the simplifier normalises the index to.\<close>

lemmas byte_simps_Suc [byte_simps] =
  mk16_bytes [unfolded One_nat_def] byte_of_mk16 [unfolded One_nat_def]
  mk32_bytes [unfolded One_nat_def] byte_of_mk32 [unfolded One_nat_def]

section \<open>Byte order\<close>

text \<open>\<^verbatim>\<open>htons\<close>, \<^verbatim>\<open>htonl\<close> of \<^verbatim>\<open>arpa/inet.h\<close> on a little-endian host; the inverse
  directions are the same functions.\<close>

definition htons :: "u16 \<Rightarrow> u16" where
  "htons w = mk16 (byte_of 1 w) (byte_of 0 w)"

definition htonl :: "u32 \<Rightarrow> u32" where
  "htonl w = mk32 (byte_of 3 w) (byte_of 2 w) (byte_of 1 w) (byte_of 0 w)"

abbreviation ntohs :: "u16 \<Rightarrow> u16" where "ntohs \<equiv> htons"
abbreviation ntohl :: "u32 \<Rightarrow> u32" where "ntohl \<equiv> htonl"

lemma ntohs_htons [simp]: "ntohs (htons w) = w"
  by (simp add: htons_def byte_simps del: One_nat_def)

lemma ntohl_htonl [simp]: "ntohl (htonl w) = w"
  by (simp add: htonl_def byte_simps del: One_nat_def)

lemma htons_eq_iff [simp]: "htons a = htons b \<longleftrightarrow> a = b"
  by (metis ntohs_htons)

lemma htonl_eq_iff [simp]: "htonl a = htonl b \<longleftrightarrow> a = b"
  by (metis ntohl_htonl)

lemma htons_swap: "htons a = b \<longleftrightarrow> a = htons b"
  by (metis ntohs_htons)

lemma htonl_swap: "htonl a = b \<longleftrightarrow> a = htonl b"
  by (metis ntohl_htonl)

lemma htonl_0 [simp]: "htonl 0 = 0"
  by (simp add: htonl_def mk32_def byte_of_def)

section \<open>Bounds-checked memory\<close>

definition load_bytes :: "bytes \<Rightarrow> nat \<Rightarrow> nat \<Rightarrow> bytes option" where
  "load_bytes m i n = (if i + n \<le> length m then Some (take n (drop i m)) else None)"

definition store_bytes :: "bytes \<Rightarrow> nat \<Rightarrow> bytes \<Rightarrow> bytes option" where
  "store_bytes m i vs =
     (if i + length vs \<le> length m then Some (take i m @ vs @ drop (i + length vs) m) else None)"

definition load8 :: "bytes \<Rightarrow> nat \<Rightarrow> u8 option" where
  "load8 m i = (if i < length m then Some (m ! i) else None)"

text \<open>\<^verbatim>\<open>memcpy\<close> between two buffers. The size is a C \<^verbatim>\<open>int\<close> converted to \<^verbatim>\<open>size_t\<close>: a
  negative size is a huge one and runs outside every buffer.\<close>

definition memcpy :: "bytes \<Rightarrow> nat \<Rightarrow> bytes \<Rightarrow> nat \<Rightarrow> int \<Rightarrow> bytes option" where
  "memcpy dst i src j n =
     (if n < 0 then None
      else do { vs \<leftarrow> load_bytes src j (nat n); store_bytes dst i vs })"

lemma load_bytes_Some:
  "load_bytes m i n = Some vs \<longleftrightarrow> i + n \<le> length m \<and> vs = take n (drop i m)"
  by (auto simp: load_bytes_def)

lemma store_bytes_Some:
  "store_bytes m i vs = Some m' \<longleftrightarrow>
     i + length vs \<le> length m \<and> m' = take i m @ vs @ drop (i + length vs) m"
  by (auto simp: store_bytes_def)

lemma load_bytes_length: "load_bytes m i n = Some vs \<Longrightarrow> length vs = n"
  by (auto simp: load_bytes_Some)

lemma store_bytes_length: "store_bytes m i vs = Some m' \<Longrightarrow> length m' = length m"
  by (auto simp: store_bytes_Some)

lemma store_bytes_defined: "i + length vs \<le> length m \<Longrightarrow> \<exists>m'. store_bytes m i vs = Some m'"
  by (simp add: store_bytes_def)

lemma load_store_same:
  "store_bytes m i vs = Some m' \<Longrightarrow> n = length vs \<Longrightarrow> load_bytes m' i n = Some vs"
  by (auto simp: store_bytes_Some load_bytes_Some)

lemma load_store_other:
  assumes "store_bytes m i vs = Some m'" and "j + n \<le> i \<or> i + length vs \<le> j"
  shows "load_bytes m' j n = load_bytes m j n"
proof -
  have m': "m' = take i m @ vs @ drop (i + length vs) m" and le: "i + length vs \<le> length m"
    using assms(1) by (auto simp: store_bytes_Some)
  have "take n (drop j m') = take n (drop j m)"
    using assms(2)
  proof
    assume "j + n \<le> i"
    then show ?thesis using le by (intro nth_equalityI) (auto simp: m' nth_append)
  next
    assume "i + length vs \<le> j"
    then show ?thesis using le by (intro nth_equalityI) (auto simp: m' nth_append)
  qed
  then show ?thesis
    using store_bytes_length[OF assms(1)] by (simp add: load_bytes_def)
qed

lemma load8_eq_load_bytes: "load8 m i = map_option hd (load_bytes m i 1)"
  by (auto simp: load8_def load_bytes_def take_Suc_conv_app_nth hd_drop_conv_nth hd_take)

lemma store_load_id: "load_bytes m i n = Some vs \<Longrightarrow> store_bytes m i vs = Some m"
  by (auto simp: load_bytes_Some store_bytes_Some)
     (metis add.commute append_take_drop_id drop_drop)

section \<open>Layouts of packed structs\<close>

text \<open>
  A packed struct is an encoder to its bytes, a decoder from them and its \<^verbatim>\<open>sizeof\<close>. A
  pointer cast \<^verbatim>\<open>(struct T *)(packet + off)\<close> followed by field accesses is a load of the
  struct at \<open>off\<close>, and a field assignment through it is a load, a record update and a
  store.
\<close>

definition load_struct :: "(bytes \<Rightarrow> 'a) \<Rightarrow> nat \<Rightarrow> bytes \<Rightarrow> nat \<Rightarrow> 'a option" where
  "load_struct dec sz m off = map_option dec (load_bytes m off sz)"

definition store_struct :: "('a \<Rightarrow> bytes) \<Rightarrow> bytes \<Rightarrow> nat \<Rightarrow> 'a \<Rightarrow> bytes option" where
  "store_struct enc m off x = store_bytes m off (enc x)"

locale layout =
  fixes enc :: "'a \<Rightarrow> bytes" and dec :: "bytes \<Rightarrow> 'a" and sz :: nat
  assumes length_enc: "length (enc x) = sz"
    and dec_enc: "dec (enc x) = x"
    and enc_dec: "length bs = sz \<Longrightarrow> enc (dec bs) = bs"
begin

lemma store_length: "store_struct enc m off x = Some m' \<Longrightarrow> length m' = length m"
  by (simp add: store_struct_def store_bytes_length)

lemma store_defined: "off + sz \<le> length m \<Longrightarrow> \<exists>m'. store_struct enc m off x = Some m'"
  by (simp add: store_struct_def store_bytes_def length_enc)

lemma store_bounds: "store_struct enc m off x = Some m' \<Longrightarrow> off + sz \<le> length m"
  by (simp add: store_struct_def store_bytes_Some length_enc)

lemma load_defined: "off + sz \<le> length m \<Longrightarrow> \<exists>x. load_struct dec sz m off = Some x"
  by (simp add: load_struct_def load_bytes_def)

lemma load_bounds: "load_struct dec sz m off = Some x \<Longrightarrow> off + sz \<le> length m"
  by (auto simp: load_struct_def load_bytes_Some)

lemma load_after_store:
  "store_struct enc m off x = Some m' \<Longrightarrow> load_struct dec sz m' off = Some x"
  by (simp add: store_struct_def load_struct_def load_store_same length_enc dec_enc)

lemma load_bytes_after_store:
  "store_struct enc m off x = Some m' \<Longrightarrow> j + n \<le> off \<or> off + sz \<le> j \<Longrightarrow>
   load_bytes m' j n = load_bytes m j n"
  by (simp add: store_struct_def load_store_other length_enc)

lemma load_struct_frame:
  "load_struct d k m' j = load_struct d k m j" if "store_struct enc m off x = Some m'"
    and "j + k \<le> off \<or> off + sz \<le> j"
  using load_bytes_after_store[OF that] by (simp add: load_struct_def)

lemma store_after_load:
  "load_struct dec sz m off = Some x \<Longrightarrow> store_struct enc m off x = Some m"
  by (auto simp: load_struct_def store_struct_def enc_dec load_bytes_length store_load_id)

lemma raw_bytes:
  "load_struct dec sz m off = Some x \<Longrightarrow> load_bytes m off sz = Some (enc x)"
  by (auto simp: load_struct_def enc_dec load_bytes_length)

lemma enc_inject: "enc x = enc y \<longleftrightarrow> x = y"
  by (metis dec_enc)

end

text \<open>Reading a decoded field out of a byte list of the struct's length.\<close>

definition get16 :: "bytes \<Rightarrow> nat \<Rightarrow> u16" where
  "get16 bs i = mk16 (bs ! i) (bs ! (i + 1))"

definition get32 :: "bytes \<Rightarrow> nat \<Rightarrow> u32" where
  "get32 bs i = mk32 (bs ! i) (bs ! (i + 1)) (bs ! (i + 2)) (bs ! (i + 3))"

definition put16 :: "u16 \<Rightarrow> bytes" where
  "put16 w = [byte_of 0 w, byte_of 1 w]"

definition put32 :: "u32 \<Rightarrow> bytes" where
  "put32 w = [byte_of 0 w, byte_of 1 w, byte_of 2 w, byte_of 3 w]"

lemmas get_put_defs [struct_defs] = get16_def get32_def put16_def put32_def

text \<open>A list of known length, written out.\<close>

lemma list_by_nth: "length xs = n \<Longrightarrow> xs = map (\<lambda>i. xs ! i) [0..<n]"
  by (simp add: list_eq_iff_nth_eq)

section \<open>Words as natural numbers\<close>

lemma unat_u8: "unat (b :: u8) < 256"
  using unsigned_less [of b, where ?'a = nat] by simp

lemma unat_u16: "unat (w :: u16) < 65536"
  using unsigned_less [of w, where ?'a = nat] by simp

lemma unat_u32: "unat (w :: u32) < 4294967296"
  using unsigned_less [of w, where ?'a = nat] by simp

lemma unat_ucast_u16 [simp]: "unat (ucast (b :: u8) :: u16) = unat b"
  using unat_u8 [of b] by (simp add: unsigned_ucast_eq take_bit_nat_eq_self)

lemma unat_mk16: "unat (mk16 b0 b1) = unat b0 + 256 * unat b1"
proof -
  have "mk16 b0 b1 = ucast b0 + push_bit 8 (ucast b1)"
    unfolding mk16_def
    by (rule disjunctive_add_eq_or [symmetric])
       (auto simp: bit_eq_iff bit_simps dest: bit_imp_le_length)
  moreover have "unat (push_bit 8 (ucast b1 :: u16)) = 256 * unat b1"
    using unat_u8 [of b1] by (simp add: push_bit_eq_mult unat_word_ariths)
  ultimately show ?thesis
    using unat_u8 [of b0] unat_u8 [of b1] by (simp add: unat_word_ariths)
qed

lemma unat_drop_bit: "unat (drop_bit k (w :: 'a::len word)) = unat w div 2 ^ k"
  by (simp add: unsigned_drop_bit_eq take_bit_nat_eq_self) (simp add: drop_bit_eq_div)

lemma unat_take_bit: "unat (take_bit k (w :: 'a::len word)) = unat w mod 2 ^ k"
  by (simp add: unsigned_take_bit_eq take_bit_nat_eq_self) (simp add: take_bit_eq_mod)

lemma unat_ucast_up [simp]:
  "unat (ucast (b :: u8) :: u32) = unat b" "unat (ucast (w :: u16) :: u32) = unat w"
  using unat_u8 [of b] unat_u16 [of w] by (simp_all add: unsigned_ucast_eq take_bit_nat_eq_self)

lemma unat_mk16_bytes: "unat (w :: u16) = unat (byte_of 0 w) + 256 * unat (byte_of 1 w)"
  using mk16_bytes[of w] unat_mk16[of "byte_of 0 w" "byte_of 1 w"] by simp

lemma unat_htons: "unat (htons w) = unat (byte_of 1 w) + 256 * unat (byte_of 0 w)"
  by (simp add: htons_def unat_mk16)

lemma mod_add_rcancel:
  "(x + y) mod m = (x' + y) mod m \<Longrightarrow> x mod m = x' mod m" for x :: nat
proof -
  assume "(x + y) mod m = (x' + y) mod m"
  then have "int (x + y) mod int m = int (x' + y) mod int m"
    by (metis zmod_int)
  then have "int x mod int m = int x' mod int m"
    by (simp add: mod_eq_dvd_iff)
  then show ?thesis
    by (metis of_nat_eq_iff zmod_int)
qed

lemma unat_NOT_u16: "unat (NOT w :: u16) = 65535 - unat w"
proof -
  have "uint (NOT w) = 65535 - uint w"
    using uint_bounded [of w]
    by (simp add: unsigned_not_eq take_bit_not_eq_mask_diff mask_eq_exp_minus_1 take_bit_int_eq_self)
  then have "int (unat (NOT w)) = int (65535 - unat w)"
    using unat_u16 [of w] by (simp add: of_nat_diff)
  then show ?thesis by linarith
qed

lemma unat_add_no_wrap:
  "unat (a::'a::len word) + unat b < 2 ^ LENGTH('a) \<Longrightarrow> unat (a + b) = unat a + unat b"
  by (simp add: unat_word_ariths)

end
