(* ===== verification/Clist.thy ===== *)
theory Clist
  imports Prelude
begin

text \<open>
  The intrusive circular doubly-linked list of \<^verbatim>\<open>include/list.h\<close>, on an explicit heap of
  \<^verbatim>\<open>struct list_head\<close> nodes: a map from node addresses to nodes. Following a pointer that
  is not in the domain (a null or dangling pointer) is a crash. The abstraction relation
  \<open>dlist h head xs\<close> says that the nodes \<open>xs\<close> are linked in order behind the list head
  \<open>head\<close>; the locale \<open>clist_ops\<close> is the contract the other components rely on when they
  treat such a list as the sequence of its entries.
\<close>

section \<open>Nodes and operations\<close>

record 'p list_head =
  lh_next :: 'p
  lh_prev :: 'p

type_synonym 'p lheap = "'p \<Rightarrow> 'p list_head option"

definition nxt :: "'p lheap \<Rightarrow> 'p \<Rightarrow> 'p option" where
  "nxt h p = map_option lh_next (h p)"

definition prv :: "'p lheap \<Rightarrow> 'p \<Rightarrow> 'p option" where
  "prv h p = map_option lh_prev (h p)"

definition set_nxt :: "'p lheap \<Rightarrow> 'p \<Rightarrow> 'p \<Rightarrow> 'p lheap option" where
  "set_nxt h p v = map_option (\<lambda>n. h(p \<mapsto> n\<lparr>lh_next := v\<rparr>)) (h p)"

definition set_prv :: "'p lheap \<Rightarrow> 'p \<Rightarrow> 'p \<Rightarrow> 'p lheap option" where
  "set_prv h p v = map_option (\<lambda>n. h(p \<mapsto> n\<lparr>lh_prev := v\<rparr>)) (h p)"

definition list_empty :: "'p lheap \<Rightarrow> 'p \<Rightarrow> bool option" where
  "list_empty h l = map_option (\<lambda>n. n = l) (nxt h l)"

definition init_list_head :: "'p lheap \<Rightarrow> 'p \<Rightarrow> 'p lheap option" where
  "init_list_head h l = do { h \<leftarrow> set_prv h l l; set_nxt h l l }"

definition list_insert :: "'p lheap \<Rightarrow> 'p \<Rightarrow> 'p \<Rightarrow> 'p \<Rightarrow> 'p lheap option" where
  "list_insert h new prev next = do {
     h \<leftarrow> set_prv h next new;
     h \<leftarrow> set_nxt h prev new;
     h \<leftarrow> set_nxt h new next;
     set_prv h new prev }"

definition list_add_head :: "'p lheap \<Rightarrow> 'p \<Rightarrow> 'p \<Rightarrow> 'p lheap option" where
  "list_add_head h new head = do { n \<leftarrow> nxt h head; list_insert h new head n }"

definition list_add_tail :: "'p lheap \<Rightarrow> 'p \<Rightarrow> 'p \<Rightarrow> 'p lheap option" where
  "list_add_tail h new head = do { p \<leftarrow> prv h head; list_insert h new p head }"

definition list_delete_entry :: "'p lheap \<Rightarrow> 'p \<Rightarrow> 'p lheap option" where
  "list_delete_entry h entry = do {
     n \<leftarrow> nxt h entry; p \<leftarrow> prv h entry;
     h \<leftarrow> set_prv h n p;
     p \<leftarrow> prv h entry; n \<leftarrow> nxt h entry;
     set_nxt h p n }"

text \<open>
  The two iteration macros. The loop need not end on a corrupted list, so not returning is
  the value \<open>None\<close>. The body works on the heap and on the rest of the program's state; the
  safe variant saves the successor \<open>q\<close> before it runs the body.
\<close>

partial_function (option) for_each_from ::
  "'p \<Rightarrow> ('p \<Rightarrow> 'p lheap \<times> 's \<Rightarrow> ('p lheap \<times> 's) option) \<Rightarrow> 'p \<Rightarrow> 'p lheap \<times> 's
     \<Rightarrow> ('p lheap \<times> 's) option" where
  "for_each_from head body pos st =
     (if pos = head then Some st
      else Option.bind (body pos st) (\<lambda>st'. Option.bind (nxt (fst st') pos)
             (\<lambda>q. for_each_from head body q st')))"

definition list_for_each_entry ::
  "'p \<Rightarrow> ('p \<Rightarrow> 'p lheap \<times> 's \<Rightarrow> ('p lheap \<times> 's) option) \<Rightarrow> 'p lheap \<times> 's
     \<Rightarrow> ('p lheap \<times> 's) option" where
  "list_for_each_entry head body st = do {
     pos \<leftarrow> nxt (fst st) head; for_each_from head body pos st }"

partial_function (option) for_each_safe_from ::
  "'p \<Rightarrow> ('p \<Rightarrow> 'p lheap \<times> 's \<Rightarrow> ('p lheap \<times> 's) option) \<Rightarrow> 'p \<Rightarrow> 'p \<Rightarrow> 'p lheap \<times> 's
     \<Rightarrow> ('p lheap \<times> 's) option" where
  "for_each_safe_from head body pos q st =
     (if pos = head then Some st
      else Option.bind (body pos st) (\<lambda>st'. Option.bind (nxt (fst st') q)
             (\<lambda>q'. for_each_safe_from head body q q' st')))"

definition list_for_each_entry_safe ::
  "'p \<Rightarrow> ('p \<Rightarrow> 'p lheap \<times> 's \<Rightarrow> ('p lheap \<times> 's) option) \<Rightarrow> 'p lheap \<times> 's
     \<Rightarrow> ('p lheap \<times> 's) option" where
  "list_for_each_entry_safe head body st = do {
     pos \<leftarrow> nxt (fst st) head;
     q \<leftarrow> nxt (fst st) pos;
     for_each_safe_from head body pos q st }"

text \<open>Both macros with a body that leaves the function at the first entry satisfying a test (which
  may crash): the result is that entry, or \<open>None\<close> when the loop runs to its end.\<close>

partial_function (option) find_from ::
  "'p lheap \<Rightarrow> 'p \<Rightarrow> ('p \<Rightarrow> bool option) \<Rightarrow> 'p \<Rightarrow> 'p option option" where
  "find_from h head test pos =
     (if pos = head then Some None
      else Option.bind (test pos) (\<lambda>b. if b then Some (Some pos)
             else Option.bind (nxt h pos) (find_from h head test)))"

definition list_find_entry :: "'p lheap \<Rightarrow> 'p \<Rightarrow> ('p \<Rightarrow> bool option) \<Rightarrow> 'p option option" where
  "list_find_entry h head test = do { pos \<leftarrow> nxt h head; find_from h head test pos }"

partial_function (option) find_safe_from ::
  "'p lheap \<Rightarrow> 'p \<Rightarrow> ('p \<Rightarrow> bool option) \<Rightarrow> 'p \<Rightarrow> 'p \<Rightarrow> 'p option option" where
  "find_safe_from h head test pos q =
     (if pos = head then Some None
      else Option.bind (test pos) (\<lambda>b. if b then Some (Some pos)
             else Option.bind (nxt h q) (find_safe_from h head test q)))"

definition list_find_entry_safe :: "'p lheap \<Rightarrow> 'p \<Rightarrow> ('p \<Rightarrow> bool option) \<Rightarrow> 'p option option" where
  "list_find_entry_safe h head test = do {
     pos \<leftarrow> nxt h head; q \<leftarrow> nxt h pos; find_safe_from h head test pos q }"

section \<open>The abstraction relation\<close>

text \<open>\<open>dseg h p xs q\<close>: from \<open>p\<close> the forward links run through \<open>xs\<close> to \<open>q\<close>, and the
  backward links run the same way back.\<close>

fun dseg :: "'p lheap \<Rightarrow> 'p \<Rightarrow> 'p list \<Rightarrow> 'p \<Rightarrow> bool" where
  "dseg h p [] q \<longleftrightarrow> nxt h p = Some q \<and> prv h q = Some p"
| "dseg h p (x # xs) q \<longleftrightarrow> nxt h p = Some x \<and> prv h x = Some p \<and> dseg h x xs q"

definition dlist :: "'p lheap \<Rightarrow> 'p \<Rightarrow> 'p list \<Rightarrow> bool" where
  "dlist h head xs \<longleftrightarrow> distinct (head # xs) \<and> dseg h head xs head"

lemma nxt_upd [simp]:
  "nxt (h(a \<mapsto> n)) p = (if p = a then Some (lh_next n) else nxt h p)"
  "prv (h(a \<mapsto> n)) p = (if p = a then Some (lh_prev n) else prv h p)"
  by (auto simp: nxt_def prv_def)

lemma nxt_Some_dom: "nxt h p = Some q \<Longrightarrow> p \<in> dom h"
  by (auto simp: nxt_def)

lemma prv_Some_dom: "prv h p = Some q \<Longrightarrow> p \<in> dom h"
  by (auto simp: prv_def)

lemma dseg_append: "dseg h p (xs @ y # ys) q \<longleftrightarrow> dseg h p xs y \<and> dseg h y ys q"
  by (induction xs arbitrary: p) auto

lemma dseg_cong:
  assumes "\<And>a. a \<in> insert p (set xs) \<Longrightarrow> nxt h' a = nxt h a"
    and "\<And>a. a \<in> insert q (set xs) \<Longrightarrow> prv h' a = prv h a"
  shows "dseg h' p xs q = dseg h p xs q"
  using assms by (induction xs arbitrary: p) auto

lemma dseg_dom: "dseg h p xs q \<Longrightarrow> set (p # xs @ [q]) \<subseteq> dom h"
  by (induction xs arbitrary: p) (auto dest: nxt_Some_dom prv_Some_dom)

lemma dlist_dom: "dlist h head xs \<Longrightarrow> set (head # xs) \<subseteq> dom h"
  using dseg_dom by (fastforce simp: dlist_def)

lemma dlist_frame:
  assumes "dlist h head xs" and "\<And>a. a \<in> set (head # xs) \<Longrightarrow> h' a = h a"
  shows "dlist h' head xs"
proof -
  have "dseg h' head xs head = dseg h head xs head"
    using assms(2) by (intro dseg_cong) (auto simp: nxt_def prv_def)
  with assms(1) show ?thesis by (simp add: dlist_def)
qed

section \<open>The operations on the abstraction\<close>

lemma list_insert_eval:
  assumes "new \<in> dom h" "prev \<in> dom h" "next \<in> dom h" "new \<noteq> prev" "new \<noteq> next"
  shows "\<exists>h'. list_insert h new prev next = Some h'
          \<and> nxt h' = (nxt h)(prev \<mapsto> new, new \<mapsto> next)
          \<and> prv h' = (prv h)(next \<mapsto> new, new \<mapsto> prev)
          \<and> (\<forall>a. a \<notin> {new, prev, next} \<longrightarrow> h' a = h a)
          \<and> dom h' = dom h"
proof -
  from assms(1-3) obtain a b c where "h new = Some a" "h prev = Some b" "h next = Some c"
    by auto
  with assms(4,5) show ?thesis
    by (intro exI[of _ "(h(next \<mapsto> c\<lparr>lh_prev := new\<rparr>))(prev \<mapsto> (if prev = next then c\<lparr>lh_prev := new\<rparr> else b)\<lparr>lh_next := new\<rparr>,
              new \<mapsto> \<lparr>lh_next = next, lh_prev = prev\<rparr>)"])
       (auto simp: list_insert_def set_nxt_def set_prv_def fun_eq_iff nxt_def prv_def)
qed

lemma dlist_init:
  assumes "l \<in> dom h"
  shows "\<exists>h'. init_list_head h l = Some h'
          \<and> dlist h' l []
          \<and> dom h' = dom h
          \<and> (\<forall>a. a \<noteq> l \<longrightarrow> h' a = h a)"
proof -
  from assms obtain n where "h l = Some n" by auto
  then show ?thesis
    by (intro exI[of _ "h(l \<mapsto> \<lparr>lh_next = l, lh_prev = l\<rparr>)"])
       (auto simp: init_list_head_def set_nxt_def set_prv_def dlist_def nxt_def prv_def)
qed

lemma dseg_last_prv: "dseg h p xs q \<Longrightarrow> prv h q = Some (last (p # xs))"
  by (induction xs arbitrary: p) auto

lemma dlist_insert:
  assumes d: "dlist h head (as @ bs)" and new: "new \<in> dom h" "new \<notin> set (head # as @ bs)"
  defines "p \<equiv> last (head # as)" and "n \<equiv> hd (bs @ [head])"
  shows "\<exists>h'. list_insert h new p n = Some h'
          \<and> dlist h' head (as @ new # bs)
          \<and> dom h' = dom h
          \<and> (\<forall>a. a \<notin> insert new (set (head # as @ bs)) \<longrightarrow> h' a = h a)"
proof -
  have pin: "p \<in> set (head # as)" and nin: "n \<in> set (bs @ [head])"
    unfolding p_def n_def by (rule last_in_set, simp, rule hd_in_set, simp)
  have dom: "p \<in> dom h" "n \<in> dom h"
    using dlist_dom[OF d] pin nin by auto
  have ne: "new \<noteq> p" "new \<noteq> n"
    using new pin nin by auto
  obtain h' where ins: "list_insert h new p n = Some h'"
    and N: "nxt h' = (nxt h)(p \<mapsto> new, new \<mapsto> n)" and P: "prv h' = (prv h)(n \<mapsto> new, new \<mapsto> p)"
    and fr: "\<And>a. a \<notin> {new, p, n} \<Longrightarrow> h' a = h a" and dh: "dom h' = dom h"
    using list_insert_eval[OF new(1) dom ne] by metis
  have dist: "distinct (head # as @ bs)" and seg: "dseg h head (as @ bs) head"
    using d by (auto simp: dlist_def)
  have left: "dseg h' head as new"
  proof (cases as rule: rev_cases)
    case Nil
    then show ?thesis using new by (auto simp: N P p_def ne)
  next
    case (snoc cs c)
    then have pc: "p = c" by (simp add: p_def)
    have "dseg h head cs c"
      using seg by (simp add: snoc dseg_append)
    moreover have "dseg h' head cs c = dseg h head cs c"
      using dist new nin by (intro dseg_cong) (auto simp: N P snoc pc)
    ultimately show ?thesis
      using ne by (simp add: snoc dseg_append N P pc)
  qed
  have right: "dseg h' new bs head"
  proof (cases bs)
    case Nil
    then show ?thesis using new by (auto simp: N P n_def ne)
  next
    case (Cons b cs)
    then have nb: "n = b" by (simp add: n_def)
    have "dseg h b cs head"
      using seg by (simp add: Cons dseg_append)
    moreover have "dseg h' b cs head = dseg h b cs head"
      using dist new pin by (intro dseg_cong) (auto simp: N P Cons nb)
    ultimately show ?thesis
      using ne by (simp add: Cons N P nb)
  qed
  have "dlist h' head (as @ new # bs)"
    using dist new left right by (auto simp: dlist_def dseg_append)
  moreover have "h' a = h a" if "a \<notin> insert new (set (head # as @ bs))" for a
    using fr[of a] that pin nin by auto
  ultimately show ?thesis
    using ins dh by blast
qed

lemma dlist_add_tail:
  assumes "dlist h head xs" and "new \<in> dom h" and "new \<notin> set (head # xs)"
  shows "\<exists>h'. list_add_tail h new head = Some h'
          \<and> dlist h' head (xs @ [new])
          \<and> dom h' = dom h
          \<and> (\<forall>a. a \<notin> insert new (set (head # xs)) \<longrightarrow> h' a = h a)"
proof -
  have "prv h head = Some (last (head # xs))"
    using assms(1) by (auto simp: dlist_def dest: dseg_last_prv)
  then have "list_add_tail h new head = list_insert h new (last (head # xs)) head"
    by (simp add: list_add_tail_def)
  then show ?thesis
    using dlist_insert[of h head xs "[]" new] assms by auto
qed

lemma dlist_add_head:
  assumes "dlist h head xs" and "new \<in> dom h" and "new \<notin> set (head # xs)"
  shows "\<exists>h'. list_add_head h new head = Some h'
          \<and> dlist h' head (new # xs)
          \<and> dom h' = dom h
          \<and> (\<forall>a. a \<notin> insert new (set (head # xs)) \<longrightarrow> h' a = h a)"
proof -
  have "nxt h head = Some (hd (xs @ [head]))"
    using assms(1) by (cases xs) (auto simp: dlist_def)
  then have "list_add_head h new head = list_insert h new head (hd (xs @ [head]))"
    by (simp add: list_add_head_def)
  then show ?thesis
    using dlist_insert[of h head "[]" xs new] assms by auto
qed

lemma dlist_delete:
  assumes d: "dlist h head (as @ e # bs)"
  shows "\<exists>h'. list_delete_entry h e = Some h'
          \<and> dlist h' head (as @ bs)
          \<and> dom h' = dom h
          \<and> h' e = h e
          \<and> (\<forall>a. a \<notin> set (head # as @ bs) \<longrightarrow> h' a = h a)"
proof -
  define p where "p = last (head # as)"
  define n where "n = hd (bs @ [head])"
  have dist: "distinct (head # as @ e # bs)" and s1: "dseg h head as e" and s2: "dseg h e bs head"
    using d by (auto simp: dlist_def dseg_append)
  have pe: "prv h e = Some p"
    using dseg_last_prv[OF s1] by (simp add: p_def)
  have ne: "nxt h e = Some n"
    using s2 by (cases bs) (auto simp: n_def)
  have pin: "p \<in> set (head # as)" and nin: "n \<in> set (bs @ [head])"
    unfolding p_def n_def by (rule last_in_set, simp, rule hd_in_set, simp)
  have neq: "e \<noteq> p" "e \<noteq> n"
    using dist pin nin by auto
  obtain a b where ab: "h p = Some a" "h n = Some b"
    using dlist_dom[OF d] pin nin by (force simp: subset_iff dom_def)
  define h1 where "h1 = h(n \<mapsto> b\<lparr>lh_prev := p\<rparr>)"
  define a' where "a' = (if p = n then b\<lparr>lh_prev := p\<rparr> else a)"
  define h' where "h' = h1(p \<mapsto> a'\<lparr>lh_next := n\<rparr>)"
  have del: "list_delete_entry h e = Some h'"
    using pe ne ab neq by (auto simp: list_delete_entry_def set_prv_def set_nxt_def h1_def h'_def a'_def)
  have N: "nxt h' = (nxt h)(p \<mapsto> n)" and P: "prv h' = (prv h)(n \<mapsto> p)"
    using ab by (auto simp: fun_eq_iff h'_def h1_def a'_def nxt_def prv_def)
  have fr: "h' x = h x" if "x \<noteq> p" "x \<noteq> n" for x
    using that by (simp add: h'_def h1_def)
  have "dseg h' head (as @ bs) head"
  proof (cases bs)
    case Nil
    then have nh: "n = head" by (simp add: n_def)
    show ?thesis
    proof (cases as rule: rev_cases)
      case Nil
      then show ?thesis by (simp add: \<open>bs = []\<close> N P p_def nh)
    next
      case (snoc cs c)
      have "dseg h' head cs c = dseg h head cs c"
        using dist by (intro dseg_cong) (auto simp: N P snoc p_def nh)
      then show ?thesis
        using s1 by (auto simp: \<open>bs = []\<close> snoc dseg_append N P p_def nh)
    qed
  next
    case (Cons b0 cs)
    then have nb: "n = b0" by (simp add: n_def)
    have "dseg h' b0 cs head = dseg h b0 cs head"
      using dist pin by (intro dseg_cong) (auto simp: N P Cons nb)
    moreover have "dseg h' head as b0"
    proof (cases as rule: rev_cases)
      case Nil
      then show ?thesis by (simp add: N P p_def nb)
    next
      case (snoc ds c)
      have "dseg h' head ds c = dseg h head ds c"
        using dist by (intro dseg_cong) (auto simp: N P snoc p_def nb Cons)
      then show ?thesis
        using s1 by (auto simp: snoc dseg_append N P p_def nb)
    qed
    ultimately show ?thesis
      using s2 by (simp add: Cons dseg_append)
  qed
  then have "dlist h' head (as @ bs)"
    using dist by (auto simp: dlist_def)
  moreover have "dom h' = dom h"
    using ab by (auto simp: h'_def h1_def)
  moreover have "h' a = h a" if "a \<notin> set (head # as @ bs)" for a
    using fr[of a] that pin nin by auto
  ultimately show ?thesis
    using del fr[OF neq] by blast
qed

lemma dlist_empty: "dlist h head xs \<Longrightarrow> list_empty h head = Some (xs = [])"
  by (cases xs) (auto simp: dlist_def list_empty_def)

section \<open>Iteration\<close>

text \<open>A loop over the entries whose body changes only the rest of the state is a fold over
  the represented sequence.\<close>

lemma for_each_from_fold:
  assumes "dseg h p xs head" and "head \<notin> set xs"
  shows "for_each_from head (\<lambda>a (h, s). map_option (Pair h) (f a s)) (hd (xs @ [head])) (h, s)
           = map_option (Pair h) (fold_opt f xs s)"
  using assms
proof (induction xs arbitrary: p s)
  case Nil
  then show ?case by (simp add: for_each_from.simps)
next
  case (Cons x xs)
  then have "nxt h x = Some (hd (xs @ [head]))"
    by (cases xs) auto
  with Cons show ?case
    by (cases "f x s") (auto simp: for_each_from.simps[of head _ x])
qed

lemma for_each_entry_fold:
  assumes "dlist h head xs"
  shows "list_for_each_entry head (\<lambda>a (h, s). map_option (Pair h) (f a s)) (h, s)
           = map_option (Pair h) (fold_opt f xs s)"
proof -
  have "nxt h head = Some (hd (xs @ [head]))"
    using assms by (cases xs) (auto simp: dlist_def)
  moreover have "dseg h head xs head" "head \<notin> set xs"
    using assms by (auto simp: dlist_def)
  ultimately show ?thesis
    by (simp add: list_for_each_entry_def for_each_from_fold)
qed

text \<open>The pattern of every clean-up loop of the program: entries that satisfy \<open>P\<close> are
  unlinked while the list is being walked.\<close>

definition unlink_if ::
  "('p \<Rightarrow> bool) \<Rightarrow> ('p \<Rightarrow> 's \<Rightarrow> 's) \<Rightarrow> 'p \<Rightarrow> 'p lheap \<times> 's \<Rightarrow> ('p lheap \<times> 's) option" where
  "unlink_if P f a st =
     (if P a then map_option (\<lambda>h. (h, f a (snd st))) (list_delete_entry (fst st) a)
      else Some (fst st, f a (snd st)))"

lemma dlist_nxt_mid: "dlist h head (as @ x # xs) \<Longrightarrow> nxt h x = Some (hd (xs @ [head]))"
  by (cases xs) (auto simp: dlist_def dseg_append)

lemma dlist_nxt_head: "dlist h head xs \<Longrightarrow> nxt h head = Some (hd (xs @ [head]))"
  by (cases xs) (auto simp: dlist_def)

lemma unlink_step:
  assumes "dlist h head (as @ x # xs)"
  shows "\<exists>h'. unlink_if P f x (h, s) = Some (h', f x s)
          \<and> dlist h' head ((if P x then as else as @ [x]) @ xs)
          \<and> dom h' = dom h
          \<and> (\<forall>a. a \<notin> set (head # as @ xs) \<longrightarrow> h' a = h a)"
proof (cases "P x")
  case True
  obtain h' where "list_delete_entry h x = Some h'" "dlist h' head (as @ xs)" "dom h' = dom h"
    and fr: "\<And>a. a \<notin> set (head # as @ xs) \<Longrightarrow> h' a = h a"
    using dlist_delete[OF assms] by blast
  with True show ?thesis by (auto simp: unlink_if_def)
next
  case False
  with assms show ?thesis by (auto simp: unlink_if_def)
qed

lemma for_each_safe_unlink:
  assumes "dlist h head (as @ xs)" and "nxt h (hd (xs @ [head])) = Some q"
  shows "\<exists>h'. for_each_safe_from head (unlink_if P f) (hd (xs @ [head])) q (h, s)
                = Some (h', fold f xs s)
          \<and> dlist h' head (as @ filter (\<lambda>a. \<not> P a) xs) \<and> dom h' = dom h
          \<and> (\<forall>a. a \<notin> set (head # as @ xs) \<longrightarrow> h' a = h a)"
  using assms
proof (induction xs arbitrary: h as s q)
  case Nil
  then show ?case by (simp add: for_each_safe_from.simps)
next
  case (Cons x xs)
  have q: "q = hd (xs @ [head])"
    using dlist_nxt_mid[OF Cons.prems(1)] Cons.prems(2) by simp
  have neq: "x \<noteq> head" using Cons.prems(1) by (auto simp: dlist_def)
  let ?as = "if P x then as else as @ [x]"
  obtain h1 where b: "unlink_if P f x (h, s) = Some (h1, f x s)" and d1: "dlist h1 head (?as @ xs)"
    and dom1: "dom h1 = dom h" and fr1: "\<forall>a. a \<notin> set (head # as @ xs) \<longrightarrow> h1 a = h a"
    using unlink_step[OF Cons.prems(1), of P f s] by blast
  obtain q' where q': "nxt h1 (hd (xs @ [head])) = Some q'"
    using d1 dlist_nxt_head[OF d1] by (cases xs) (auto dest: dlist_nxt_mid)
  from Cons.IH[OF d1 q', of "f x s"] obtain h' where
    "for_each_safe_from head (unlink_if P f) (hd (xs @ [head])) q' (h1, f x s)
       = Some (h', fold f xs (f x s))"
    and "dlist h' head (?as @ filter (\<lambda>a. \<not> P a) xs)" and "dom h' = dom h1"
    and fr: "\<forall>a. a \<notin> set (head # ?as @ xs) \<longrightarrow> h' a = h1 a"
    by blast
  moreover have "for_each_safe_from head (unlink_if P f) x q (h, s)
      = for_each_safe_from head (unlink_if P f) (hd (xs @ [head])) q' (h1, f x s)"
    using neq b q q' by (simp add: for_each_safe_from.simps[of head _ x])
  ultimately show ?case
    using dom1 fr1 fr by (intro exI[of _ h']) (auto split: if_splits)
qed

lemma list_for_each_entry_safe_unlink:
  assumes "dlist h head xs"
  shows "\<exists>h'. list_for_each_entry_safe head (unlink_if P f) (h, s) = Some (h', fold f xs s)
          \<and> dlist h' head (filter (\<lambda>a. \<not> P a) xs)
          \<and> dom h' = dom h
          \<and> (\<forall>a. a \<notin> set (head # xs) \<longrightarrow> h' a = h a)"
proof -
  obtain q where q: "nxt h (hd (xs @ [head])) = Some q"
    using assms dlist_nxt_head[OF assms] dlist_nxt_mid[of h head "[]"] by (cases xs) auto
  then show ?thesis
    using for_each_safe_unlink[of h head "[]" xs q P f s] assms dlist_nxt_head[OF assms]
    by (auto simp: list_for_each_entry_safe_def)
qed

text \<open>A rule for the safe loop with a body that may unlink the current entry and change the state: \<open>J\<close>
  relates the entries already passed and kept, those still to come, the heap and the state.\<close>

lemma for_each_safe_from_rule:
  assumes J: "J as xs h s" and q: "nxt h (hd (xs @ [head])) = Some q"
    and rep: "\<And>as xs h s. J as xs h s \<Longrightarrow> dlist h head (as @ xs)"
    and body: "\<And>as x xs h s. J as (x # xs) h s \<Longrightarrow>
        \<exists>h' s' d. body x (h, s) = Some (h', s') \<and> J (if d then as else as @ [x]) xs h' s'"
  shows "\<exists>ks h' s'. for_each_safe_from head body (hd (xs @ [head])) q (h, s) = Some (h', s') \<and> J ks [] h' s'"
  using J q
proof (induction xs arbitrary: as h s q)
  case Nil
  then show ?case by (auto simp: for_each_safe_from.simps)
next
  case (Cons x xs)
  note dl = rep [OF Cons.prems(1)]
  have q: "q = hd (xs @ [head])"
    using dlist_nxt_mid [OF dl] Cons.prems(2) by simp
  have neq: "x \<noteq> head" using dl by (auto simp: dlist_def)
  obtain h1 s1 d where b: "body x (h, s) = Some (h1, s1)" and J1: "J (if d then as else as @ [x]) xs h1 s1"
    using body [OF Cons.prems(1)] by blast
  note dl1 = rep [OF J1]
  obtain q' where q': "nxt h1 (hd (xs @ [head])) = Some q'"
    using dl1 dlist_nxt_head [OF dl1] by (cases xs) (auto dest: dlist_nxt_mid)
  from Cons.IH [OF J1 q'] b q q' neq show ?case
    by (simp add: for_each_safe_from.simps [of head _ x])
qed

lemma list_for_each_entry_safe_rule:
  assumes J: "J [] xs h s"
    and rep: "\<And>as xs h s. J as xs h s \<Longrightarrow> dlist h head (as @ xs)"
    and body: "\<And>as x xs h s. J as (x # xs) h s \<Longrightarrow>
        \<exists>h' s' d. body x (h, s) = Some (h', s') \<and> J (if d then as else as @ [x]) xs h' s'"
  shows "\<exists>ks h' s'. list_for_each_entry_safe head body (h, s) = Some (h', s') \<and> J ks [] h' s'"
proof -
  have dl: "dlist h head xs" using rep [OF J] by simp
  obtain q where q: "nxt h (hd (xs @ [head])) = Some q"
    using dl dlist_nxt_head [OF dl] dlist_nxt_mid [of h head "[]"] by (cases xs) auto
  have "\<exists>ks h' s'. for_each_safe_from head body (hd (xs @ [head])) q (h, s) = Some (h', s') \<and> J ks [] h' s'"
    by (rule for_each_safe_from_rule [where J = J and as = "[]"]) (use J q rep body in blast)+
  then show ?thesis
    using q dlist_nxt_head [OF dl] by (simp add: list_for_each_entry_safe_def)
qed

text \<open>The searches find the first matching entry of the represented sequence.\<close>

lemma find_from_dlist:
  assumes "dlist h head (as @ xs)" and "\<And>x. x \<in> set xs \<Longrightarrow> test x = Some (P x)"
  shows "find_from h head test (hd (xs @ [head])) = Some (find P xs)"
  using assms
proof (induction xs arbitrary: as)
  case Nil
  then show ?case by (simp add: find_from.simps)
next
  case (Cons x xs)
  have "x \<noteq> head" using Cons.prems(1) by (auto simp: dlist_def)
  with Cons.IH [of "as @ [x]"] Cons.prems show ?case
    by (simp add: find_from.simps [of h head test x] dlist_nxt_mid [OF Cons.prems(1)])
qed

lemma find_safe_from_dlist:
  assumes "dlist h head (as @ xs)" and "\<And>x. x \<in> set xs \<Longrightarrow> test x = Some (P x)"
    and "nxt h (hd (xs @ [head])) = Some q"
  shows "find_safe_from h head test (hd (xs @ [head])) q = Some (find P xs)"
  using assms
proof (induction xs arbitrary: as q)
  case Nil
  then show ?case by (simp add: find_safe_from.simps)
next
  case (Cons x xs)
  have "x \<noteq> head" using Cons.prems(1) by (auto simp: dlist_def)
  have q: "q = hd (xs @ [head])" using Cons.prems(3) dlist_nxt_mid [OF Cons.prems(1)] by simp
  obtain q' where q': "nxt h (hd (xs @ [head])) = Some q'"
    using dlist_nxt_head [OF Cons.prems(1)] Cons.prems(1) dlist_nxt_mid [of h head "as @ [x]" "hd xs" "tl xs"]
    by (cases xs) auto
  from Cons.IH [of "as @ [x]" q'] Cons.prems q' \<open>x \<noteq> head\<close> show ?case
    by (simp add: find_safe_from.simps [of h head test x] q)
qed

lemma list_find_entry_dlist:
  assumes "dlist h head xs" and "\<And>x. x \<in> set xs \<Longrightarrow> test x = Some (P x)"
  shows "list_find_entry h head test = Some (find P xs)"
    and "list_find_entry_safe h head test = Some (find P xs)"
proof -
  show "list_find_entry h head test = Some (find P xs)"
    using find_from_dlist [of h head "[]" xs test P] assms dlist_nxt_head [OF assms(1)]
    by (simp add: list_find_entry_def)
  obtain q where q: "nxt h (hd (xs @ [head])) = Some q"
    using assms(1) dlist_nxt_head [OF assms(1)] dlist_nxt_mid [of h head "[]"] by (cases xs) auto
  then show "list_find_entry_safe h head test = Some (find P xs)"
    using find_safe_from_dlist [of h head "[]" xs test P q] assms dlist_nxt_head [OF assms(1)]
    by (simp add: list_find_entry_safe_def)
qed

section \<open>Families of lists\<close>

text \<open>Two lists with different heads share no node.\<close>

lemma dseg_unique:
  assumes "dseg h x us a" "dseg h x vs b" "a \<notin> set vs" "b \<notin> set us"
  shows "us = vs \<and> a = b"
  using assms
proof (induction us arbitrary: x vs)
  case Nil
  then show ?case by (cases vs) auto
next
  case (Cons u us)
  then show ?case by (cases vs) auto
qed

lemma dlist_disjoint:
  assumes "dlist h a xs" "dlist h b ys" "a \<noteq> b" "a \<notin> set ys" "b \<notin> set xs"
  shows "set (a # xs) \<inter> set (b # ys) = {}"
proof -
  have "x \<notin> set ys" if "x \<in> set xs" for x
  proof
    assume "x \<in> set ys"
    with that obtain x1 x2 y1 y2 where "xs = x1 @ x # x2" "ys = y1 @ x # y2"
      by (meson split_list)
    with assms dseg_unique [of h x x2 a y2 b] show False
      by (auto simp: dlist_def dseg_append)
  qed
  with assms show ?thesis by auto
qed

text \<open>A heap that holds many lists at once, as the sockets do: \<open>L\<close> gives the sequence of each list head.
  Every operation on one list is then an update of \<open>L\<close>.\<close>

definition lrep :: "'p lheap \<Rightarrow> ('p \<Rightarrow> 'p list option) \<Rightarrow> bool" where
  "lrep h L \<longleftrightarrow> (\<forall>a xs. L a = Some xs \<longrightarrow> dlist h a xs \<and> (\<forall>x \<in> set xs. L x = None))"

definition linked :: "('p \<Rightarrow> 'p list option) \<Rightarrow> 'p \<Rightarrow> bool" where
  "linked L n \<longleftrightarrow> L n \<noteq> None \<or> (\<exists>a xs. L a = Some xs \<and> n \<in> set xs)"

lemma lrep_dlist: "lrep h L \<Longrightarrow> L a = Some xs \<Longrightarrow> dlist h a xs"
  by (auto simp: lrep_def)

lemma lrep_head_free: "lrep h L \<Longrightarrow> L a = Some xs \<Longrightarrow> L b = Some ys \<Longrightarrow> a \<notin> set ys"
  by (fastforce simp: lrep_def)

lemma lrep_linked_dom: "lrep h L \<Longrightarrow> linked L n \<Longrightarrow> n \<in> dom h"
  using dlist_dom by (fastforce simp: lrep_def linked_def)

text \<open>The successor of a node of some list is again such a node.\<close>

lemma dseg_next: "dseg h a xs b \<Longrightarrow> n \<in> set (a # xs) \<Longrightarrow> \<exists>m \<in> insert b (set xs). nxt h n = Some m"
  by (induction xs arbitrary: a) auto

lemma lrep_linked_next:
  assumes "lrep h L" "linked L n"
  shows "\<exists>m. nxt h n = Some m \<and> linked L m"
proof -
  obtain a xs where a: "L a = Some xs" "n \<in> set (a # xs)"
    using assms(2) by (auto simp: linked_def)
  then obtain m where "m \<in> insert a (set xs)" "nxt h n = Some m"
    using lrep_dlist [OF assms(1) a(1)] dseg_next [of h a xs a n] by (auto simp: dlist_def)
  then show ?thesis using a(1) by (auto simp: linked_def)
qed

text \<open>A change confined to one list keeps the others.\<close>

lemma lrep_update:
  assumes rep: "lrep h L" and a: "L a = Some xs" and new: "dlist h' a ys"
    and fr: "\<And>c. c \<notin> set (a # xs) \<Longrightarrow> c \<notin> N \<Longrightarrow> h' c = h c"
    and N: "\<And>n. n \<in> N \<Longrightarrow> \<not> linked L n" and ys: "set ys \<subseteq> set xs \<union> N"
  shows "lrep h' (L(a \<mapsto> ys))"
  unfolding lrep_def
proof (intro allI impI)
  fix b zs assume b: "(L(a \<mapsto> ys)) b = Some zs"
  have ysN: "\<forall>x \<in> set ys. L x = None \<and> x \<noteq> a"
    using rep a N ys by (fastforce simp: lrep_def linked_def)
  show "dlist h' b zs \<and> (\<forall>x \<in> set zs. (L(a \<mapsto> ys)) x = None)"
  proof (cases "b = a")
    case True
    then show ?thesis using b new ysN by auto
  next
    case False
    then have Lb: "L b = Some zs" using b by simp
    have free: "a \<notin> set zs" "b \<notin> set xs"
      using lrep_head_free [OF rep a Lb] lrep_head_free [OF rep Lb a] by simp_all
    have "set (a # xs) \<inter> set (b # zs) = {}"
      using dlist_disjoint [OF lrep_dlist [OF rep a] lrep_dlist [OF rep Lb]] False free by auto
    moreover have "set (b # zs) \<inter> N = {}"
      using N Lb by (auto simp: linked_def)
    ultimately have "dlist h' b zs"
      using fr by (intro dlist_frame [OF lrep_dlist [OF rep Lb]]) blast
    then show ?thesis
      using rep Lb free(1) by (auto simp: lrep_def)
  qed
qed

lemma lrep_add_head:
  assumes "lrep h L" "L a = Some xs" "n \<in> dom h" "\<not> linked L n"
  shows "\<exists>h'. list_add_head h n a = Some h' \<and> lrep h' (L(a \<mapsto> n # xs)) \<and> dom h' = dom h
     \<and> (\<forall>c. c \<noteq> n \<longrightarrow> \<not> linked L c \<longrightarrow> h' c = h c)"
proof -
  have "n \<notin> set (a # xs)" using assms(2,4) by (auto simp: linked_def)
  then obtain h' where "list_add_head h n a = Some h'" "dlist h' a (n # xs)" "dom h' = dom h"
    "\<forall>c. c \<notin> insert n (set (a # xs)) \<longrightarrow> h' c = h c"
    using dlist_add_head [OF lrep_dlist [OF assms(1,2)] assms(3)] by blast
  then show ?thesis
    using lrep_update [OF assms(1,2), of h' "n # xs" "{n}"] assms(2,4) by (auto simp: linked_def)
qed

lemma lrep_add_tail:
  assumes "lrep h L" "L a = Some xs" "n \<in> dom h" "\<not> linked L n"
  shows "\<exists>h'. list_add_tail h n a = Some h' \<and> lrep h' (L(a \<mapsto> xs @ [n])) \<and> dom h' = dom h
     \<and> (\<forall>c. c \<noteq> n \<longrightarrow> \<not> linked L c \<longrightarrow> h' c = h c)"
proof -
  have "n \<notin> set (a # xs)" using assms(2,4) by (auto simp: linked_def)
  then obtain h' where "list_add_tail h n a = Some h'" "dlist h' a (xs @ [n])" "dom h' = dom h"
    "\<forall>c. c \<notin> insert n (set (a # xs)) \<longrightarrow> h' c = h c"
    using dlist_add_tail [OF lrep_dlist [OF assms(1,2)] assms(3)] by blast
  then show ?thesis
    using lrep_update [OF assms(1,2), of h' "xs @ [n]" "{n}"] assms(2,4) by (auto simp: linked_def)
qed

lemma lrep_delete:
  assumes "lrep h L" "L a = Some (as @ n # bs)"
  shows "\<exists>h'. list_delete_entry h n = Some h' \<and> lrep h' (L(a \<mapsto> as @ bs)) \<and> dom h' = dom h \<and> h' n = h n"
proof -
  obtain h' where "list_delete_entry h n = Some h'" "dlist h' a (as @ bs)" "dom h' = dom h" "h' n = h n"
    "\<forall>c. c \<notin> set (a # as @ bs) \<longrightarrow> h' c = h c"
    using dlist_delete [OF lrep_dlist [OF assms]] by blast
  then show ?thesis
    using lrep_update [OF assms, of h' "as @ bs" "{}"] by auto
qed

lemma lrep_deleted_unlinked:
  assumes "lrep h L" "L a = Some (as @ n # bs)"
  shows "\<not> linked (L(a \<mapsto> as @ bs)) n"
proof
  assume "linked (L(a \<mapsto> as @ bs)) n"
  moreover have n: "n \<noteq> a" "L n = None" "n \<notin> set (as @ bs)"
  proof -
    show "n \<noteq> a" "n \<notin> set (as @ bs)" using lrep_dlist [OF assms] by (auto simp: dlist_def)
    have "\<forall>x \<in> set (as @ n # bs). L x = None" using assms unfolding lrep_def by blast
    then show "L n = None" by simp
  qed
  ultimately obtain b xs where b: "b \<noteq> a" "L b = Some xs" "n \<in> set xs"
    by (auto simp: linked_def split: if_splits)
  then show False
    using dlist_disjoint [OF lrep_dlist [OF assms] lrep_dlist [OF assms(1) b(2)]]
      lrep_head_free [OF assms(1) b(2) assms(2)] lrep_head_free [OF assms(1) assms(2) b(2)] by auto
qed

lemma lrep_init:
  assumes "lrep h L" "a \<in> dom h" "\<not> linked L a"
  shows "\<exists>h'. init_list_head h a = Some h' \<and> lrep h' (L(a \<mapsto> [])) \<and> dom h' = dom h
     \<and> (\<forall>c. c \<noteq> a \<longrightarrow> h' c = h c)"
proof -
  obtain h' where h': "init_list_head h a = Some h'" "dlist h' a []" "dom h' = dom h" "\<forall>c. c \<noteq> a \<longrightarrow> h' c = h c"
    using dlist_init [OF assms(2)] by blast
  have "dlist h' b xs \<and> (\<forall>x \<in> set xs. (L(a \<mapsto> [])) x = None)" if b: "L b = Some xs" "b \<noteq> a" for b xs
  proof -
    have "a \<notin> set xs" using assms(3) b by (auto simp: linked_def)
    then have "dlist h' b xs"
      using h'(4) b(2) by (intro dlist_frame [OF lrep_dlist [OF assms(1) b(1)]]) auto
    then show ?thesis using assms(1) b(1) \<open>a \<notin> set xs\<close> by (auto simp: lrep_def)
  qed
  with h' show ?thesis by (auto simp: lrep_def split: if_splits)
qed

lemma lrep_forget: "lrep h L \<Longrightarrow> lrep h (L(a := None))"
  by (auto simp: lrep_def)

lemma lrep_frame:
  assumes "lrep h L" "\<And>n. linked L n \<Longrightarrow> h' n = h n"
  shows "lrep h' L"
  unfolding lrep_def
proof (intro allI impI)
  fix a xs assume a: "L a = Some xs"
  have "dlist h' a xs"
    using a assms(2) by (intro dlist_frame [OF lrep_dlist [OF assms(1) a]]) (auto simp: linked_def)
  with a assms(1) show "dlist h' a xs \<and> (\<forall>x \<in> set xs. L x = None)" by (auto simp: lrep_def)
qed

section \<open>The contract\<close>

text \<open>
  What the components use of a list: \<open>rep h l xs\<close> (the list headed by \<open>l\<close> holds \<open>xs\<close>),
  \<open>live h p\<close> (\<open>p\<close> is allocated) and the operations. No operation frees a node, so \<open>live\<close>
  is unchanged.
\<close>

locale clist_ops =
  fixes rep :: "'h \<Rightarrow> 'p \<Rightarrow> 'p list \<Rightarrow> bool"
    and live :: "'h \<Rightarrow> 'p set"
    and init :: "'h \<Rightarrow> 'p \<Rightarrow> 'h option"
    and add_head :: "'h \<Rightarrow> 'p \<Rightarrow> 'p \<Rightarrow> 'h option"
    and add_tail :: "'h \<Rightarrow> 'p \<Rightarrow> 'p \<Rightarrow> 'h option"
    and del :: "'h \<Rightarrow> 'p \<Rightarrow> 'h option"
    and emp :: "'h \<Rightarrow> 'p \<Rightarrow> bool option"
  assumes init: "l \<in> live h \<Longrightarrow> \<exists>h'. init h l = Some h' \<and> rep h' l [] \<and> live h' = live h"
    and add_head: "rep h l xs \<Longrightarrow> n \<in> live h \<Longrightarrow> n \<notin> set (l # xs) \<Longrightarrow>
          \<exists>h'. add_head h n l = Some h' \<and> rep h' l (n # xs) \<and> live h' = live h"
    and add_tail: "rep h l xs \<Longrightarrow> n \<in> live h \<Longrightarrow> n \<notin> set (l # xs) \<Longrightarrow>
          \<exists>h'. add_tail h n l = Some h' \<and> rep h' l (xs @ [n]) \<and> live h' = live h"
    and del: "rep h l (as @ n # bs) \<Longrightarrow>
          \<exists>h'. del h n = Some h' \<and> rep h' l (as @ bs) \<and> live h' = live h"
    and emp: "rep h l xs \<Longrightarrow> emp h l = Some (xs = [])"
begin

lemma add_tail_all:
  assumes "rep h l xs" and "set ns \<subseteq> live h" and "distinct (l # xs @ ns)"
  shows "\<exists>h'. fold_opt (\<lambda>n h. add_tail h n l) ns h = Some h' \<and> rep h' l (xs @ ns) \<and> live h' = live h"
  using assms
proof (induction ns arbitrary: h xs)
  case (Cons n ns)
  then obtain h1 where "add_tail h n l = Some h1" "rep h1 l (xs @ [n])" "live h1 = live h"
    using add_tail[of h l xs n] by auto
  with Cons.IH[of h1 "xs @ [n]"] Cons.prems show ?case by auto
qed simp

text \<open>Entries added at the tail leave from the head in the order they came.\<close>

lemma fifo:
  assumes "rep h l xs" and "xs \<noteq> []" and "n \<in> live h" and "n \<notin> set (l # xs)"
  shows "\<exists>h1 h2. add_tail h n l = Some h1 \<and> del h1 (hd xs) = Some h2 \<and> rep h2 l (tl xs @ [n])"
proof -
  obtain h1 where h1: "add_tail h n l = Some h1" "rep h1 l (xs @ [n])"
    using add_tail[OF assms(1,3,4)] by blast
  then have "rep h1 l ([] @ hd xs # (tl xs @ [n]))"
    using assms(2) by (metis append_Cons append_Nil list.collapse)
  from del[OF this] h1 show ?thesis by auto
qed

text \<open>Unlinking the first entry until the list is empty, the loop of every destructor.\<close>

lemma drain:
  assumes "rep h l xs"
  shows "\<exists>h'. fold_opt (\<lambda>n h. del h n) xs h = Some h' \<and> rep h' l [] \<and> emp h' l = Some True"
  using assms
proof (induction xs arbitrary: h)
  case Nil
  then show ?case using emp by simp
next
  case (Cons x xs)
  then obtain h1 where "del h x = Some h1" "rep h1 l xs"
    using del[of h l "[]" x xs] by auto
  with Cons.IH show ?case by simp
qed

end

interpretation clist: clist_ops dlist dom init_list_head list_add_head list_add_tail
    list_delete_entry list_empty
proof
  fix h :: "'p lheap" and l n :: 'p and xs as bs
  show "l \<in> dom h \<Longrightarrow> \<exists>h'. init_list_head h l = Some h' \<and> dlist h' l [] \<and> dom h' = dom h"
    using dlist_init[of l h] by blast
  show "dlist h l xs \<Longrightarrow> n \<in> dom h \<Longrightarrow> n \<notin> set (l # xs) \<Longrightarrow>
      \<exists>h'. list_add_head h n l = Some h' \<and> dlist h' l (n # xs) \<and> dom h' = dom h"
    using dlist_add_head[of h l xs n] by blast
  show "dlist h l xs \<Longrightarrow> n \<in> dom h \<Longrightarrow> n \<notin> set (l # xs) \<Longrightarrow>
      \<exists>h'. list_add_tail h n l = Some h' \<and> dlist h' l (xs @ [n]) \<and> dom h' = dom h"
    using dlist_add_tail[of h l xs n] by blast
  show "dlist h l (as @ n # bs) \<Longrightarrow>
      \<exists>h'. list_delete_entry h n = Some h' \<and> dlist h' l (as @ bs) \<and> dom h' = dom h"
    using dlist_delete[of h l as n bs] by blast
  show "dlist h l xs \<Longrightarrow> list_empty h l = Some (xs = [])"
    by (rule dlist_empty)
qed

end
