(* ===== verification/RingBuffer.thy ===== *)
theory RingBuffer
  imports Prelude
begin

text \<open>
  The receive buffer of a TCP socket (\<^verbatim>\<open>include/ring_buffer.h\<close>): a circular byte array
  with a read index \<^verbatim>\<open>head\<close> and a write index \<^verbatim>\<open>tail\<close>. Indices and sizes are C \<^verbatim>\<open>int\<close>s; with
  the sizes the program uses (at most 65535) no expression below leaves the range of
  \<^verbatim>\<open>int\<close>. The array has \<^verbatim>\<open>size + 1\<close> bytes. The mutex \<^verbatim>\<open>rw_lock\<close> is taken around every call, so
  each operation is one step. A failed \<^verbatim>\<open>assert\<close> and an access outside the array are
  crashes (\<open>None\<close>).
\<close>

record ring_buffer =
  rb_size :: int
  rb_head :: int
  rb_tail :: int
  rb_buf :: bytes

text \<open>C's remainder truncates towards zero; \<^verbatim>\<open>% 0\<close> is a crash.\<close>

definition c_rem :: "int \<Rightarrow> int \<Rightarrow> int option" where
  "c_rem a b = (if b = 0 then None else Some (sgn a * (\<bar>a\<bar> mod \<bar>b\<bar>)))"

definition alloc_ring_buffer :: "int \<Rightarrow> ring_buffer option" where
  "alloc_ring_buffer sz =
     (if sz < 0 then None
      else Some \<lparr>rb_size = sz, rb_head = 0, rb_tail = 0, rb_buf = replicate (nat sz + 1) 0\<rparr>)"

definition ring_buffer_used :: "ring_buffer \<Rightarrow> int option" where
  "ring_buffer_used rb = c_rem (rb_tail rb - rb_head rb + rb_size rb) (rb_size rb)"

definition ring_buffer_free :: "ring_buffer \<Rightarrow> int option" where
  "ring_buffer_free rb = map_option (\<lambda>u. rb_size rb - u - 1) (ring_buffer_used rb)"

definition ring_buffer_empty :: "ring_buffer \<Rightarrow> bool option" where
  "ring_buffer_empty rb = map_option (\<lambda>u. u = 0) (ring_buffer_used rb)"

definition ring_buffer_full :: "ring_buffer \<Rightarrow> bool option" where
  "ring_buffer_full rb = map_option (\<lambda>f. f = 0) (ring_buffer_free rb)"

text \<open>An index into the array; a negative one is in front of it.\<close>

definition rb_load :: "ring_buffer \<Rightarrow> int \<Rightarrow> int \<Rightarrow> bytes option" where
  "rb_load rb i n = (if i < 0 \<or> n < 0 then None else load_bytes (rb_buf rb) (nat i) (nat n))"

definition rb_store :: "ring_buffer \<Rightarrow> int \<Rightarrow> bytes \<Rightarrow> ring_buffer option" where
  "rb_store rb i vs =
     (if i < 0 then None
      else map_option (\<lambda>b. rb\<lparr>rb_buf := b\<rparr>) (store_bytes (rb_buf rb) (nat i) vs))"

text \<open>\<^verbatim>\<open>read_ring_buffer\<close> returns the bytes it copies to the caller's buffer; their number is
  the C function's return value (0 when \<^verbatim>\<open>len\<close> is not positive and nothing is copied).\<close>

definition read_ring_buffer :: "ring_buffer \<Rightarrow> int \<Rightarrow> (int \<times> bytes \<times> ring_buffer) option" where
  "read_ring_buffer rb sz = do {
     used \<leftarrow> ring_buffer_used rb;
     let len = (if used < sz then used else sz);
     if len > 0 then do {
       out \<leftarrow> (if rb_head rb + len > rb_size rb then do {
                 let right = rb_size rb - rb_head rb;
                 let left = len - right;
                 a \<leftarrow> rb_load rb (rb_head rb) right;
                 b \<leftarrow> rb_load rb 0 left;
                 Some (a @ b) }
               else rb_load rb (rb_head rb) len);
       h \<leftarrow> c_rem (rb_head rb + len) (rb_size rb);
       Some (len, out, rb\<lparr>rb_head := h\<rparr>) }
     else Some (len, [], rb) }"

text \<open>\<^verbatim>\<open>write_ring_buffer\<close> with the \<^verbatim>\<open>size\<close> bytes at \<^verbatim>\<open>buf\<close> as the list \<open>data\<close>.\<close>

definition write_ring_buffer :: "ring_buffer \<Rightarrow> bytes \<Rightarrow> ring_buffer option" where
  "write_ring_buffer rb data = do {
     free \<leftarrow> ring_buffer_free rb;
     let sz = int (length data);
     ensure (sz > 0 \<and> free \<ge> sz);
     let len = sz;
     rb' \<leftarrow> (if rb_tail rb + len > rb_size rb then do {
               let right = rb_size rb - rb_tail rb;
               ensure (right \<ge> 0);
               rb1 \<leftarrow> rb_store rb (rb_tail rb) (take (nat right) data);
               rb_store rb1 0 (drop (nat right) data) }
             else rb_store rb (rb_tail rb) data);
     t \<leftarrow> c_rem (rb_tail rb + len) (rb_size rb);
     Some (rb'\<lparr>rb_tail := t\<rparr>) }"

section \<open>Invariant and abstraction\<close>

definition rb_inv :: "ring_buffer \<Rightarrow> bool" where
  "rb_inv rb \<longleftrightarrow> 0 < rb_size rb \<and> 0 \<le> rb_head rb \<and> rb_head rb < rb_size rb
     \<and> 0 \<le> rb_tail rb \<and> rb_tail rb < rb_size rb \<and> length (rb_buf rb) = nat (rb_size rb) + 1"

text \<open>The unread bytes, oldest first.\<close>

definition rb_data :: "ring_buffer \<Rightarrow> bytes" where
  "rb_data rb =
     map (\<lambda>k. rb_buf rb ! ((nat (rb_head rb) + k) mod nat (rb_size rb)))
       [0..<nat ((rb_tail rb - rb_head rb) mod rb_size rb)]"

lemma c_rem_nonneg: "0 \<le> a \<Longrightarrow> 0 < b \<Longrightarrow> c_rem a b = Some (a mod b)"
  by (cases "a = 0") (auto simp: c_rem_def)

lemma used_eq: "rb_inv rb \<Longrightarrow> ring_buffer_used rb = Some (int (length (rb_data rb)))"
  by (simp add: ring_buffer_used_def rb_inv_def c_rem_nonneg rb_data_def)

lemma data_length: "rb_inv rb \<Longrightarrow> int (length (rb_data rb)) < rb_size rb"
  by (simp add: rb_inv_def rb_data_def)

lemma free_eq: "rb_inv rb \<Longrightarrow> ring_buffer_free rb = Some (rb_size rb - int (length (rb_data rb)) - 1)"
  by (simp add: ring_buffer_free_def used_eq)

lemma rb_natE:
  assumes "rb_inv rb"
  obtains S H T where "rb_size rb = int S" "rb_head rb = int H" "rb_tail rb = int T"
    and "H < S" "T < S" "length (rb_buf rb) = S + 1"
proof -
  have "rb_size rb = int (nat (rb_size rb))" "rb_head rb = int (nat (rb_head rb))"
    "rb_tail rb = int (nat (rb_tail rb))"
    using assms by (auto simp: rb_inv_def)
  then show thesis
    using assms that[of "nat (rb_size rb)" "nat (rb_head rb)" "nat (rb_tail rb)"]
    by (simp add: rb_inv_def nat_less_iff)
qed

text \<open>The distance from \<open>head\<close> to \<open>tail\<close>, on natural numbers.\<close>

lemma rb_distance:
  assumes "H < S" "T < S"
  defines "U \<equiv> nat ((int T - int H) mod int S)"
  shows "U < S" and "(H + U) mod S = T"
proof -
  show "U < S" using assms by (simp add: U_def nat_less_iff)
  have "int ((H + U) mod S) = (int H + (int T - int H) mod int S) mod int S"
    using assms by (simp add: U_def zmod_int)
  also have "\<dots> = int T" using assms by (simp add: mod_simps)
  finally show "(H + U) mod S = T" by simp
qed

text \<open>Storing \<open>d\<close> from index \<open>T\<close> on, wrapping at \<open>S\<close>.\<close>

definition wrap_store :: "bytes \<Rightarrow> nat \<Rightarrow> nat \<Rightarrow> bytes \<Rightarrow> bytes" where
  "wrap_store b S T d =
     (if S < T + length d
      then drop (S - T) d @ drop (T + length d - S) (take T b @ take (S - T) d) @ drop S b
      else take T b @ d @ drop (T + length d) b)"

lemma wrap_store_nth:
  assumes "length b = S + 1" "T < S" "length d < S" "j < length d"
  shows "wrap_store b S T d ! ((T + j) mod S) = d ! j"
proof (cases "T + j < S")
  case True
  then show ?thesis
    using assms by (auto simp: wrap_store_def nth_append)
next
  case False
  then have "(T + j) mod S = T + j - S"
    using assms by (simp add: mod_if)
  then show ?thesis
    using False assms by (auto simp: wrap_store_def nth_append)
qed

lemma wrap_store_other:
  assumes "length b = S + 1" "T < S" "length d < S" "length d \<le> j" "j < S"
  shows "wrap_store b S T d ! ((T + j) mod S) = b ! ((T + j) mod S)"
proof (cases "T + j < S")
  case True
  then show ?thesis
    using assms by (auto simp: wrap_store_def nth_append)
next
  case False
  then have "(T + j) mod S = T + j - S"
    using assms by (simp add: mod_if)
  then show ?thesis
    using False assms by (auto simp: wrap_store_def nth_append)
qed

lemma wrap_store_length:
  "length b = S + 1 \<Longrightarrow> T < S \<Longrightarrow> length d < S \<Longrightarrow> length (wrap_store b S T d) = S + 1"
  by (auto simp: wrap_store_def)

lemma write_eval:
  assumes "rb_size rb = int S" "rb_head rb = int H" "rb_tail rb = int T"
    and "H < S" "T < S" "length (rb_buf rb) = S + 1"
    and "d \<noteq> []" "length (rb_data rb) + length d < S"
  shows "write_ring_buffer rb d
           = Some (rb\<lparr>rb_buf := wrap_store (rb_buf rb) S T d, rb_tail := int ((T + length d) mod S)\<rparr>)"
proof -
  have inv: "rb_inv rb" using assms by (simp add: rb_inv_def)
  have rem: "c_rem (rb_tail rb + int (length d)) (rb_size rb) = Some (int ((T + length d) mod S))"
    using assms by (simp add: c_rem_nonneg zmod_int)
  show ?thesis
  proof (cases "S < T + length d")
    case True
    then have right: "nat (int S - int T) = S - T" "int S - int T \<ge> 0" using assms by auto
    show ?thesis
      using assms True right rem
      by (simp add: write_ring_buffer_def free_eq[OF inv] rb_store_def store_bytes_def wrap_store_def
          Let_def add.commute[of "length d"])
  next
    case False
    then show ?thesis
      using assms rem
      by (simp add: write_ring_buffer_def free_eq[OF inv] rb_store_def store_bytes_def wrap_store_def)
  qed
qed

text \<open>The contents as a function of the index, on natural numbers.\<close>

lemma rb_data_nth:
  assumes "rb_size rb = int S" "rb_head rb = int H" "k < length (rb_data rb)"
  shows "rb_data rb ! k = rb_buf rb ! ((H + k) mod S)"
  using assms by (simp add: rb_data_def)

lemma rb_data_length_nat:
  assumes "rb_size rb = int S" "rb_head rb = int H" "rb_tail rb = int T" "H < S" "T < S"
  shows "length (rb_data rb) < S" and "(H + length (rb_data rb)) mod S = T"
  using rb_distance[OF assms(4,5)] assms by (simp_all add: rb_data_def)

lemma rb_data_length_unique:
  assumes "rb_size rb = int S" "rb_head rb = int H" "rb_tail rb = int ((H + n) mod S)" "H < S" "n < S"
  shows "length (rb_data rb) = n"
proof -
  have "(int ((H + n) mod S) - int H) mod int S = int n mod int S"
    by (simp add: zmod_int mod_simps)
  then show ?thesis using assms by (simp add: rb_data_def)
qed

lemma write_data:
  assumes "rb_inv rb" "d \<noteq> []" "int (length (rb_data rb) + length d) < rb_size rb"
  shows "\<exists>rb'. write_ring_buffer rb d = Some rb' \<and> rb_inv rb' \<and> rb_data rb' = rb_data rb @ d
               \<and> rb_size rb' = rb_size rb"
proof -
  obtain S H T where r: "rb_size rb = int S" "rb_head rb = int H" "rb_tail rb = int T"
    and lt: "H < S" "T < S" and len: "length (rb_buf rb) = S + 1"
    using rb_natE[OF assms(1)] by blast
  define U where "U = length (rb_data rb)"
  define rb' where "rb' = rb\<lparr>rb_buf := wrap_store (rb_buf rb) S T d,
    rb_tail := int ((T + length d) mod S)\<rparr>"
  have fits: "U + length d < S" using assms(3) r by (simp add: U_def)
  have ev: "write_ring_buffer rb d = Some rb'"
    unfolding rb'_def using write_eval[OF r lt len assms(2)] fits by (simp add: U_def)
  have HU: "(H + U) mod S = T"
    unfolding U_def by (rule rb_data_length_nat(2)[OF r lt])
  have T': "(T + j) mod S = (H + (U + j)) mod S" for j
    by (metis HU add.assoc mod_add_left_eq)
  have L: "length (rb_data rb') = U + length d"
    using r lt fits by (intro rb_data_length_unique[of _ S H]) (auto simp: rb'_def T')
  have "rb_data rb' = rb_data rb @ d"
  proof (rule nth_equalityI)
    fix k assume k: "k < length (rb_data rb')"
    have e: "rb_data rb' ! k = wrap_store (rb_buf rb) S T d ! ((H + k) mod S)"
      using rb_data_nth[of rb' S H k] k r by (simp add: rb'_def)
    show "rb_data rb' ! k = (rb_data rb @ d) ! k"
    proof (cases "k < U")
      case True
      have "(H + k) mod S = (T + (S - U + k)) mod S"
      proof -
        have "H + (U + (S - U + k)) = (H + k) + S" using fits by simp
        then have "(T + (S - U + k)) mod S = ((H + k) + S) mod S" by (metis T')
        then show ?thesis by simp
      qed
      then show ?thesis
        using e True fits len lt wrap_store_other[of "rb_buf rb" S T d "S - U + k"]
          rb_data_nth[OF r(1,2), of k] by (simp add: nth_append U_def)
    next
      case False
      have "(H + k) mod S = (T + (k - U)) mod S"
        using T'[of "k - U"] False by simp
      then show ?thesis
        using e False k L fits len lt wrap_store_nth[of "rb_buf rb" S T d "k - U"]
        by (simp add: nth_append U_def)
    qed
  qed (simp add: L U_def)
  moreover have "rb_inv rb'"
    using r lt len fits wrap_store_length[OF len lt(2)] by (simp add: rb'_def rb_inv_def)
  ultimately show ?thesis using ev by (auto simp: rb'_def)
qed

lemma write_crash:
  assumes "rb_inv rb" "d = [] \<or> int (length (rb_data rb) + length d) \<ge> rb_size rb"
  shows "write_ring_buffer rb d = None"
  using assms(2) by (auto simp: write_ring_buffer_def free_eq[OF assms(1)])

lemma read_data:
  assumes "rb_inv rb" "0 \<le> n"
  shows "\<exists>rb'. read_ring_buffer rb n
                 = Some (min (int (length (rb_data rb))) n, take (nat n) (rb_data rb), rb')
               \<and> rb_inv rb' \<and> rb_data rb' = drop (nat n) (rb_data rb) \<and> rb_size rb' = rb_size rb"
proof -
  obtain S H T where r: "rb_size rb = int S" "rb_head rb = int H" "rb_tail rb = int T"
    and lt: "H < S" "T < S" and len: "length (rb_buf rb) = S + 1"
    using rb_natE[OF assms(1)] by blast
  define U where "U = length (rb_data rb)"
  define L where "L = min U (nat n)"
  have US: "U < S" and HU: "(H + U) mod S = T"
    unfolding U_def by (rule rb_data_length_nat[OF r lt])+
  have minL: "min (int U) n = int L" using assms(2) by (auto simp: L_def min_def)
  have takeL: "take (nat n) (rb_data rb) = take L (rb_data rb)"
    by (simp add: L_def U_def min_def)
  have dropL: "drop (nat n) (rb_data rb) = drop L (rb_data rb)"
    by (simp add: L_def U_def min_def)
  show ?thesis
  proof (cases "L = 0")
    case True
    then have "read_ring_buffer rb n = Some (int L, [], rb)"
      using minL by (simp add: read_ring_buffer_def used_eq[OF assms(1)] U_def min_def Let_def
          split: if_splits)
    with True minL takeL dropL assms(1) show ?thesis by (simp add: U_def)
  next
    case False
    define rb' where "rb' = rb\<lparr>rb_head := int ((H + L) mod S)\<rparr>"
    have LU: "L \<le> U" by (simp add: L_def)
    have out: "take L (rb_data rb) =
        (if S < H + L then take (S - H) (drop H (rb_buf rb)) @ take (H + L - S) (rb_buf rb)
         else take L (drop H (rb_buf rb)))"
    proof (rule nth_equalityI)
      show "length (take L (rb_data rb)) = length (if S < H + L
          then take (S - H) (drop H (rb_buf rb)) @ take (H + L - S) (rb_buf rb)
          else take L (drop H (rb_buf rb)))"
        using LU US lt len by (auto simp: U_def)
      fix k assume "k < length (take L (rb_data rb))"
      then have k: "k < L" "k < U" by (auto simp: U_def)
      have "(H + k) mod S = (if H + k < S then H + k else H + k - S)"
        using k US lt by (simp add: mod_if)
      then show "take L (rb_data rb) ! k = (if S < H + L
          then take (S - H) (drop H (rb_buf rb)) @ take (H + L - S) (rb_buf rb)
          else take L (drop H (rb_buf rb))) ! k"
        using k LU US lt len rb_data_nth[OF r(1,2), of k]
        by (auto simp: U_def nth_append add.commute[of k])
    qed
    have rem: "c_rem (int H + int L) (int S) = Some (int ((H + L) mod S))"
      using lt by (simp add: c_rem_nonneg zmod_int)
    have used: "ring_buffer_used rb = Some (int U)"
      using used_eq[OF assms(1)] by (simp add: U_def)
    have len_eq: "(if int U < n then int U else n) = int L"
      using minL by (simp add: min_def split: if_splits)
    have pos: "int L > 0" using False by simp
    have ev: "read_ring_buffer rb n = Some (int L, take L (rb_data rb), rb')"
    proof (cases "S < H + L")
      case True
      have "nat (int S - int H) = S - H" "nat (int L - (int S - int H)) = H + L - S"
        "\<not> int S - int H < 0" "\<not> int L - (int S - int H) < 0" "int H + int L > int S"
        using True lt by auto
      with True show ?thesis
        using pos rem lt LU US len
        by (simp add: read_ring_buffer_def used len_eq Let_def r rb_load_def load_bytes_def out rb'_def
            del: of_nat_add)
    next
      case not_wrap: False
      then have "\<not> int H + int L > int S" by simp
      with not_wrap show ?thesis
        using pos rem lt LU US len
        by (simp add: read_ring_buffer_def used len_eq Let_def r rb_load_def load_bytes_def out rb'_def
            del: of_nat_add)
    qed
    have "((H + L) mod S + (U - L)) mod S = (H + U) mod S"
      using mod_add_left_eq[of "H + L" S "U - L"] LU by simp
    then have L': "length (rb_data rb') = U - L"
      using r lt US HU by (intro rb_data_length_unique[of _ S "(H + L) mod S"]) (auto simp: rb'_def)
    have "rb_data rb' = drop L (rb_data rb)"
    proof (rule nth_equalityI)
      fix k assume k: "k < length (rb_data rb')"
      then have "rb_data rb' ! k = rb_buf rb ! (((H + L) mod S + k) mod S)"
        using rb_data_nth[of rb' S "(H + L) mod S" k] r by (simp add: rb'_def)
      then show "rb_data rb' ! k = drop L (rb_data rb) ! k"
        using k L' LU rb_data_nth[OF r(1,2), of "L + k"]
        by (simp add: U_def mod_simps add.assoc)
    qed (simp add: L' U_def)
    moreover have "rb_inv rb'"
      using r lt len by (simp add: rb'_def rb_inv_def)
    ultimately show ?thesis
      using ev minL takeL dropL by (auto simp: rb'_def U_def)
  qed
qed

lemma alloc_data:
  "0 < n \<Longrightarrow> \<exists>rb. alloc_ring_buffer n = Some rb \<and> rb_inv rb \<and> rb_data rb = [] \<and> rb_size rb = n"
  by (simp add: alloc_ring_buffer_def rb_inv_def rb_data_def)

section \<open>The contract of a byte queue\<close>

locale byte_fifo =
  fixes inv :: "'q \<Rightarrow> bool" and cap :: "'q \<Rightarrow> int" and data :: "'q \<Rightarrow> bytes"
    and wr :: "'q \<Rightarrow> bytes \<Rightarrow> 'q option" and rd :: "'q \<Rightarrow> int \<Rightarrow> (int \<times> bytes \<times> 'q) option"
  assumes write_ok: "inv q \<Longrightarrow> d \<noteq> [] \<Longrightarrow> int (length (data q) + length d) < cap q \<Longrightarrow>
          \<exists>q'. wr q d = Some q' \<and> inv q' \<and> data q' = data q @ d \<and> cap q' = cap q"
    and write_bad: "inv q \<Longrightarrow> d = [] \<or> int (length (data q) + length d) \<ge> cap q \<Longrightarrow> wr q d = None"
    and read_ok: "inv q \<Longrightarrow> 0 \<le> n \<Longrightarrow>
          \<exists>q'. rd q n = Some (min (int (length (data q))) n, take (nat n) (data q), q')
              \<and> inv q' \<and> data q' = drop (nat n) (data q) \<and> cap q' = cap q"

text \<open>A run of the two sides of a connection: the receiver of packets writes, the application
  reads. \<open>run_fifo\<close> returns the bytes the application got.\<close>

datatype fifo_op = FWrite bytes | FRead nat

fun run_fifo :: "('q \<Rightarrow> bytes \<Rightarrow> 'q option) \<Rightarrow> ('q \<Rightarrow> int \<Rightarrow> (int \<times> bytes \<times> 'q) option)
    \<Rightarrow> fifo_op list \<Rightarrow> 'q \<Rightarrow> (bytes \<times> 'q) option" where
  "run_fifo wr rd [] q = Some ([], q)"
| "run_fifo wr rd (FWrite d # ops) q = Option.bind (wr q d) (run_fifo wr rd ops)"
| "run_fifo wr rd (FRead n # ops) q =
     Option.bind (rd q (int n)) (\<lambda>(_, out, q').
       map_option (\<lambda>(out', q''). (out @ out', q'')) (run_fifo wr rd ops q'))"

fun written :: "fifo_op list \<Rightarrow> bytes" where
  "written [] = []"
| "written (FWrite d # ops) = d @ written ops"
| "written (FRead n # ops) = written ops"

context byte_fifo
begin

lemma stream:
  assumes "inv q" and "run_fifo wr rd ops q = Some (out, q')"
  shows "inv q' \<and> out @ data q' = data q @ written ops"
  using assms
proof (induction ops arbitrary: q out)
  case (Cons op ops)
  show ?case
  proof (cases op)
    case (FWrite d)
    then obtain q1 where q1: "wr q d = Some q1" "run_fifo wr rd ops q1 = Some (out, q')"
      using Cons.prems(2) by (auto simp: bind_eq_Some_conv)
    have "\<not> (d = [] \<or> int (length (data q) + length d) \<ge> cap q)"
      using write_bad[OF Cons.prems(1), of d] q1(1) by auto
    then have "d \<noteq> []" "int (length (data q) + length d) < cap q" by auto
    with write_ok[OF Cons.prems(1), of d] q1 have "inv q1" "data q1 = data q @ d" by auto
    with Cons.IH[OF _ q1(2)] show ?thesis by (simp add: FWrite)
  next
    case (FRead n)
    obtain q1 where q1: "rd q (int n) = Some (min (int (length (data q))) (int n), take n (data q), q1)"
      "inv q1" "data q1 = drop n (data q)"
      using read_ok[OF Cons.prems(1), of "int n"] by auto
    with Cons.prems(2) obtain out' where r: "run_fifo wr rd ops q1 = Some (out', q')"
      and out: "out = take n (data q) @ out'"
      by (auto simp: FRead)
    from Cons.IH[OF q1(2) r] q1(3) have "inv q'" "out' @ data q' = drop n (data q) @ written ops"
      by auto
    then show ?thesis
      by (simp add: FRead out)
  qed
qed simp

end

interpretation rb: byte_fifo rb_inv rb_size rb_data write_ring_buffer read_ring_buffer
proof
  fix b :: ring_buffer and d :: bytes and n :: int
  show "rb_inv b \<Longrightarrow> d \<noteq> [] \<Longrightarrow> int (length (rb_data b) + length d) < rb_size b \<Longrightarrow>
      \<exists>b'. write_ring_buffer b d = Some b' \<and> rb_inv b' \<and> rb_data b' = rb_data b @ d
         \<and> rb_size b' = rb_size b"
    by (rule write_data)
  show "rb_inv b \<Longrightarrow> d = [] \<or> int (length (rb_data b) + length d) \<ge> rb_size b \<Longrightarrow>
      write_ring_buffer b d = None"
    by (rule write_crash)
  show "rb_inv b \<Longrightarrow> 0 \<le> n \<Longrightarrow>
      \<exists>b'. read_ring_buffer b n
              = Some (min (int (length (rb_data b))) n, take (nat n) (rb_data b), b')
         \<and> rb_inv b' \<and> rb_data b' = drop (nat n) (rb_data b) \<and> rb_size b' = rb_size b"
    by (rule read_data)
qed

text \<open>C9. The receive buffer is a lossless byte stream: for every sequence of writes and reads
  that does not trip the capacity assertion, the bytes handed to the application followed
  by the bytes still buffered are exactly the bytes that were buffered at the start
  followed by everything written, in order, across any number of wrap-arounds.\<close>

theorem ring_buffer_stream:
  assumes "rb_inv b" and "run_fifo write_ring_buffer read_ring_buffer ops b = Some (out, b')"
  shows "rb_inv b' \<and> out @ rb_data b' = rb_data b @ written ops"
  using rb.stream[OF assms] .

theorem ring_buffer_stream_witness:
  defines "b0 \<equiv> \<lparr>rb_size = 4, rb_head = 3, rb_tail = 3, rb_buf = [0, 0, 0, 0, 0]\<rparr>"
    and "b1 \<equiv> \<lparr>rb_size = 4, rb_head = 1, rb_tail = 2, rb_buf = [8, 9, 0, 7, 0]\<rparr>"
  shows "rb_inv b1 \<and> [7, 8] @ rb_data b1 = rb_data b0 @ written [FWrite [7, 8, 9], FRead 2]"
  unfolding b0_def b1_def
  by (rule ring_buffer_stream)
     (simp_all add: rb_inv_def write_ring_buffer_def read_ring_buffer_def ring_buffer_free_def
       ring_buffer_used_def c_rem_def rb_store_def store_bytes_def rb_load_def load_bytes_def)

text \<open>Writing crashes exactly when it must: on a well-formed buffer \<^verbatim>\<open>write_ring_buffer\<close>
  aborts if and only if the payload is empty or larger than the free space, and otherwise
  appends the payload.\<close>

theorem write_ring_buffer_total:
  assumes "rb_inv b"
  shows "(write_ring_buffer b d = None \<longleftrightarrow> d = [] \<or> int (length (rb_data b) + length d) \<ge> rb_size b)
       \<and> (\<forall>b'. write_ring_buffer b d = Some b' \<longrightarrow> rb_inv b' \<and> rb_data b' = rb_data b @ d)"
proof (cases "d = [] \<or> int (length (rb_data b) + length d) \<ge> rb_size b")
  case True
  then show ?thesis using rb.write_bad[OF assms True] by simp
next
  case False
  then show ?thesis using rb.write_ok[OF assms, of d] by auto
qed

theorem write_ring_buffer_total_witness:
  defines "b \<equiv> \<lparr>rb_size = 2, rb_head = 0, rb_tail = 0, rb_buf = [0, 0, 0]\<rparr>"
  shows "write_ring_buffer b [1, 2] = None
       \<and> (\<exists>b'. write_ring_buffer b [1] = Some b' \<and> rb_inv b' \<and> rb_data b' = rb_data b @ [1])"
proof -
  have inv: "rb_inv b" by (simp add: b_def rb_inv_def)
  have data: "rb_data b = []" "rb_size b = 2" by (simp_all add: b_def rb_data_def)
  have "write_ring_buffer b [1] \<noteq> None"
    using write_ring_buffer_total [OF inv, of "[1]"] data by simp
  then show ?thesis
    using write_ring_buffer_total [OF inv, of "[1, 2]"] write_ring_buffer_total [OF inv, of "[1]"] data by auto
qed

end
