(* ===== verification/Checksum.thy ===== *)
theory Checksum
  imports Prelude
begin

text \<open>
  The Internet checksum (\<^verbatim>\<open>include/checksum.h\<close>) and the XOR hashes (\<^verbatim>\<open>include/hash.h\<close>,
  \<^verbatim>\<open>05-switching/hash.c\<close>). The checksum is related to the one's complement sum of
  RFC 1071, modelled as arithmetic modulo 65535.
\<close>

section \<open>The code\<close>

text \<open>The loop \<^verbatim>\<open>sum += buf[i]\<close> over the 16-bit words of the buffer; an odd last byte is left
  over.\<close>

fun sum_words :: "bytes \<Rightarrow> u32 \<Rightarrow> u32" where
  "sum_words (b0 # b1 # bs) acc = sum_words bs (acc + ucast (mk16 b0 b1))"
| "sum_words _ acc = acc"

definition fold_sum :: "u32 \<Rightarrow> u32" where
  "fold_sum acc =
     (let acc = drop_bit 16 acc + (acc AND 0xffff) in acc + drop_bit 16 acc)"

text \<open>\<^verbatim>\<open>checksum(buf, nbytes, sum)\<close> with \<^verbatim>\<open>buf\<close> at offset \<open>off\<close> of the memory block \<open>m\<close>. A
  negative \<^verbatim>\<open>nbytes\<close> skips the loop, and reads in front of the buffer when it is odd.\<close>

definition checksum :: "bytes \<Rightarrow> nat \<Rightarrow> int \<Rightarrow> u32 \<Rightarrow> u16 option" where
  "checksum m off nbytes acc =
     (if nbytes < 0 then (if even nbytes then Some (ucast (NOT (fold_sum acc))) else None)
      else do {
        buf \<leftarrow> load_bytes m off (nat nbytes);
        let acc = fold_sum (sum_words buf acc);
        let acc = (if odd nbytes then acc + ucast (last buf) else acc);
        Some (ucast (NOT acc)) })"

text \<open>The router lab's version asserts an even length.\<close>

definition checksum_08 :: "bytes \<Rightarrow> nat \<Rightarrow> int \<Rightarrow> u32 \<Rightarrow> u16 option" where
  "checksum_08 m off nbytes acc = do {
     ensure (even nbytes);
     if nbytes < 0 then Some (ucast (NOT (fold_sum acc)))
     else do {
       buf \<leftarrow> load_bytes m off (nat nbytes);
       Some (ucast (NOT (fold_sum (sum_words buf acc)))) } }"

definition hash8 :: "bytes \<Rightarrow> u8" where
  "hash8 buf = fold (\<lambda>b result. result XOR b) buf 0"

fun hash16_words :: "bytes \<Rightarrow> u16 \<Rightarrow> u16" where
  "hash16_words (b0 # b1 # bs) result = hash16_words bs (result XOR mk16 b0 b1)"
| "hash16_words [b] result = result XOR ucast b"
| "hash16_words [] result = result"

definition hash16 :: "bytes \<Rightarrow> u16" where
  "hash16 buf = hash16_words buf 0"

text \<open>The switch lab counts down from the end of the buffer.\<close>

definition hash8_05 :: "bytes \<Rightarrow> u8" where
  "hash8_05 addr = foldr (\<lambda>b result. result XOR b) addr 0"

text \<open>The router lab tests \<^verbatim>\<open>len >= 0\<close> before it decrements \<^verbatim>\<open>len\<close>, so the last access is at
  index \<open>-1\<close>.\<close>

fun hash8_08_loop :: "bytes \<Rightarrow> nat \<Rightarrow> u8 \<Rightarrow> u8 option" where
  "hash8_08_loop addr 0 result = None"
| "hash8_08_loop addr (Suc len) result =
     Option.bind (load8 addr len) (\<lambda>b. hash8_08_loop addr len (result XOR b))"

definition hash8_08 :: "bytes \<Rightarrow> int \<Rightarrow> u8 option" where
  "hash8_08 addr len = (if len < 0 then Some 0 else hash8_08_loop addr (nat len) 0)"

section \<open>One's complement arithmetic\<close>

text \<open>The representative of a sum in one's complement arithmetic, between 1 and 65535 unless
  the sum is zero.\<close>

definition oc_norm :: "nat \<Rightarrow> nat" where
  "oc_norm n = (if n = 0 then 0 else (n - 1) mod 65535 + 1)"

fun word_total :: "bytes \<Rightarrow> nat" where
  "word_total (b0 # b1 # bs) = unat b0 + 256 * unat b1 + word_total bs"
| "word_total _ = 0"

text \<open>The same words read in network byte order.\<close>

fun word_total_be :: "bytes \<Rightarrow> nat" where
  "word_total_be (b0 # b1 # bs) = 256 * unat b0 + unat b1 + word_total_be bs"
| "word_total_be _ = 0"

lemma oc_norm_le: "oc_norm n \<le> 65535"
  by (auto simp: oc_norm_def)

lemma oc_norm_mod: "oc_norm n mod 65535 = n mod 65535"
  by (cases n) (auto simp: oc_norm_def mod_Suc_eq)

lemma oc_norm_unique:
  assumes "m \<le> 65535" and "m mod 65535 = n mod 65535" and "m = 0 \<longleftrightarrow> n = 0"
  shows "m = oc_norm n"
proof -
  have "oc_norm n = 0 \<longleftrightarrow> n = 0" by (simp add: oc_norm_def)
  with assms oc_norm_le[of n] oc_norm_mod[of n] show ?thesis
    by (smt (verit) le_neq_implies_less mod_less mod_self)
qed

lemma fold_sum_correct: "unat (ucast (fold_sum s) :: u16) = oc_norm (unat s)"
proof -
  define n where "n = unat s"
  have n: "n < 65536 * 65536" using unat_u32[of s] by (simp add: n_def)
  define a where "a = n div 65536 + n mod 65536"
  have hi: "n div 65536 < 65536" using n by (simp add: less_mult_imp_div_less)
  have lo: "n mod 65536 < 65536" by simp
  have u1: "unat (drop_bit 16 s + (s AND 0xffff)) = a"
  proof -
    have "unat (drop_bit 16 s) = n div 65536"
      by (simp add: n_def unat_drop_bit)
    moreover have "s AND 0xffff = take_bit 16 s"
      by (simp add: take_bit_eq_mask mask_eq_exp_minus_1)
    then have "unat (s AND 0xffff) = n mod 65536"
      by (simp only: n_def unat_take_bit) simp
    ultimately show ?thesis using hi lo by (simp add: a_def unat_word_ariths)
  qed
  define t where "t = drop_bit 16 s + (s AND 0xffff)"
  have "unat (drop_bit 16 t) = a div 65536"
    using u1 by (simp add: t_def unat_drop_bit)
  moreover have a: "a < 131071" using hi lo by (simp add: a_def)
  ultimately have "unat (fold_sum s) = a + a div 65536"
    using u1 by (simp add: fold_sum_def Let_def t_def unat_word_ariths)
  then have r: "unat (ucast (fold_sum s) :: u16) = (a + a div 65536) mod 65536"
    by (simp add: unsigned_ucast_eq take_bit_eq_mod)
  have n_split: "n = 65536 * (n div 65536) + n mod 65536" by simp
  then have na: "n = 65535 * (n div 65536) + a" by (simp add: a_def)
  have n0: "n = 0 \<longleftrightarrow> a = 0" using n_split by (auto simp: a_def)
  have "(a + a div 65536) mod 65536 = oc_norm n"
  proof (cases "a < 65536")
    case True
    then have "(a + a div 65536) mod 65536 = a" by simp
    moreover have "a mod 65535 = n mod 65535" by (subst na) simp
    ultimately show ?thesis using True n0 by (simp add: oc_norm_unique)
  next
    case False
    then have "a div 65536 = 1" using a by simp
    moreover have "(a + 1) mod 65536 = a + 1 - 65536"
      using False a by (simp add: mod_if)
    ultimately have e: "(a + a div 65536) mod 65536 = a - 65535" using False by simp
    have "n = (a - 65535) + 65535 * (n div 65536 + 1)"
      using False na by simp
    then have "(a - 65535) mod 65535 = n mod 65535" by (metis mod_mult_self2)
    then have "a - 65535 = oc_norm n"
      using False a n0 by (intro oc_norm_unique) auto
    then show ?thesis using e by simp
  qed
  then show ?thesis using r by (simp add: n_def)
qed

section \<open>Correctness of the checksum\<close>

lemma unat_sum_words:
  "unat s + word_total bs < 2 ^ 32 \<Longrightarrow> unat (sum_words bs s) = unat s + word_total bs"
proof (induction bs s rule: sum_words.induct)
  case (1 b0 b1 bs s)
  have "unat (ucast (mk16 b0 b1) :: u32) = unat b0 + 256 * unat b1"
    by (simp add: unat_mk16)
  moreover from this "1.prems" have "unat (s + ucast (mk16 b0 b1)) = unat s + unat b0 + 256 * unat b1"
    by (simp add: unat_word_ariths)
  ultimately show ?case using "1.IH" "1.prems" by simp
qed auto

lemma word_total_bound: "word_total bs \<le> 65535 * (length bs div 2)"
proof (induction bs rule: word_total.induct)
  case (1 b0 b1 bs)
  then show ?case using unat_u8[of b0] unat_u8[of b1] by simp
qed auto

lemma ucast_NOT_u16: "ucast (NOT (s :: u32)) = (NOT (ucast s) :: u16)"
  by (rule bit_word_eqI) (simp add: bit_simps)

lemma checksum_value:
  assumes "off + n \<le> length m" and "even n" and "unat s + word_total (take n (drop off m)) < 2 ^ 32"
  shows "\<exists>c. checksum m off (int n) s = Some c \<and>
             unat c = 65535 - oc_norm (unat s + word_total (take n (drop off m)))"
  using assms fold_sum_correct[of "sum_words (take n (drop off m)) s"]
  by (auto simp: checksum_def load_bytes_def Let_def ucast_NOT_u16 unat_NOT_u16 unat_sum_words)

lemma oc_norm_complement: "oc_norm (n + (65535 - oc_norm n)) = 65535"
proof -
  have "(n + (65535 - oc_norm n)) mod 65535 = (oc_norm n + (65535 - oc_norm n)) mod 65535"
    by (metis mod_add_left_eq oc_norm_mod)
  also have "\<dots> = 0" using oc_norm_le[of n] by simp
  finally have "(n + (65535 - oc_norm n)) mod 65535 = 65535 mod 65535" by simp
  moreover have "n + (65535 - oc_norm n) \<noteq> 0"
    by (auto simp: oc_norm_def)
  ultimately show ?thesis
    using oc_norm_unique[of 65535 "n + (65535 - oc_norm n)"] by simp
qed

text \<open>C28. The checksum function produces a value that makes the data verify: over an even
  number of bytes whose words do not overflow the 32-bit accumulator, adding the returned
  checksum to the words of the data gives the all-ones one's complement sum (65535), the
  test every receiver of RFC 1071 applies.\<close>

theorem checksum_verifies:
  assumes "off + n \<le> length m" and "even n"
    and "unat s + word_total (take n (drop off m)) < 2 ^ 32"
  shows "\<exists>c. checksum m off (int n) s = Some c \<and>
             oc_norm (unat s + word_total (take n (drop off m)) + unat c) = 65535"
  using checksum_value[OF assms] oc_norm_complement by auto

theorem checksum_verifies_witness:
  "\<exists>c. checksum [0x45, 0, 0, 0x28, 0xff, 0xff] 2 (int 4) 7 = Some c \<and>
       oc_norm (unat (7 :: u32) + word_total (take 4 (drop 2 [0x45, 0, 0, 0x28, 0xff, 0xff])) + unat c)
         = 65535"
  by (rule checksum_verifies) simp_all

lemma word_total_be_mod: "word_total bs mod 65535 = (256 * word_total_be bs) mod 65535"
proof (induction bs rule: word_total.induct)
  case (1 b0 b1 bs)
  have "(unat b0 + 256 * unat b1 + word_total bs) mod 65535
      = (unat b0 + 256 * unat b1 + 256 * word_total_be bs) mod 65535"
    using "1" by (metis mod_add_right_eq)
  also have "\<dots> = ((unat b0 + 256 * unat b1 + 256 * word_total_be bs) + 65535 * unat b0) mod 65535"
    by (simp only: mod_mult_self2)
  also have "(unat b0 + 256 * unat b1 + 256 * word_total_be bs) + 65535 * unat b0
      = 256 * word_total_be (b0 # b1 # bs)"
    by simp
  finally show ?case by simp
qed auto

lemma word_total_0: "word_total bs = 0 \<longleftrightarrow> word_total_be bs = 0"
  by (induction bs rule: word_total.induct) auto

lemma htons_mod: "unat (htons w) mod 65535 = (256 * unat w) mod 65535"
proof -
  have "256 * unat w = 65535 * unat (byte_of 1 w) + unat (htons w)"
    unfolding unat_htons by (subst unat_mk16_bytes) simp
  then show ?thesis by simp
qed

lemma htons_65535: "unat (htons w) = 65535 \<longleftrightarrow> unat w = 65535"
  using unat_u8[of "byte_of 0 w"] unat_u8[of "byte_of 1 w"]
  by (simp add: unat_htons unat_mk16_bytes[of w]) linarith

lemma eq_by_mod_65535:
  assumes "(x::nat) \<le> 65535" "y \<le> 65535" "x mod 65535 = y mod 65535" "x = 65535 \<longleftrightarrow> y = 65535"
  shows "x = y"
  using assms by (metis le_neq_implies_less mod_less)

text \<open>The checksum is independent of the host's byte order: the value the little-endian
  code computes and stores without a byte swap is the big-endian RFC 1071 checksum in
  network byte order.\<close>

theorem checksum_byte_order:
  assumes "off + n \<le> length m" and "even n" and "n \<le> 65535"
  shows "checksum m off (int n) 0
           = Some (htons (of_nat (65535 - oc_norm (word_total_be (take n (drop off m))))))"
proof -
  define bs where "bs = take n (drop off m)"
  define c_be where "c_be = (of_nat (65535 - oc_norm (word_total_be bs)) :: u16)"
  have "length bs = n" using assms(1) by (simp add: bs_def)
  then have "word_total bs < 2 ^ 32"
    using word_total_bound[of bs] assms(3) by (simp add: le_less_trans div_le_mono)
  then obtain c where c: "checksum m off (int n) 0 = Some c"
    and uc: "unat c = 65535 - oc_norm (word_total bs)"
    using checksum_value[OF assms(1,2), of 0] by (auto simp: bs_def)
  have ub: "unat c_be = 65535 - oc_norm (word_total_be bs)"
    by (simp add: c_be_def unat_of_nat)
  have "unat c = unat (htons c_be)"
  proof (rule eq_by_mod_65535)
    show "unat c \<le> 65535" "unat (htons c_be) \<le> 65535"
      using unat_u16[of c] unat_u16[of "htons c_be"] by simp_all
    have "(unat c + word_total bs) mod 65535 = (unat c + oc_norm (word_total bs)) mod 65535"
      by (metis mod_add_right_eq oc_norm_mod)
    then have s1: "(unat c + word_total bs) mod 65535 = 0"
      using uc oc_norm_le[of "word_total bs"] by simp
    have "(unat (htons c_be) + word_total bs) mod 65535
        = (256 * unat c_be + 256 * word_total_be bs) mod 65535"
      by (rule mod_add_cong) (rule htons_mod, rule word_total_be_mod)
    also have "\<dots> = (256 * (unat c_be + oc_norm (word_total_be bs))) mod 65535"
      unfolding distrib_left by (rule mod_add_cong [OF refl]) (rule mod_mult_cong [OF refl], simp add: oc_norm_mod)
    also have "\<dots> = 0"
      using ub oc_norm_le[of "word_total_be bs"] by simp
    finally show "unat c mod 65535 = unat (htons c_be) mod 65535"
      using s1 by (metis mod_add_rcancel)
    show "unat c = 65535 \<longleftrightarrow> unat (htons c_be) = 65535"
      using word_total_0[of bs] by (auto simp: htons_65535 uc ub oc_norm_def)
  qed
  then have "c = htons c_be" by (rule unsigned_word_eqI)
  then show ?thesis
    using c by (simp add: c_be_def bs_def)
qed

theorem checksum_byte_order_witness:
  "checksum [0x45, 0, 0, 0x28] 0 (int 4) 0
     = Some (htons (of_nat (65535 - oc_norm (word_total_be (take 4 (drop 0 [0x45, 0, 0, 0x28]))))))"
  by (rule checksum_byte_order) simp_all

text \<open>The last byte of an odd-length buffer is added after the carries have been folded in, so
  a carry out of that addition is lost: on the bytes \<open>ff ff 01\<close> the code returns \<open>ffff\<close> where
  the one's complement sum (the last byte padded with a zero byte) gives \<open>fffe\<close>.\<close>

text \<open>On an odd-length buffer the code can return a checksum that does not verify: the
  all-ones test fails for the bytes ff ff 01.\<close>

theorem checksum_odd_length_wrong:
  "checksum [0xff, 0xff, 0x01] 0 3 0 = Some 0xffff
   \<and> oc_norm (word_total [0xff, 0xff, 0x01, 0x00] + 0xffff) \<noteq> 65535"
  by (simp add: checksum_def load_bytes_def fold_sum_def mk16_def oc_norm_def)

section \<open>The router lab's checksum and the hashes\<close>

lemma checksum_08_eq: "even n \<Longrightarrow> checksum_08 m off n s = checksum m off n s"
  by (simp add: checksum_08_def checksum_def Let_def)

lemma hash8_acc: "fold (\<lambda>b result. result XOR b) buf a = a XOR hash8 buf"
proof (induction buf arbitrary: a)
  case (Cons b buf)
  have "hash8 (b # buf) = b XOR hash8 buf"
    using Cons.IH [of "0 XOR b"] by (simp add: hash8_def)
  moreover have "fold (\<lambda>b result. result XOR b) (b # buf) a = (a XOR b) XOR hash8 buf"
    using Cons.IH [of "a XOR b"] by simp
  ultimately show ?case by (simp add: xor.assoc)
qed (simp add: hash8_def)

lemma hash8_Cons: "hash8 (b # buf) = b XOR hash8 buf"
  using hash8_acc [of buf b] by (simp add: hash8_def)

text \<open>The two byte hashes of the repository agree: counting down from the end of the
  buffer (switch lab) gives the same hash as counting up (NAT and TCP labs), and both are
  independent of the order of the bytes.\<close>

theorem hash8_order_independent:
  "hash8_05 buf = hash8 buf \<and> hash8 (rev buf) = hash8 buf"
proof
  show "hash8_05 buf = hash8 buf"
  proof (induction buf)
    case (Cons b buf)
    then show ?case by (simp add: hash8_05_def hash8_Cons xor.commute)
  qed (simp add: hash8_05_def hash8_def)
  have "hash8 (xs @ ys) = hash8 xs XOR hash8 ys" for xs ys
    using hash8_acc [of ys "hash8 xs"] by (simp add: hash8_def)
  moreover have "hash8 [b] = b" for b
    by (simp add: hash8_def)
  ultimately show "hash8 (rev buf) = hash8 buf"
    by (induction buf) (simp_all add: hash8_Cons xor.commute)
qed

lemma hash8_08_loop_crashes: "hash8_08_loop addr n r = None"
  by (induction n arbitrary: r) (auto split: bind_split)

text \<open>The router lab's \<^verbatim>\<open>hash8\<close> never returns normally for a buffer length that is not
  negative: its loop always reads the byte in front of the buffer.\<close>

theorem hash8_08_reads_before_buffer: "0 \<le> len \<Longrightarrow> hash8_08 addr len = None"
  by (simp add: hash8_08_def hash8_08_loop_crashes)

theorem hash8_08_reads_before_buffer_witness: "hash8_08 [1, 2, 3, 4] 4 = None"
  by (rule hash8_08_reads_before_buffer) simp

end
