(* ===== verification/Headers.thy ===== *)
theory Headers
  imports Checksum
begin

text \<open>
  The packed protocol headers the program casts packet memory to: \<^verbatim>\<open>ether.h\<close>, \<^verbatim>\<open>ip.h\<close>,
  \<^verbatim>\<open>icmp.h\<close>, \<^verbatim>\<open>arp.h\<close> and \<^verbatim>\<open>tcp.h\<close> (the same in labs 10 to 17). A record holds the raw values
  as they lie in memory, so multi-byte fields are in network byte order and the code's
  \<^verbatim>\<open>ntohs\<close> and \<^verbatim>\<open>htonl\<close> calls appear in the definitions that use them. Each header is an
  instance of the locale \<open>layout\<close>.
\<close>

datatype mac = Mac u8 u8 u8 u8 u8 u8

primrec mac_bytes :: "mac \<Rightarrow> bytes" where
  "mac_bytes (Mac a b c d e f) = [a, b, c, d, e, f]"

definition get_mac :: "bytes \<Rightarrow> nat \<Rightarrow> mac" where
  "get_mac bs i = Mac (bs ! i) (bs ! (i + 1)) (bs ! (i + 2)) (bs ! (i + 3)) (bs ! (i + 4)) (bs ! (i + 5))"

declare get_mac_def [struct_defs]

definition ETH_ALEN :: nat where "ETH_ALEN = 6"
definition ETHER_HDR_SIZE :: nat where "ETHER_HDR_SIZE = 14"
definition IP_BASE_HDR_SIZE :: nat where "IP_BASE_HDR_SIZE = 20"
definition ICMP_HDR_SIZE :: nat where "ICMP_HDR_SIZE = 8"
definition ICMP_COPIED_DATA_LEN :: nat where "ICMP_COPIED_DATA_LEN = 8"
definition TCP_BASE_HDR_SIZE :: nat where "TCP_BASE_HDR_SIZE = 20"
definition ETHER_ARP_SIZE :: nat where "ETHER_ARP_SIZE = 28"

lemmas hdr_sizes [simp] = ETH_ALEN_def ETHER_HDR_SIZE_def IP_BASE_HDR_SIZE_def ICMP_HDR_SIZE_def
  ICMP_COPIED_DATA_LEN_def TCP_BASE_HDR_SIZE_def ETHER_ARP_SIZE_def

lemma length_mac_bytes [simp]: "length (mac_bytes m) = 6"
  by (cases m) simp

lemma length_put [simp]: "length (put16 w) = 2" "length (put32 v) = 4"
  by (simp_all add: struct_defs)

text \<open>A list of a known length is the list of its elements, so a decoder that reads every byte
  can be evaluated on it.\<close>

lemma list_by_length:
  "(\<And>xs :: bytes. length xs = n \<Longrightarrow> f (map (\<lambda>i. xs ! i) [0..<n]) = map (\<lambda>i. xs ! i) [0..<n]) \<Longrightarrow>
   length bs = n \<Longrightarrow> f bs = bs"
  by (metis list_by_nth)

lemmas upt_unfold = upt_rec[of 0] upt_rec[of "Suc n" for n] upt_rec[of "numeral n" for n]

section \<open>Ethernet\<close>

record ether_header =
  ether_dhost :: mac
  ether_shost :: mac
  ether_type :: u16

definition ETH_P_IP :: u16 where "ETH_P_IP = 0x0800"
definition ETH_P_ARP :: u16 where "ETH_P_ARP = 0x0806"

definition enc_ether :: "ether_header \<Rightarrow> bytes" where
  "enc_ether h = mac_bytes (ether_dhost h) @ mac_bytes (ether_shost h) @ put16 (ether_type h)"

definition dec_ether :: "bytes \<Rightarrow> ether_header" where
  "dec_ether bs = \<lparr>ether_dhost = get_mac bs 0, ether_shost = get_mac bs 6, ether_type = get16 bs 12\<rparr>"

interpretation eth: layout enc_ether dec_ether 14
proof
  fix x bs
  show "length (enc_ether x) = 14"
    by (simp add: enc_ether_def)
  show "dec_ether (enc_ether x) = x"
    by (cases x; cases "ether_dhost x"; cases "ether_shost x")
       (simp add: enc_ether_def dec_ether_def struct_defs byte_simps)
  assume "length (bs :: bytes) = 14"
  then show "enc_ether (dec_ether bs) = bs"
    by (rule list_by_length[rotated])
       (simp add: enc_ether_def dec_ether_def struct_defs byte_simps upt_unfold)
qed

section \<open>IP\<close>

text \<open>\<^verbatim>\<open>struct iphdr\<close>: the header length and the version are the two nibbles of the first byte,
  the length in the low one on a little-endian host.\<close>

record iphdr =
  ip_ihl :: "4 word"
  ip_version :: "4 word"
  ip_tos :: u8
  ip_tot_len :: u16
  ip_id :: u16
  ip_frag_off :: u16
  ip_ttl :: u8
  ip_protocol :: u8
  ip_checksum_fld :: u16
  ip_saddr :: u32
  ip_daddr :: u32

definition nibbles :: "4 word \<Rightarrow> 4 word \<Rightarrow> u8" where
  "nibbles lo hi = ucast lo OR push_bit 4 (ucast hi)"

definition lo_nibble :: "u8 \<Rightarrow> 4 word" where "lo_nibble b = ucast b"
definition hi_nibble :: "u8 \<Rightarrow> 4 word" where "hi_nibble b = ucast (drop_bit 4 b)"

lemma nibbles_simps [byte_simps]:
  "lo_nibble (nibbles lo hi) = lo" "hi_nibble (nibbles lo hi) = hi"
  "nibbles (lo_nibble b) (hi_nibble b) = b"
  by (rule bit_word_eqI; auto simp: nibbles_def lo_nibble_def hi_nibble_def bit_simps
        dest: bit_imp_le_length)+

definition IPPROTO_ICMP :: u8 where "IPPROTO_ICMP = 1"
definition IPPROTO_TCP :: u8 where "IPPROTO_TCP = 6"
definition IPPROTO_MOSPF :: u8 where "IPPROTO_MOSPF = 90"
definition DEFAULT_TTL :: u8 where "DEFAULT_TTL = 64"
definition IP_DF :: u16 where "IP_DF = 0x4000"

definition enc_ip :: "iphdr \<Rightarrow> bytes" where
  "enc_ip h = [nibbles (ip_ihl h) (ip_version h), ip_tos h] @ put16 (ip_tot_len h) @ put16 (ip_id h)
     @ put16 (ip_frag_off h) @ [ip_ttl h, ip_protocol h] @ put16 (ip_checksum_fld h)
     @ put32 (ip_saddr h) @ put32 (ip_daddr h)"

definition dec_ip :: "bytes \<Rightarrow> iphdr" where
  "dec_ip bs = \<lparr>ip_ihl = lo_nibble (bs ! 0), ip_version = hi_nibble (bs ! 0), ip_tos = bs ! 1,
     ip_tot_len = get16 bs 2, ip_id = get16 bs 4, ip_frag_off = get16 bs 6, ip_ttl = bs ! 8,
     ip_protocol = bs ! 9, ip_checksum_fld = get16 bs 10, ip_saddr = get32 bs 12,
     ip_daddr = get32 bs 16\<rparr>"

interpretation iph: layout enc_ip dec_ip 20
proof
  fix x bs
  show "length (enc_ip x) = 20"
    by (simp add: enc_ip_def)
  show "dec_ip (enc_ip x) = x"
    by (cases x) (simp add: enc_ip_def dec_ip_def struct_defs byte_simps)
  assume "length (bs :: bytes) = 20"
  then show "enc_ip (dec_ip bs) = bs"
    by (rule list_by_length[rotated])
       (simp add: enc_ip_def dec_ip_def struct_defs byte_simps upt_unfold)
qed

section \<open>ICMP\<close>

record icmphdr =
  icmp_type :: u8
  icmp_code :: u8
  icmp_checksum_fld :: u16
  icmp_identifier :: u16
  icmp_sequence :: u16

definition ICMP_ECHOREPLY :: u8 where "ICMP_ECHOREPLY = 0"
definition ICMP_DEST_UNREACH :: u8 where "ICMP_DEST_UNREACH = 3"
definition ICMP_ECHOREQUEST :: u8 where "ICMP_ECHOREQUEST = 8"
definition ICMP_TIME_EXCEEDED :: u8 where "ICMP_TIME_EXCEEDED = 11"
definition ICMP_NET_UNREACH :: u8 where "ICMP_NET_UNREACH = 0"
definition ICMP_HOST_UNREACH :: u8 where "ICMP_HOST_UNREACH = 1"
definition ICMP_EXC_TTL :: u8 where "ICMP_EXC_TTL = 0"

definition enc_icmp :: "icmphdr \<Rightarrow> bytes" where
  "enc_icmp h = [icmp_type h, icmp_code h] @ put16 (icmp_checksum_fld h)
     @ put16 (icmp_identifier h) @ put16 (icmp_sequence h)"

definition dec_icmp :: "bytes \<Rightarrow> icmphdr" where
  "dec_icmp bs = \<lparr>icmp_type = bs ! 0, icmp_code = bs ! 1, icmp_checksum_fld = get16 bs 2,
     icmp_identifier = get16 bs 4, icmp_sequence = get16 bs 6\<rparr>"

interpretation icmph: layout enc_icmp dec_icmp 8
proof
  fix x bs
  show "length (enc_icmp x) = 8"
    by (simp add: enc_icmp_def)
  show "dec_icmp (enc_icmp x) = x"
    by (cases x) (simp add: enc_icmp_def dec_icmp_def struct_defs byte_simps)
  assume "length (bs :: bytes) = 8"
  then show "enc_icmp (dec_icmp bs) = bs"
    by (rule list_by_length[rotated])
       (simp add: enc_icmp_def dec_icmp_def struct_defs byte_simps upt_unfold)
qed

section \<open>ARP\<close>

record ether_arp =
  arp_hrd :: u16
  arp_pro :: u16
  arp_hln :: u8
  arp_pln :: u8
  arp_op :: u16
  arp_sha :: mac
  arp_spa :: u32
  arp_tha :: mac
  arp_tpa :: u32

definition ARPHRD_ETHER :: u16 where "ARPHRD_ETHER = 0x01"
definition ARPOP_REQUEST :: u16 where "ARPOP_REQUEST = 1"
definition ARPOP_REPLY :: u16 where "ARPOP_REPLY = 2"

definition enc_arp :: "ether_arp \<Rightarrow> bytes" where
  "enc_arp h = put16 (arp_hrd h) @ put16 (arp_pro h) @ [arp_hln h, arp_pln h] @ put16 (arp_op h)
     @ mac_bytes (arp_sha h) @ put32 (arp_spa h) @ mac_bytes (arp_tha h) @ put32 (arp_tpa h)"

definition dec_arp :: "bytes \<Rightarrow> ether_arp" where
  "dec_arp bs = \<lparr>arp_hrd = get16 bs 0, arp_pro = get16 bs 2, arp_hln = bs ! 4, arp_pln = bs ! 5,
     arp_op = get16 bs 6, arp_sha = get_mac bs 8, arp_spa = get32 bs 14,
     arp_tha = get_mac bs 18, arp_tpa = get32 bs 24\<rparr>"

interpretation arph: layout enc_arp dec_arp 28
proof
  fix x bs
  show "length (enc_arp x) = 28"
    by (simp add: enc_arp_def)
  show "dec_arp (enc_arp x) = x"
    by (cases x; cases "arp_sha x"; cases "arp_tha x")
       (simp add: enc_arp_def dec_arp_def struct_defs byte_simps)
  assume "length (bs :: bytes) = 28"
  then show "enc_arp (dec_arp bs) = bs"
    by (rule list_by_length[rotated])
       (simp add: enc_arp_def dec_arp_def struct_defs byte_simps upt_unfold)
qed

section \<open>TCP\<close>

record tcphdr =
  th_sport :: u16
  th_dport :: u16
  th_seq :: u32
  th_ack :: u32
  th_x2 :: "4 word"
  th_off :: "4 word"
  th_flags :: u8
  th_rwnd :: u16
  th_checksum :: u16
  th_urp :: u16

definition TCP_FIN :: u8 where "TCP_FIN = 0x01"
definition TCP_SYN :: u8 where "TCP_SYN = 0x02"
definition TCP_RST :: u8 where "TCP_RST = 0x04"
definition TCP_PSH :: u8 where "TCP_PSH = 0x08"
definition TCP_ACK :: u8 where "TCP_ACK = 0x10"
definition TCP_URG :: u8 where "TCP_URG = 0x20"

definition enc_tcp :: "tcphdr \<Rightarrow> bytes" where
  "enc_tcp h = put16 (th_sport h) @ put16 (th_dport h) @ put32 (th_seq h) @ put32 (th_ack h)
     @ [nibbles (th_x2 h) (th_off h), th_flags h] @ put16 (th_rwnd h) @ put16 (th_checksum h)
     @ put16 (th_urp h)"

definition dec_tcp :: "bytes \<Rightarrow> tcphdr" where
  "dec_tcp bs = \<lparr>th_sport = get16 bs 0, th_dport = get16 bs 2, th_seq = get32 bs 4,
     th_ack = get32 bs 8, th_x2 = lo_nibble (bs ! 12), th_off = hi_nibble (bs ! 12),
     th_flags = bs ! 13, th_rwnd = get16 bs 14, th_checksum = get16 bs 16, th_urp = get16 bs 18\<rparr>"

interpretation tcph: layout enc_tcp dec_tcp 20
proof
  fix x bs
  show "length (enc_tcp x) = 20"
    by (simp add: enc_tcp_def)
  show "dec_tcp (enc_tcp x) = x"
    by (cases x) (simp add: enc_tcp_def dec_tcp_def struct_defs byte_simps)
  assume "length (bs :: bytes) = 20"
  then show "enc_tcp (dec_tcp bs) = bs"
    by (rule list_by_length[rotated])
       (simp add: enc_tcp_def dec_tcp_def struct_defs byte_simps upt_unfold)
qed

section \<open>Accessors\<close>

text \<open>\<^verbatim>\<open>packet_to_ip_hdr\<close> is the offset 14 of the packet; the casts below read and write the header
  there.\<close>

abbreviation get_eth :: "bytes \<Rightarrow> ether_header option" where
  "get_eth m \<equiv> load_struct dec_ether 14 m 0"
abbreviation put_eth :: "bytes \<Rightarrow> ether_header \<Rightarrow> bytes option" where
  "put_eth m h \<equiv> store_struct enc_ether m 0 h"
abbreviation get_ip :: "bytes \<Rightarrow> nat \<Rightarrow> iphdr option" where
  "get_ip m off \<equiv> load_struct dec_ip 20 m off"
abbreviation put_ip :: "bytes \<Rightarrow> nat \<Rightarrow> iphdr \<Rightarrow> bytes option" where
  "put_ip m off h \<equiv> store_struct enc_ip m off h"
abbreviation get_icmp :: "bytes \<Rightarrow> nat \<Rightarrow> icmphdr option" where
  "get_icmp m off \<equiv> load_struct dec_icmp 8 m off"
abbreviation put_icmp :: "bytes \<Rightarrow> nat \<Rightarrow> icmphdr \<Rightarrow> bytes option" where
  "put_icmp m off h \<equiv> store_struct enc_icmp m off h"
abbreviation get_arp :: "bytes \<Rightarrow> nat \<Rightarrow> ether_arp option" where
  "get_arp m off \<equiv> load_struct dec_arp 28 m off"
abbreviation put_arp :: "bytes \<Rightarrow> nat \<Rightarrow> ether_arp \<Rightarrow> bytes option" where
  "put_arp m off h \<equiv> store_struct enc_arp m off h"
abbreviation get_tcp :: "bytes \<Rightarrow> nat \<Rightarrow> tcphdr option" where
  "get_tcp m off \<equiv> load_struct dec_tcp 20 m off"
abbreviation put_tcp :: "bytes \<Rightarrow> nat \<Rightarrow> tcphdr \<Rightarrow> bytes option" where
  "put_tcp m off h \<equiv> store_struct enc_tcp m off h"

text \<open>\<^verbatim>\<open>IP_HDR_SIZE\<close> and \<^verbatim>\<open>TCP_HDR_SIZE\<close>.\<close>

definition IP_HDR_SIZE :: "iphdr \<Rightarrow> nat" where "IP_HDR_SIZE h = 4 * unat (ip_ihl h)"
definition TCP_HDR_SIZE :: "tcphdr \<Rightarrow> nat" where "TCP_HDR_SIZE h = 4 * unat (th_off h)"

section \<open>Header checksums\<close>

text \<open>\<^verbatim>\<open>ip_checksum(hdr)\<close> with \<^verbatim>\<open>hdr\<close> at offset \<open>off\<close> of \<open>m\<close>: the field is zeroed for the
  computation and restored, so the memory is unchanged on return.\<close>

definition ip_checksum :: "bytes \<Rightarrow> nat \<Rightarrow> u16 option" where
  "ip_checksum m off = do {
     h \<leftarrow> get_ip m off;
     m' \<leftarrow> put_ip m off (h\<lparr>ip_checksum_fld := 0\<rparr>);
     checksum m' off (int (IP_HDR_SIZE h)) 0 }"

definition icmp_checksum :: "bytes \<Rightarrow> nat \<Rightarrow> int \<Rightarrow> u16 option" where
  "icmp_checksum m off len = do {
     h \<leftarrow> get_icmp m off;
     m' \<leftarrow> put_icmp m off (h\<lparr>icmp_checksum_fld := 0\<rparr>);
     checksum m' off len 0 }"

text \<open>\<^verbatim>\<open>tcp_checksum(ip, tcp)\<close>: the pseudo header is added in 32-bit arithmetic, so a carry out of
  \<^verbatim>\<open>saddr + daddr\<close> is lost.\<close>

definition tcp_checksum :: "bytes \<Rightarrow> nat \<Rightarrow> nat \<Rightarrow> u16 option" where
  "tcp_checksum m ip_off tcp_off = do {
     ip \<leftarrow> get_ip m ip_off;
     tcp \<leftarrow> get_tcp m tcp_off;
     m' \<leftarrow> put_tcp m tcp_off (tcp\<lparr>th_checksum := 0\<rparr>);
     let tcp_len = (ntohs (ip_tot_len ip) - of_nat (IP_HDR_SIZE ip) :: u16);
     let s = ip_saddr ip + ip_daddr ip + ucast (htons (ucast (ip_protocol ip))) + ucast (htons tcp_len);
     checksum m' tcp_off (int (unat tcp_len)) s }"

text \<open>Storing a header changes the words it occupies and nothing else.\<close>

lemma word_total_append:
  "even (length xs) \<Longrightarrow> word_total (xs @ ys) = word_total xs + word_total ys"
  by (induction xs rule: word_total.induct) auto

lemma word_total_put [simp]:
  "word_total (put16 w) = unat w"
  by (simp add: put16_def unat_mk16_bytes [symmetric, unfolded One_nat_def])

lemma even_put: "even (length (put16 w))" "even (length (put32 v))"
  by simp_all

text \<open>The one's complement sum of an IP header without options, as the sum over the other fields
  plus the checksum field.\<close>

lemma word_total_enc_ip:
  "word_total (enc_ip h) = word_total (enc_ip (h\<lparr>ip_checksum_fld := 0\<rparr>)) + unat (ip_checksum_fld h)"
proof -
  define pre where "pre = [nibbles (ip_ihl h) (ip_version h), ip_tos h] @ put16 (ip_tot_len h)
     @ put16 (ip_id h) @ put16 (ip_frag_off h) @ [ip_ttl h, ip_protocol h]"
  define post where "post = put32 (ip_saddr h) @ put32 (ip_daddr h)"
  have e: "even (length pre)"
    by (simp add: pre_def)
  have "enc_ip (h\<lparr>ip_checksum_fld := c\<rparr>) = pre @ put16 c @ post" for c
    by (simp add: enc_ip_def pre_def post_def)
  then have "word_total (enc_ip (h\<lparr>ip_checksum_fld := c\<rparr>)) = word_total pre + unat c + word_total post" for c
    using e by (simp add: word_total_append)
  from this [of "ip_checksum_fld h"] this [of 0] show ?thesis
    by simp
qed

text \<open>A header whose stored checksum is right, as a receiver tests it.\<close>

definition ip_header_ok :: "bytes \<Rightarrow> nat \<Rightarrow> bool" where
  "ip_header_ok m off = (case get_ip m off of None \<Rightarrow> False | Some h \<Rightarrow>
     off + IP_HDR_SIZE h \<le> length m \<and>
     oc_norm (word_total (take (IP_HDR_SIZE h) (drop off m))) = 65535)"

lemma store_struct_take_drop:
  assumes "store_struct enc m off x = Some m'" "length (enc x) = sz" "sz \<le> n" "off + n \<le> length m"
  shows "take n (drop off m') = enc x @ take (n - sz) (drop (off + sz) m)"
  using assms by (simp add: store_struct_def store_bytes_Some min_absorb2)

lemma ihl_bound: "unat (w :: 4 word) < 16"
  using unsigned_less [of w, where ?'a = nat] by simp

text \<open>Writing the computed checksum into the header makes it verify, options included.\<close>

lemma ip_checksum_store_ok:
  assumes h: "get_ip m off = Some h"
    and len: "5 \<le> unat (ip_ihl h)" "off + IP_HDR_SIZE h \<le> length m"
  shows "\<exists>c m'. ip_checksum m off = Some c \<and> put_ip m off (h\<lparr>ip_checksum_fld := c\<rparr>) = Some m'
           \<and> ip_header_ok m' off"
proof -
  define n where "n = IP_HDR_SIZE h"
  have n: "20 \<le> n" "even n" "off + n \<le> length m" "n \<le> 60"
    using len ihl_bound [of "ip_ihl h"] by (auto simp: n_def IP_HDR_SIZE_def)
  define rest where "rest = take (n - 20) (drop (off + 20) m)"
  have written: "\<exists>m'. put_ip m off x = Some m' \<and> take n (drop off m') = enc_ip x @ rest
      \<and> length m' = length m" for x
    using iph.store_defined [of off m x] n store_struct_take_drop [of enc_ip m off x _ 20 n]
    by (auto simp: rest_def iph.length_enc dest: iph.store_length)
  obtain m0 where m0: "put_ip m off (h\<lparr>ip_checksum_fld := 0\<rparr>) = Some m0"
    "take n (drop off m0) = enc_ip (h\<lparr>ip_checksum_fld := 0\<rparr>) @ rest" "length m0 = length m"
    using written by blast
  have small: "word_total (take n (drop off m0)) < 2 ^ 32"
    using word_total_bound [of "take n (drop off m0)"] n by simp
  obtain c where c: "checksum m0 off (int n) 0 = Some c"
    "unat c = 65535 - oc_norm (word_total (take n (drop off m0)))"
    using checksum_value [of off n m0 0] n m0(3) small by auto
  obtain m' where m': "put_ip m off (h\<lparr>ip_checksum_fld := c\<rparr>) = Some m'"
    "take n (drop off m') = enc_ip (h\<lparr>ip_checksum_fld := c\<rparr>) @ rest" "length m' = length m"
    using written by blast
  have "even (length (enc_ip x))" for x
    by (simp add: iph.length_enc)
  then have "word_total (take n (drop off m')) = word_total (take n (drop off m0)) + unat c"
    using word_total_enc_ip [of "h\<lparr>ip_checksum_fld := c\<rparr>"] by (simp add: m0 m' word_total_append)
  then have "oc_norm (word_total (take n (drop off m'))) = 65535"
    using c(2) by (simp add: oc_norm_complement)
  then have "ip_header_ok m' off"
    using n m'(3) by (simp add: ip_header_ok_def iph.load_after_store [OF m'(1)] n_def IP_HDR_SIZE_def)
  moreover have "ip_checksum m off = Some c"
    using h m0(1) c(1) by (simp add: ip_checksum_def n_def)
  ultimately show ?thesis
    using m'(1) by blast
qed

end
