(* ===== verification/Net.thy ===== *)
theory Net
  imports Headers
begin

text \<open>
  The state of the user-level stack (\<^verbatim>\<open>base.h\<close>, \<^verbatim>\<open>arpcache.h\<close>, \<^verbatim>\<open>rtable.h\<close>) and the sending of
  frames (\<^verbatim>\<open>packet.c\<close>). The record \<open>ustack\<close> gathers the globals of the process: the instance
  with its interfaces, the routing table, the ARP cache, and of the environment the clock
  \<^verbatim>\<open>time(NULL)\<close>, the stream of \<^verbatim>\<open>rand()\<close> values and the trace \<open>wire\<close> of frames handed to
  \<^verbatim>\<open>sendto\<close>, oldest first. The record is extensible: the NAT, MOSPF and TCP theories add their
  own globals, and the operations here work on any extension.

  Interfaces are never changed after initialisation, so a pointer to one is modelled by its
  value. Linked lists are Isabelle lists (theory Clist relates them to the pointer structure).
\<close>

record iface_info =
  if_fd :: int
  if_index :: int
  if_mac :: mac
  if_ip :: u32
  if_mask :: u32
  if_nm :: string

record rt_entry =
  rt_dest :: u32
  rt_mask :: u32
  rt_gw :: u32
  rt_flags :: int
  rt_if_name :: string
  rt_iface :: iface_info

record arp_cache_entry =
  ent_ip4 :: u32
  ent_mac :: mac
  ent_added :: int
  ent_valid :: bool

record cached_pkt =
  cp_packet :: bytes
  cp_len :: int

record arp_req =
  req_iface :: iface_info
  req_ip4 :: u32
  req_sent :: int
  req_retries :: int
  req_pkts :: "cached_pkt list"

record arpcache_t =
  entries :: "arp_cache_entry list"
  req_list :: "arp_req list"

type_synonym frame = "iface_info \<times> bytes"

record ustack =
  iface_list :: "iface_info list"
  rtable :: "rt_entry list"
  arpcache :: arpcache_t
  now :: int
  rand_fn :: "nat \<Rightarrow> nat"
  rand_pos :: nat
  wire :: "frame list"

text \<open>\<^verbatim>\<open>rand()\<close>: the next value of the stream.\<close>

definition rand :: "'a ustack_scheme \<Rightarrow> nat \<times> 'a ustack_scheme" where
  "rand s = (rand_fn s (rand_pos s), s\<lparr>rand_pos := Suc (rand_pos s)\<rparr>)"

section \<open>Sending\<close>

text \<open>\<^verbatim>\<open>_iface_send_packet\<close> reads the destination address out of the packet and hands \<open>len\<close> bytes
  to \<^verbatim>\<open>sendto\<close>. A negative length is a huge \<^verbatim>\<open>size_t\<close>, which \<^verbatim>\<open>sendto\<close> refuses and the function
  only reports; a length beyond the buffer reads outside it.\<close>

definition iface_send_frame :: "iface_info \<Rightarrow> bytes \<Rightarrow> int \<Rightarrow> 'a ustack_scheme \<Rightarrow> 'a ustack_scheme option" where
  "iface_send_frame iface packet len s = do {
     dhost \<leftarrow> load_bytes packet 0 ETH_ALEN;
     if len < 0 then Some s
     else do {
       sent \<leftarrow> load_bytes packet 0 (nat len);
       Some (s\<lparr>wire := wire s @ [(iface, sent)]\<rparr>) } }"

text \<open>\<^verbatim>\<open>iface_send_packet\<close> also frees the packet; the caller gives it up.\<close>

definition iface_send_packet :: "iface_info \<Rightarrow> bytes \<Rightarrow> int \<Rightarrow> 'a ustack_scheme \<Rightarrow> 'a ustack_scheme option" where
  "iface_send_packet iface packet len s = iface_send_frame iface packet len s"

definition broadcast_packet :: "iface_info \<Rightarrow> bytes \<Rightarrow> int \<Rightarrow> 'a ustack_scheme \<Rightarrow> 'a ustack_scheme option" where
  "broadcast_packet in_iface packet len s =
     fold_opt (\<lambda>iface s. if if_index iface = if_index in_iface then Some s
                         else iface_send_frame iface packet len s) (iface_list s) s"

text \<open>A packet as the callers hold it: a whole buffer of its own length, with room for the
  Ethernet header.\<close>

definition whole :: "bytes \<Rightarrow> int \<Rightarrow> bool" where
  "whole packet len \<longleftrightarrow> len = int (length packet) \<and> 14 \<le> length packet"

lemma iface_send_packet_whole [simp]:
  "whole packet len \<Longrightarrow> iface_send_packet iface packet len s = Some (s\<lparr>wire := wire s @ [(iface, packet)]\<rparr>)"
  by (auto simp: iface_send_packet_def iface_send_frame_def load_bytes_def whole_def)

lemma iface_send_frame_whole [simp]:
  "whole packet len \<Longrightarrow> iface_send_frame iface packet len s = Some (s\<lparr>wire := wire s @ [(iface, packet)]\<rparr>)"
  by (auto simp: iface_send_frame_def load_bytes_def whole_def)

lemma broadcast_loop:
  assumes "whole packet len"
  shows "fold_opt (\<lambda>iface s. if if_index iface = if_index in_iface then Some s
                             else iface_send_frame iface packet len s) ifs s
         = Some (s\<lparr>wire := wire s @ map (\<lambda>i. (i, packet))
                      (filter (\<lambda>i. if_index i \<noteq> if_index in_iface) ifs)\<rparr>)"
  using assms by (induction ifs arbitrary: s) auto

text \<open>Flooding: broadcasting a packet sends exactly one unchanged copy out of every
  interface other than the one it came in on, in the order of the interface list, and changes
  nothing else of the state.\<close>

theorem broadcast_packet_floods:
  assumes "whole packet len"
  shows "broadcast_packet in_iface packet len s
         = Some (s\<lparr>wire := wire s @ map (\<lambda>i. (i, packet))
                      (filter (\<lambda>i. if_index i \<noteq> if_index in_iface) (iface_list s))\<rparr>)"
  unfolding broadcast_packet_def by (rule broadcast_loop [OF assms])

definition iface0 :: iface_info where
  "iface0 = \<lparr>if_fd = 3, if_index = 1, if_mac = Mac 0 0 0 0 0 1, if_ip = 0x0A000001,
     if_mask = 0xFFFFFF00, if_nm = ''r1-eth0''\<rparr>"

definition iface1 :: iface_info where
  "iface1 = \<lparr>if_fd = 4, if_index = 2, if_mac = Mac 0 0 0 0 0 2, if_ip = 0x0A000101,
     if_mask = 0xFFFFFF00, if_nm = ''r1-eth1''\<rparr>"

definition iface2 :: iface_info where
  "iface2 = \<lparr>if_fd = 5, if_index = 3, if_mac = Mac 0 0 0 0 0 3, if_ip = 0x0A000201,
     if_mask = 0xFFFFFF00, if_nm = ''r1-eth2''\<rparr>"

definition ustack0 :: ustack where
  "ustack0 = \<lparr>iface_list = [iface0, iface1, iface2], rtable = [],
     arpcache = \<lparr>entries = replicate 32 \<lparr>ent_ip4 = 0, ent_mac = Mac 0 0 0 0 0 0, ent_added = 0, ent_valid = False\<rparr>,
                 req_list = []\<rparr>,
     now = 0, rand_fn = (\<lambda>n. n), rand_pos = 0, wire = []\<rparr>"

theorem broadcast_packet_floods_witness:
  "broadcast_packet iface1 (replicate 60 7) 60 ustack0
     = Some (ustack0\<lparr>wire := [(iface0, replicate 60 7), (iface2, replicate 60 7)]\<rparr>)"
  by (subst broadcast_packet_floods)
     (simp_all add: whole_def ustack0_def iface0_def iface1_def iface2_def)

section \<open>Receiving\<close>

text \<open>\<^verbatim>\<open>fd_to_iface\<close> of \<^verbatim>\<open>main.c\<close> and \<^verbatim>\<open>if_name_to_iface\<close> of \<^verbatim>\<open>rtable_internal.c\<close>.\<close>

definition fd_to_iface :: "'a ustack_scheme \<Rightarrow> int \<Rightarrow> iface_info option" where
  "fd_to_iface s fd = find (\<lambda>i. if_fd i = fd) (iface_list s)"

definition if_name_to_iface :: "'a ustack_scheme \<Rightarrow> string \<Rightarrow> iface_info option" where
  "if_name_to_iface s name = find (\<lambda>i. if_nm i = name) (iface_list s)"

text \<open>\<^verbatim>\<open>handle_packet\<close> dispatches on the Ethernet type to the handlers of the IP and ARP layers,
  which are arguments here.\<close>

definition handle_packet ::
  "(iface_info \<Rightarrow> bytes \<Rightarrow> int \<Rightarrow> 's \<Rightarrow> 's option) \<Rightarrow> (iface_info \<Rightarrow> bytes \<Rightarrow> int \<Rightarrow> 's \<Rightarrow> 's option) \<Rightarrow>
   iface_info \<Rightarrow> bytes \<Rightarrow> int \<Rightarrow> 's \<Rightarrow> 's option" where
  "handle_packet ip arp iface packet len s = do {
     eh \<leftarrow> get_eth packet;
     if ntohs (ether_type eh) = ETH_P_IP then ip iface packet len s
     else if ntohs (ether_type eh) = ETH_P_ARP then arp iface packet len s
     else Some s }"

text \<open>One received frame of the loop \<^verbatim>\<open>ustack_run\<close>: \<open>len\<close> is the result of \<^verbatim>\<open>recvfrom\<close> on the
  descriptor, \<open>buf\<close> the received bytes, \<open>outgoing\<close> the packet type test. The interface lookup
  may fail, in which case the null pointer is passed on and dereferenced.\<close>

definition ustack_run_step ::
  "(iface_info \<Rightarrow> bytes \<Rightarrow> int \<Rightarrow> 'a ustack_scheme \<Rightarrow> 'a ustack_scheme option) \<Rightarrow>
   int \<Rightarrow> bytes \<Rightarrow> bool \<Rightarrow> 'a ustack_scheme \<Rightarrow> 'a ustack_scheme option" where
  "ustack_run_step handle fd buf outgoing s =
     (if buf = [] then Some s
      else if outgoing then Some s
      else do {
        iface \<leftarrow> fd_to_iface s fd;
        handle iface buf (int (length buf)) s })"

end
