(* ===== verification/Arp.thy ===== *)
theory Arp
  imports Net
begin

text \<open>
  ARP: the requests and replies of \<^verbatim>\<open>arp.c\<close> and the cache with its queue of packets waiting for
  an address, \<^verbatim>\<open>arpcache.c\<close> (labs 10 to 17; the line numbers of the map are those of lab 17). The
  sweeping thread also sends ICMP messages and is in theory Ip. The cache as a table that may
  forget but never lies is the locale \<open>lossy_table\<close>.
\<close>

definition MAX_ARP_SIZE :: nat where "MAX_ARP_SIZE = 32"
definition ARP_ENTRY_TIMEOUT :: int where "ARP_ENTRY_TIMEOUT = 15"
definition ARP_REQUEST_MAX_RETRIES :: int where "ARP_REQUEST_MAX_RETRIES = 5"

lemmas arp_consts [simp] = MAX_ARP_SIZE_def ARP_ENTRY_TIMEOUT_def ARP_REQUEST_MAX_RETRIES_def

definition bc_mac :: mac where "bc_mac = Mac 255 255 255 255 255 255"

section \<open>Messages\<close>

definition arp_request_packet :: "iface_info \<Rightarrow> u32 \<Rightarrow> bytes" where
  "arp_request_packet iface dst_ip =
     enc_ether \<lparr>ether_dhost = bc_mac, ether_shost = if_mac iface, ether_type = htons ETH_P_ARP\<rparr> @
     enc_arp \<lparr>arp_hrd = htons ARPHRD_ETHER, arp_pro = htons ETH_P_IP, arp_hln = 6, arp_pln = 4,
              arp_op = htons ARPOP_REQUEST, arp_sha = if_mac iface, arp_spa = htonl (if_ip iface),
              arp_tha = Mac 0 0 0 0 0 0, arp_tpa = htonl dst_ip\<rparr>"

definition arp_send_request :: "iface_info \<Rightarrow> u32 \<Rightarrow> 'a ustack_scheme \<Rightarrow> 'a ustack_scheme option" where
  "arp_send_request iface dst_ip s = iface_send_packet iface (arp_request_packet iface dst_ip) 42 s"

definition arp_reply_packet :: "iface_info \<Rightarrow> ether_arp \<Rightarrow> bytes" where
  "arp_reply_packet iface req_hdr =
     enc_ether \<lparr>ether_dhost = arp_sha req_hdr, ether_shost = if_mac iface, ether_type = htons ETH_P_ARP\<rparr> @
     enc_arp \<lparr>arp_hrd = htons ARPHRD_ETHER, arp_pro = htons ETH_P_IP, arp_hln = 6, arp_pln = 4,
              arp_op = htons ARPOP_REPLY, arp_sha = if_mac iface, arp_spa = htonl (if_ip iface),
              arp_tha = arp_sha req_hdr, arp_tpa = arp_spa req_hdr\<rparr>"

definition arp_send_reply :: "iface_info \<Rightarrow> ether_arp \<Rightarrow> 'a ustack_scheme \<Rightarrow> 'a ustack_scheme option" where
  "arp_send_reply iface req_hdr s = iface_send_packet iface (arp_reply_packet iface req_hdr) 42 s"

section \<open>The cache\<close>

definition arpcache_init :: "'a ustack_scheme \<Rightarrow> 'a ustack_scheme" where
  "arpcache_init s = s\<lparr>arpcache :=
     \<lparr>entries = replicate MAX_ARP_SIZE \<lparr>ent_ip4 = 0, ent_mac = Mac 0 0 0 0 0 0, ent_added = 0, ent_valid = False\<rparr>,
      req_list = []\<rparr>\<rparr>"

definition ent_hit :: "u32 \<Rightarrow> arp_cache_entry \<Rightarrow> bool" where
  "ent_hit ip4 e \<longleftrightarrow> ent_valid e \<and> ent_ip4 e = ip4"

definition arpcache_lookup :: "'a ustack_scheme \<Rightarrow> u32 \<Rightarrow> mac option" where
  "arpcache_lookup s ip4 = map_option ent_mac (find (ent_hit ip4) (entries (arpcache s)))"

text \<open>The search for a request with the same interface and address; the packet is appended to it.\<close>

fun append_to_req :: "iface_info \<Rightarrow> u32 \<Rightarrow> cached_pkt \<Rightarrow> arp_req list \<Rightarrow> arp_req list option" where
  "append_to_req iface ip4 pkt [] = None"
| "append_to_req iface ip4 pkt (r # rs) =
     (if if_index (req_iface r) = if_index iface \<and> req_ip4 r = ip4
      then Some (r\<lparr>req_pkts := req_pkts r @ [pkt]\<rparr> # rs)
      else map_option (\<lambda>rs'. r # rs') (append_to_req iface ip4 pkt rs))"

definition arpcache_append_packet ::
  "iface_info \<Rightarrow> u32 \<Rightarrow> bytes \<Rightarrow> int \<Rightarrow> 'a ustack_scheme \<Rightarrow> 'a ustack_scheme option" where
  "arpcache_append_packet iface ip4 packet len s =
     (let pkt = \<lparr>cp_packet = packet, cp_len = len\<rparr>; c = arpcache s in
      case append_to_req iface ip4 pkt (req_list c) of
        Some rs \<Rightarrow> Some (s\<lparr>arpcache := c\<lparr>req_list := rs\<rparr>\<rparr>)
      | None \<Rightarrow>
          arp_send_request iface ip4
            (s\<lparr>arpcache := c\<lparr>req_list := \<lparr>req_iface = iface, req_ip4 = ip4, req_sent = now s,
                 req_retries = 1, req_pkts = [pkt]\<rparr> # req_list c\<rparr>\<rparr>))"

text \<open>The scan of \<^verbatim>\<open>arpcache_insert\<close>: entries for the address are refreshed, \<open>pos\<close> ends at the last
  invalid entry.\<close>

fun insert_scan :: "int \<Rightarrow> u32 \<Rightarrow> mac \<Rightarrow> arp_cache_entry list \<Rightarrow> int \<Rightarrow> int \<times> bool \<Rightarrow>
    arp_cache_entry list \<times> int \<times> bool" where
  "insert_scan t ip4 mac [] i (pos, found) = ([], pos, found)"
| "insert_scan t ip4 mac (e # es) i (pos, found) =
     (let hit = ent_valid e \<and> ent_ip4 e = ip4;
          e' = (if hit then e\<lparr>ent_mac := mac, ent_added := t\<rparr> else e);
          (es', r) = insert_scan t ip4 mac es (i + 1) (if \<not> ent_valid e then i else pos, found \<or> hit)
      in (e' # es', r))"

text \<open>The choice of the slot, as written: a free position is replaced by a random one, and
  without a free position the index stays \<open>-1\<close>.\<close>

definition insert_entry :: "u32 \<Rightarrow> mac \<Rightarrow> 'a ustack_scheme \<Rightarrow> 'a ustack_scheme option" where
  "insert_entry ip4 mac s =
     (let (es, pos, found) = insert_scan (now s) ip4 mac (entries (arpcache s)) 0 (-1, False)
      in if found then Some (s\<lparr>arpcache := (arpcache s)\<lparr>entries := es\<rparr>\<rparr>)
         else let (pos, s) = (if pos \<noteq> -1 then (let (r, s) = rand s in (int (r mod MAX_ARP_SIZE), s))
                              else (pos, s))
              in do {
                ensure (0 \<le> pos \<and> nat pos < length es);
                Some (s\<lparr>arpcache := (arpcache s)\<lparr>entries :=
                   es[nat pos := \<lparr>ent_ip4 = ip4, ent_mac = mac, ent_added = now s, ent_valid = True\<rparr>]\<rparr>\<rparr>) })"

text \<open>Sending the packets of one request: both addresses of the Ethernet header are filled in.\<close>

definition flush_packet :: "iface_info \<Rightarrow> mac \<Rightarrow> cached_pkt \<Rightarrow> 'a ustack_scheme \<Rightarrow> 'a ustack_scheme option" where
  "flush_packet iface mac pkt s = do {
     p \<leftarrow> store_bytes (cp_packet pkt) 0 (mac_bytes mac);
     p \<leftarrow> store_bytes p ETH_ALEN (mac_bytes (if_mac iface));
     iface_send_packet iface p (cp_len pkt) s }"

text \<open>The scan of the request list stops at the first request for the address.\<close>

fun flush_reqs :: "u32 \<Rightarrow> mac \<Rightarrow> arp_req list \<Rightarrow> 'a ustack_scheme \<Rightarrow> (arp_req list \<times> 'a ustack_scheme) option" where
  "flush_reqs ip4 mac [] s = Some ([], s)"
| "flush_reqs ip4 mac (r # rs) s =
     (if req_ip4 r = ip4
      then do { s \<leftarrow> fold_opt (flush_packet (req_iface r) mac) (req_pkts r) s; Some (rs, s) }
      else do { (rs', s) \<leftarrow> flush_reqs ip4 mac rs s; Some (r # rs', s) })"

definition arpcache_insert :: "u32 \<Rightarrow> mac \<Rightarrow> 'a ustack_scheme \<Rightarrow> 'a ustack_scheme option" where
  "arpcache_insert ip4 mac s = do {
     s \<leftarrow> insert_entry ip4 mac s;
     (rs, s) \<leftarrow> flush_reqs ip4 mac (req_list (arpcache s)) s;
     Some (s\<lparr>arpcache := (arpcache s)\<lparr>req_list := rs\<rparr>\<rparr>) }"

text \<open>The aging of entries in \<^verbatim>\<open>arpcache_sweep\<close>.\<close>

definition expire_entries :: "int \<Rightarrow> arp_cache_entry list \<Rightarrow> arp_cache_entry list" where
  "expire_entries t es =
     map (\<lambda>e. if ent_valid e \<and> t - ent_added e \<ge> ARP_ENTRY_TIMEOUT then e\<lparr>ent_valid := False\<rparr> else e) es"

definition arp_age :: "int \<Rightarrow> 'a ustack_scheme \<Rightarrow> 'a ustack_scheme" where
  "arp_age t s = s\<lparr>arpcache := (arpcache s)\<lparr>entries := expire_entries t (entries (arpcache s))\<rparr>\<rparr>"

definition arpcache_destroy :: "'a ustack_scheme \<Rightarrow> 'a ustack_scheme" where
  "arpcache_destroy s = s\<lparr>arpcache := (arpcache s)\<lparr>req_list := []\<rparr>\<rparr>"

section \<open>Handlers\<close>

definition handle_arp_packet :: "iface_info \<Rightarrow> bytes \<Rightarrow> int \<Rightarrow> 'a ustack_scheme \<Rightarrow> 'a ustack_scheme option" where
  "handle_arp_packet iface packet len s = do {
     arp \<leftarrow> get_arp packet ETHER_HDR_SIZE;
     let src_ip = ntohl (arp_spa arp);
     let dst_ip = ntohl (arp_tpa arp);
     if ntohs (arp_op arp) = ARPOP_REQUEST then
       (if if_ip iface = dst_ip then do {
          s \<leftarrow> arp_send_reply iface arp s;
          arpcache_insert src_ip (arp_sha arp) s }
        else Some s)
     else if ntohs (arp_op arp) = ARPOP_REPLY then
       (if if_ip iface = dst_ip then arpcache_insert src_ip (arp_sha arp) s else Some s)
     else Some s }"

definition iface_send_packet_by_arp ::
  "iface_info \<Rightarrow> u32 \<Rightarrow> bytes \<Rightarrow> int \<Rightarrow> 'a ustack_scheme \<Rightarrow> 'a ustack_scheme option" where
  "iface_send_packet_by_arp iface dst_ip packet len s = do {
     eh \<leftarrow> get_eth packet;
     let eh = eh\<lparr>ether_shost := if_mac iface, ether_type := htons ETH_P_IP\<rparr>;
     packet \<leftarrow> put_eth packet eh;
     (case arpcache_lookup s dst_ip of
        Some dst_mac \<Rightarrow> do {
          packet \<leftarrow> put_eth packet (eh\<lparr>ether_dhost := dst_mac\<rparr>);
          iface_send_packet iface packet len s }
      | None \<Rightarrow> arpcache_append_packet iface dst_ip packet len s) }"

section \<open>A table that may forget\<close>

text \<open>
  The interface the senders rely on: after an insertion the key has the inserted value, every
  other key keeps its value or is forgotten, and aging only forgets. A client may then trust
  every answer: it is the value inserted last.
\<close>

datatype ('k, 'v, 't) table_op = Put 'k 'v | Age 't

fun last_put :: "('k, 'v, 't) table_op list \<Rightarrow> 'k \<Rightarrow> 'v option \<Rightarrow> 'v option" where
  "last_put [] k v = v"
| "last_put (Put k' v' # ops) k v = last_put ops k (if k' = k then Some v' else v)"
| "last_put (Age t # ops) k v = last_put ops k v"

locale lossy_table =
  fixes inv :: "'s \<Rightarrow> bool"
    and lookup :: "'s \<Rightarrow> 'k \<Rightarrow> 'v option"
    and put :: "'k \<Rightarrow> 'v \<Rightarrow> 's \<Rightarrow> 's option"
    and age :: "'t \<Rightarrow> 's \<Rightarrow> 's"
  assumes put_inv: "inv s \<Longrightarrow> put k v s = Some s' \<Longrightarrow> inv s'"
    and put_same: "inv s \<Longrightarrow> put k v s = Some s' \<Longrightarrow> lookup s' k = Some v"
    and put_other: "inv s \<Longrightarrow> put k v s = Some s' \<Longrightarrow> k' \<noteq> k \<Longrightarrow> lookup s' k' \<in> {lookup s k', None}"
    and age_inv: "inv s \<Longrightarrow> inv (age t s)"
    and age_forgets: "inv s \<Longrightarrow> lookup (age t s) k \<in> {lookup s k, None}"
begin

lemma run_sound:
  assumes "fold_opt (\<lambda>x s. case x of Put k v \<Rightarrow> put k v s | Age t \<Rightarrow> Some (age t s)) ops s = Some s'"
    and "inv s" and "lookup s k \<in> {v, None}"
  shows "inv s' \<and> lookup s' k \<in> {last_put ops k v, None}"
  using assms
proof (induction ops k v arbitrary: s rule: last_put.induct)
  case (2 k' v' ops k v)
  obtain t where t: "put k' v' s = Some t"
    "fold_opt (\<lambda>x s. case x of Put k v \<Rightarrow> put k v s | Age t \<Rightarrow> Some (age t s)) ops t = Some s'"
    using 2(2) by (auto simp: bind_eq_Some_conv)
  have "lookup t k \<in> {if k' = k then Some v' else v, None}"
    using put_same [OF 2(3) t(1)] put_other [OF 2(3) t(1), of k] 2(4) by auto
  then show ?case
    using 2(1) [OF t(2) put_inv [OF 2(3) t(1)]] by simp
next
  case (3 t ops k v)
  then show ?case
    using age_inv [OF 3(3), of t] age_forgets [OF 3(3), of t k] by fastforce
qed simp

end

section \<open>The cache is such a table\<close>

definition arp_inv :: "'a ustack_scheme \<Rightarrow> bool" where
  "arp_inv s \<longleftrightarrow> length (entries (arpcache s)) = 32 \<and>
     (\<forall>i < 32. \<forall>j < 32. ent_valid (entries (arpcache s) ! i) \<and> ent_valid (entries (arpcache s) ! j) \<and>
        ent_ip4 (entries (arpcache s) ! i) = ent_ip4 (entries (arpcache s) ! j) \<longrightarrow> i = j)"

abbreviation refresh :: "int \<Rightarrow> u32 \<Rightarrow> mac \<Rightarrow> arp_cache_entry \<Rightarrow> arp_cache_entry" where
  "refresh t ip4 m e \<equiv> (if ent_hit ip4 e then e\<lparr>ent_mac := m, ent_added := t\<rparr> else e)"

lemma insert_scan_spec:
  "\<exists>p. insert_scan t ip4 m es i (pos, fnd) = (map (refresh t ip4 m) es, p, fnd \<or> (\<exists>e \<in> set es. ent_hit ip4 e))
     \<and> (if \<forall>e \<in> set es. ent_valid e then p = pos else i \<le> p)"
proof (induction es arbitrary: i pos fnd)
  case (Cons e es)
  obtain p where "insert_scan t ip4 m es (i + 1) (if \<not> ent_valid e then i else pos, fnd \<or> ent_hit ip4 e)
      = (map (refresh t ip4 m) es, p, (fnd \<or> ent_hit ip4 e) \<or> (\<exists>e \<in> set es. ent_hit ip4 e))"
    "if \<forall>e \<in> set es. ent_valid e then p = (if \<not> ent_valid e then i else pos) else i + 1 \<le> p"
    using Cons.IH by blast
  then show ?case
    by (intro exI [of _ p]) (auto simp: ent_hit_def split: if_splits)
qed simp

definition new_entry :: "int \<Rightarrow> u32 \<Rightarrow> mac \<Rightarrow> arp_cache_entry" where
  "new_entry t ip4 m = \<lparr>ent_ip4 = ip4, ent_mac = m, ent_added = t, ent_valid = True\<rparr>"

text \<open>The three outcomes of an insertion: refresh, a random slot, or the access at index -1.\<close>

lemma insert_entry_hit:
  assumes "\<exists>e \<in> set (entries (arpcache s)). ent_hit ip4 e"
  shows "insert_entry ip4 m s =
     Some (s\<lparr>arpcache := (arpcache s)\<lparr>entries := map (refresh (now s) ip4 m) (entries (arpcache s))\<rparr>\<rparr>)"
  using insert_scan_spec [of "now s" ip4 m "entries (arpcache s)" 0 "-1" False] assms
  by (auto simp: insert_entry_def)

lemma refresh_no_hit: "\<forall>e \<in> set es. \<not> ent_hit ip4 e \<Longrightarrow> map (refresh t ip4 m) es = es"
  by (simp add: map_idI)

lemma insert_entry_free:
  assumes "\<forall>e \<in> set (entries (arpcache s)). \<not> ent_hit ip4 e"
    and "\<exists>e \<in> set (entries (arpcache s)). \<not> ent_valid e" and "length (entries (arpcache s)) = 32"
  shows "insert_entry ip4 m s =
     Some (s\<lparr>rand_pos := Suc (rand_pos s), arpcache := (arpcache s)\<lparr>entries :=
        (entries (arpcache s))[rand_fn s (rand_pos s) mod 32 := new_entry (now s) ip4 m]\<rparr>\<rparr>)"
proof -
  obtain p where p: "insert_scan (now s) ip4 m (entries (arpcache s)) 0 (-1, False)
      = (entries (arpcache s), p, False)" "0 \<le> p"
    using insert_scan_spec [of "now s" ip4 m "entries (arpcache s)" 0 "-1" False] assms(1,2)
    by (auto simp: refresh_no_hit [OF assms(1)] split: if_splits)
  then show ?thesis
    using assms(3) by (auto simp: insert_entry_def rand_def new_entry_def nat_mod_distrib)
qed

lemma insert_entry_full:
  assumes "\<forall>e \<in> set (entries (arpcache s)). ent_valid e \<and> ent_ip4 e \<noteq> ip4"
  shows "insert_entry ip4 m s = None"
proof -
  have "\<forall>e \<in> set (entries (arpcache s)). \<not> ent_hit ip4 e" using assms by (auto simp: ent_hit_def)
  then have "insert_scan (now s) ip4 m (entries (arpcache s)) 0 (-1, False)
      = (entries (arpcache s), -1, False)"
    using insert_scan_spec [of "now s" ip4 m "entries (arpcache s)" 0 "-1" False] assms
    by (auto simp: refresh_no_hit)
  then show ?thesis by (simp add: insert_entry_def)
qed

text \<open>Flushing only adds to the trace of sent frames.\<close>

lemma wire_self: "\<exists>w. s = s\<lparr>wire := w\<rparr>"
  by (rule exI [of _ "wire s"]) simp

lemma flush_packet_wire:
  "flush_packet i m pkt s = Some s' \<Longrightarrow> \<exists>w. s' = s\<lparr>wire := w\<rparr>"
  by (auto simp: flush_packet_def iface_send_packet_def iface_send_frame_def bind_eq_Some_conv wire_self
      split: if_splits)

lemma flush_loop_wire:
  "fold_opt (flush_packet i m) ps s = Some s' \<Longrightarrow> \<exists>w. s' = s\<lparr>wire := w\<rparr>"
proof (induction ps arbitrary: s)
  case (Cons pkt ps)
  then obtain w s1 where "s1 = s\<lparr>wire := w\<rparr>" "fold_opt (flush_packet i m) ps s1 = Some s'"
    by (auto simp: bind_eq_Some_conv dest!: flush_packet_wire)
  then show ?case using Cons.IH [of s1] by auto
qed (simp add: wire_self)

lemma flush_reqs_wire:
  "flush_reqs ip4 m rs s = Some (rs', s') \<Longrightarrow> \<exists>w. s' = s\<lparr>wire := w\<rparr>"
  by (induction rs arbitrary: rs')
     (auto simp: bind_eq_Some_conv wire_self dest!: flush_loop_wire split: if_splits)

lemma arpcache_insert_entries:
  assumes "arpcache_insert ip4 m s = Some s'"
  obtains s1 where "insert_entry ip4 m s = Some s1" "entries (arpcache s') = entries (arpcache s1)"
  using assms by (auto simp: arpcache_insert_def bind_eq_Some_conv dest!: flush_reqs_wire)

lemma find_unique:
  assumes "i < length xs" "P (xs ! i)" "\<And>j. j < length xs \<Longrightarrow> P (xs ! j) \<Longrightarrow> j = i"
  shows "find P xs = Some (xs ! i)"
proof -
  obtain x where x: "find P xs = Some x"
    using assms(1,2) by (metis find_None_iff not_None_eq nth_mem)
  then obtain j where "j < length xs" "P (xs ! j)" "x = xs ! j"
    by (auto simp: find_Some_iff)
  then show ?thesis using assms(3) x by blast
qed

lemma arp_lookup_unique:
  assumes "arp_inv s" "i < 32" "ent_hit ip4 (entries (arpcache s) ! i)"
  shows "arpcache_lookup s ip4 = Some (ent_mac (entries (arpcache s) ! i))"
proof -
  have "find (ent_hit ip4) (entries (arpcache s)) = Some (entries (arpcache s) ! i)"
    using assms by (intro find_unique) (auto simp: arp_inv_def ent_hit_def)
  then show ?thesis by (simp add: arpcache_lookup_def)
qed

lemma arp_lookup_cases:
  assumes "arp_inv s"
  obtains i where "i < 32" "ent_hit ip4 (entries (arpcache s) ! i)"
      "arpcache_lookup s ip4 = Some (ent_mac (entries (arpcache s) ! i))"
    | "\<forall>i < 32. \<not> ent_hit ip4 (entries (arpcache s) ! i)" "arpcache_lookup s ip4 = None"
proof (cases "\<exists>i < 32. ent_hit ip4 (entries (arpcache s) ! i)")
  case True
  then show ?thesis using arp_lookup_unique [OF assms] that(1) by blast
next
  case False
  then have "find (ent_hit ip4) (entries (arpcache s)) = None"
    using assms by (auto simp: find_None_iff arp_inv_def in_set_conv_nth)
  then show ?thesis using False that(2) by (auto simp: arpcache_lookup_def)
qed

text \<open>Each kind of change of the entries, one slot or all slots at a time, keeps the invariant and
  the answers for the other addresses.\<close>

lemma arp_map_step:
  assumes inv: "arp_inv s" and es: "entries (arpcache s') = map g (entries (arpcache s))"
    and g: "\<And>e. ent_valid (g e) \<Longrightarrow> ent_valid e \<and> ent_ip4 (g e) = ent_ip4 e"
  shows "arp_inv s'"
    and "(\<And>e. ent_hit k e \<Longrightarrow> ent_hit k (g e) \<Longrightarrow> ent_mac (g e) = ent_mac e) \<Longrightarrow>
         arpcache_lookup s' k \<in> {arpcache_lookup s k, None}"
proof -
  show inv': "arp_inv s'"
    using inv g unfolding arp_inv_def es by (simp add: nth_map) metis
  assume same: "\<And>e. ent_hit k e \<Longrightarrow> ent_hit k (g e) \<Longrightarrow> ent_mac (g e) = ent_mac e"
  show "arpcache_lookup s' k \<in> {arpcache_lookup s k, None}"
  proof (rule arp_lookup_cases [OF inv', of k])
    fix i
    assume i: "i < 32" "ent_hit k (entries (arpcache s') ! i)"
      and l: "arpcache_lookup s' k = Some (ent_mac (entries (arpcache s') ! i))"
    have nth: "entries (arpcache s') ! i = g (entries (arpcache s) ! i)"
      using i(1) inv by (simp add: es arp_inv_def)
    then have "ent_hit k (entries (arpcache s) ! i)"
      using i(2) g by (auto simp: ent_hit_def)
    then show ?thesis
      using arp_lookup_unique [OF inv i(1)] same i(2) l nth by auto
  qed auto
qed

lemma arp_set_step:
  assumes inv: "arp_inv s" and es: "entries (arpcache s') = (entries (arpcache s))[p := new_entry t ip4 m]"
    and p: "p < 32" and no: "\<forall>e \<in> set (entries (arpcache s)). \<not> ent_hit ip4 e"
  shows "arp_inv s'" and "arpcache_lookup s' ip4 = Some m"
    and "k \<noteq> ip4 \<Longrightarrow> arpcache_lookup s' k \<in> {arpcache_lookup s k, None}"
proof -
  have len: "length (entries (arpcache s)) = 32" using inv by (simp add: arp_inv_def)
  have nth: "entries (arpcache s') ! i = (if i = p then new_entry t ip4 m else entries (arpcache s) ! i)"
    if "i < 32" for i using that len p by (simp add: es nth_list_update)
  have no': "\<not> ent_hit ip4 (entries (arpcache s) ! i)" if "i < 32" for i
    using that no len by auto
  show inv': "arp_inv s'"
    unfolding arp_inv_def
  proof (intro conjI allI impI)
    show "length (entries (arpcache s')) = 32" using len by (simp add: es)
    fix i j :: nat
    assume "i < 32" "j < 32" and *: "ent_valid (entries (arpcache s') ! i) \<and> ent_valid (entries (arpcache s') ! j)
      \<and> ent_ip4 (entries (arpcache s') ! i) = ent_ip4 (entries (arpcache s') ! j)"
    then show "i = j"
      using nth no' inv unfolding arp_inv_def ent_hit_def new_entry_def
      by (cases "i = p"; cases "j = p") auto
  qed
  have "ent_hit ip4 (entries (arpcache s') ! p)" "ent_mac (entries (arpcache s') ! p) = m"
    using nth [OF p] by (simp_all add: new_entry_def ent_hit_def)
  then show "arpcache_lookup s' ip4 = Some m"
    using arp_lookup_unique [OF inv' p] by simp
  assume k: "k \<noteq> ip4"
  show "arpcache_lookup s' k \<in> {arpcache_lookup s k, None}"
  proof (rule arp_lookup_cases [OF inv', of k])
    fix i
    assume i: "i < 32" "ent_hit k (entries (arpcache s') ! i)"
      and l: "arpcache_lookup s' k = Some (ent_mac (entries (arpcache s') ! i))"
    then have "i \<noteq> p" using k nth by (auto simp: ent_hit_def new_entry_def)
    then show ?thesis using arp_lookup_unique [OF inv i(1), of k] i l nth by auto
  qed auto
qed

lemma arp_insert_step:
  assumes inv: "arp_inv s" and ins: "arpcache_insert ip4 m s = Some s'"
  shows "arp_inv s'" and "arpcache_lookup s' ip4 = Some m"
    and "k \<noteq> ip4 \<Longrightarrow> arpcache_lookup s' k \<in> {arpcache_lookup s k, None}"
proof -
  obtain s1 where s1: "insert_entry ip4 m s = Some s1" "entries (arpcache s') = entries (arpcache s1)"
    by (rule arpcache_insert_entries [OF ins])
  have len: "length (entries (arpcache s)) = 32" using inv by (simp add: arp_inv_def)
  have "arp_inv s' \<and> arpcache_lookup s' ip4 = Some m \<and>
        (k \<noteq> ip4 \<longrightarrow> arpcache_lookup s' k \<in> {arpcache_lookup s k, None})"
  proof (cases "\<exists>e \<in> set (entries (arpcache s)). ent_hit ip4 e")
    case True
    then have es: "entries (arpcache s') = map (refresh (now s) ip4 m) (entries (arpcache s))"
      using s1 insert_entry_hit by fastforce
    note step = arp_map_step [OF inv es]
    have inv': "arp_inv s'" by (rule step(1)) (auto split: if_splits)
    have other: "arpcache_lookup s' k \<in> {arpcache_lookup s k, None}" if "k \<noteq> ip4"
      by (rule step(2)) (use that in \<open>auto simp: ent_hit_def split: if_splits\<close>)
    obtain i where "i < 32" "ent_hit ip4 (entries (arpcache s) ! i)"
      using True len by (metis in_set_conv_nth)
    then have "arpcache_lookup s' ip4 = Some m"
      using arp_lookup_unique [OF inv', of i ip4] len by (simp add: es ent_hit_def)
    then show ?thesis using inv' other by blast
  next
    case no: False
    show ?thesis
    proof (cases "\<exists>e \<in> set (entries (arpcache s)). \<not> ent_valid e")
      case True
      have "entries (arpcache s') =
          (entries (arpcache s))[rand_fn s (rand_pos s) mod 32 := new_entry (now s) ip4 m]"
        using insert_entry_free [of s ip4 m] no True len s1 by auto
      then show ?thesis
        using arp_set_step [OF inv, of s' "rand_fn s (rand_pos s) mod 32"] no by simp
    next
      case False
      then have "insert_entry ip4 m s = None"
        using no by (intro insert_entry_full) (auto simp: ent_hit_def)
      then show ?thesis using s1 by simp
    qed
  qed
  then show "arp_inv s'" "arpcache_lookup s' ip4 = Some m"
    "k \<noteq> ip4 \<Longrightarrow> arpcache_lookup s' k \<in> {arpcache_lookup s k, None}" by auto
qed

lemma arp_age_step:
  assumes "arp_inv s"
  shows "arp_inv (arp_age t s)" and "arpcache_lookup (arp_age t s) k \<in> {arpcache_lookup s k, None}"
proof -
  have es: "entries (arpcache (arp_age t s)) = map (\<lambda>e. if ent_valid e \<and> t - ent_added e \<ge> ARP_ENTRY_TIMEOUT
      then e\<lparr>ent_valid := False\<rparr> else e) (entries (arpcache s))"
    by (simp add: arp_age_def expire_entries_def)
  show "arp_inv (arp_age t s)"
    by (rule arp_map_step(1) [OF assms es]) (auto split: if_splits)
  show "arpcache_lookup (arp_age t s) k \<in> {arpcache_lookup s k, None}"
    by (rule arp_map_step(2) [OF assms es]) (auto simp: ent_hit_def split: if_splits)
qed

interpretation arp_table: lossy_table arp_inv arpcache_lookup arpcache_insert arp_age
  by unfold_locales (use arp_insert_step arp_age_step in blast)+

section \<open>Properties\<close>

text \<open>C18. The cache never answers with a wrong address: from the empty cache, after any sequence of
  insertions and agings that does not crash, a lookup that succeeds returns the hardware address
  inserted last for that IP address.\<close>

theorem arpcache_lookup_last_insert:
  assumes "fold_opt (\<lambda>x s. case x of Put ip4 m \<Rightarrow> arpcache_insert ip4 m s | Age t \<Rightarrow> Some (arp_age t s))
             ops (arpcache_init s) = Some s'"
    and "arpcache_lookup s' ip4 = Some m"
  shows "last_put ops ip4 None = Some m"
proof -
  have "arp_inv (arpcache_init s)" "arpcache_lookup (arpcache_init s) ip4 = None"
    by (auto simp: arp_inv_def arpcache_init_def arpcache_lookup_def find_None_iff ent_hit_def)
  then show ?thesis
    using arp_table.run_sound [OF assms(1), of ip4 None] assms(2) by auto
qed

definition arp_run_example :: "ustack option" where
  "arp_run_example = fold_opt (\<lambda>x s. case x of Put ip4 m \<Rightarrow> arpcache_insert ip4 m s | Age t \<Rightarrow> Some (arp_age t s))
     [Put 1 (Mac 1 1 1 1 1 1), Age 3, Put 1 (Mac 2 2 2 2 2 2)] (arpcache_init ustack0)"

theorem arpcache_lookup_last_insert_witness:
  "last_put [Put (1::u32) (Mac 1 1 1 1 1 1), Age (3::int), Put 1 (Mac 2 2 2 2 2 2)] 1 None
     = Some (Mac 2 2 2 2 2 2) \<and> arp_run_example \<noteq> None"
proof -
  have "map_option (\<lambda>s. arpcache_lookup s 1) arp_run_example = Some (Some (Mac 2 2 2 2 2 2))"
    by code_simp
  then obtain s' where s': "arp_run_example = Some s'" "arpcache_lookup s' 1 = Some (Mac 2 2 2 2 2 2)"
    by auto
  then show ?thesis
    using arpcache_lookup_last_insert [OF s'(1) [unfolded arp_run_example_def] s'(2)] s'(1) by auto
qed

text \<open>C38. A full cache breaks the insertion: when all 32 entries are valid and none is for the
  address, the replacement code keeps the index -1 and the store goes outside the array (the
  test \<^verbatim>\<open>pos != -1\<close> is inverted: the random replacement meant for a full table is applied to a
  table with a free slot instead).\<close>

theorem arpcache_insert_full_out_of_bounds:
  assumes "\<forall>e \<in> set (entries (arpcache s)). ent_valid e \<and> ent_ip4 e \<noteq> ip4"
  shows "arpcache_insert ip4 m s = None"
  by (simp add: arpcache_insert_def insert_entry_full [OF assms])

definition full_entry :: arp_cache_entry where
  "full_entry = \<lparr>ent_ip4 = 7, ent_mac = Mac 1 1 1 1 1 1, ent_added = 0, ent_valid = True\<rparr>"

theorem arpcache_insert_full_out_of_bounds_witness:
  "arpcache_insert 9 bc_mac (ustack0\<lparr>arpcache := \<lparr>entries = replicate 32 full_entry, req_list = []\<rparr>\<rparr>) = None"
  by (rule arpcache_insert_full_out_of_bounds) (simp add: full_entry_def)

section \<open>Pending packets\<close>

definition fill_macs :: "mac \<Rightarrow> iface_info \<Rightarrow> bytes \<Rightarrow> bytes" where
  "fill_macs m iface packet = mac_bytes m @ mac_bytes (if_mac iface) @ drop 12 packet"

definition pkt_whole :: "cached_pkt \<Rightarrow> bool" where
  "pkt_whole pkt = whole (cp_packet pkt) (cp_len pkt)"

lemma flush_packet_whole:
  assumes "pkt_whole pkt"
  shows "flush_packet iface m pkt s = Some (s\<lparr>wire := wire s @ [(iface, fill_macs m iface (cp_packet pkt))]\<rparr>)"
proof -
  have "14 \<le> length (cp_packet pkt)" using assms by (simp add: pkt_whole_def whole_def)
  then have "store_bytes (cp_packet pkt) 0 (mac_bytes m) = Some (mac_bytes m @ drop 6 (cp_packet pkt))"
    "store_bytes (mac_bytes m @ drop 6 (cp_packet pkt)) 6 (mac_bytes (if_mac iface))
       = Some (fill_macs m iface (cp_packet pkt))"
    by (simp_all add: store_bytes_def fill_macs_def)
  moreover have "whole (fill_macs m iface (cp_packet pkt)) (cp_len pkt)"
    using assms by (simp add: pkt_whole_def whole_def fill_macs_def)
  ultimately show ?thesis by (simp add: flush_packet_def)
qed

lemma flush_loop_whole:
  "\<forall>pkt \<in> set ps. pkt_whole pkt \<Longrightarrow> fold_opt (flush_packet iface m) ps s
     = Some (s\<lparr>wire := wire s @ map (\<lambda>pkt. (iface, fill_macs m iface (cp_packet pkt))) ps\<rparr>)"
  by (induction ps arbitrary: s) (simp_all add: flush_packet_whole)

lemma flush_reqs_first:
  assumes "\<forall>r \<in> set pre. req_ip4 r \<noteq> ip4" "req_ip4 r = ip4" "\<forall>pkt \<in> set (req_pkts r). pkt_whole pkt"
  shows "flush_reqs ip4 m (pre @ r # post) s = Some (pre @ post,
     s\<lparr>wire := wire s @ map (\<lambda>pkt. (req_iface r, fill_macs m (req_iface r) (cp_packet pkt))) (req_pkts r)\<rparr>)"
  using assms by (induction pre) (simp_all add: flush_loop_whole)

lemma insert_entry_frame:
  assumes "insert_entry ip4 m s = Some s'"
  shows "wire s' = wire s" "req_list (arpcache s') = req_list (arpcache s)"
    "iface_list s' = iface_list s" "rtable s' = rtable s" "now s' = now s"
  using assms by (auto simp: insert_entry_def rand_def Let_def split: prod.splits if_splits)

lemma insert_entry_defined:
  assumes "arp_inv s" "\<exists>e \<in> set (entries (arpcache s)). ent_hit ip4 e \<or> \<not> ent_valid e"
  shows "\<exists>s'. insert_entry ip4 m s = Some s'"
proof (cases "\<exists>e \<in> set (entries (arpcache s)). ent_hit ip4 e")
  case True
  then show ?thesis by (simp add: insert_entry_hit)
next
  case False
  then show ?thesis
    using assms insert_entry_free [of s ip4 m] by (auto simp: arp_inv_def)
qed

lemma arpcache_insert_flush:
  assumes "arp_inv s" "\<exists>e \<in> set (entries (arpcache s)). ent_hit ip4 e \<or> \<not> ent_valid e"
    and "req_list (arpcache s) = pre @ r # post" "\<forall>q \<in> set pre. req_ip4 q \<noteq> ip4" "req_ip4 r = ip4"
    and "\<forall>pkt \<in> set (req_pkts r). pkt_whole pkt"
  shows "\<exists>s'. arpcache_insert ip4 m s = Some s' \<and> arpcache_lookup s' ip4 = Some m
     \<and> req_list (arpcache s') = pre @ post
     \<and> wire s' = wire s @ map (\<lambda>pkt. (req_iface r, fill_macs m (req_iface r) (cp_packet pkt))) (req_pkts r)"
proof -
  obtain s1 where s1: "insert_entry ip4 m s = Some s1"
    using insert_entry_defined [OF assms(1,2)] by blast
  note frame = insert_entry_frame [OF s1]
  define s' where "s' = s1\<lparr>wire := wire s1 @ map (\<lambda>pkt. (req_iface r, fill_macs m (req_iface r) (cp_packet pkt)))
    (req_pkts r), arpcache := (arpcache s1)\<lparr>req_list := pre @ post\<rparr>\<rparr>"
  have ins: "arpcache_insert ip4 m s = Some s'"
    using s1 frame assms(3) by (simp add: arpcache_insert_def s'_def flush_reqs_first [OF assms(4-6)])
  then show ?thesis
    using arp_insert_step(2) [OF assms(1) ins] frame by (simp add: s'_def)
qed

text \<open>An ARP answer releases the packets waiting for it: when the cache has the address or a free
  slot, \<^verbatim>\<open>arpcache_insert\<close> returns, the address is then known, and every packet queued on the first
  request for the address is sent exactly once, in the order it was queued, through the request's
  interface with the learned destination and the interface's source address; the request is gone
  and the other requests stay.\<close>

theorem arpcache_insert_flushes:
  assumes "arp_inv s" "\<exists>e \<in> set (entries (arpcache s)). ent_hit ip4 e \<or> \<not> ent_valid e"
    and "req_list (arpcache s) = pre @ r # post" "\<forall>q \<in> set pre. req_ip4 q \<noteq> ip4" "req_ip4 r = ip4"
    and "\<forall>pkt \<in> set (req_pkts r). pkt_whole pkt"
  shows "\<exists>s'. arpcache_insert ip4 m s = Some s' \<and> arpcache_lookup s' ip4 = Some m
     \<and> req_list (arpcache s') = pre @ post
     \<and> wire s' = wire s @ map (\<lambda>pkt. (req_iface r, fill_macs m (req_iface r) (cp_packet pkt))) (req_pkts r)"
  by (rule arpcache_insert_flush [OF assms])

definition pending0 :: arp_req where
  "pending0 = \<lparr>req_iface = iface1, req_ip4 = 9, req_sent = 0, req_retries = 1,
     req_pkts = [\<lparr>cp_packet = replicate 20 1, cp_len = 20\<rparr>, \<lparr>cp_packet = replicate 21 2, cp_len = 21\<rparr>]\<rparr>"

lemma arp_inv_ustack0: "arp_inv ustack0" "\<exists>e \<in> set (entries (arpcache ustack0)). \<not> ent_valid e"
  by (simp_all add: arp_inv_def ustack0_def)

lemma arpcache_lookup_ustack0: "arpcache_lookup ustack0 ip4 = None"
  by (simp add: arpcache_lookup_def ustack0_def find_None_iff ent_hit_def)

theorem arpcache_insert_flushes_witness:
  "\<exists>s'. arpcache_insert 9 bc_mac (ustack0\<lparr>arpcache := (arpcache ustack0)\<lparr>req_list := [pending0]\<rparr>\<rparr>) = Some s'
     \<and> arpcache_lookup s' 9 = Some bc_mac \<and> req_list (arpcache s') = []
     \<and> wire s' = [(iface1, fill_macs bc_mac iface1 (replicate 20 1)), (iface1, fill_macs bc_mac iface1 (replicate 21 2))]"
  using arpcache_insert_flushes [of "ustack0\<lparr>arpcache := (arpcache ustack0)\<lparr>req_list := [pending0]\<rparr>\<rparr>" 9 "[]" pending0 "[]" bc_mac]
  by (simp add: pending0_def pkt_whole_def whole_def arp_inv_def ustack0_def)

section \<open>Sending through the cache\<close>

definition fill_eth :: "mac \<Rightarrow> iface_info \<Rightarrow> bytes \<Rightarrow> bytes" where
  "fill_eth m iface packet =
     enc_ether \<lparr>ether_dhost = m, ether_shost = if_mac iface, ether_type = htons ETH_P_IP\<rparr> @ drop 14 packet"

lemma put_eth_whole: "14 \<le> length p \<Longrightarrow> put_eth p h = Some (enc_ether h @ drop 14 p)"
  by (simp add: store_struct_def store_bytes_def eth.length_enc)

lemma get_eth_whole: "14 \<le> length p \<Longrightarrow> get_eth p = Some (dec_ether (take 14 p))"
  by (simp add: load_struct_def load_bytes_def)

lemma fill_eth_whole: "whole p len \<Longrightarrow> whole (fill_eth m iface p) len"
  by (simp add: whole_def fill_eth_def eth.length_enc)

lemma arp_packets_length: "length (arp_request_packet i d) = 42" "length (arp_reply_packet i h) = 42"
  by (simp_all add: arp_request_packet_def arp_reply_packet_def eth.length_enc arph.length_enc)

lemma arp_send_request_sent:
  "arp_send_request i d s = Some (s\<lparr>wire := wire s @ [(i, arp_request_packet i d)]\<rparr>)"
  by (simp add: arp_send_request_def whole_def arp_packets_length)

lemma arp_send_reply_sent:
  "arp_send_reply i h s = Some (s\<lparr>wire := wire s @ [(i, arp_reply_packet i h)]\<rparr>)"
  by (simp add: arp_send_reply_def whole_def arp_packets_length)

definition old_dhost :: "bytes \<Rightarrow> mac" where "old_dhost p = ether_dhost (dec_ether (take 14 p))"

lemma eth_all_fields:
  "h\<lparr>ether_shost := a, ether_type := b, ether_dhost := m\<rparr> = \<lparr>ether_dhost = m, ether_shost = a, ether_type = b\<rparr>"
  by (cases h) simp

lemma send_by_arp_known:
  assumes "whole p len" "arpcache_lookup s ip4 = Some m"
  shows "iface_send_packet_by_arp iface ip4 p len s = Some (s\<lparr>wire := wire s @ [(iface, fill_eth m iface p)]\<rparr>)"
  using assms fill_eth_whole [OF assms(1), of m iface]
  by (simp add: iface_send_packet_by_arp_def whole_def get_eth_whole put_eth_whole eth.length_enc fill_eth_def
      eth_all_fields)

lemma send_by_arp_unknown:
  assumes "whole p len" "arpcache_lookup s ip4 = None"
  shows "iface_send_packet_by_arp iface ip4 p len s =
     arpcache_append_packet iface ip4 (fill_eth (old_dhost p) iface p) len s"
proof -
  have "(dec_ether (take 14 p))\<lparr>ether_shost := a, ether_type := b\<rparr>
      = \<lparr>ether_dhost = old_dhost p, ether_shost = a, ether_type = b\<rparr>" for a b
    by (simp add: old_dhost_def)
  then show ?thesis using assms
    by (simp add: iface_send_packet_by_arp_def whole_def get_eth_whole put_eth_whole fill_eth_def)
qed

lemma append_to_req_None:
  "append_to_req iface ip4 pkt rs = None \<longleftrightarrow>
     (\<forall>r \<in> set rs. \<not> (if_index (req_iface r) = if_index iface \<and> req_ip4 r = ip4))"
  by (induction rs) auto

lemma fill_macs_fill_eth: "fill_macs m iface (fill_eth m' iface p) = fill_eth m iface p"
  by (cases m; cases m'; cases "if_mac iface")
     (simp add: fill_macs_def fill_eth_def enc_ether_def)

text \<open>C6. Address resolution from end to end: sending a packet to an address that is neither known
  nor asked for queues it and broadcasts one request; when the reply for the interface then
  arrives, the packet leaves through that interface with the replied address in the destination,
  the interface's address in the source and type IP, its data untouched, and nothing stays
  queued for it. This takes a cache that is not full: at least one of the 32 entries, which hold no address twice,
  is free when the reply arrives. (With a full cache the insertion of the reply stores outside the array.)
  The packet has the length given and at least an Ethernet header.\<close>

theorem arp_resolution:
  assumes "whole p len" "arp_inv s" "arpcache_lookup s ip4 = None"
    and "\<exists>e \<in> set (entries (arpcache s)). \<not> ent_valid e"
    and "\<forall>r \<in> set (req_list (arpcache s)). req_ip4 r \<noteq> ip4"
    and "get_arp q 14 = Some reply" "ntohs (arp_op reply) = ARPOP_REPLY"
    and "ntohl (arp_tpa reply) = if_ip iface" "ntohl (arp_spa reply) = ip4"
  shows "\<exists>s1 s2. iface_send_packet_by_arp iface ip4 p len s = Some s1
     \<and> wire s1 = wire s @ [(iface, arp_request_packet iface ip4)]
     \<and> handle_arp_packet iface q qlen s1 = Some s2
     \<and> wire s2 = wire s1 @ [(iface, fill_eth (arp_sha reply) iface p)]
     \<and> req_list (arpcache s2) = req_list (arpcache s)"
proof -
  define r where "r = \<lparr>req_iface = iface, req_ip4 = ip4, req_sent = now s, req_retries = 1,
    req_pkts = [\<lparr>cp_packet = fill_eth (old_dhost p) iface p, cp_len = len\<rparr>]\<rparr>"
  define s1 where "s1 = s\<lparr>arpcache := (arpcache s)\<lparr>req_list := r # req_list (arpcache s)\<rparr>,
    wire := wire s @ [(iface, arp_request_packet iface ip4)]\<rparr>"
  have "append_to_req iface ip4 pkt (req_list (arpcache s)) = None" for pkt
    using assms(5) by (simp add: append_to_req_None)
  then have sent: "iface_send_packet_by_arp iface ip4 p len s = Some s1"
    by (simp add: send_by_arp_unknown [OF assms(1,3)] arpcache_append_packet_def arp_send_request_sent
        s1_def r_def Let_def)
  have "\<exists>s2. arpcache_insert ip4 (arp_sha reply) s1 = Some s2 \<and> arpcache_lookup s2 ip4 = Some (arp_sha reply)
     \<and> req_list (arpcache s2) = [] @ req_list (arpcache s)
     \<and> wire s2 = wire s1 @ map (\<lambda>pkt. (req_iface r, fill_macs (arp_sha reply) (req_iface r) (cp_packet pkt))) (req_pkts r)"
  proof (rule arpcache_insert_flush)
    show "arp_inv s1" using assms(2) by (simp add: arp_inv_def s1_def)
    show "\<forall>pkt \<in> set (req_pkts r). pkt_whole pkt"
      using fill_eth_whole [OF assms(1)] by (simp add: r_def pkt_whole_def)
  qed (use assms(4) in \<open>auto simp: s1_def r_def\<close>)
  then obtain s2 where s2: "arpcache_insert ip4 (arp_sha reply) s1 = Some s2"
    "req_list (arpcache s2) = req_list (arpcache s)"
    "wire s2 = wire s1 @ [(iface, fill_eth (arp_sha reply) iface p)]"
    by (auto simp: r_def fill_macs_fill_eth)
  then have "handle_arp_packet iface q qlen s1 = Some s2"
    using assms(6-9) by (simp add: handle_arp_packet_def ARPOP_REPLY_def ARPOP_REQUEST_def)
  then show ?thesis using sent s2 by (intro exI [of _ s1] exI [of _ s2]) (simp add: s1_def)
qed

definition reply_hdr :: ether_arp where
  "reply_hdr = \<lparr>arp_hrd = 0, arp_pro = 0, arp_hln = 6, arp_pln = 4, arp_op = htons ARPOP_REPLY,
     arp_sha = bc_mac, arp_spa = htonl 9, arp_tha = bc_mac, arp_tpa = htonl (if_ip iface1)\<rparr>"

definition reply_packet :: bytes where
  "reply_packet = replicate 14 0 @ enc_arp reply_hdr"

lemma get_reply: "get_arp reply_packet 14 = Some reply_hdr"
  by (simp add: reply_packet_def load_struct_def load_bytes_def arph.length_enc arph.dec_enc)

theorem arp_resolution_witness:
  "\<exists>s1 s2. iface_send_packet_by_arp iface1 9 (replicate 60 5) 60 ustack0 = Some s1
     \<and> wire s1 = wire ustack0 @ [(iface1, arp_request_packet iface1 9)]
     \<and> handle_arp_packet iface1 reply_packet 42 s1 = Some s2
     \<and> wire s2 = wire s1 @ [(iface1, fill_eth (arp_sha reply_hdr) iface1 (replicate 60 5))]
     \<and> req_list (arpcache s2) = req_list (arpcache ustack0)"
  by (rule arp_resolution)
     (use arp_inv_ustack0 get_reply in \<open>simp_all add: whole_def reply_hdr_def arpcache_lookup_ustack0\<close>,
      simp add: ustack0_def)

end
