(* ===== verification/Switch.thy ===== *)
theory Switch
  imports Arp
begin

text \<open>
  The hub of lab 04 and the learning switch of lab 05 (\<^verbatim>\<open>05-switching/mac.c\<close>, \<^verbatim>\<open>packet.c\<close>, \<^verbatim>\<open>handle_packet\<close> of \<^verbatim>\<open>main.c\<close>).
  The table maps the 8-bit hash of a hardware address to a chain of entries; the entries are on an
  explicit heap, because sweeping frees them and leaves the pointer in the table. The lock is
  recursive and held for the whole of each operation, so each is one step.
\<close>

section \<open>State\<close>

record mac_port_entry =
  mp_mac :: mac
  mp_iface :: iface_info
  mp_visited :: int
  mp_next :: "nat option"

record switch = ustack +
  hash_table :: "u8 \<Rightarrow> nat option"
  mac_mem :: "nat \<Rightarrow> mac_port_entry option"
  mac_brk :: nat

definition MAC_PORT_TIMEOUT :: int where "MAC_PORT_TIMEOUT = 30"

definition mac_key :: "mac \<Rightarrow> u8" where
  "mac_key m = hash8_05 (mac_bytes m)"

definition on_entry :: "nat \<Rightarrow> (mac_port_entry \<Rightarrow> mac_port_entry) \<Rightarrow> switch \<Rightarrow> switch option" where
  "on_entry p f s = map_option (\<lambda>e. s\<lparr>mac_mem := (mac_mem s)(p \<mapsto> f e)\<rparr>) (mac_mem s p)"

section \<open>Operations\<close>

definition init_mac_hash_table :: "switch \<Rightarrow> switch" where
  "init_mac_hash_table s = s\<lparr>hash_table := (\<lambda>_. None)\<rparr>"

definition lookup_port :: "mac \<Rightarrow> bool \<Rightarrow> switch \<Rightarrow> (iface_info option \<times> switch) option" where
  "lookup_port mac search_des s = (case hash_table s (mac_key mac) of
     None \<Rightarrow> Some (None, s)
   | Some p \<Rightarrow> do {
       s \<leftarrow> (if search_des then on_entry p (\<lambda>e. e\<lparr>mp_visited := now s\<rparr>) s else Some s);
       e \<leftarrow> mac_mem s p;
       Some (Some (mp_iface e), s) })"

text \<open>The loop that looks for the last entry behind the first one.\<close>

partial_function (option) chain_last :: "(nat \<Rightarrow> mac_port_entry option) \<Rightarrow> nat option \<Rightarrow> nat option \<Rightarrow> nat option option" where
  "chain_last mem tmp pre = (case tmp of
     None \<Rightarrow> Some pre
   | Some p \<Rightarrow> Option.bind (mem p) (\<lambda>e. chain_last mem (mp_next e) (Some p)))"

definition insert_mac_port :: "mac \<Rightarrow> iface_info \<Rightarrow> switch \<Rightarrow> switch option" where
  "insert_mac_port mac iface s = do {
     let key = mac_key mac;
     let s = (case hash_table s key of
                Some p \<Rightarrow> s
              | None \<Rightarrow> s\<lparr>hash_table := (hash_table s)(key \<mapsto> mac_brk s), mac_brk := Suc (mac_brk s),
                          mac_mem := (mac_mem s)(mac_brk s \<mapsto>
                            \<lparr>mp_mac = mac, mp_iface = iface, mp_visited = 0, mp_next = None\<rparr>)\<rparr>);
     p \<leftarrow> hash_table s key;
     s \<leftarrow> on_entry p (\<lambda>e. e\<lparr>mp_visited := now s\<rparr>) s;
     e \<leftarrow> mac_mem s p;
     pre \<leftarrow> chain_last (mac_mem s) (mp_next e) None;
     (case pre of
        None \<Rightarrow> Some s
      | Some q \<Rightarrow> do {
          s \<leftarrow> on_entry q (\<lambda>e. e\<lparr>mp_next := Some p\<rparr>) s;
          on_entry p (\<lambda>e. e\<lparr>mp_next := None\<rparr>) s }) }"

text \<open>Freeing a chain: the entries behind the first, then the first. The table keeps the pointer.\<close>

partial_function (option) free_chain :: "nat \<Rightarrow> switch \<Rightarrow> switch option" where
  "free_chain p s = Option.bind (mac_mem s p) (\<lambda>e. case mp_next e of
     None \<Rightarrow> Some (s\<lparr>mac_mem := (mac_mem s)(p := None)\<rparr>)
   | Some q \<Rightarrow> Option.bind (mac_mem s q) (\<lambda>t.
       free_chain p (s\<lparr>mac_mem := (mac_mem s)(p \<mapsto> e\<lparr>mp_next := mp_next t\<rparr>, q := None)\<rparr>)))"

definition all_keys :: "u8 list" where
  "all_keys = map of_nat [0..<256]"

definition sweep_bucket :: "u8 \<Rightarrow> int \<times> switch \<Rightarrow> (int \<times> switch) option" where
  "sweep_bucket i ns = (case ns of (n, s) \<Rightarrow> (case hash_table s i of
     None \<Rightarrow> Some (n, s)
   | Some p \<Rightarrow> do {
       e \<leftarrow> mac_mem s p;
       if mp_visited e - now s > MAC_PORT_TIMEOUT
       then do { s \<leftarrow> free_chain p s; Some (n + 1, s) }
       else Some (n, s) }))"

definition sweep_aged_mac_port_entry :: "switch \<Rightarrow> (int \<times> switch) option" where
  "sweep_aged_mac_port_entry s = fold_opt sweep_bucket all_keys (0, s)"

definition destory_mac_hash_table :: "switch \<Rightarrow> switch option" where
  "destory_mac_hash_table s =
     fold_opt (\<lambda>i s. case hash_table s i of None \<Rightarrow> Some s | Some p \<Rightarrow> free_chain p s) all_keys s"

text \<open>Labs 04 and 05 compare the file descriptors of the interfaces and do not free the packet.\<close>

definition broadcast_packet_05 :: "iface_info \<Rightarrow> bytes \<Rightarrow> int \<Rightarrow> 'a ustack_scheme \<Rightarrow> 'a ustack_scheme option" where
  "broadcast_packet_05 iface packet len s =
     fold_opt (\<lambda>iface_t s. if if_fd iface_t \<noteq> if_fd iface then iface_send_frame iface_t packet len s else Some s)
       (iface_list s) s"

definition handle_packet_04 :: "iface_info \<Rightarrow> bytes \<Rightarrow> int \<Rightarrow> 'a ustack_scheme \<Rightarrow> 'a ustack_scheme option" where
  "handle_packet_04 iface packet len s = broadcast_packet_05 iface packet len s"

definition handle_packet_05 :: "iface_info \<Rightarrow> bytes \<Rightarrow> int \<Rightarrow> switch \<Rightarrow> switch option" where
  "handle_packet_05 iface packet len s = do {
     eh \<leftarrow> get_eth packet;
     (r, s) \<leftarrow> lookup_port (ether_dhost eh) True s;
     s \<leftarrow> (case r of
             Some iface_t \<Rightarrow> iface_send_frame iface_t packet len s
           | None \<Rightarrow> broadcast_packet_05 iface packet len s);
     (r, s) \<leftarrow> lookup_port (ether_shost eh) False s;
     if r = None then insert_mac_port (ether_shost eh) iface s else Some s }"

section \<open>The table as a map\<close>

text \<open>The port stored for a hash; every bucket has at most its first entry.\<close>

definition port_of :: "switch \<Rightarrow> u8 \<Rightarrow> iface_info option" where
  "port_of s key = Option.bind (hash_table s key) (\<lambda>p. map_option mp_iface (mac_mem s p))"

definition bucket_ok :: "switch \<Rightarrow> nat \<Rightarrow> bool" where
  "bucket_ok s p \<longleftrightarrow> (\<exists>e. mac_mem s p = Some e \<and> mp_next e = None \<and> mp_visited e \<le> now s) \<and> p < mac_brk s"

definition sw_inv :: "switch \<Rightarrow> bool" where
  "sw_inv s \<longleftrightarrow> (\<forall>key p. hash_table s key = Some p \<longrightarrow> bucket_ok s p)
     \<and> (\<forall>k1 k2 p. hash_table s k1 = Some p \<and> hash_table s k2 = Some p \<longrightarrow> k1 = k2)"

lemma sw_invD: "sw_inv s \<Longrightarrow> hash_table s key = Some p \<Longrightarrow> bucket_ok s p"
  by (simp add: sw_inv_def)

lemma lookup_port_ok:
  assumes "sw_inv s"
  shows "\<exists>mem. lookup_port m b s = Some (port_of s (mac_key m), s\<lparr>mac_mem := mem\<rparr>)
     \<and> sw_inv (s\<lparr>mac_mem := mem\<rparr>) \<and> port_of (s\<lparr>mac_mem := mem\<rparr>) = port_of s"
proof (cases "hash_table s (mac_key m)")
  case None
  then show ?thesis
    using assms by (intro exI [of _ "mac_mem s"]) (simp add: lookup_port_def port_of_def)
next
  case (Some p)
  then obtain e where e: "mac_mem s p = Some e" "mp_next e = None" "mp_visited e \<le> now s" "p < mac_brk s"
    using assms unfolding sw_inv_def bucket_ok_def by blast
  define mem where "mem = (if b then (mac_mem s)(p \<mapsto> e\<lparr>mp_visited := now s\<rparr>) else mac_mem s)"
  have "lookup_port m b s = Some (port_of s (mac_key m), s\<lparr>mac_mem := mem\<rparr>)"
    using Some e by (simp add: lookup_port_def on_entry_def port_of_def mem_def)
  moreover have "sw_inv (s\<lparr>mac_mem := mem\<rparr>)"
    using assms e by (fastforce simp: sw_inv_def bucket_ok_def mem_def)
  moreover have "port_of (s\<lparr>mac_mem := mem\<rparr>) = port_of s"
    using e by (auto simp: port_of_def mem_def fun_eq_iff split: bind_split)
  ultimately show ?thesis by blast
qed

lemma insert_mac_port_new:
  assumes inv: "sw_inv s" and new: "hash_table s (mac_key m) = None"
  shows "\<exists>s'. insert_mac_port m iface s = Some s' \<and> sw_inv s' \<and> port_of s' = (port_of s)(mac_key m \<mapsto> iface)
     \<and> wire s' = wire s \<and> iface_list s' = iface_list s \<and> now s' = now s"
proof -
  let ?e = "\<lparr>mp_mac = m, mp_iface = iface, mp_visited = now s, mp_next = None\<rparr>"
  define s' where "s' = s\<lparr>hash_table := (hash_table s)(mac_key m \<mapsto> mac_brk s), mac_brk := Suc (mac_brk s),
      mac_mem := (mac_mem s)(mac_brk s \<mapsto> ?e)\<rparr>"
  have old: "p \<noteq> mac_brk s" if "hash_table s key = Some p" for key p
    using inv that by (auto simp: sw_inv_def bucket_ok_def)
  have "insert_mac_port m iface s = Some s'"
    using new by (simp add: insert_mac_port_def on_entry_def chain_last.simps s'_def)
  moreover have "sw_inv s'"
    using inv old by (fastforce simp: sw_inv_def bucket_ok_def s'_def)
  moreover have "port_of s' = (port_of s)(mac_key m \<mapsto> iface)"
    using old by (auto simp: port_of_def s'_def fun_eq_iff split: bind_split)
  ultimately show ?thesis by (auto simp: s'_def)
qed

section \<open>Forwarding\<close>

lemma broadcast_05_whole:
  assumes "whole packet len"
  shows "broadcast_packet_05 iface packet len s
     = Some (s\<lparr>wire := wire s @ map (\<lambda>i. (i, packet)) (filter (\<lambda>i. if_fd i \<noteq> if_fd iface) (iface_list s))\<rparr>)"
proof -
  have "fold_opt (\<lambda>iface_t s. if if_fd iface_t \<noteq> if_fd iface then iface_send_frame iface_t packet len s else Some s) ifs s
      = Some (s\<lparr>wire := wire s @ map (\<lambda>i. (i, packet)) (filter (\<lambda>i. if_fd i \<noteq> if_fd iface) ifs)\<rparr>)" for ifs
    using assms by (induction ifs arbitrary: s) auto
  then show ?thesis by (simp add: broadcast_packet_05_def)
qed

lemma port_of_None: "sw_inv s \<Longrightarrow> port_of s key = None \<longleftrightarrow> hash_table s key = None"
  by (cases "hash_table s key") (auto simp: port_of_def bucket_ok_def dest!: sw_invD)

definition switch_out :: "iface_info \<Rightarrow> bytes \<Rightarrow> iface_info option \<Rightarrow> switch \<Rightarrow> frame list" where
  "switch_out iface packet r s = (case r of
     Some i \<Rightarrow> [(i, packet)]
   | None \<Rightarrow> map (\<lambda>i. (i, packet)) (filter (\<lambda>i. if_fd i \<noteq> if_fd iface) (iface_list s)))"

lemma handle_packet_05_ok:
  assumes inv: "sw_inv s" and w: "whole packet len" and eh: "get_eth packet = Some eh"
  shows "\<exists>s'. handle_packet_05 iface packet len s = Some s' \<and> sw_inv s' \<and> now s' = now s \<and> iface_list s' = iface_list s
     \<and> wire s' = wire s @ switch_out iface packet (port_of s (mac_key (ether_dhost eh))) s
     \<and> port_of s' = (if port_of s (mac_key (ether_shost eh)) = None
                     then (port_of s)(mac_key (ether_shost eh) \<mapsto> iface) else port_of s)"
proof -
  let ?d = "port_of s (mac_key (ether_dhost eh))"
  let ?k = "mac_key (ether_shost eh)"
  obtain mem where l1: "lookup_port (ether_dhost eh) True s = Some (?d, s\<lparr>mac_mem := mem\<rparr>)"
    "sw_inv (s\<lparr>mac_mem := mem\<rparr>)" "port_of (s\<lparr>mac_mem := mem\<rparr>) = port_of s"
    using lookup_port_ok [OF inv] by blast
  define s1 where "s1 = s\<lparr>mac_mem := mem, wire := wire s @ switch_out iface packet ?d s\<rparr>"
  have out: "(case ?d of Some i \<Rightarrow> iface_send_frame i packet len (s\<lparr>mac_mem := mem\<rparr>)
      | None \<Rightarrow> broadcast_packet_05 iface packet len (s\<lparr>mac_mem := mem\<rparr>)) = Some s1"
    using w by (cases ?d) (simp_all add: s1_def switch_out_def broadcast_05_whole)
  have s1: "sw_inv s1" "port_of s1 = port_of s" "now s1 = now s" "iface_list s1 = iface_list s"
    "wire s1 = wire s @ switch_out iface packet ?d s"
    using l1(2,3) by (simp_all add: s1_def sw_inv_def bucket_ok_def port_of_def fun_eq_iff)
  obtain mem2 where l2: "lookup_port (ether_shost eh) False s1 = Some (port_of s1 ?k, s1\<lparr>mac_mem := mem2\<rparr>)"
    "sw_inv (s1\<lparr>mac_mem := mem2\<rparr>)" "port_of (s1\<lparr>mac_mem := mem2\<rparr>) = port_of s1"
    using lookup_port_ok [OF s1(1)] by blast
  have h: "handle_packet_05 iface packet len s =
      (if port_of s ?k = None then insert_mac_port (ether_shost eh) iface (s1\<lparr>mac_mem := mem2\<rparr>) else Some (s1\<lparr>mac_mem := mem2\<rparr>))"
    using eh l1(1) out l2(1) s1(2) by (simp add: handle_packet_05_def)
  show ?thesis
  proof (cases "port_of s ?k = None")
    case True
    then have "hash_table (s1\<lparr>mac_mem := mem2\<rparr>) ?k = None"
      using port_of_None [OF l2(2), of ?k] l2(3) s1(2) by simp
    from insert_mac_port_new [OF l2(2) this, of iface] True h l2(3) s1 show ?thesis by auto
  next
    case False
    then show ?thesis using h l2(2,3) s1 by auto
  qed
qed

definition switch0 :: switch where
  "switch0 = \<lparr>iface_list = [iface0, iface1, iface2], rtable = [], arpcache = arpcache ustack0, now = 5,
     rand_fn = (\<lambda>n. n), rand_pos = 0, wire = [], hash_table = (\<lambda>_. None), mac_mem = (\<lambda>_. None), mac_brk = 0\<rparr>"

definition frame_to :: "mac \<Rightarrow> mac \<Rightarrow> bytes" where
  "frame_to d s = mac_bytes d @ mac_bytes s @ [8, 0] @ replicate 46 7"

lemma switch0_inv: "sw_inv switch0"
  by (simp add: sw_inv_def switch0_def)

lemma frame_to_whole: "whole (frame_to d m) 60"
  by (cases d; cases m) (simp add: whole_def frame_to_def)

lemma frame_to_eth:
  "get_eth (frame_to (Mac 0 0 0 0 0 9) (Mac 0 0 0 0 0 8)) = Some \<lparr>ether_dhost = Mac 0 0 0 0 0 9, ether_shost = Mac 0 0 0 0 0 8, ether_type = htons 0x0800\<rparr>"
  by code_simp

text \<open>C31. The switch forwards and learns: a frame whose destination hash has a port leaves through that
  port only, any other leaves through every interface but the one it came in on; the
  source address is then known at the interface of arrival, unless its hash already had a port.
  Handling never fails.\<close>

theorem switch_forwards_and_learns:
  assumes "sw_inv s" "whole packet len" "get_eth packet = Some eh"
  shows "\<exists>s'. handle_packet_05 iface packet len s = Some s' \<and> sw_inv s'
     \<and> wire s' = wire s @ (case port_of s (mac_key (ether_dhost eh)) of
          Some i \<Rightarrow> [(i, packet)]
        | None \<Rightarrow> map (\<lambda>i. (i, packet)) (filter (\<lambda>i. if_fd i \<noteq> if_fd iface) (iface_list s)))
     \<and> (\<forall>b. \<exists>s''. lookup_port (ether_shost eh) b s'
          = Some (Some (case port_of s (mac_key (ether_shost eh)) of Some i \<Rightarrow> i | None \<Rightarrow> iface), s''))"
proof -
  obtain s' where s': "handle_packet_05 iface packet len s = Some s'" "sw_inv s'"
    "wire s' = wire s @ switch_out iface packet (port_of s (mac_key (ether_dhost eh))) s"
    "port_of s' = (if port_of s (mac_key (ether_shost eh)) = None
                   then (port_of s)(mac_key (ether_shost eh) \<mapsto> iface) else port_of s)"
    using handle_packet_05_ok [OF assms] by blast
  have "\<exists>s''. lookup_port (ether_shost eh) b s'
      = Some (Some (case port_of s (mac_key (ether_shost eh)) of Some i \<Rightarrow> i | None \<Rightarrow> iface), s'')" for b
    using lookup_port_ok [OF s'(2), of "ether_shost eh" b] s'(4) by (auto split: option.split)
  then show ?thesis using s'(1-3) unfolding switch_out_def by blast
qed

theorem switch_forwards_and_learns_witness:
  "\<exists>s'. handle_packet_05 iface0 (frame_to (Mac 0 0 0 0 0 9) (Mac 0 0 0 0 0 8)) 60 switch0 = Some s'
     \<and> wire s' = [(iface1, frame_to (Mac 0 0 0 0 0 9) (Mac 0 0 0 0 0 8)), (iface2, frame_to (Mac 0 0 0 0 0 9) (Mac 0 0 0 0 0 8))]
     \<and> (\<exists>s''. lookup_port (Mac 0 0 0 0 0 8) True s' = Some (Some iface0, s''))"
  using switch_forwards_and_learns [OF switch0_inv frame_to_whole frame_to_eth, of iface0]
  by (auto simp: switch0_def port_of_def iface0_def iface1_def iface2_def)

section \<open>Nothing is ever forgotten\<close>

text \<open>A run of the switch: frames, sweeps of the ageing thread and the passing of time.\<close>

inductive switch_run :: "switch \<Rightarrow> switch \<Rightarrow> bool" where
  start: "switch_run s s"
| frame: "switch_run s s1 \<Longrightarrow> whole packet len \<Longrightarrow> handle_packet_05 iface packet len s1 = Some s2 \<Longrightarrow> switch_run s s2"
| sweep: "switch_run s s1 \<Longrightarrow> sweep_aged_mac_port_entry s1 = Some (n, s2) \<Longrightarrow> switch_run s s2"
| tick: "switch_run s s1 \<Longrightarrow> now s1 \<le> t \<Longrightarrow> switch_run s (s1\<lparr>now := t\<rparr>)"

lemma sweep_nothing:
  assumes "sw_inv s"
  shows "sweep_aged_mac_port_entry s = Some (0, s)"
proof -
  have "sweep_bucket i (n, s) = Some (n, s)" for i n
  proof (cases "hash_table s i")
    case (Some p)
    then obtain e where "mac_mem s p = Some e" "mp_visited e \<le> now s"
      using assms unfolding sw_inv_def bucket_ok_def by blast
    then show ?thesis using Some by (simp add: sweep_bucket_def MAC_PORT_TIMEOUT_def)
  qed (simp add: sweep_bucket_def)
  then have "fold_opt sweep_bucket ks (0, s) = Some (0, s)" for ks by (induction ks) simp_all
  then show ?thesis by (simp add: sweep_aged_mac_port_entry_def)
qed

lemma sw_inv_tick: "sw_inv s \<Longrightarrow> now s \<le> t \<Longrightarrow> sw_inv (s\<lparr>now := t\<rparr>)"
proof -
  assume inv: "sw_inv s" and t: "now s \<le> t"
  have "bucket_ok (s\<lparr>now := t\<rparr>) p" if "bucket_ok s p" for p using that t by (auto simp: bucket_ok_def)
  with inv show "sw_inv (s\<lparr>now := t\<rparr>)" by (simp add: sw_inv_def)
qed

lemma switch_run_keeps:
  assumes "switch_run s s'" "sw_inv s"
  shows "sw_inv s' \<and> (\<forall>key i. port_of s key = Some i \<longrightarrow> port_of s' key = Some i)"
  using assms
proof (induction rule: switch_run.induct)
  case (frame s s1 packet len iface s2)
  obtain eh where eh: "get_eth packet = Some eh"
    using frame.hyps(3) by (cases "get_eth packet") (auto simp: handle_packet_05_def)
  from frame handle_packet_05_ok [OF _ frame.hyps(2) eh, of s1 iface] show ?case by (auto split: if_splits)
next
  case (sweep s s1 n s2)
  then show ?case using sweep_nothing [of s1] by simp
next
  case (tick s s1 t)
  then show ?case using sw_inv_tick by (auto simp: port_of_def)
qed simp

text \<open>The switch never forgets: from an initialised table, whatever frames arrive and however much
  time passes, a port once learned for a hash is never changed or removed. The ageing thread
  compares \<^verbatim>\<open>entry->visited - now\<close> with the timeout, which is never positive, so it removes nothing; a host
  that moves to another port stays unreachable there.\<close>

theorem switch_never_forgets:
  assumes "switch_run (init_mac_hash_table s0) s" "switch_run s s'" "port_of s key = Some i"
  shows "port_of s' key = Some i \<and> sweep_aged_mac_port_entry s' = Some (0, s')"
proof -
  have "sw_inv (init_mac_hash_table s0)" by (simp add: sw_inv_def init_mac_hash_table_def)
  then have "sw_inv s" using switch_run_keeps [OF assms(1)] by blast
  then show ?thesis using switch_run_keeps [OF assms(2)] sweep_nothing assms(3) by blast
qed

theorem switch_never_forgets_witness:
  "\<exists>s. switch_run (init_mac_hash_table switch0) s \<and> port_of s (mac_key (Mac 0 0 0 0 0 8)) = Some iface0
     \<and> port_of (s\<lparr>now := 1000\<rparr>) (mac_key (Mac 0 0 0 0 0 8)) = Some iface0
     \<and> sweep_aged_mac_port_entry (s\<lparr>now := 1000\<rparr>) = Some (0, s\<lparr>now := 1000\<rparr>)"
proof -
  have i: "init_mac_hash_table switch0 = switch0" by (simp add: init_mac_hash_table_def switch0_def)
  have n: "port_of switch0 key = None" for key by (simp add: switch0_def port_of_def)
  obtain s where s: "handle_packet_05 iface0 (frame_to (Mac 0 0 0 0 0 9) (Mac 0 0 0 0 0 8)) 60 switch0 = Some s"
    "now s = now switch0" "port_of s (mac_key (Mac 0 0 0 0 0 8)) = Some iface0"
    using handle_packet_05_ok [OF switch0_inv frame_to_whole frame_to_eth, of iface0] n by auto
  have r: "switch_run (init_mac_hash_table switch0) s"
    unfolding i by (rule switch_run.frame [OF switch_run.start frame_to_whole s(1)])
  have "switch_run s (s\<lparr>now := 1000\<rparr>)" using s(2) by (intro switch_run.tick switch_run.start) (simp add: switch0_def)
  from switch_never_forgets [OF r this s(3)] r s(3) show ?thesis by blast
qed

end
