(* ===== verification/PrefixTree.thy ===== *)
theory PrefixTree
  imports Prelude "HOL-Library.Sublist"
begin

text \<open>
  The lookup structures of lab 09 (\<^verbatim>\<open>09-lookup/src\<close>): the single-bit prefix tree \<^verbatim>\<open>PTree\<close>, the double-bit tree
  \<^verbatim>\<open>MulPTree\<close> and its compressed form \<^verbatim>\<open>CVTree\<close>. The trees are values: in \<^verbatim>\<open>PTree\<close> and \<^verbatim>\<open>MulPTree\<close> before the leaf
  push (theory LeafPush) no node has two parents, and the compression only reads its argument, of which the value is the
  unfolding. The loops that walk down a tree and change it at the end are recursions.
\<close>

section \<open>Entries\<close>

record leaf =
  SubNet :: u32
  PreLen :: u8
  Port :: u8

definition leaf0 :: leaf where
  "leaf0 = \<lparr>SubNet = 0, PreLen = 0, Port = 0\<rparr>"

definition top_bit :: "u32 \<Rightarrow> bool" where
  "top_bit ip \<longleftrightarrow> ip AND 0x80000000 \<noteq> 0"

definition top_two :: "u32 \<Rightarrow> nat" where
  "top_two ip = unat (drop_bit 30 (ip AND 0xC0000000))"

text \<open>The loop that counts the leading bits of \<^verbatim>\<open>IP\<close> that agree with the entry's subnet: index \<open>i\<close> compares
  the upper \<open>i + 1\<close> bits, up to \<open>i = PreLen\<close>. A shift by a negative amount is undefined.\<close>

function bite_loop :: "u32 \<Rightarrow> u32 \<Rightarrow> nat \<Rightarrow> nat \<Rightarrow> nat \<Rightarrow> nat option" where
  "bite_loop net ip len i bite =
     (if i \<le> len then
        (if i > 31 then None
         else if drop_bit (31 - i) net = drop_bit (31 - i) ip then bite_loop net ip len (i + 1) (bite + 1)
         else Some bite)
      else Some bite)"
  by pat_completeness auto
termination by (relation "measure (\<lambda>(net, ip, len, i, bite). Suc len - i)") auto

declare bite_loop.simps [simp del]

section \<open>The single-bit tree\<close>

datatype ptree = PNode (pinfo: leaf) (pchild0: "ptree option") (pchild1: "ptree option")

definition pempty :: ptree where
  "pempty = PNode leaf0 None None"

text \<open>\<^verbatim>\<open>Insert\<close>: the walk down, creating the nodes that are missing; a node that exists already takes the
  entry's fields.\<close>

fun pt_insert :: "u32 \<Rightarrow> nat \<Rightarrow> leaf \<Rightarrow> ptree option \<Rightarrow> ptree" where
  "pt_insert ip 0 v t = (case t of None \<Rightarrow> PNode v None None | Some (PNode _ l r) \<Rightarrow> PNode v l r)"
| "pt_insert ip (Suc n) v t =
     (case (case t of None \<Rightarrow> pempty | Some t \<Rightarrow> t) of PNode w l r \<Rightarrow>
        if top_bit ip then PNode w l (Some (pt_insert (push_bit 1 ip) n v r))
        else PNode w (Some (pt_insert (push_bit 1 ip) n v l)) r)"

definition PTree_Insert :: "leaf \<Rightarrow> ptree \<Rightarrow> ptree" where
  "PTree_Insert v t = pt_insert (SubNet v) (unat (PreLen v)) v (Some t)"

definition PTree_ConstructTree :: "leaf list \<Rightarrow> ptree \<Rightarrow> ptree" where
  "PTree_ConstructTree es t = fold PTree_Insert es t"

text \<open>\<^verbatim>\<open>Search\<close>: the deepest node on the path of the address, accepted if its prefix matches; otherwise the
  root.\<close>

fun pt_walk :: "u32 \<Rightarrow> ptree \<Rightarrow> leaf" where
  "pt_walk ip (PNode v l r) =
     (if top_bit ip then (case r of None \<Rightarrow> v | Some t \<Rightarrow> pt_walk (push_bit 1 ip) t)
      else (case l of None \<Rightarrow> v | Some t \<Rightarrow> pt_walk (push_bit 1 ip) t))"

definition PTree_Search :: "u32 \<Rightarrow> ptree \<Rightarrow> leaf option" where
  "PTree_Search ip t = do {
     let q = pt_walk ip t;
     bite \<leftarrow> bite_loop (SubNet q) ip (unat (PreLen q)) 0 0;
     Some (if bite < unat (PreLen q) then pinfo t else q) }"

section \<open>Paths\<close>

text \<open>The first \<open>n\<close> bits of an address, as the walks take them.\<close>

fun path :: "u32 \<Rightarrow> nat \<Rightarrow> bool list" where
  "path ip 0 = []"
| "path ip (Suc n) = top_bit ip # path (push_bit 1 ip) n"

fun node_at :: "ptree option \<Rightarrow> bool list \<Rightarrow> leaf option" where
  "node_at None bs = None"
| "node_at (Some (PNode v l r)) [] = Some v"
| "node_at (Some (PNode v l r)) (b # bs) = node_at (if b then r else l) bs"

lemma top_bit_iff: "top_bit ip \<longleftrightarrow> bit ip 31"
  using and_exp_eq_0_iff_not_bit [of ip 31] by (simp add: top_bit_def)

lemma length_path [simp]: "length (path ip n) = n"
  by (induction n arbitrary: ip) auto

lemma path_nth: "i < n \<Longrightarrow> n \<le> 32 \<Longrightarrow> path ip n ! i \<longleftrightarrow> bit ip (31 - i)"
proof (induction n arbitrary: ip i)
  case (Suc n)
  show ?case
  proof (cases i)
    case 0
    then show ?thesis by (simp add: top_bit_iff)
  next
    case (Suc j)
    have e: "31 - j - 1 = 31 - i" "1 \<le> 31 - j" "31 - j < 32" using Suc Suc.prems by auto
    have "bit (push_bit 1 ip) (31 - j) \<longleftrightarrow> bit ip (31 - i)"
      unfolding bit_push_bit_iff e(1) using e(2,3) by simp
    then show ?thesis using Suc.IH [of j "push_bit 1 ip"] Suc Suc.prems by simp
  qed
qed simp

lemma path_eq_iff:
  assumes "n \<le> 32"
  shows "path a n = path b n \<longleftrightarrow> drop_bit (32 - n) a = drop_bit (32 - n) b"
proof -
  have "path a n = path b n \<longleftrightarrow> (\<forall>i < n. bit a (31 - i) = bit b (31 - i))"
    using path_nth [OF _ assms] by (auto simp: list_eq_iff_nth_eq)
  also have "\<dots> \<longleftrightarrow> (\<forall>j < n. bit a (32 - n + j) = bit b (32 - n + j))"
  proof
    assume h: "\<forall>i < n. bit a (31 - i) = bit b (31 - i)"
    show "\<forall>j < n. bit a (32 - n + j) = bit b (32 - n + j)"
    proof (intro allI impI)
      fix j assume "j < n"
      then show "bit a (32 - n + j) = bit b (32 - n + j)" using h [rule_format, of "n - 1 - j"] assms by simp
    qed
  next
    assume h: "\<forall>j < n. bit a (32 - n + j) = bit b (32 - n + j)"
    show "\<forall>i < n. bit a (31 - i) = bit b (31 - i)"
    proof (intro allI impI)
      fix i assume "i < n"
      then show "bit a (31 - i) = bit b (31 - i)" using h [rule_format, of "n - 1 - i"] assms by simp
    qed
  qed
  also have "\<dots> \<longleftrightarrow> drop_bit (32 - n) a = drop_bit (32 - n) b"
  proof
    assume h: "\<forall>j < n. bit a (32 - n + j) = bit b (32 - n + j)"
    show "drop_bit (32 - n) a = drop_bit (32 - n) b"
    proof (rule bit_word_eqI)
      fix j assume "j < LENGTH(32)"
      show "bit (drop_bit (32 - n) a) j = bit (drop_bit (32 - n) b) j"
      proof (cases "j < n")
        case True
        then show ?thesis using h by (simp add: bit_drop_bit_eq)
      next
        case False
        then have "\<not> bit w (32 - n + j)" for w :: u32 using assms bit_imp_le_length [of w "32 - n + j"] by auto
        then show ?thesis by (simp add: bit_drop_bit_eq)
      qed
    qed
  next
    assume h: "drop_bit (32 - n) a = drop_bit (32 - n) b"
    have "bit (drop_bit (32 - n) a) j = bit (drop_bit (32 - n) b) j" for j unfolding h ..
    then show "\<forall>j < n. bit a (32 - n + j) = bit b (32 - n + j)" by (simp add: bit_drop_bit_eq)
  qed
  finally show ?thesis .
qed

lemma take_path: "n \<le> m \<Longrightarrow> take n (path ip m) = path ip n"
proof (induction m arbitrary: n ip)
  case (Suc m)
  then show ?case by (cases n) auto
qed simp

lemma prefix_path: "prefix (path a n) (path b m) \<longleftrightarrow> n \<le> m \<and> path a n = path b n"
  by (metis length_path prefix_def prefix_length_le take_is_prefix take_path append_eq_conv_conj)

section \<open>Insertion and search\<close>

definition pat :: "leaf \<Rightarrow> bool list" where
  "pat e = path (SubNet e) (unat (PreLen e))"

lemma node_at_Nil [simp]: "node_at (Some t) [] = Some (pinfo t)"
  by (cases t) simp

lemma node_at_insert:
  "node_at (Some (pt_insert ip n v t)) q =
     (if q = path ip n then Some v
      else case node_at t q of Some w \<Rightarrow> Some w | None \<Rightarrow> if prefix q (path ip n) then Some leaf0 else None)"
proof (induction n arbitrary: ip t q)
  case 0
  show ?case
    by (cases t; cases q) (auto split: ptree.split option.split)
next
  case (Suc n)
  show ?case
  proof (cases t)
    case None
    then show ?thesis
      by (cases q) (auto simp: pempty_def Suc.IH split: option.split)
  next
    case (Some u)
    then show ?thesis
      by (cases u; cases q) (auto simp: Suc.IH split: option.split)
  qed
qed

lemma node_at_construct:
  "node_at (Some (PTree_ConstructTree es pempty)) q =
     (case find (\<lambda>e. pat e = q) (rev es) of
        Some e \<Rightarrow> Some e
      | None \<Rightarrow> if q = [] \<or> (\<exists>e \<in> set es. prefix q (pat e)) then Some leaf0 else None)"
proof (induction es rule: rev_induct)
  case Nil
  show ?case by (cases q) (auto simp: PTree_ConstructTree_def pempty_def)
next
  case (snoc e es)
  have c: "PTree_ConstructTree (es @ [e]) pempty = pt_insert (SubNet e) (unat (PreLen e)) e (Some (PTree_ConstructTree es pempty))"
    by (simp add: PTree_ConstructTree_def PTree_Insert_def)
  show ?case
    unfolding c node_at_insert snoc.IH by (auto simp: pat_def split: option.split)
qed

text \<open>The walk ends where the path leaves the tree.\<close>

lemma pt_walk_end: "\<exists>k. node_at (Some t) (path ip k) = Some (pt_walk ip t) \<and> node_at (Some t) (path ip (Suc k)) = None"
proof (induction ip t rule: pt_walk.induct)
  case (1 ip v l r)
  show ?case
  proof (cases "if top_bit ip then r else l")
    case None
    then show ?thesis by (intro exI [of _ 0]) (auto split: if_splits)
  next
    case (Some u)
    then obtain k where "node_at (Some u) (path (push_bit 1 ip) k) = Some (pt_walk (push_bit 1 ip) u)"
      "node_at (Some u) (path (push_bit 1 ip) (Suc k)) = None"
      using 1 by (metis option.inject)
    then show ?thesis using Some by (intro exI [of _ "Suc k"]) (auto split: if_splits)
  qed
qed

lemma pt_walk_eq:
  "node_at (Some t) (path ip n) = Some w \<Longrightarrow> node_at (Some t) (path ip (Suc n)) = None \<Longrightarrow> pt_walk ip t = w"
proof (induction n arbitrary: t ip)
  case 0
  then show ?case by (cases t) (auto split: option.split if_splits)
next
  case (Suc n)
  obtain v l r where t: "t = PNode v l r" by (cases t)
  obtain u where u: "(if top_bit ip then r else l) = Some u"
    using Suc.prems(1) t by (cases "if top_bit ip then r else l") auto
  then have "pt_walk (push_bit 1 ip) u = w" using Suc t by simp
  then show ?case using u t by (auto split: if_splits)
qed

lemma bite_loop_iff:
  assumes "n \<le> 31" "i \<le> n"
  shows "\<exists>b. bite_loop net ip n i i = Some b \<and> (n \<le> b \<longleftrightarrow> (\<forall>j. i \<le> j \<and> j < n \<longrightarrow> drop_bit (31 - j) net = drop_bit (31 - j) ip))"
  using assms(2)
proof (induction "n - i" arbitrary: i)
  case 0
  then have "i = n" by simp
  then show ?case using assms(1) by (auto simp: bite_loop.simps [of net ip n n n] bite_loop.simps [of net ip n "Suc n" "Suc n"])
next
  case (Suc d)
  then have i: "i < n" by simp
  show ?case
  proof (cases "drop_bit (31 - i) net = drop_bit (31 - i) ip")
    case True
    obtain b where b: "bite_loop net ip n (i + 1) (i + 1) = Some b"
      "n \<le> b \<longleftrightarrow> (\<forall>j. i + 1 \<le> j \<and> j < n \<longrightarrow> drop_bit (31 - j) net = drop_bit (31 - j) ip)"
      using Suc.hyps(1) [of "i + 1"] Suc.hyps(2) i by (metis Suc_eq_plus1 Suc_leI diff_Suc_1 diff_diff_left)
    moreover have "(\<forall>j. i + 1 \<le> j \<and> j < n \<longrightarrow> drop_bit (31 - j) net = drop_bit (31 - j) ip)
        \<longleftrightarrow> (\<forall>j. i \<le> j \<and> j < n \<longrightarrow> drop_bit (31 - j) net = drop_bit (31 - j) ip)"
      using True by (metis Suc_eq_plus1 Suc_leD Suc_leI le_neq_implies_less)
    moreover have "bite_loop net ip n i i = bite_loop net ip n (i + 1) (i + 1)"
      using True i assms(1) by (simp add: bite_loop.simps [of net ip n i i])
    ultimately show ?thesis by simp
  next
    case False
    then have "bite_loop net ip n i i = Some i" using i assms(1) by (simp add: bite_loop.simps [of net ip n i i])
    then show ?thesis using False i by auto
  qed
qed

text \<open>An entry matches an address when the upper \<^verbatim>\<open>PreLen\<close> bits agree; it is nested in another when its prefix
  is a longer one of the same network.\<close>

definition leaf_match :: "u32 \<Rightarrow> leaf \<Rightarrow> bool" where
  "leaf_match ip e \<longleftrightarrow> drop_bit (32 - unat (PreLen e)) (SubNet e) = drop_bit (32 - unat (PreLen e)) ip"

definition nested :: "leaf \<Rightarrow> leaf \<Rightarrow> bool" where
  "nested e e' \<longleftrightarrow> PreLen e < PreLen e' \<and> leaf_match (SubNet e') e"

lemma leaf_match_path: "unat (PreLen e) \<le> 31 \<Longrightarrow> leaf_match ip e \<longleftrightarrow> pat e = path ip (unat (PreLen e))"
  using path_eq_iff [of "unat (PreLen e)" "SubNet e" ip] by (simp add: leaf_match_def pat_def)

lemma nested_path:
  "unat (PreLen e) \<le> 31 \<Longrightarrow> nested e e' \<longleftrightarrow> strict_prefix (pat e) (pat e')"
  by (auto simp: nested_def leaf_match_path strict_prefix_def prefix_path pat_def word_less_nat_alt le_less
      dest: arg_cong [of _ _ length])

lemma matching_same_length:
  assumes "leaf_match ip e" "leaf_match ip e'" "unat (PreLen e) \<le> 31" "unat (PreLen e') \<le> 31" "\<not> nested e e'" "\<not> nested e' e"
  shows "unat (PreLen e) = unat (PreLen e')"
proof (rule ccontr)
  assume "unat (PreLen e) \<noteq> unat (PreLen e')"
  then consider "unat (PreLen e) < unat (PreLen e')" | "unat (PreLen e') < unat (PreLen e)" by linarith
  then show False
  proof cases
    case 1
    then have "nested e e'"
      using assms(1-4) unfolding nested_path [OF assms(3)] leaf_match_path [OF assms(3)] leaf_match_path [OF assms(4)]
      by (metis less_imp_le pat_def prefix_path strict_prefix_def length_path less_irrefl)
    then show ?thesis using assms(5) by blast
  next
    case 2
    then have "nested e' e"
      using assms(1-4) unfolding nested_path [OF assms(4)] leaf_match_path [OF assms(3)] leaf_match_path [OF assms(4)]
      by (metis less_imp_le pat_def prefix_path strict_prefix_def length_path less_irrefl)
    then show ?thesis using assms(6) by blast
  qed
qed

lemma leaf_match_bites:
  assumes "unat (PreLen e) \<le> 31" "leaf_match ip e"
  shows "\<exists>b. bite_loop (SubNet e) ip (unat (PreLen e)) 0 0 = Some b \<and> unat (PreLen e) \<le> b"
proof -
  let ?n = "unat (PreLen e)"
  have "path (SubNet e) ?n = path ip ?n" using leaf_match_path [OF assms(1)] assms(2) by (simp add: pat_def)
  then have "path (SubNet e) (Suc i) = path ip (Suc i)" if "i < ?n" for i
    using that take_path [of "Suc i" ?n] by (metis Suc_leI)
  then have "drop_bit (31 - i) (SubNet e) = drop_bit (31 - i) ip" if "i < ?n" for i
    using that path_eq_iff [of "Suc i" "SubNet e" ip] assms(1) by simp
  then show ?thesis using bite_loop_iff [OF assms(1), of 0 "SubNet e" ip] by auto
qed

lemma PTree_Search_hit:
  "pt_walk ip t = e \<Longrightarrow> unat (PreLen e) \<le> 31 \<Longrightarrow> leaf_match ip e \<Longrightarrow> PTree_Search ip t = Some e"
  using leaf_match_bites [of e ip] by (auto simp: PTree_Search_def)

text \<open>On a table without nested prefixes the single-bit tree answers as a scan of the table does: the
  search returns the last entry given whose prefix matches the address, and the empty entry of the
  root if there is none. (Prefixes of 32 bits are excluded: for them the comparison loop shifts by
  a negative amount.)\<close>

theorem PTree_Search_prefix_free:
  assumes len: "\<forall>e \<in> set es. unat (PreLen e) \<le> 31" and nn: "\<forall>e \<in> set es. \<forall>e' \<in> set es. \<not> nested e e'"
  shows "PTree_Search ip (PTree_ConstructTree es pempty) =
     Some (case find (leaf_match ip) (rev es) of Some e \<Rightarrow> e | None \<Rightarrow> leaf0)"
proof -
  let ?t = "PTree_ConstructTree es pempty"
  show ?thesis
  proof (cases "find (leaf_match ip) (rev es)")
    case None
    then have no: "\<not> leaf_match ip e" if "e \<in> set es" for e using that by (simp add: find_None_iff)
    obtain k where k: "node_at (Some ?t) (path ip k) = Some (pt_walk ip ?t)" using pt_walk_end by blast
    have "find (\<lambda>e. pat e = path ip k) (rev es) = None"
      using no leaf_match_path len by (auto simp: find_None_iff pat_def) (metis length_path)
    then have "pt_walk ip ?t = leaf0" using k unfolding node_at_construct by (simp split: if_splits)
    then show ?thesis
      using None PTree_Search_hit [of ip ?t leaf0] by (simp add: leaf0_def leaf_match_def)
  next
    case (Some e)
    then have e: "e \<in> set es" "leaf_match ip e" by (auto simp: find_Some_iff) (metis length_rev nth_mem set_rev)
    let ?n = "unat (PreLen e)"
    have n: "?n \<le> 31" using e(1) len by blast
    have pe: "pat e = path ip ?n" using leaf_match_path [OF n] e(2) by blast
    have same: "leaf_match ip e' \<longleftrightarrow> pat e' = path ip ?n" if "e' \<in> set es" for e'
      using matching_same_length [of ip e e'] leaf_match_path [of e' ip] e that len nn by (metis length_path pat_def)
    then have f: "find (\<lambda>e'. pat e' = path ip ?n) (rev es) = Some e"
      using Some by (metis (mono_tags, lifting) find_cong set_rev)
    have np: "\<not> prefix (path ip (Suc ?n)) (pat e')" if "e' \<in> set es" for e'
    proof
      assume p: "prefix (path ip (Suc ?n)) (pat e')"
      have "prefix (path ip ?n) (path ip (Suc ?n))" unfolding prefix_path by simp
      then have "prefix (pat e) (pat e')" unfolding pe using p by (rule prefix_order.trans)
      moreover have "pat e \<noteq> pat e'"
      proof
        assume "pat e = pat e'"
        then have "length (pat e') = ?n" by (metis length_path pe)
        then show False using prefix_length_le [OF p] by simp
      qed
      ultimately have "strict_prefix (pat e) (pat e')" by (simp add: strict_prefix_def)
      then show False using nested_path [OF n] nn e(1) that by blast
    qed
    have "find (\<lambda>e'. pat e' = path ip (Suc ?n)) (rev es) = None"
      unfolding find_None_iff using np by (metis prefix_order.refl set_rev)
    then have "node_at (Some ?t) (path ip (Suc ?n)) = None" "node_at (Some ?t) (path ip ?n) = Some e"
      using f np e(1) unfolding node_at_construct by auto
    then have "pt_walk ip ?t = e" by (intro pt_walk_eq) auto
    then show ?thesis using PTree_Search_hit [OF _ n e(2)] Some by simp
  qed
qed

section \<open>The double-bit tree\<close>

datatype mtree = MNode (minfo: leaf) (mchild: "mtree option list")

definition mempty :: mtree where
  "mempty = MNode leaf0 [None, None, None, None]"

definition mleaf :: "leaf \<Rightarrow> mtree" where
  "mleaf v = MNode v [None, None, None, None]"

text \<open>A prefix of odd length ends with one more bit and takes two of the four places. Where the whole
  path is missing they are set; where the last node exists, only the free ones are.\<close>

definition set_pair :: "nat \<Rightarrow> leaf \<Rightarrow> mtree \<Rightarrow> mtree" where
  "set_pair loc v t = (case t of MNode w cs \<Rightarrow>
     if 2 \<le> loc then MNode w (cs[2 := Some (mleaf v), 3 := Some (mleaf v)])
     else MNode w (cs[0 := Some (mleaf v), 1 := Some (mleaf v)]))"

definition fill_pair :: "nat \<Rightarrow> leaf \<Rightarrow> mtree \<Rightarrow> mtree" where
  "fill_pair loc v t = (case t of MNode w cs \<Rightarrow>
     let put = (\<lambda>i cs. if cs ! i = None then cs[i := Some (mleaf v)] else cs) in
     if 2 \<le> loc then MNode w (put 3 (put 2 cs)) else MNode w (put 1 (put 0 cs)))"

text \<open>The missing part of a path, \<open>n\<close> bits below the current place.\<close>

fun mt_chain :: "u32 \<Rightarrow> nat \<Rightarrow> leaf \<Rightarrow> mtree" where
  "mt_chain ip 0 v = mleaf v"
| "mt_chain ip (Suc 0) v = set_pair (top_two ip) v mempty"
| "mt_chain ip (Suc (Suc n)) v = MNode leaf0 ([None, None, None, None][top_two ip := Some (mt_chain (push_bit 2 ip) n v)])"

fun mt_insert :: "u32 \<Rightarrow> nat \<Rightarrow> leaf \<Rightarrow> mtree option \<Rightarrow> mtree" where
  "mt_insert ip n v None = mt_chain ip n v"
| "mt_insert ip 0 v (Some (MNode w cs)) = MNode v cs"
| "mt_insert ip (Suc 0) v (Some t) = fill_pair (top_two ip) v t"
| "mt_insert ip (Suc (Suc n)) v (Some (MNode w cs)) =
     MNode w (cs[top_two ip := Some (mt_insert (push_bit 2 ip) n v (cs ! top_two ip))])"

definition MulPTree_Insert :: "leaf \<Rightarrow> mtree \<Rightarrow> mtree" where
  "MulPTree_Insert v t = mt_insert (SubNet v) (unat (PreLen v)) v (Some t)"

definition MulPTree_ConstructTree :: "leaf list \<Rightarrow> mtree \<Rightarrow> mtree" where
  "MulPTree_ConstructTree es t = fold MulPTree_Insert es t"

lemma child_size: "Some t \<in> set cs \<Longrightarrow> size (t :: mtree) < Suc (size_list (size_option size) cs)"
  using size_list_estimation' [of "Some t" cs "size t" "size_option size"] by simp

function mt_walk :: "u32 \<Rightarrow> mtree \<Rightarrow> leaf" where
  "mt_walk ip (MNode v cs) =
     (if top_two ip < length cs then
        (case cs ! top_two ip of None \<Rightarrow> v | Some t \<Rightarrow> mt_walk (push_bit 2 ip) t)
      else v)"
  by pat_completeness auto
termination by (relation "measure (\<lambda>(ip, t). size t)") (auto intro!: child_size dest: nth_mem)

definition MulPTree_Search :: "u32 \<Rightarrow> mtree \<Rightarrow> leaf option" where
  "MulPTree_Search ip t = do {
     let q = mt_walk ip t;
     bite \<leftarrow> bite_loop (SubNet q) ip (unat (PreLen q)) 0 0;
     Some (if bite < unat (PreLen q) then minfo t else q) }"

lemma MulPTree_Search_hit:
  "mt_walk ip t = e \<Longrightarrow> unat (PreLen e) \<le> 31 \<Longrightarrow> leaf_match ip e \<Longrightarrow> MulPTree_Search ip t = Some e"
  using leaf_match_bites [of e ip] by (auto simp: MulPTree_Search_def)

section \<open>The compressed tree\<close>

text \<open>\<^verbatim>\<open>CVTree\<close> keeps the leaves and the inner children of a node in two vectors and a bit for each place.\<close>

datatype cvtree = CV (NotLeaf: "bool list") (LeafVec: "leaf list") (ChildVec: "cvtree list")

definition isLeaf :: "mtree \<Rightarrow> bool" where
  "isLeaf t \<longleftrightarrow> (\<forall>c \<in> set (mchild t). c = None)"

definition is_inner :: "mtree option \<Rightarrow> bool" where
  "is_inner c = (case c of None \<Rightarrow> False | Some t \<Rightarrow> \<not> isLeaf t)"

definition is_outer :: "mtree option \<Rightarrow> bool" where
  "is_outer c = (case c of None \<Rightarrow> False | Some t \<Rightarrow> isLeaf t)"

text \<open>\<^verbatim>\<open>ConstructCVTree\<close>: the result for the caller and the tree; the results of the calls for the children
  are ignored.\<close>

function ConstructCVTree :: "mtree \<Rightarrow> bool \<times> cvtree" where
  "ConstructCVTree (MNode v cs) =
     (let outer = filter is_outer cs; inner = filter is_inner cs in
      if length outer + length inner \<noteq> 4 then (False, CV (map is_inner cs) [] [])
      else (True, CV (map is_inner cs) (map (minfo \<circ> the) outer) (map (\<lambda>c. case c of Some t \<Rightarrow> snd (ConstructCVTree t) | None \<Rightarrow> CV [] [] []) inner)))"
  by pat_completeness auto
termination by (relation "measure size") (auto intro!: child_size)

definition Count :: "bool list \<Rightarrow> nat \<Rightarrow> nat" where
  "Count nl loc = length (filter id (take (min loc 4) nl))"

text \<open>The walk of \<^verbatim>\<open>CVTree::Search\<close> to a leaf.\<close>

lemma child_size_cv: "i < length cv \<Longrightarrow> size (cv ! i :: cvtree) < Suc (size_list size cv)"
  using size_list_estimation' [of "cv ! i" cv "size (cv ! i)" size] by simp

function cv_walk :: "u32 \<Rightarrow> cvtree \<Rightarrow> leaf option" where
  "cv_walk ip (CV nl lv cv) =
     (let loc = top_two ip in
      if loc \<ge> length nl then None
      else if nl ! loc then
        (if Count nl loc < length cv then cv_walk (push_bit 2 ip) (cv ! Count nl loc) else None)
      else if loc - Count nl loc < length lv then Some (lv ! (loc - Count nl loc)) else None)"
  by pat_completeness auto
termination by (relation "measure (\<lambda>(ip, t). size t)") (auto intro!: child_size_cv)

definition CVTree_Search :: "u32 \<Rightarrow> cvtree \<Rightarrow> leaf option" where
  "CVTree_Search ip t = do {
     q \<leftarrow> cv_walk ip t;
     ensure (unat (PreLen q) \<le> 32);
     Some (if list_all (\<lambda>i. drop_bit (32 - i) (SubNet q) = drop_bit (32 - i) ip) [1..<unat (PreLen q) + 1] then q else leaf0) }"

declare ConstructCVTree.simps [simp del] cv_walk.simps [simp del]

text \<open>A full tree: every node has four children or none.\<close>

function full :: "mtree \<Rightarrow> bool" where
  "full (MNode v cs) \<longleftrightarrow> length cs = 4 \<and>
     ((\<forall>c \<in> set cs. c = None) \<or> (\<forall>c \<in> set cs. case c of None \<Rightarrow> False | Some t \<Rightarrow> full t))"
  by pat_completeness auto
termination by (relation "measure size") (auto intro!: child_size)

declare full.simps [simp del] mt_walk.simps [simp del]

section \<open>Compression is faithful\<close>

lemma top_two_less: "top_two ip < 4"
proof -
  let ?w = "ip AND 0xC0000000"
  have "top_two ip = unat ?w div 2 ^ 30" unfolding top_two_def unat_drop_bit_eq by (rule drop_bit_eq_div)
  then show ?thesis using unat_u32 [of ?w] by (simp add: less_mult_imp_div_less)
qed

lemma Count_map: "loc \<le> 4 \<Longrightarrow> length cs = 4 \<Longrightarrow> Count (map is_inner cs) loc = length (filter is_inner (take loc cs))"
  by (simp add: Count_def take_map filter_map o_def min_absorb1)

lemma filter_split_nth:
  assumes "i < length xs" "P (xs ! i)"
  shows "filter P xs = filter P (take i xs) @ xs ! i # filter P (drop (Suc i) xs)"
  using arg_cong [OF id_take_nth_drop [OF assms(1)], of "filter P"] assms(2) by simp

lemma filter_nth_take:
  assumes "i < length xs" "P (xs ! i)"
  shows "filter P xs ! length (filter P (take i xs)) = xs ! i" "length (filter P (take i xs)) < length (filter P xs)"
proof -
  note s = filter_split_nth [of i xs P, OF assms]
  show "filter P xs ! length (filter P (take i xs)) = xs ! i" by (subst s) (rule nth_append_length)
  show "length (filter P (take i xs)) < length (filter P xs)" by (subst s) simp
qed

lemma cv_walk_construct:
  "full t \<Longrightarrow> \<not> isLeaf t \<Longrightarrow> fst (ConstructCVTree t) \<and> cv_walk ip (snd (ConstructCVTree t)) = Some (mt_walk ip t)"
proof (induction ip t rule: mt_walk.induct)
  case (1 ip v cs)
  have len: "length cs = 4" and kids: "\<And>c. c \<in> set cs \<Longrightarrow> \<exists>u. c = Some u \<and> full u"
    using 1(2,3) by (fastforce simp: full.simps isLeaf_def split: option.splits)+
  have compl: "is_outer c \<longleftrightarrow> \<not> is_inner c" if "c \<in> set cs" for c
    using kids [OF that] by (auto simp: is_outer_def is_inner_def)
  have outer: "filter is_outer (take n cs) = filter (\<lambda>c. \<not> is_inner c) (take n cs)" for n
    using compl by (intro filter_cong) (auto dest: in_set_takeD)
  have outer': "filter is_outer cs = filter (\<lambda>c. \<not> is_inner c) cs" using outer [of 4] len by simp
  let ?k = "length (filter is_inner (take (top_two ip) cs))"
  have loc: "top_two ip < 4" by (rule top_two_less)
  have k: "top_two ip - ?k = length (filter is_outer (take (top_two ip) cs))"
    using sum_length_filter_compl [of is_inner "take (top_two ip) cs"] loc len unfolding outer by simp
  have c: "ConstructCVTree (MNode v cs) = (True, CV (map is_inner cs) (map (minfo \<circ> the) (filter is_outer cs))
      (map (\<lambda>c. case c of Some t \<Rightarrow> snd (ConstructCVTree t) | None \<Rightarrow> CV [] [] []) (filter is_inner cs)))"
    using sum_length_filter_compl [of is_inner cs] len unfolding ConstructCVTree.simps outer' by (simp add: Let_def)
  have cnt: "Count (map is_inner cs) (top_two ip) = ?k" using Count_map [of "top_two ip" cs] loc len by simp
  obtain u where u: "cs ! top_two ip = Some u" "full u" using kids [of "cs ! top_two ip"] loc len by auto
  have walk: "mt_walk ip (MNode v cs) = mt_walk (push_bit 2 ip) u" using u loc len by (simp add: mt_walk.simps [of ip])
  show ?case
  proof (cases "isLeaf u")
    case True
    then have o: "is_outer (cs ! top_two ip)" "\<not> is_inner (cs ! top_two ip)" using u by (simp_all add: is_outer_def is_inner_def)
    obtain w ds where ds: "u = MNode w ds" by (cases u)
    have "ds ! n = None" if "n < length ds" for n using True nth_mem [OF that] by (auto simp: isLeaf_def ds)
    then have "mt_walk (push_bit 2 ip) u = minfo u" unfolding ds by (simp add: mt_walk.simps)
    then show ?thesis
      unfolding c walk using filter_nth_take [of "top_two ip" cs is_outer, OF _ o(1)] loc len o(2) u(1) cnt k
      by (simp add: cv_walk.simps Let_def)
  next
    case False
    then have o: "is_inner (cs ! top_two ip)" using u by (simp add: is_inner_def)
    have "cv_walk (push_bit 2 ip) (snd (ConstructCVTree u)) = Some (mt_walk (push_bit 2 ip) u)"
      using 1(1) [OF _ u(1)] loc len u(2) False by simp
    then show ?thesis
      unfolding c walk using filter_nth_take [of "top_two ip" cs is_inner, OF _ o] loc len o u(1) cnt
      by (simp add: cv_walk.simps Let_def)
  qed
qed

text \<open>Vector compression does not change the answers: for a full double-bit tree (every node has four
  children or none, as after leaf pushing) whose root carries no entry, \<^verbatim>\<open>ConstructCVTree\<close> succeeds, and for
  every address whose leaf has a prefix of at most 31 bits the search in the compressed tree
  returns what the search in the tree returns, without reading outside its vectors.\<close>

theorem CVTree_Search_equiv:
  assumes t: "full t" "\<not> isLeaf t" "minfo t = leaf0" and n: "unat (PreLen (mt_walk ip t)) \<le> 31"
  shows "fst (ConstructCVTree t) \<and> (\<exists>e. CVTree_Search ip (snd (ConstructCVTree t)) = Some e \<and> MulPTree_Search ip t = Some e)"
proof -
  let ?q = "mt_walk ip t" and ?n = "unat (PreLen (mt_walk ip t))"
  have w: "fst (ConstructCVTree t)" "cv_walk ip (snd (ConstructCVTree t)) = Some ?q"
    using cv_walk_construct [OF t(1,2)] by auto
  obtain b where b: "bite_loop (SubNet ?q) ip ?n 0 0 = Some b"
    "?n \<le> b \<longleftrightarrow> (\<forall>j < ?n. drop_bit (31 - j) (SubNet ?q) = drop_bit (31 - j) ip)"
    using bite_loop_iff [OF n, of 0 "SubNet ?q" ip] by auto
  have "list_all (\<lambda>i. drop_bit (32 - i) (SubNet ?q) = drop_bit (32 - i) ip) [1..<?n + 1] \<longleftrightarrow>
      (\<forall>j < ?n. drop_bit (32 - Suc j) (SubNet ?q) = drop_bit (32 - Suc j) ip)"
  proof -
    have "set [1..<?n + 1] = Suc ` {..<?n}" by (simp only: image_Suc_lessThan set_upt Suc_eq_plus1 [symmetric] atLeastLessThanSuc_atLeastAtMost)
    then show ?thesis unfolding list_all_iff by (simp only: ball_simps) (simp only: Ball_def lessThan_iff)
  qed
  also have "\<dots> \<longleftrightarrow> ?n \<le> b" using b(2) by simp
  finally show ?thesis using w b(1) n t(3) by (simp add: CVTree_Search_def MulPTree_Search_def not_less)
qed

section \<open>Examples\<close>

definition table0 :: "leaf list" where
  "table0 = [\<lparr>SubNet = 0x0A000000, PreLen = 8, Port = 1\<rparr>, \<lparr>SubNet = 0xC0A80000, PreLen = 16, Port = 2\<rparr>,
     \<lparr>SubNet = 0xC0A90100, PreLen = 24, Port = 3\<rparr>]"

theorem PTree_Search_prefix_free_witness:
  "PTree_Search 0xC0A80105 (PTree_ConstructTree table0 pempty) = Some \<lparr>SubNet = 0xC0A80000, PreLen = 16, Port = 2\<rparr>
   \<and> PTree_Search 0x0B000001 (PTree_ConstructTree table0 pempty) = Some leaf0"
proof -
  have "\<forall>e \<in> set table0. unat (PreLen e) \<le> 31" by (simp add: table0_def)
  moreover have "\<forall>e \<in> set table0. \<forall>e' \<in> set table0. \<not> nested e e'"
    by (simp add: table0_def nested_def leaf_match_def drop_bit_eq_div)
  ultimately show ?thesis
    using PTree_Search_prefix_free [of table0 "0xC0A80105"] PTree_Search_prefix_free [of table0 "0x0B000001"]
    by (simp add: table0_def leaf_match_def drop_bit_eq_div)
qed

text \<open>With nested prefixes the tree forgets the shorter one where the longer one only shares a part of the
  path: the walk ends in an empty inner node.\<close>

lemma PTree_Search_nested:
  "PTree_Search 0x0A020000 (PTree_ConstructTree
     [\<lparr>SubNet = 0x0A000000, PreLen = 8, Port = 1\<rparr>, \<lparr>SubNet = 0x0A010000, PreLen = 16, Port = 2\<rparr>] pempty) = Some leaf0"
  by code_simp

definition quad0 :: mtree where
  "quad0 = MNode leaf0 [Some (mleaf \<lparr>SubNet = 0, PreLen = 2, Port = 1\<rparr>),
     Some (MNode leaf0 [Some (mleaf \<lparr>SubNet = 0x40000000, PreLen = 4, Port = 2\<rparr>), Some (mleaf leaf0), Some (mleaf leaf0), Some (mleaf leaf0)]),
     Some (mleaf leaf0), Some (mleaf \<lparr>SubNet = 0xC0000000, PreLen = 2, Port = 4\<rparr>)]"

theorem CVTree_Search_equiv_witness:
  "\<exists>e. CVTree_Search 0x41000000 (snd (ConstructCVTree quad0)) = Some e \<and> MulPTree_Search 0x41000000 quad0 = Some e"
proof -
  have "full quad0" "\<not> isLeaf quad0" "minfo quad0 = leaf0"
    by (simp_all add: quad0_def full.simps isLeaf_def mleaf_def)
  moreover have "unat (PreLen (mt_walk 0x41000000 quad0)) \<le> 31" by code_simp
  ultimately show ?thesis using CVTree_Search_equiv [of quad0 "0x41000000"] by blast
qed

end
