(* ===== verification/LeafPush.thy ===== *)
theory LeafPush
  imports PrefixTree
begin

text \<open>
  The leaf push of lab 09 (\<^verbatim>\<open>MulPTree::MleafPush\<close>) and what the program's main function does with its
  trees. The leaf push hangs one node below many others and changes it afterwards, so it runs on a heap of nodes. The
  names of the nodes are abstract: a node of the tree that was built is named by its path, a
  node made later by a number.
\<close>

section \<open>Nodes on a heap\<close>

datatype mptr = Built "nat list" | New nat

record mnode =
  m_entry :: leaf
  m_child :: "mptr option list"

record mheap =
  m_nodes :: "mptr \<Rightarrow> mnode option"
  m_brk :: nat

definition node_ref :: "mptr \<Rightarrow> mheap \<Rightarrow> mnode option" where
  "node_ref a h = m_nodes h a"

definition set_entry :: "mptr \<Rightarrow> leaf \<Rightarrow> mheap \<Rightarrow> mheap option" where
  "set_entry a e h = do { x \<leftarrow> node_ref a h; Some (h\<lparr>m_nodes := (m_nodes h)(a \<mapsto> x\<lparr>m_entry := e\<rparr>)\<rparr>) }"

definition set_child :: "mptr \<Rightarrow> nat \<Rightarrow> mptr \<Rightarrow> mheap \<Rightarrow> mheap option" where
  "set_child a i c h = do { x \<leftarrow> node_ref a h; Some (h\<lparr>m_nodes := (m_nodes h)(a \<mapsto> x\<lparr>m_child := (m_child x)[i := Some c]\<rparr>)\<rparr>) }"

text \<open>\<^verbatim>\<open>new MulPTree()\<close>, with the entry it is given next.\<close>

definition new_node :: "leaf \<Rightarrow> mheap \<Rightarrow> mptr \<times> mheap" where
  "new_node e h = (New (m_brk h), h\<lparr>m_nodes := (m_nodes h)(New (m_brk h) \<mapsto> \<lparr>m_entry = e, m_child = [None, None, None, None]\<rparr>),
     m_brk := Suc (m_brk h)\<rparr>)"

text \<open>A loop over the four children.\<close>

abbreviation loop4 :: "(nat \<Rightarrow> 'h \<Rightarrow> 'h option) \<Rightarrow> 'h \<Rightarrow> 'h option" where
  "loop4 f h \<equiv> Option.bind (f 0 h) (\<lambda>h. Option.bind (f 1 h) (\<lambda>h. Option.bind (f 2 h) (f 3)))"

text \<open>\<open>a\<close> is \<^verbatim>\<open>this\<close> and \<open>n\<close> is \<^verbatim>\<open>Node\<close>, which carries the last entry seen.\<close>

partial_function (option) MleafPush :: "mptr \<Rightarrow> mptr \<Rightarrow> mheap \<Rightarrow> mheap option" where
  "MleafPush a n h = do {
     x \<leftarrow> node_ref a h;
     if list_all (\<lambda>c. c = None) (m_child x) then Some h
     else do {
       h \<leftarrow> (if SubNet (m_entry x) \<noteq> 0 then set_entry n (m_entry x) h else Some h);
       if list_all (\<lambda>c. c \<noteq> None) (m_child x) then
         loop4 (\<lambda>i h. do {
           x \<leftarrow> node_ref a h;
           case m_child x ! i of None \<Rightarrow> None | Some c \<Rightarrow> MleafPush c n h }) h
       else do {
         y \<leftarrow> node_ref n h;
         let (m, h) = new_node (m_entry y) h;
         loop4 (\<lambda>i h. do {
           x \<leftarrow> node_ref a h;
           case m_child x ! i of None \<Rightarrow> set_child a i n h | Some c \<Rightarrow> MleafPush c m h }) h } } }"

declare MleafPush.simps [code]

section \<open>The tree on the heap\<close>

fun subtree :: "mtree \<Rightarrow> nat list \<Rightarrow> mtree option" where
  "subtree t [] = Some t"
| "subtree (MNode v cs) (i # q) = (if i < length cs then (case cs ! i of None \<Rightarrow> None | Some u \<Rightarrow> subtree u q) else None)"

definition built_node :: "nat list \<Rightarrow> mtree \<Rightarrow> mnode" where
  "built_node p t = \<lparr>m_entry = minfo t,
     m_child = map (\<lambda>i. map_option (\<lambda>_. Built (p @ [i])) (mchild t ! i)) [0..<length (mchild t)]\<rparr>"

text \<open>The heap of the main function before the leaf push: the tree and the fresh node \<^verbatim>\<open>MNode\<close>.\<close>

definition heap_of :: "mtree \<Rightarrow> mheap" where
  "heap_of t = \<lparr>m_nodes = (\<lambda>a. case a of
       Built p \<Rightarrow> map_option (built_node p) (subtree t p)
     | New k \<Rightarrow> if k = 0 then Some \<lparr>m_entry = leaf0, m_child = [None, None, None, None]\<rparr> else None),
     m_brk = 1\<rparr>"

text \<open>The tree that the heap holds at a node, shared nodes repeated.\<close>

inductive holds :: "mheap \<Rightarrow> mptr \<Rightarrow> mtree \<Rightarrow> bool" where
  "node_ref a h = Some x \<Longrightarrow> list_all2 (rel_option (holds h)) (m_child x) cs \<Longrightarrow> holds h a (MNode (m_entry x) cs)"
  monos list_all2_mono option.rel_mono_strong

inductive_cases holdsE: "holds h a t"

lemma holds_child:
  assumes "holds h a t" "node_ref a h = Some x" "i < length (m_child x)" "m_child x ! i = Some c"
  shows "minfo t = m_entry x \<and> i < length (mchild t) \<and> (\<exists>u. mchild t ! i = Some u \<and> holds h c u)"
  using assms by (auto elim!: holdsE simp: list_all2_conv_all_nth dest!: spec [of _ i]) (auto elim: option.rel_cases)

section \<open>What the leaf push does to the heap\<close>

definition leaf_cell :: "(leaf \<Rightarrow> bool) \<Rightarrow> mheap \<Rightarrow> nat \<Rightarrow> bool" where
  "leaf_cell Q h k \<longleftrightarrow> (\<exists>e. m_nodes h (New k) = Some \<lparr>m_entry = e, m_child = [None, None, None, None]\<rparr> \<and> Q e)"

definition owned :: "mheap \<Rightarrow> nat list \<Rightarrow> mtree \<Rightarrow> bool" where
  "owned h p t \<longleftrightarrow> (\<forall>q u. subtree t q = Some u \<longrightarrow> m_nodes h (Built (p @ q)) = Some (built_node (p @ q) u))"

definition filled_kids :: "nat set \<Rightarrow> nat list \<Rightarrow> mtree \<Rightarrow> mptr option list \<Rightarrow> bool" where
  "filled_kids S p u ks \<longleftrightarrow> length ks = length (mchild u) \<and> (\<forall>i < length ks.
     case mchild u ! i of Some _ \<Rightarrow> ks ! i = Some (Built (p @ [i]))
     | None \<Rightarrow> if isLeaf u then ks ! i = None else \<exists>j \<in> S. ks ! i = Some (New j))"

definition fills :: "mheap \<Rightarrow> nat set \<Rightarrow> nat list \<Rightarrow> mtree \<Rightarrow> bool" where
  "fills h S p t \<longleftrightarrow> (\<forall>q u. subtree t q = Some u \<longrightarrow>
     (\<exists>ks. m_nodes h (Built (p @ q)) = Some \<lparr>m_entry = minfo u, m_child = ks\<rparr> \<and> filled_kids S (p @ q) u ks))"

definition four :: "mtree \<Rightarrow> bool" where
  "four t \<longleftrightarrow> (\<forall>q u. subtree t q = Some u \<longrightarrow> length (mchild u) = 4)"

text \<open>An entry that the push may copy: that of an inner node.\<close>

definition carried :: "(leaf \<Rightarrow> bool) \<Rightarrow> mtree \<Rightarrow> bool" where
  "carried Q t \<longleftrightarrow> (\<forall>q u. subtree t q = Some u \<longrightarrow> \<not> isLeaf u \<longrightarrow> SubNet (minfo u) \<noteq> 0 \<longrightarrow> Q (minfo u))"

lemma subtree_cases:
  "subtree (MNode v cs) q = Some u \<longleftrightarrow> (q = [] \<and> u = MNode v cs) \<or> (\<exists>i r c. q = i # r \<and> i < length cs \<and> cs ! i = Some c \<and> subtree c r = Some u)"
  by (cases q) (auto split: option.split)

lemma subtree_child: "i < length cs \<Longrightarrow> cs ! i = Some c \<Longrightarrow> subtree (MNode v cs) (i # q) = subtree c q"
  by simp

lemma owned_child:
  assumes "owned h p (MNode v cs)" "i < length cs" "cs ! i = Some u"
  shows "owned h (p @ [i]) u"
  using assms(1) unfolding owned_def by (metis append.assoc append_Cons append_Nil subtree_child [OF assms(2,3)])

lemma four_child: "four (MNode v cs) \<Longrightarrow> i < length cs \<Longrightarrow> cs ! i = Some u \<Longrightarrow> four u"
  unfolding four_def by (metis subtree_child)

lemma carried_child: "carried Q (MNode v cs) \<Longrightarrow> i < length cs \<Longrightarrow> cs ! i = Some u \<Longrightarrow> carried Q u"
  unfolding carried_def by (metis subtree_child)

lemma fills_node:
  assumes "m_nodes h (Built p) = Some \<lparr>m_entry = v, m_child = ks\<rparr>" "filled_kids S p (MNode v cs) ks"
    and "\<And>i u. i < length cs \<Longrightarrow> cs ! i = Some u \<Longrightarrow> fills h S (p @ [i]) u"
  shows "fills h S p (MNode v cs)"
  using assms by (fastforce simp: fills_def subtree_cases)

lemma fills_mono: "fills h S p t \<Longrightarrow> S \<subseteq> S' \<Longrightarrow> fills h S' p t"
proof -
  have "filled_kids S p u ks \<Longrightarrow> S \<subseteq> S' \<Longrightarrow> filled_kids S' p u ks" for p u ks
    by (fastforce simp: filled_kids_def split: option.split if_splits)
  then show "fills h S p t \<Longrightarrow> S \<subseteq> S' \<Longrightarrow> fills h S' p t" unfolding fills_def by metis
qed

lemma fills_frame: "fills h S p t \<Longrightarrow> (\<And>q. m_nodes h' (Built (p @ q)) = m_nodes h (Built (p @ q))) \<Longrightarrow> fills h' S p t"
  by (simp add: fills_def)

lemma owned_frame: "owned h p t \<Longrightarrow> (\<And>q. m_nodes h' (Built (p @ q)) = m_nodes h (Built (p @ q))) \<Longrightarrow> owned h' p t"
  by (simp add: owned_def)

definition pushed :: "(leaf \<Rightarrow> bool) \<Rightarrow> nat list \<Rightarrow> nat \<Rightarrow> mtree \<Rightarrow> mheap \<Rightarrow> mheap \<Rightarrow> bool" where
  "pushed Q p k t h h' \<longleftrightarrow> m_brk h \<le> m_brk h' \<and> (\<forall>q. \<not> prefix p q \<longrightarrow> m_nodes h' (Built q) = m_nodes h (Built q))
     \<and> (\<forall>j < m_brk h. j \<noteq> k \<longrightarrow> m_nodes h' (New j) = m_nodes h (New j))
     \<and> leaf_cell Q h' k \<and> (\<forall>j. m_brk h \<le> j \<longrightarrow> j < m_brk h' \<longrightarrow> leaf_cell Q h' j)
     \<and> fills h' (insert k {m_brk h..<m_brk h'}) p t"

text \<open>In the loop over the children the first \<open>i\<close> are done; \<open>m\<close> is the node passed down, \<open>k\<close> the one hung into free places.\<close>

definition loop_inv :: "(leaf \<Rightarrow> bool) \<Rightarrow> nat list \<Rightarrow> nat \<Rightarrow> nat \<Rightarrow> leaf \<Rightarrow> mtree option list \<Rightarrow> mheap \<Rightarrow> nat \<Rightarrow> mheap \<Rightarrow> bool" where
  "loop_inv Q p k m v cs h0 i h \<longleftrightarrow> m_brk h0 \<le> m_brk h \<and> (\<forall>q. \<not> prefix p q \<longrightarrow> m_nodes h (Built q) = m_nodes h0 (Built q))
     \<and> (\<forall>j < m_brk h0. j \<noteq> m \<longrightarrow> m_nodes h (New j) = m_nodes h0 (New j))
     \<and> leaf_cell Q h m \<and> (\<forall>j. m_brk h0 \<le> j \<longrightarrow> j < m_brk h \<longrightarrow> leaf_cell Q h j)
     \<and> (\<exists>ks. m_nodes h (Built p) = Some \<lparr>m_entry = v, m_child = ks\<rparr> \<and> length ks = 4 \<and> (\<forall>j < 4. ks ! j =
          (case cs ! j of Some _ \<Rightarrow> Some (Built (p @ [j])) | None \<Rightarrow> if j < i then Some (New k) else None)))
     \<and> (\<forall>j < 4. \<forall>u. cs ! j = Some u \<longrightarrow>
          (if j < i then fills h (insert m {m_brk h0..<m_brk h}) (p @ [j]) u else owned h (p @ [j]) u))"

lemma loop4_inv:
  assumes "P 0 h" "\<And>i h. i < 4 \<Longrightarrow> P i h \<Longrightarrow> \<exists>h'. f i h = Some h' \<and> P (Suc i) h'"
  shows "\<exists>h'. loop4 f h = Some h' \<and> P 4 h'"
proof -
  obtain h1 where "f 0 h = Some h1" "P 1 h1" using assms(2) [OF _ assms(1)] by auto
  moreover obtain h2 where "f 1 h1 = Some h2" "P 2 h2" using assms(2) [OF _ \<open>P 1 h1\<close>] by (auto simp: numeral_eq_Suc)
  moreover obtain h3 where "f 2 h2 = Some h3" "P 3 h3" using assms(2) [OF _ \<open>P 2 h2\<close>] by (auto simp: numeral_eq_Suc)
  moreover obtain h4 where "f 3 h3 = Some h4" "P 4 h4" using assms(2) [OF _ \<open>P 3 h3\<close>] by (auto simp: numeral_eq_Suc)
  ultimately show ?thesis by simp
qed

lemma loop_inv_place:
  assumes inv: "loop_inv Q p k m v cs h0 i h" and i: "i < 4" "cs ! i = None"
  shows "\<exists>h'. set_child (Built p) i (New k) h = Some h' \<and> loop_inv Q p k m v cs h0 (Suc i) h'"
proof -
  obtain ks where ks: "m_nodes h (Built p) = Some \<lparr>m_entry = v, m_child = ks\<rparr>" "length ks = 4"
    "\<forall>j < 4. ks ! j = (case cs ! j of Some _ \<Rightarrow> Some (Built (p @ [j])) | None \<Rightarrow> if j < i then Some (New k) else None)"
    using inv unfolding loop_inv_def by blast
  define h' where "h' = h\<lparr>m_nodes := (m_nodes h)(Built p \<mapsto> \<lparr>m_entry = v, m_child = ks[i := Some (New k)]\<rparr>)\<rparr>"
  have s: "set_child (Built p) i (New k) h = Some h'" using ks(1) by (simp add: set_child_def node_ref_def h'_def)
  have below: "m_nodes h' (Built ((p @ [j]) @ q)) = m_nodes h (Built ((p @ [j]) @ q))" for j q by (simp add: h'_def)
  have "loop_inv Q p k m v cs h0 (Suc i) h'"
    unfolding loop_inv_def
  proof (intro conjI allI impI)
    show "\<exists>ks. m_nodes h' (Built p) = Some \<lparr>m_entry = v, m_child = ks\<rparr> \<and> length ks = 4 \<and> (\<forall>j < 4. ks ! j =
          (case cs ! j of Some _ \<Rightarrow> Some (Built (p @ [j])) | None \<Rightarrow> if j < Suc i then Some (New k) else None))"
      using ks(2,3) i by (intro exI [of _ "ks[i := Some (New k)]"]) (auto simp: h'_def nth_list_update less_Suc_eq split: option.split)
    fix j u assume j: "j < 4" "cs ! j = Some u"
    then have "j \<noteq> i" using i by auto
    then show "if j < Suc i then fills h' (insert m {m_brk h0..<m_brk h'}) (p @ [j]) u else owned h' (p @ [j]) u"
      using inv j fills_frame [OF _ below] owned_frame [OF _ below] by (simp add: loop_inv_def h'_def less_Suc_eq)
  qed (use inv in \<open>auto simp: loop_inv_def h'_def leaf_cell_def\<close>)
  with s show ?thesis by blast
qed

lemma loop_inv_call:
  assumes inv: "loop_inv Q p k m v cs h0 i h" and i: "i < 4" "cs ! i = Some u" and m: "m < m_brk h0"
    and call: "pushed Q (p @ [i]) m u h h'"
  shows "loop_inv Q p k m v cs h0 (Suc i) h'"
  unfolding loop_inv_def
proof (intro conjI allI impI)
  note inv' = inv [unfolded loop_inv_def] note call' = call [unfolded pushed_def]
  show brk: "m_brk h0 \<le> m_brk h'" using inv' call' by linarith
  show "m_nodes h' (Built q) = m_nodes h0 (Built q)" if "\<not> prefix p q" for q
    using inv' call' that append_prefixD by metis
  show "m_nodes h' (New j) = m_nodes h0 (New j)" if "j < m_brk h0" "j \<noteq> m" for j
    using inv' call' that by (metis less_le_trans)
  show "leaf_cell Q h' m" using call' by blast
  show "leaf_cell Q h' j" if "m_brk h0 \<le> j" "j < m_brk h'" for j
  proof (cases "j < m_brk h")
    case True
    then have "m_nodes h' (New j) = m_nodes h (New j)" "leaf_cell Q h j" using inv' call' that m by auto
    then show ?thesis by (simp add: leaf_cell_def)
  qed (use call' that in auto)
  have "m_nodes h' (Built p) = m_nodes h (Built p)" using call' by auto
  moreover obtain ks where "m_nodes h (Built p) = Some \<lparr>m_entry = v, m_child = ks\<rparr>" "length ks = 4"
    "\<forall>j < 4. ks ! j = (case cs ! j of Some _ \<Rightarrow> Some (Built (p @ [j])) | None \<Rightarrow> if j < i then Some (New k) else None)"
    using inv' by blast
  ultimately show "\<exists>ks. m_nodes h' (Built p) = Some \<lparr>m_entry = v, m_child = ks\<rparr> \<and> length ks = 4 \<and> (\<forall>j < 4. ks ! j =
          (case cs ! j of Some _ \<Rightarrow> Some (Built (p @ [j])) | None \<Rightarrow> if j < Suc i then Some (New k) else None))"
    using i(2) by (intro exI [of _ ks]) (auto simp: less_Suc_eq split: option.split)
  fix j w assume j: "j < 4" "cs ! j = Some w"
  show "if j < Suc i then fills h' (insert m {m_brk h0..<m_brk h'}) (p @ [j]) w else owned h' (p @ [j]) w"
  proof (cases "j = i")
    case True
    then have "fills h' (insert m {m_brk h..<m_brk h'}) (p @ [j]) w" using call' i(2) j(2) by auto
    then show ?thesis using True inv' by (auto elim!: fills_mono)
  next
    case False
    then have b: "m_nodes h' (Built ((p @ [j]) @ q)) = m_nodes h (Built ((p @ [j]) @ q))" for q using call' by auto
    have "if j < i then fills h (insert m {m_brk h0..<m_brk h}) (p @ [j]) w else owned h (p @ [j]) w" using inv' j by blast
    moreover have "fills h' (insert m {m_brk h0..<m_brk h'}) (p @ [j]) w" if "fills h (insert m {m_brk h0..<m_brk h}) (p @ [j]) w"
      by (rule fills_mono [OF fills_frame [OF that b]]) (use call' in auto)
    ultimately show ?thesis using False owned_frame [OF _ b] by (simp add: less_Suc_eq split: if_splits)
  qed
qed

lemma loop_kids:
  assumes "loop_inv Q p k m v cs h0 i h" "i < 4"
  obtains x where "node_ref (Built p) h = Some x" "m_child x ! i = map_option (\<lambda>_. Built (p @ [i])) (cs ! i)"
  using assms that by (fastforce simp: loop_inv_def node_ref_def split: option.splits)

lemma loop_step:
  assumes inv: "loop_inv Q p k m v cs h0 i h" and i: "i < 4" and m: "m < m_brk h0"
    and IH: "\<And>u h. cs ! i = Some u \<Longrightarrow> owned h (p @ [i]) u \<Longrightarrow> m < m_brk h \<Longrightarrow> leaf_cell Q h m \<Longrightarrow>
        \<exists>h'. MleafPush (Built (p @ [i])) (New m) h = Some h' \<and> pushed Q (p @ [i]) m u h h'"
    and f: "cs ! i = None \<Longrightarrow> f = set_child (Built p) i (New k) h"
      "cs ! i \<noteq> None \<Longrightarrow> f = MleafPush (Built (p @ [i])) (New m) h"
  shows "\<exists>h'. f = Some h' \<and> loop_inv Q p k m v cs h0 (Suc i) h'"
proof (cases "cs ! i")
  case None
  then show ?thesis using loop_inv_place [OF inv i] f(1) by simp
next
  case (Some u)
  have "owned h (p @ [i]) u" "m < m_brk h" "leaf_cell Q h m" using inv Some i m by (auto simp: loop_inv_def)
  then obtain h' where "MleafPush (Built (p @ [i])) (New m) h = Some h'" "pushed Q (p @ [i]) m u h h'" using IH Some by blast
  then show ?thesis using loop_inv_call [OF inv i Some m] f(2) Some by simp
qed

lemma loop_start:
  assumes "owned h p (MNode v cs)" "length cs = 4" "leaf_cell Q h m"
  shows "loop_inv Q p k m v cs h 0 h"
proof -
  have "m_nodes h (Built p) = Some (built_node p (MNode v cs))" using assms(1) unfolding owned_def by (metis append_Nil2 subtree.simps(1))
  then show ?thesis
    using assms(2,3) owned_child [OF assms(1)] by (auto simp: loop_inv_def built_node_def split: option.split)
qed

lemma loop_run:
  assumes start: "owned h p (MNode v cs)" "length cs = 4" "leaf_cell Q h m" "m < m_brk h"
    and IH: "\<And>i u h. i < 4 \<Longrightarrow> cs ! i = Some u \<Longrightarrow> owned h (p @ [i]) u \<Longrightarrow> m < m_brk h \<Longrightarrow> leaf_cell Q h m \<Longrightarrow>
        \<exists>h'. MleafPush (Built (p @ [i])) (New m) h = Some h' \<and> pushed Q (p @ [i]) m u h h'"
    and f: "\<And>i h x. i < 4 \<Longrightarrow> node_ref (Built p) h = Some x \<Longrightarrow> m_child x ! i = None \<Longrightarrow> cs ! i = None \<Longrightarrow> f i h = set_child (Built p) i (New k) h"
      "\<And>i h x c. i < 4 \<Longrightarrow> node_ref (Built p) h = Some x \<Longrightarrow> m_child x ! i = Some c \<Longrightarrow> f i h = MleafPush c (New m) h"
  shows "\<exists>h'. loop4 f h = Some h' \<and> loop_inv Q p k m v cs h 4 h'"
proof (rule loop4_inv [where P = "loop_inv Q p k m v cs h", OF loop_start [OF start(1-3)]])
  fix i h' assume i: "i < 4" and inv: "loop_inv Q p k m v cs h i h'"
  obtain x where x: "node_ref (Built p) h' = Some x" "m_child x ! i = map_option (\<lambda>_. Built (p @ [i])) (cs ! i)"
    by (rule loop_kids [OF inv i])
  show "\<exists>h''. f i h' = Some h'' \<and> loop_inv Q p k m v cs h (Suc i) h''"
    by (rule loop_step [OF inv i start(4) IH [OF i]]) (use x f [OF i x(1)] in auto)
qed

lemma loop_done:
  assumes inv: "loop_inv Q p k m v cs h0 4 h" and cs: "length cs = 4" "\<not> isLeaf (MNode v cs)"
    and S: "insert k (insert m {m_brk h0..<m_brk h}) \<subseteq> S"
  shows "fills h S p (MNode v cs)"
proof -
  obtain ks where ks: "m_nodes h (Built p) = Some \<lparr>m_entry = v, m_child = ks\<rparr>" "length ks = 4"
    "\<forall>j < 4. ks ! j = (case cs ! j of Some _ \<Rightarrow> Some (Built (p @ [j])) | None \<Rightarrow> if j < 4 then Some (New k) else None)"
    using inv unfolding loop_inv_def by blast
  have "filled_kids S p (MNode v cs) ks" using ks(2,3) cs S by (auto simp: filled_kids_def split: option.split)
  moreover have "fills h S (p @ [i]) u" if "i < length cs" "cs ! i = Some u" for i u
  proof -
    have "fills h (insert m {m_brk h0..<m_brk h}) (p @ [i]) u" using inv that cs(1) by (auto simp: loop_inv_def)
    then show ?thesis by (rule fills_mono) (use S in auto)
  qed
  ultimately show ?thesis by (rule fills_node [OF ks(1)])
qed

definition kid_full :: "mptr \<Rightarrow> mptr \<Rightarrow> nat \<Rightarrow> mheap \<Rightarrow> mheap option" where
  "kid_full a n i h = do { x \<leftarrow> node_ref a h; case m_child x ! i of None \<Rightarrow> None | Some c \<Rightarrow> MleafPush c n h }"

definition kid_open :: "mptr \<Rightarrow> mptr \<Rightarrow> mptr \<Rightarrow> nat \<Rightarrow> mheap \<Rightarrow> mheap option" where
  "kid_open a n m i h = do { x \<leftarrow> node_ref a h; case m_child x ! i of None \<Rightarrow> set_child a i n h | Some c \<Rightarrow> MleafPush c m h }"

lemma MleafPush_inner:
  assumes "node_ref a h = Some x" "\<not> list_all (\<lambda>c. c = None) (m_child x)"
    and "(if SubNet (m_entry x) \<noteq> 0 then set_entry n (m_entry x) h else Some h) = Some h1"
  shows "list_all (\<lambda>c. c \<noteq> None) (m_child x) \<Longrightarrow> MleafPush a n h = loop4 (kid_full a n) h1"
    and "\<not> list_all (\<lambda>c. c \<noteq> None) (m_child x) \<Longrightarrow> node_ref n h1 = Some y \<Longrightarrow> new_node (m_entry y) h1 = (m, h2) \<Longrightarrow>
      MleafPush a n h = loop4 (kid_open a n m) h2"
  using assms(2) unfolding MleafPush.simps [of a] assms(1) bind.simps assms(3) kid_full_def kid_open_def by simp_all

lemma carry_entry:
  assumes "m_nodes h (New k) = Some \<lparr>m_entry = e, m_child = c\<rparr>"
  shows "(if b then set_entry (New k) v h else Some h)
    = Some (h\<lparr>m_nodes := (m_nodes h)(New k \<mapsto> \<lparr>m_entry = if b then v else e, m_child = c\<rparr>)\<rparr>)"
proof (cases b)
  case False
  have "h\<lparr>m_nodes := (m_nodes h)(New k \<mapsto> \<lparr>m_entry = e, m_child = c\<rparr>)\<rparr> = h" using assms by (cases h) (auto simp: fun_upd_idem)
  with False show ?thesis by simp
qed (use assms in \<open>simp add: set_entry_def node_ref_def\<close>)

lemma push_full:
  assumes o: "owned h1 p (MNode v cs)" "length cs = 4" "leaf_cell Q h1 k" "k < m_brk h" and full: "\<forall>i < 4. cs ! i \<noteq> None"
    and IH: "\<And>i u h m. i < 4 \<Longrightarrow> cs ! i = Some u \<Longrightarrow> owned h (p @ [i]) u \<Longrightarrow> m < m_brk h \<Longrightarrow> leaf_cell Q h m \<Longrightarrow>
        \<exists>h'. MleafPush (Built (p @ [i])) (New m) h = Some h' \<and> pushed Q (p @ [i]) m u h h'"
    and h1: "h1 = h\<lparr>m_nodes := (m_nodes h)(New k \<mapsto> y)\<rparr>"
  shows "\<exists>h'. loop4 (kid_full (Built p) (New k)) h1 = Some h' \<and> pushed Q p k (MNode v cs) h h'"
proof -
  have "cs ! 0 \<in> set cs" "cs ! 0 \<noteq> None" using full o(2) nth_mem [of 0 cs] by simp_all
  then have inner: "\<not> isLeaf (MNode v cs)" by (auto simp: isLeaf_def)
  have "\<exists>h'. loop4 (kid_full (Built p) (New k)) h1 = Some h' \<and> loop_inv Q p k k v cs h1 4 h'"
    by (rule loop_run [OF o(1-3) _ IH]) (use full o(4) in \<open>auto simp: h1 kid_full_def\<close>)
  then obtain h' where h': "loop4 (kid_full (Built p) (New k)) h1 = Some h'" "loop_inv Q p k k v cs h1 4 h'" by blast
  have "fills h' (insert k {m_brk h..<m_brk h'}) p (MNode v cs)"
    by (rule loop_done [OF h'(2) o(2) inner]) (auto simp: h1)
  then have "pushed Q p k (MNode v cs) h h'" using h'(2) by (auto simp: pushed_def loop_inv_def h1)
  with h'(1) show ?thesis by blast
qed

lemma push_open:
  assumes o: "owned h1 p (MNode v cs)" "length cs = 4" "leaf_cell Q h1 k" "k < m_brk h" and inner: "\<not> isLeaf (MNode v cs)" and e: "Q e"
    and IH: "\<And>i u h m. i < 4 \<Longrightarrow> cs ! i = Some u \<Longrightarrow> owned h (p @ [i]) u \<Longrightarrow> m < m_brk h \<Longrightarrow> leaf_cell Q h m \<Longrightarrow>
        \<exists>h'. MleafPush (Built (p @ [i])) (New m) h = Some h' \<and> pushed Q (p @ [i]) m u h h'"
    and h1: "h1 = h\<lparr>m_nodes := (m_nodes h)(New k \<mapsto> y)\<rparr>" and h2: "new_node e h1 = (New m, h2)"
  shows "\<exists>h'. loop4 (kid_open (Built p) (New k) (New m)) h2 = Some h' \<and> pushed Q p k (MNode v cs) h h'"
proof -
  have m: "m = m_brk h" using h2 by (simp add: new_node_def h1)
  have f: "m_brk h2 = Suc m" "m_nodes h2 (Built q) = m_nodes h (Built q)" "j < m \<Longrightarrow> j \<noteq> k \<Longrightarrow> m_nodes h2 (New j) = m_nodes h (New j)"
      "leaf_cell Q h2 m" "leaf_cell Q h2 k" for q j
    using h2 e o(3,4) by (auto simp: new_node_def h1 m leaf_cell_def)
  have o2: "owned h2 p (MNode v cs)" by (rule owned_frame [OF o(1)]) (simp add: f h1)
  have "\<exists>h'. loop4 (kid_open (Built p) (New k) (New m)) h2 = Some h' \<and> loop_inv Q p k m v cs h2 4 h'"
    by (rule loop_run [OF o2 o(2) f(4) _ IH]) (use f(1) in \<open>auto simp: kid_open_def\<close>)
  then obtain h' where h': "loop4 (kid_open (Built p) (New k) (New m)) h2 = Some h'" "loop_inv Q p k m v cs h2 4 h'" by blast
  have "fills h' (insert k {m_brk h..<m_brk h'}) p (MNode v cs)"
    by (rule loop_done [OF h'(2) o(2) inner]) (use f(1) h'(2) in \<open>auto simp: m loop_inv_def\<close>)
  moreover have "leaf_cell Q h' j" if "m \<le> j" "j < m_brk h'" for j
    using h'(2) f(1) that by (cases "j = m") (auto simp: loop_inv_def)
  moreover have "m_nodes h' (New k) = m_nodes h2 (New k)" using h'(2) f(1) o(4) by (auto simp: loop_inv_def m)
  then have "leaf_cell Q h' k" using f(5) by (simp add: leaf_cell_def)
  ultimately have "pushed Q p k (MNode v cs) h h'" using h'(2) f(1-3) by (auto simp: pushed_def loop_inv_def m)
  with h'(1) show ?thesis by blast
qed

lemma MleafPush_ok:
  assumes "owned h p t" "four t" "k < m_brk h" "leaf_cell Q h k" "carried Q t"
  shows "\<exists>h'. MleafPush (Built p) (New k) h = Some h' \<and> pushed Q p k t h h'"
  using assms
proof (induction t arbitrary: p k h)
  case (MNode v cs)
  have len: "length cs = 4" using MNode.prems(2) by (auto simp: four_def dest: spec [of _ "[]"])
  have node: "node_ref (Built p) h = Some (built_node p (MNode v cs))"
    using MNode.prems(1) unfolding owned_def node_ref_def by (metis append_Nil2 subtree.simps(1))
  have kids: "list_all (\<lambda>c. c = None) (m_child (built_node p (MNode v cs))) \<longleftrightarrow> isLeaf (MNode v cs)"
    "list_all (\<lambda>c. c \<noteq> None) (m_child (built_node p (MNode v cs))) \<longleftrightarrow> (\<forall>i < 4. cs ! i \<noteq> None)"
    using len by (auto simp: built_node_def isLeaf_def list_all_iff all_set_conv_all_nth)
  have IH: "\<exists>h'. MleafPush (Built (p @ [i])) (New m) h = Some h' \<and> pushed Q (p @ [i]) m u h h'"
    if "i < 4" "cs ! i = Some u" "owned h (p @ [i]) u" "m < m_brk h" "leaf_cell Q h m" for i u m h
    using MNode.IH [of "Some u" u, where p = "p @ [i]" and k = m and h = h] that len four_child [OF MNode.prems(2)] carried_child [OF MNode.prems(5)]
    by (metis nth_mem option.set_intros)
  show ?case
  proof (cases "isLeaf (MNode v cs)")
    case True
    have "filled_kids {k} p (MNode v cs) (m_child (built_node p (MNode v cs)))"
      using True len by (auto simp: filled_kids_def built_node_def isLeaf_def split: option.split)
    moreover have "cs ! i \<noteq> Some u" if "i < length cs" for i u using True nth_mem [OF that] by (auto simp: isLeaf_def)
    ultimately have "fills h {k} p (MNode v cs)" by (intro fills_node) (use node in \<open>auto simp: node_ref_def built_node_def\<close>)
    then show ?thesis using True node kids MNode.prems(4) by (subst MleafPush.simps) (simp add: pushed_def)
  next
    case False
    obtain e where e: "m_nodes h (New k) = Some \<lparr>m_entry = e, m_child = [None, None, None, None]\<rparr>" "Q e"
      using MNode.prems(4) by (auto simp: leaf_cell_def)
    define e1 where "e1 = (if SubNet v \<noteq> 0 then v else e)"
    have Qe: "Q e1" using MNode.prems(5) e(2) False by (auto simp: e1_def carried_def dest: spec [of _ "[]"])
    define h1 where "h1 = h\<lparr>m_nodes := (m_nodes h)(New k \<mapsto> \<lparr>m_entry = e1, m_child = [None, None, None, None]\<rparr>)\<rparr>"
    have carry: "(if SubNet (m_entry (built_node p (MNode v cs))) \<noteq> 0 then set_entry (New k) (m_entry (built_node p (MNode v cs))) h else Some h) = Some h1"
      unfolding built_node_def mnode.simps mtree.sel carry_entry [OF e(1)] h1_def e1_def ..
    have o1: "owned h1 p (MNode v cs)" by (rule owned_frame [OF MNode.prems(1)]) (simp add: h1_def)
    have c1: "leaf_cell Q h1 k" using Qe by (simp add: leaf_cell_def h1_def)
    have y: "node_ref (New k) h1 = Some \<lparr>m_entry = e1, m_child = [None, None, None, None]\<rparr>" "new_node e1 h1 = (New (m_brk h), snd (new_node e1 h1))"
      by (simp_all add: node_ref_def new_node_def h1_def)
    show ?thesis
    proof (cases "\<forall>i < 4. cs ! i \<noteq> None")
      case True
      have "MleafPush (Built p) (New k) h = loop4 (kid_full (Built p) (New k)) h1"
        by (rule MleafPush_inner(1) [OF node _ carry]) (use False True kids in simp_all)
      then show ?thesis using push_full [OF o1 len c1 MNode.prems(3) True IH h1_def] by simp
    next
      case nfull: False
      have "MleafPush (Built p) (New k) h = loop4 (kid_open (Built p) (New k) (New (m_brk h))) (snd (new_node e1 h1))"
        by (rule MleafPush_inner(2) [OF node _ carry _ y(1)]) (use False nfull kids y(2) in simp_all)
      then show ?thesis using push_open [OF o1 len c1 MNode.prems(3) False Qe IH h1_def y(2)] by simp
    qed
  qed
qed

section \<open>The tree after the leaf push\<close>

text \<open>\<open>t'\<close> is \<open>t\<close> with leaves in all free places of inner nodes; their entries satisfy \<open>Q\<close>.\<close>

definition filled_tree :: "(leaf \<Rightarrow> bool) \<Rightarrow> mtree \<Rightarrow> mtree \<Rightarrow> bool" where
  "filled_tree Q t t' \<longleftrightarrow> full t' \<and> minfo t' = minfo t \<and> isLeaf t' = isLeaf t \<and> (\<forall>ip. mt_walk ip t' = mt_walk ip t
     \<or> Q (mt_walk ip t') \<and> (\<exists>q u. subtree t q = Some u \<and> \<not> isLeaf u \<and> minfo u = mt_walk ip t))"

lemma full_mleaf [simp]: "full (mleaf e)"
  by (simp add: mleaf_def full.simps)

lemma mt_walk_mleaf [simp]: "mt_walk ip (mleaf e) = e"
  using top_two_less [of ip] by (simp add: mleaf_def mt_walk.simps nth_Cons' )

lemma filled_kid:
  assumes "filled_kids S p u ks" "i < length (mchild u)"
  shows "mchild u ! i = Some c \<Longrightarrow> ks ! i = Some (Built (p @ [i]))"
    and "mchild u ! i = None \<Longrightarrow> isLeaf u \<Longrightarrow> ks ! i = None"
    and "mchild u ! i = None \<Longrightarrow> \<not> isLeaf u \<Longrightarrow> \<exists>j \<in> S. ks ! i = Some (New j)"
  using assms unfolding filled_kids_def by (fastforce split: option.splits)+

lemma fills_holds:
  assumes "fills h S p t" "\<And>j. j \<in> S \<Longrightarrow> leaf_cell Q h j" "four t"
  shows "\<exists>t'. holds h (Built p) t' \<and> filled_tree Q t t'"
  using assms(1,3)
proof (induction t arbitrary: p)
  case (MNode v cs)
  have len: "length cs = 4" using MNode.prems(2) by (auto simp: four_def dest: spec [of _ "[]"])
  obtain ks where ks: "m_nodes h (Built p) = Some \<lparr>m_entry = v, m_child = ks\<rparr>" "filled_kids S p (MNode v cs) ks"
    using MNode.prems(1) unfolding fills_def by (metis append_Nil2 subtree.simps(1) mtree.sel(1))
  show ?case
  proof (cases "isLeaf (MNode v cs)")
    case True
    then have none: "cs ! i = None" if "i < 4" for i using len that nth_mem [of i cs] by (simp add: isLeaf_def)
    then have "ks ! i = None" if "i < 4" for i using filled_kid(2) [OF ks(2)] len none that True by simp
    then have "holds h (Built p) (MNode v cs)"
      using holds.intros [of "Built p" h "\<lparr>m_entry = v, m_child = ks\<rparr>" cs] ks len none
      by (simp add: node_ref_def list_all2_conv_all_nth filled_kids_def)
    moreover have "filled_tree Q (MNode v cs) (MNode v cs)" using True len by (simp add: filled_tree_def full.simps isLeaf_def)
    ultimately show ?thesis by blast
  next
    case False
    have "\<exists>t'. \<exists>c. ks ! i = Some c \<and> holds h c t' \<and> (case cs ! i of Some u \<Rightarrow> filled_tree Q u t' | None \<Rightarrow> \<exists>e. Q e \<and> t' = mleaf e)" if i: "i < 4" for i
    proof (cases "cs ! i")
      case None
      then obtain j where "j \<in> S" "ks ! i = Some (New j)" using filled_kid(3) [OF ks(2)] False len i by auto
      then obtain e where e: "m_nodes h (New j) = Some \<lparr>m_entry = e, m_child = [None, None, None, None]\<rparr>" "Q e" "ks ! i = Some (New j)"
        using assms(2) by (auto simp: leaf_cell_def)
      have "holds h (New j) (mleaf e)"
        using holds.intros [of "New j" h "\<lparr>m_entry = e, m_child = [None, None, None, None]\<rparr>" "[None, None, None, None]"] e(1)
        by (simp add: node_ref_def mleaf_def)
      then show ?thesis using None e by auto
    next
      case (Some u)
      have "fills h S (p @ [i]) u" using MNode.prems(1) subtree_child [of i cs u v] Some i len unfolding fills_def
        by (metis append.assoc append_Cons append_Nil)
      then obtain t' where "holds h (Built (p @ [i])) t'" "filled_tree Q u t'"
        using MNode.IH [of "Some u" u] Some i len four_child [OF MNode.prems(2)] by (metis nth_mem option.set_intros)
      moreover have "ks ! i = Some (Built (p @ [i]))" using filled_kid(1) [OF ks(2)] Some i len by auto
      ultimately show ?thesis using Some by auto
    qed
    then obtain T where T: "\<exists>c. ks ! i = Some c \<and> holds h c (T i) \<and> (case cs ! i of Some u \<Rightarrow> filled_tree Q u (T i) | None \<Rightarrow> \<exists>e. Q e \<and> T i = mleaf e)"
      if "i < 4" for i by metis
    let ?t = "MNode v (map (\<lambda>i. Some (T i)) [0..<4])"
    have "holds h (Built p) ?t"
      using holds.intros [of "Built p" h "\<lparr>m_entry = v, m_child = ks\<rparr>" "map (\<lambda>i. Some (T i)) [0..<4]"] ks len T
      by (fastforce simp: node_ref_def list_all2_conv_all_nth filled_kids_def)
    moreover have "full (T i)" if "i < 4" for i using T [OF that] by (auto simp: filled_tree_def split: option.splits)
    then have "full ?t" by (auto simp: full.simps)
    moreover have "\<not> isLeaf ?t" by (auto simp: isLeaf_def intro: exI [of _ 0])
    moreover have "mt_walk ip ?t = mt_walk ip (MNode v cs) \<or> Q (mt_walk ip ?t)
      \<and> (\<exists>q u. subtree (MNode v cs) q = Some u \<and> \<not> isLeaf u \<and> minfo u = mt_walk ip (MNode v cs))" for ip
    proof -
      have i: "top_two ip < 4" by (rule top_two_less)
      have w: "mt_walk ip ?t = mt_walk (push_bit 2 ip) (T (top_two ip))" using i by (simp add: mt_walk.simps [of ip])
      show ?thesis
      proof (cases "cs ! top_two ip")
        case None
        then have "Q (mt_walk ip ?t)" "mt_walk ip (MNode v cs) = v" using T [OF i] i len w by (auto simp: mt_walk.simps [of ip])
        then show ?thesis using False by (auto intro!: exI [of _ "[]"])
      next
        case (Some u)
        then have w': "mt_walk ip (MNode v cs) = mt_walk (push_bit 2 ip) u" using i len by (simp add: mt_walk.simps [of ip])
        have s: "subtree (MNode v cs) (top_two ip # q) = subtree u q" for q using Some i len by simp
        have "filled_tree Q u (T (top_two ip))" using T [OF i] Some by auto
        then show ?thesis unfolding filled_tree_def w w' using s by metis
      qed
    qed
    ultimately show ?thesis using False unfolding filled_tree_def by (intro exI [of _ ?t]) simp
  qed
qed

end
