(* ===== verification/LookupTest.thy ===== *)
theory LookupTest
  imports LeafPush
begin

text \<open>
  The main function of lab 09: it builds the double-bit tree (twice from the same table), pushes its leaves,
  compresses it, and compares the answers of the two trees and of the compressed tree address by address. For a table
  without nested prefixes the three agree.
\<close>

section \<open>Paths of two bits\<close>

fun mpath :: "u32 \<Rightarrow> nat \<Rightarrow> nat list" where
  "mpath ip 0 = []"
| "mpath ip (Suc n) = top_two ip # mpath (push_bit 2 ip) n"

fun bits_of :: "nat list \<Rightarrow> bool list" where
  "bits_of [] = []"
| "bits_of (d # q) = (2 \<le> d) # odd d # bits_of q"

lemma two_bits: "m < 4 \<Longrightarrow> (2 \<le> m \<longleftrightarrow> bit m 1) \<and> (odd m \<longleftrightarrow> bit m 0)" for m :: nat
proof -
  assume "m < 4"
  then have "m \<in> {0, 1, 2, 3}" by auto
  then show ?thesis by (auto simp: bit_Suc bit_0)
qed

lemma top_two_bits: "2 \<le> top_two ip \<longleftrightarrow> top_bit ip" "odd (top_two ip) \<longleftrightarrow> top_bit (push_bit 1 ip)"
proof -
  have "bit (0xC0000000 :: u32) 31" "bit (0xC0000000 :: u32) 30" by (simp_all add: bit_iff_odd)
  then have "bit (top_two ip) 1 \<longleftrightarrow> bit ip 31" "bit (top_two ip) 0 \<longleftrightarrow> bit ip 30"
    by (simp_all add: top_two_def bit_unsigned_iff bit_drop_bit_eq bit_and_iff)
  moreover have "bit (push_bit 1 ip) 31 \<longleftrightarrow> bit ip 30" unfolding bit_push_bit_iff by simp
  ultimately show "2 \<le> top_two ip \<longleftrightarrow> top_bit ip" "odd (top_two ip) \<longleftrightarrow> top_bit (push_bit 1 ip)"
    using two_bits [OF top_two_less] unfolding top_bit_iff by blast+
qed

lemma bits_of_mpath: "bits_of (mpath ip n) = path ip (2 * n)"
proof (induction n arbitrary: ip)
  case (Suc n)
  have "push_bit 1 (push_bit 1 ip) = push_bit 2 ip" by (simp add: push_bit_eq_mult)
  moreover have "2 * Suc n = Suc (Suc (2 * n))" by simp
  ultimately show ?case by (simp only: path.simps mpath.simps bits_of.simps top_two_bits Suc)
qed simp

lemma length_bits_of [simp]: "length (bits_of q) = 2 * length q"
  by (induction q) simp_all

lemma bits_of_append: "bits_of (p @ q) = bits_of p @ bits_of q"
  by (induction p) simp_all

lemma bits_of_inj: "list_all (\<lambda>d. d < 4) p \<Longrightarrow> list_all (\<lambda>d. d < 4) q \<Longrightarrow> bits_of p = bits_of q \<Longrightarrow> p = q"
proof (induction p arbitrary: q)
  case (Cons a p)
  then obtain b r where q: "q = b # r" by (cases q) auto
  have "a < 4" "b < 4" "(2 \<le> a) = (2 \<le> b)" "odd a = odd b" using Cons.prems q by auto
  then have "a = b" by presburger
  then show ?case using Cons q by auto
next
  case Nil
  then show ?case by (cases q) auto
qed

lemma mpath_four: "list_all (\<lambda>d. d < 4) (mpath ip n)"
  by (induction n arbitrary: ip) (simp_all add: top_two_less)

section \<open>What insertion does\<close>

definition at_opt :: "mtree option \<Rightarrow> nat list \<Rightarrow> leaf option" where
  "at_opt t q = Option.bind t (\<lambda>t. map_option minfo (subtree t q))"

lemma at_opt_simps [simp]:
  "at_opt None q = None" "at_opt (Some t) [] = Some (minfo t)"
  "at_opt (Some (MNode v cs)) (i # q) = (if i < length cs then at_opt (cs ! i) q else None)"
  by (auto simp: at_opt_def split: option.split)

lemma four_node: "four (MNode v cs) \<longleftrightarrow> length cs = 4 \<and> (\<forall>i < 4. \<forall>u. cs ! i = Some u \<longrightarrow> four u)"
proof
  assume f: "four (MNode v cs)"
  then have "length cs = 4" by (auto simp: four_def dest: spec [of _ "[]"])
  then show "length cs = 4 \<and> (\<forall>i < 4. \<forall>u. cs ! i = Some u \<longrightarrow> four u)" using four_child [OF f] by auto
next
  assume "length cs = 4 \<and> (\<forall>i < 4. \<forall>u. cs ! i = Some u \<longrightarrow> four u)"
  then show "four (MNode v cs)" by (auto simp: four_def subtree_cases)
qed

text \<open>The places that a prefix of \<open>n\<close> bits takes, and the inner places on the way to them.\<close>

fun target :: "u32 \<Rightarrow> nat \<Rightarrow> nat list \<Rightarrow> bool" where
  "target ip 0 q \<longleftrightarrow> q = []"
| "target ip (Suc 0) q \<longleftrightarrow> (\<exists>d. q = [d] \<and> d < 4 \<and> (2 \<le> d \<longleftrightarrow> 2 \<le> top_two ip))"
| "target ip (Suc (Suc n)) q \<longleftrightarrow> (\<exists>r. q = top_two ip # r \<and> target (push_bit 2 ip) n r)"

fun above :: "u32 \<Rightarrow> nat \<Rightarrow> nat list \<Rightarrow> bool" where
  "above ip 0 q \<longleftrightarrow> False"
| "above ip (Suc 0) q \<longleftrightarrow> q = []"
| "above ip (Suc (Suc n)) q \<longleftrightarrow> q = [] \<or> (\<exists>r. q = top_two ip # r \<and> above (push_bit 2 ip) n r)"

text \<open>An even prefix takes over its place; an odd one takes its two places only where they are free.\<close>

definition after :: "u32 \<Rightarrow> nat \<Rightarrow> leaf \<Rightarrow> nat list \<Rightarrow> leaf option \<Rightarrow> leaf option" where
  "after ip n v q w = (if target ip n q \<and> (even n \<or> w = None) then Some v
     else if w = None \<and> above ip n q then Some leaf0 else w)"

lemma mempty_at [simp]: "at_opt (Some mempty) q = (if q = [] then Some leaf0 else None)" "four mempty" "four (mleaf v)"
    "at_opt (Some (mleaf v)) q = (if q = [] then Some v else None)"
  by (cases q; auto simp: mempty_def mleaf_def four_node nth_Cons')+

lemma nth_four: "i < 4 \<Longrightarrow> [a, b, c, d] ! i = (if i = 0 then a else if i = 1 then b else if i = 2 then c else d)"
  by (auto simp: nth_Cons')

lemma lt_four: "(i :: nat) < 4 \<longleftrightarrow> i = 0 \<or> i = 1 \<or> i = 2 \<or> i = 3"
  by auto

lemma four_list: "length cs = 4 \<Longrightarrow> \<exists>a b c d. cs = [a, b, c, d]"
  by (auto simp: length_Suc_conv numeral_eq_Suc)

definition put_free :: "leaf \<Rightarrow> mtree option \<Rightarrow> mtree option" where
  "put_free v c = (if c = None then Some (mleaf v) else c)"

lemma put_free_at: "at_opt (put_free v c) r = (if r = [] \<and> at_opt c r = None then Some v else at_opt c r)"
  by (cases c) (auto simp: put_free_def)

lemma fill_pair_list:
  "fill_pair loc v (MNode w [a, b, c, d]) =
     MNode w (if 2 \<le> loc then [a, b, put_free v c, put_free v d] else [put_free v a, put_free v b, c, d])"
  by (auto simp: fill_pair_def put_free_def Let_def)

lemma all_four: "(\<forall>i < (4 :: nat). P i) \<longleftrightarrow> P 0 \<and> P 1 \<and> P 2 \<and> P 3"
  by (auto simp: lt_four)

lemma four_kids: "four (MNode w [a, b, c, d]) \<longleftrightarrow> (\<forall>x \<in> {a, b, c, d}. \<forall>u. x = Some u \<longrightarrow> four u)"
  by (simp add: four_node all_four)

lemma fill_pair_at:
  assumes "four t"
  shows "four (fill_pair loc v t)"
    and "at_opt (Some (fill_pair loc v t)) q =
     (if (\<exists>d. q = [d] \<and> d < 4 \<and> (2 \<le> d \<longleftrightarrow> 2 \<le> loc)) \<and> at_opt (Some t) q = None then Some v else at_opt (Some t) q)"
proof -
  obtain w cs where t: "t = MNode w cs" by (cases t)
  have "length cs = 4" using assms by (simp add: t four_node)
  then obtain a b c d where cs: "cs = [a, b, c, d]" using four_list by blast
  have kids: "four u" if "x = Some u" "x \<in> {a, b, c, d}" for x u using assms that unfolding t cs four_kids by blast
  have "four u" if "put_free v x = Some u" "x \<in> {a, b, c, d}" for x u
    using kids [OF _ that(2)] that(1) by (cases x) (auto simp: put_free_def)
  then show "four (fill_pair loc v t)" using kids
    unfolding t cs fill_pair_list by (cases "2 \<le> loc") (simp_all only: if_True if_False four_kids ball_simps insert_iff, blast+)
  show "at_opt (Some (fill_pair loc v t)) q =
     (if (\<exists>d. q = [d] \<and> d < 4 \<and> (2 \<le> d \<longleftrightarrow> 2 \<le> loc)) \<and> at_opt (Some t) q = None then Some v else at_opt (Some t) q)"
  proof (cases q)
    case (Cons i r)
    consider "i = 0" | "i = 1" | "i = 2" | "i = 3" | "4 \<le> i" by linarith
    then show ?thesis by cases (cases r; simp add: Cons t cs fill_pair_list put_free_at)+
  qed (simp add: t cs fill_pair_list)
qed

lemma set_pair_fill: "set_pair loc v mempty = fill_pair loc v mempty"
  by (simp add: set_pair_def fill_pair_def mempty_def Let_def)

text \<open>The missing part of a path is what insertion below an empty node gives.\<close>

lemma mt_chain_insert: "mt_chain ip n v = mt_insert ip n v (Some mempty)"
proof (induction ip n v rule: mt_chain.induct)
  case (1 ip v)
  show ?case by (simp add: mempty_def mleaf_def)
next
  case (2 ip v)
  show ?case by (simp add: set_pair_fill)
next
  case (3 ip n v)
  have "[None, None, None, None] ! top_two ip = (None :: mtree option)" unfolding nth_four [OF top_two_less] by simp
  then show ?case by (simp add: mempty_def)
qed

lemma insert_update:
  assumes "length cs = 4" "k < 4"
  shows "at_opt (Some (MNode w (cs[k := Some t]))) q =
     (case q of [] \<Rightarrow> Some w | i # r \<Rightarrow> if i = k then at_opt (Some t) r else at_opt (Some (MNode w cs)) q)"
  using assms by (cases q) auto

lemma mt_insert_at:
  assumes "four t"
  shows "four (mt_insert ip n v (Some t))
     \<and> at_opt (Some (mt_insert ip n v (Some t))) q = after ip n v q (at_opt (Some t) q)"
  using assms
proof (induction n arbitrary: ip t q rule: less_induct)
  case (less n)
  obtain w cs where t: "t = MNode w cs" by (cases t)
  have len: "length cs = 4" and kids: "\<And>i u. i < 4 \<Longrightarrow> cs ! i = Some u \<Longrightarrow> four u" using less.prems by (auto simp: t four_node)
  consider "n = 0" | "n = 1" | m where "n = Suc (Suc m)" by (metis One_nat_def nat.exhaust)
  then show ?case
  proof cases
    case 1
    then show ?thesis using less.prems by (cases q) (auto simp: t four_node after_def)
  next
    case 2
    then show ?thesis using fill_pair_at [OF less.prems] by (auto simp: after_def)
  next
    case 3
    let ?k = "top_two ip" and ?ip = "push_bit 2 ip"
    have k: "?k < 4" by (rule top_two_less)
    define u where "u = (case cs ! ?k of None \<Rightarrow> mempty | Some u \<Rightarrow> u)"
    have u: "four u" using kids [OF k] by (simp add: u_def split: option.split)
    have ins: "mt_insert ?ip m v (cs ! ?k) = mt_insert ?ip m v (Some u)" by (simp add: u_def mt_chain_insert split: option.split)
    note IH = less.IH [of m u ?ip, OF _ u]
    have eq: "mt_insert ip n v (Some t) = MNode w (cs[?k := Some (mt_insert ?ip m v (Some u))])" by (simp add: 3 t ins)
    have f: "four (mt_insert ip n v (Some t))"
      unfolding eq four_node using len kids IH k 3 by (auto simp: nth_list_update)
    have "at_opt (Some (mt_insert ip n v (Some t))) q = after ip n v q (at_opt (Some t) q)"
    proof (cases q)
      case Nil
      then show ?thesis unfolding eq insert_update [OF len k] by (simp add: t after_def 3)
    next
      case (Cons i r)
      show ?thesis
      proof (cases "i = ?k")
        case True
        have "after ?ip m v r (at_opt (Some u) r) = after ip n v q (at_opt (cs ! ?k) r)"
        proof (cases "cs ! ?k")
          case None
          have "m = 0 \<or> (m \<noteq> 0 \<and> \<not> target ?ip m [] \<and> above ?ip m [])" by (cases "(?ip, m, [] :: nat list)" rule: above.cases) auto
          then show ?thesis using None True by (auto simp: after_def u_def Cons 3)
        next
          case (Some x)
          then show ?thesis using True by (auto simp: after_def u_def Cons 3)
        qed
        then show ?thesis using IH [of r] 3 k len unfolding eq insert_update [OF len k] by (simp add: Cons True t)
      next
        case False
        then show ?thesis unfolding eq insert_update [OF len k] by (simp add: Cons t after_def 3)
      qed
    qed
    with f show ?thesis by blast
  qed
qed

section \<open>The places of an entry\<close>

definition tgt :: "leaf \<Rightarrow> nat list \<Rightarrow> bool" where
  "tgt e q \<longleftrightarrow> target (SubNet e) (unat (PreLen e)) q"

definition on_path :: "leaf \<Rightarrow> nat list \<Rightarrow> bool" where
  "on_path e q \<longleftrightarrow> tgt e q \<or> above (SubNet e) (unat (PreLen e)) q"

lemma path_two: "path ip (Suc (Suc n)) = (2 \<le> top_two ip) # odd (top_two ip) # path (push_bit 2 ip) n"
proof -
  have "push_bit 1 (push_bit 1 ip) = push_bit 2 ip" by (simp add: push_bit_eq_mult)
  then show ?thesis by (simp only: path.simps top_two_bits)
qed

lemma target_bits: "target ip n q \<Longrightarrow> n \<le> 2 * length q \<and> 2 * length q \<le> Suc n \<and> take n (bits_of q) = path ip n"
  by (induction ip n q rule: target.induct) (auto simp: path_two top_two_bits simp del: path.simps(2) simp: path.simps(2) [of _ 0])

lemma above_bits: "above ip n q \<Longrightarrow> 2 * length q < n \<and> bits_of q = path ip (2 * length q)"
  by (induction ip n q rule: above.induct) (auto simp: path_two simp del: path.simps(2))

lemma top_two_eq: "path a (Suc (Suc n)) = path b (Suc (Suc n)) \<Longrightarrow> top_two a = top_two b \<and> path (push_bit 2 a) n = path (push_bit 2 b) n"
  using bits_of_inj [of "[top_two a]" "[top_two b]"] top_two_less by (simp add: path_two del: path.simps)

lemma target_mpath: "path a n = path b n \<Longrightarrow> target a n (mpath b ((n + 1) div 2))"
proof (induction n arbitrary: a b rule: less_induct)
  case (less n)
  consider "n = 0" | "n = 1" | m where "n = Suc (Suc m)" by (metis One_nat_def nat.exhaust)
  then show ?case
  proof cases
    case 2
    then show ?thesis using less.prems top_two_less [of b] by (simp add: top_two_bits)
  next
    case 3
    then show ?thesis using less.IH [of m] top_two_eq [of a m b] less.prems by simp
  qed simp
qed

lemma tgt_bits: "tgt e q \<Longrightarrow> unat (PreLen e) \<le> 2 * length q \<and> take (unat (PreLen e)) (bits_of q) = pat e"
  using target_bits by (auto simp: tgt_def pat_def)

lemma on_path_bits:
  assumes "on_path e q"
  shows "2 * length q \<le> Suc (unat (PreLen e))"
    and "k \<le> unat (PreLen e) \<Longrightarrow> k \<le> 2 * length q \<Longrightarrow> take k (bits_of q) = path (SubNet e) k"
proof -
  let ?n = "unat (PreLen e)"
  consider "target (SubNet e) ?n q" | "above (SubNet e) ?n q" using assms by (auto simp: on_path_def tgt_def)
  then show "2 * length q \<le> Suc ?n" by cases (use target_bits above_bits in force)+
  assume k: "k \<le> ?n" "k \<le> 2 * length q"
  show "take k (bits_of q) = path (SubNet e) k"
    using assms unfolding on_path_def tgt_def
  proof
    assume "target (SubNet e) ?n q"
    from target_bits [OF this] have "take k (take ?n (bits_of q)) = path (SubNet e) k" using take_path [OF k(1)] by simp
    then show ?thesis using k by (simp add: min_absorb1)
  next
    assume "above (SubNet e) ?n q"
    from above_bits [OF this] show ?thesis using take_path [OF k(2)] by simp
  qed
qed

text \<open>No entry is a prefix of another, and none occurs with two ports.\<close>

definition prefix_free :: "leaf list \<Rightarrow> bool" where
  "prefix_free es \<longleftrightarrow> (\<forall>e \<in> set es. unat (PreLen e) \<le> 31) \<and>
     (\<forall>e \<in> set es. \<forall>e' \<in> set es. PreLen e \<le> PreLen e' \<and> leaf_match (SubNet e') e \<longrightarrow> e = e')"

lemma prefix_free_eq:
  assumes "prefix_free es" "e \<in> set es" "e' \<in> set es" "unat (PreLen e) \<le> unat (PreLen e')" "path (SubNet e') (unat (PreLen e)) = pat e"
  shows "e = e'"
  using assms leaf_match_path [of e "SubNet e'"] unfolding prefix_free_def word_le_nat_alt by metis

lemma below_target:
  assumes pf: "prefix_free es" "e \<in> set es" "e' \<in> set es" and e: "tgt e q" "on_path e' (q @ r)" "unat (PreLen e) \<le> unat (PreLen e')"
  shows "e = e'"
proof (rule prefix_free_eq [OF pf e(3)])
  have "take (unat (PreLen e)) (bits_of (q @ r)) = path (SubNet e') (unat (PreLen e))"
    using on_path_bits(2) [OF e(2,3)] tgt_bits [OF e(1)] by simp
  then show "path (SubNet e') (unat (PreLen e)) = pat e" using tgt_bits [OF e(1)] by (simp add: bits_of_append)
qed

lemma target_unique:
  assumes pf: "prefix_free es" "e \<in> set es" "e' \<in> set es" and e: "tgt e q" "on_path e' q"
  shows "e = e'"
proof (cases "unat (PreLen e) \<le> unat (PreLen e')")
  case True
  then show ?thesis using below_target [OF pf e(1), of "[]"] e(2) by simp
next
  case False
  then have "tgt e' q" using e(2) above_bits [of "SubNet e'" "unat (PreLen e')" q] tgt_bits [OF e(1)] by (auto simp: on_path_def)
  then show ?thesis using below_target [OF pf(1,3,2), of q "[]"] e(1) False by (simp add: on_path_def)
qed

lemma nothing_below:
  assumes pf: "prefix_free es" "e \<in> set es" "e' \<in> set es" and e: "tgt e q" "on_path e' (q @ [i])"
  shows False
proof -
  have l: "unat (PreLen e) < unat (PreLen e')" using on_path_bits(1) [OF e(2)] target_bits [OF e(1) [unfolded tgt_def]] tgt_bits [OF e(1)] by simp
  then show False using below_target [OF pf e] by simp
qed

section \<open>The tree of a table\<close>

abbreviation mtable :: "leaf list \<Rightarrow> mtree" where
  "mtable es \<equiv> MulPTree_ConstructTree es mempty"

lemma mtable_four: "four (mtable es)"
  by (induction es rule: rev_induct) (simp_all add: MulPTree_ConstructTree_def MulPTree_Insert_def mt_insert_at)

lemma mtable_snoc: "at_opt (Some (mtable (es @ [e]))) q = after (SubNet e) (unat (PreLen e)) e q (at_opt (Some (mtable es)) q)"
  using mt_insert_at [OF mtable_four [of es], of "SubNet e" "unat (PreLen e)" e q]
  by (simp add: MulPTree_ConstructTree_def MulPTree_Insert_def)

lemma mtable_at:
  "at_opt (Some (mtable es)) q = Some w \<Longrightarrow> (w = leaf0 \<or> w \<in> set es \<and> tgt w q) \<and> (q = [] \<or> (\<exists>e \<in> set es. on_path e q))"
proof (induction es arbitrary: w rule: rev_induct)
  case Nil
  then show ?case by (simp add: MulPTree_ConstructTree_def split: if_splits)
next
  case (snoc e es)
  then show ?case unfolding mtable_snoc after_def by (auto simp: tgt_def on_path_def split: if_splits)
qed

lemma prefix_free_init: "prefix_free (es @ [e]) \<Longrightarrow> prefix_free es"
  by (simp add: prefix_free_def)

lemma mtable_hit:
  "prefix_free es \<Longrightarrow> \<forall>e \<in> set es. PreLen e \<noteq> 0 \<Longrightarrow> e \<in> set es \<Longrightarrow> tgt e q \<Longrightarrow> at_opt (Some (mtable es)) q = Some e"
proof (induction es rule: rev_induct)
  case (snoc x es)
  show ?case
  proof (cases "e \<in> set es")
    case True
    then have at: "at_opt (Some (mtable es)) q = Some e" using snoc prefix_free_init by simp
    have "x = e" if "tgt x q" using target_unique [OF snoc.prems(1), of x e q] snoc.prems(3,4) that by (simp add: on_path_def)
    then show ?thesis unfolding mtable_snoc at after_def by (auto simp: tgt_def)
  next
    case False
    then have x: "x = e" using snoc.prems(3) by simp
    have "q \<noteq> []" using snoc.prems(2,3,4) tgt_bits [of e q] unat_gt_0 [of "PreLen e"] by auto
    moreover have False if "e' \<in> set es" "on_path e' q" for e'
      using target_unique [OF snoc.prems(1,3) _ snoc.prems(4) that(2)] that(1) False by auto
    ultimately have "at_opt (Some (mtable es)) q = None" using mtable_at [of es q] by (cases "at_opt (Some (mtable es)) q") auto
    then show ?thesis using snoc.prems(4) unfolding mtable_snoc after_def x by (simp add: tgt_def)
  qed
qed simp

section \<open>Walks\<close>

lemma mpath_snoc: "\<exists>d. mpath ip (Suc n) = mpath ip n @ [d]"
  by (induction n arbitrary: ip) (simp, metis append_Cons mpath.simps(2))

lemma length_mpath [simp]: "length (mpath ip n) = n"
  by (induction n arbitrary: ip) simp_all

lemma mt_walk_stop:
  "four t \<Longrightarrow> at_opt (Some t) (mpath ip n) = Some w \<Longrightarrow> at_opt (Some t) (mpath ip (Suc n)) = None \<Longrightarrow> mt_walk ip t = w"
proof (induction n arbitrary: t ip)
  case 0
  obtain v cs where t: "t = MNode v cs" by (cases t)
  have "cs ! top_two ip = None" using 0 top_two_less [of ip] by (cases "cs ! top_two ip") (auto simp: t four_node)
  then show ?case using 0 by (simp add: t mt_walk.simps)
next
  case (Suc n)
  obtain v cs where t: "t = MNode v cs" by (cases t)
  have k: "top_two ip < length cs" using Suc.prems(1) top_two_less [of ip] by (simp add: t four_node)
  obtain u where u: "cs ! top_two ip = Some u" using Suc.prems(2) k by (cases "cs ! top_two ip") (auto simp: t)
  have "four u" using Suc.prems(1) k u by (auto simp: t four_node)
  then have "mt_walk (push_bit 2 ip) u = w" using Suc.IH [of u "push_bit 2 ip"] Suc.prems(2,3) k u by (simp add: t)
  then show ?case using k u by (simp add: t mt_walk.simps [of ip])
qed

lemma mt_walk_end:
  "four t \<Longrightarrow> \<exists>n. at_opt (Some t) (mpath ip n) = Some (mt_walk ip t) \<and> at_opt (Some t) (mpath ip (Suc n)) = None"
proof (induction ip t rule: mt_walk.induct)
  case (1 ip v cs)
  have k: "top_two ip < length cs" using 1(2) top_two_less [of ip] by (simp add: four_node)
  show ?case
  proof (cases "cs ! top_two ip")
    case None
    then show ?thesis using k by (intro exI [of _ 0]) (simp add: mt_walk.simps [of ip])
  next
    case (Some u)
    then have "four u" using 1(2) k by (auto simp: four_node)
    then obtain n where "at_opt (Some u) (mpath (push_bit 2 ip) n) = Some (mt_walk (push_bit 2 ip) u)"
      "at_opt (Some u) (mpath (push_bit 2 ip) (Suc n)) = None" using 1(1) [OF k Some] by blast
    then show ?thesis using Some k by (intro exI [of _ "Suc n"]) (simp add: mt_walk.simps [of ip])
  qed
qed

text \<open>The answer that the table itself gives.\<close>

definition lookup_result :: "leaf list \<Rightarrow> u32 \<Rightarrow> leaf" where
  "lookup_result es ip = (case find (leaf_match ip) es of Some e \<Rightarrow> e | None \<Rightarrow> leaf0)"

lemma mtable_walk:
  assumes pf: "prefix_free es" "\<forall>e \<in> set es. PreLen e \<noteq> 0"
  shows "mt_walk ip (mtable es) = lookup_result es ip"
proof (cases "find (leaf_match ip) es")
  case (Some e)
  then have e: "e \<in> set es" "leaf_match ip e" by (auto simp: find_Some_iff)
  let ?n = "unat (PreLen e)"
  have n: "?n \<le> 31" using pf(1) e(1) by (simp add: prefix_free_def)
  have t: "tgt e (mpath ip ((?n + 1) div 2))"
    unfolding tgt_def by (rule target_mpath) (use leaf_match_path [OF n, of ip] e(2) in \<open>simp add: pat_def\<close>)
  obtain d where d: "mpath ip (Suc ((?n + 1) div 2)) = mpath ip ((?n + 1) div 2) @ [d]" using mpath_snoc by blast
  have "at_opt (Some (mtable es)) (mpath ip (Suc ((?n + 1) div 2))) = None"
    using mtable_at [of es "mpath ip ((?n + 1) div 2) @ [d]"] nothing_below [OF pf(1) e(1) _ t, of _ d]
    unfolding d by (cases "at_opt (Some (mtable es)) (mpath ip ((?n + 1) div 2) @ [d])") auto
  then have "mt_walk ip (mtable es) = e" using mt_walk_stop [OF mtable_four mtable_hit [OF pf e(1) t]] by blast
  then show ?thesis using Some by (simp add: lookup_result_def)
next
  case None
  obtain n where "at_opt (Some (mtable es)) (mpath ip n) = Some (mt_walk ip (mtable es))" using mt_walk_end [OF mtable_four] by blast
  then consider "mt_walk ip (mtable es) = leaf0" | "mt_walk ip (mtable es) \<in> set es" "tgt (mt_walk ip (mtable es)) (mpath ip n)"
    using mtable_at by blast
  then show ?thesis
  proof cases
    case 2
    let ?e = "mt_walk ip (mtable es)"
    have "pat ?e = path ip (unat (PreLen ?e))"
      using tgt_bits [OF 2(2)] take_path [of "unat (PreLen ?e)" "2 * n" ip] by (simp add: bits_of_mpath)
    then have "leaf_match ip ?e" using leaf_match_path [of ?e ip] pf(1) 2(1) by (simp add: prefix_free_def)
    then show ?thesis using None 2(1) by (auto simp: find_None_iff)
  qed (simp add: lookup_result_def None)
qed

lemma mtable_inner:
  assumes pf: "prefix_free es" and u: "subtree (mtable es) q = Some u" "\<not> isLeaf u"
  shows "minfo u = leaf0"
proof (rule ccontr)
  assume "minfo u \<noteq> leaf0"
  then have e: "minfo u \<in> set es" "tgt (minfo u) q" using mtable_at [of es q "minfo u"] u(1) by (auto simp: at_opt_def)
  obtain i c where c: "i < length (mchild u)" "mchild u ! i = Some c" using u(2) by (auto simp: isLeaf_def in_set_conv_nth)
  have "subtree t (q @ r) = (case subtree t q of None \<Rightarrow> None | Some u \<Rightarrow> subtree u r)" for t r
    by (induction t q rule: subtree.induct) (auto split: option.split)
  then have "at_opt (Some (mtable es)) (q @ [i]) = Some (minfo c)" using u(1) c by (cases u) (simp add: at_opt_def)
  then show False using mtable_at nothing_below [OF pf e(1) _ e(2), of _ i] by blast
qed

section \<open>The test\<close>

definition Equal :: "leaf \<Rightarrow> leaf \<Rightarrow> bool" where
  "Equal a b \<longleftrightarrow> SubNet b = SubNet a \<and> PreLen b = PreLen a \<and> Port b = Port a"

text \<open>The loop over the addresses read, which counts those where the answers differ.\<close>

fun count_failures :: "ptree \<Rightarrow> mtree \<Rightarrow> cvtree \<Rightarrow> u32 list \<Rightarrow> int \<Rightarrow> int option" where
  "count_failures tree2 tree1 tree3 [] num = Some num"
| "count_failures tree2 tree1 tree3 (ip # ips) num = do {
     result2 \<leftarrow> PTree_Search ip tree2;
     result1 \<leftarrow> MulPTree_Search ip tree1;
     rev_leaf \<leftarrow> CVTree_Search ip tree3;
     count_failures tree2 tree1 tree3 ips (if Equal result1 result2 \<and> Equal result1 rev_leaf then num else num + 1) }"

lemma lookup_result_match:
  assumes "prefix_free es"
  shows "unat (PreLen (lookup_result es ip)) \<le> 31" "leaf_match ip (lookup_result es ip)"
proof -
  have "lookup_result es ip = leaf0 \<or> (lookup_result es ip \<in> set es \<and> leaf_match ip (lookup_result es ip))"
    by (auto simp: lookup_result_def find_Some_iff split: option.split)
  then show "unat (PreLen (lookup_result es ip)) \<le> 31" "leaf_match ip (lookup_result es ip)"
    using assms by (auto simp: prefix_free_def leaf_match_def leaf0_def)
qed

lemma lookup_result_unique:
  assumes "prefix_free es" "set es' = set es"
  shows "lookup_result es' ip = lookup_result es ip"
proof -
  have u: "e = e'" if "e \<in> set es" "e' \<in> set es" "leaf_match ip e" "leaf_match ip e'" for e e'
  proof -
    have p: "pat x = path ip (unat (PreLen x))" if "x \<in> set es" "leaf_match ip x" for x
      using that leaf_match_path [of x ip] assms(1) by (simp add: prefix_free_def)
    have "x = y" if "x \<in> set es" "y \<in> set es" "leaf_match ip x" "leaf_match ip y" "unat (PreLen x) \<le> unat (PreLen y)" for x y
      using prefix_free_eq [OF assms(1) that(1,2,5)] p [of x] p [of y] that take_path [OF that(5)] by (metis pat_def)
    then show ?thesis using that by (metis linear)
  qed
  show ?thesis
    unfolding lookup_result_def using u assms(2)
    by (auto simp: find_None_iff find_Some_iff split: option.split) (metis nth_mem)+
qed

lemma prefix_free_nested: "prefix_free es \<Longrightarrow> \<forall>e \<in> set es. \<forall>e' \<in> set es. \<not> nested e e'"
  unfolding prefix_free_def nested_def by (metis less_imp_le less_irrefl)

lemma PTree_Search_table:
  assumes "prefix_free es"
  shows "PTree_Search ip (PTree_ConstructTree es pempty) = Some (lookup_result es ip)"
  using PTree_Search_prefix_free [OF _ prefix_free_nested [OF assms], of ip] lookup_result_unique [OF assms, of "rev es" ip] assms
  by (simp add: lookup_result_def prefix_free_def)

lemma owned_heap_of: "owned (heap_of t) [] t"
  by (simp add: owned_def heap_of_def)

lemma at_opt_inner:
  assumes "at_opt (Some t) q = Some e" "0 < length q"
  shows "\<not> isLeaf t"
proof -
  obtain v cs where t: "t = MNode v cs" by (cases t)
  obtain i r where q: "q = i # r" using assms(2) by (cases q) auto
  have i: "i < length cs" "at_opt (cs ! i) r = Some e" using assms(1) by (auto simp: t q split: if_splits)
  then have "cs ! i \<noteq> None" by (cases "cs ! i") auto
  then have "\<exists>c \<in> set cs. c \<noteq> None" by (intro bexI [of _ "cs ! i"] nth_mem i(1))
  then show ?thesis by (simp add: t isLeaf_def)
qed

lemma leaf_push_table:
  assumes pf: "prefix_free es" "\<forall>e \<in> set es. PreLen e \<noteq> 0" and ne: "es \<noteq> []"
  shows "\<exists>h t. MleafPush (Built []) (New 0) (heap_of (mtable es)) = Some h \<and> holds h (Built []) t
     \<and> full t \<and> \<not> isLeaf t \<and> minfo t = leaf0 \<and> (\<forall>ip. mt_walk ip t = lookup_result es ip)"
proof -
  let ?Q = "\<lambda>e. e = leaf0"
  have inner: "minfo u = leaf0" if "subtree (mtable es) q = Some u" "\<not> isLeaf u" for q u by (rule mtable_inner [OF pf(1) that])
  then have "carried ?Q (mtable es)" unfolding carried_def by blast
  moreover have "leaf_cell ?Q (heap_of (mtable es)) 0" "0 < m_brk (heap_of (mtable es))" by (simp_all add: leaf_cell_def heap_of_def)
  ultimately obtain h where h: "MleafPush (Built []) (New 0) (heap_of (mtable es)) = Some h" "pushed ?Q [] 0 (mtable es) (heap_of (mtable es)) h"
    using MleafPush_ok [OF owned_heap_of mtable_four] by blast
  have cells: "leaf_cell ?Q h j" if "j \<in> insert 0 {m_brk (heap_of (mtable es))..<m_brk h}" for j using h(2) that by (auto simp: pushed_def)
  have f: "fills h (insert 0 {m_brk (heap_of (mtable es))..<m_brk h}) [] (mtable es)" using h(2) by (simp add: pushed_def)
  obtain t where t: "holds h (Built []) t" "filled_tree ?Q (mtable es) t"
    using fills_holds [where Q = ?Q, OF f cells mtable_four] by blast
  obtain e where e: "e \<in> set es" using ne by (cases es) auto
  have "tgt e (mpath (SubNet e) ((unat (PreLen e) + 1) div 2))" unfolding tgt_def by (rule target_mpath) simp
  then have at: "at_opt (Some (mtable es)) (mpath (SubNet e) ((unat (PreLen e) + 1) div 2)) = Some e" by (rule mtable_hit [OF pf e])
  have "0 < (unat (PreLen e) + 1) div 2" using pf(2) e unat_gt_0 [of "PreLen e"] by auto
  then have "\<not> isLeaf (mtable es)" by (intro at_opt_inner [OF at]) simp
  moreover have "minfo (mtable es) = leaf0" using inner [of "[]" "mtable es"] calculation by simp
  moreover have "mt_walk ip t = lookup_result es ip" for ip
  proof -
    have "mt_walk ip t = mt_walk ip (mtable es)" using t(2) inner unfolding filled_tree_def by metis
    then show ?thesis using mtable_walk [OF pf] by simp
  qed
  ultimately show ?thesis using h(1) t unfolding filled_tree_def by (intro exI [of _ h] exI [of _ t]) simp
qed

text \<open>The program's own test passes: for every non-empty table of prefixes of 1 to 31 bits, none a prefix of
  another, the main function's steps succeed - the double-bit tree is built twice from the table, the leaf
  push returns (hanging shared nodes into the tree on the heap) and leaves a tree that the compression accepts - and for
  every list of addresses the single-bit tree, the pushed double-bit tree and the compressed tree give the same
  entry, the one of the table that matches, so no failure is counted.\<close>

theorem lookup_test_passes:
  assumes "prefix_free es" "\<forall>e \<in> set es. PreLen e \<noteq> 0" "es \<noteq> []"
  shows "\<exists>h t. MleafPush (Built []) (New 0) (heap_of (MulPTree_ConstructTree es (MulPTree_ConstructTree es mempty))) = Some h
     \<and> holds h (Built []) t \<and> fst (ConstructCVTree t)
     \<and> (\<forall>ip. MulPTree_Search ip t = Some (lookup_result es ip))
     \<and> count_failures (PTree_ConstructTree es pempty) t (snd (ConstructCVTree t)) ips 0 = Some 0"
proof -
  have pf: "prefix_free (es @ es)" "\<forall>e \<in> set (es @ es). PreLen e \<noteq> 0" "es @ es \<noteq> []" using assms by (simp_all add: prefix_free_def)
  have m: "MulPTree_ConstructTree es (mtable es) = mtable (es @ es)" by (simp add: MulPTree_ConstructTree_def)
  have same: "lookup_result (es @ es) ip = lookup_result es ip" for ip by (rule lookup_result_unique [OF assms(1)]) simp
  obtain h t where h: "MleafPush (Built []) (New 0) (heap_of (mtable (es @ es))) = Some h" "holds h (Built []) t"
    and t: "full t" "\<not> isLeaf t" "minfo t = leaf0" "\<And>ip. mt_walk ip t = lookup_result es ip"
    using leaf_push_table [OF pf] unfolding same by blast
  note r = lookup_result_match [OF assms(1)]
  have mt: "MulPTree_Search ip t = Some (lookup_result es ip)" for ip by (rule MulPTree_Search_hit) (simp_all add: t(4) r)
  have cv: "fst (ConstructCVTree t)" "CVTree_Search ip (snd (ConstructCVTree t)) = Some (lookup_result es ip)" for ip
    using CVTree_Search_equiv [OF t(1-3), of ip] r(1) [of ip] mt [of ip] by (auto simp: t(4))
  have "count_failures (PTree_ConstructTree es pempty) t (snd (ConstructCVTree t)) ips 0 = Some 0"
    by (induction ips) (simp_all add: mt cv(2) PTree_Search_table [OF assms(1)] Equal_def)
  then show ?thesis using h mt cv(1) unfolding m by blast
qed

theorem lookup_test_passes_witness:
  "\<exists>h t. MleafPush (Built []) (New 0) (heap_of (MulPTree_ConstructTree table0 (MulPTree_ConstructTree table0 mempty))) = Some h
     \<and> holds h (Built []) t \<and> MulPTree_Search 0xC0A80105 t = Some \<lparr>SubNet = 0xC0A80000, PreLen = 16, Port = 2\<rparr>
     \<and> count_failures (PTree_ConstructTree table0 pempty) t (snd (ConstructCVTree t)) [0xC0A80105, 0x0B000001] 0 = Some 0"
proof -
  have "prefix_free table0" by (simp add: prefix_free_def table0_def leaf_match_def drop_bit_eq_div)
  moreover have "\<forall>e \<in> set table0. PreLen e \<noteq> 0" "table0 \<noteq> []" by (simp_all add: table0_def)
  moreover have "lookup_result table0 0xC0A80105 = \<lparr>SubNet = 0xC0A80000, PreLen = 16, Port = 2\<rparr>"
    by (simp add: lookup_result_def table0_def leaf_match_def drop_bit_eq_div)
  ultimately show ?thesis using lookup_test_passes [of table0 "[0xC0A80105, 0x0B000001]"] by metis
qed

section \<open>Nested prefixes\<close>

text \<open>With nested prefixes the leaf push makes right answers wrong. All four children of the node \<open>1\<close> are handed the same node;
  the first hangs it under itself, for the prefix 64.0.0.0/4, and the third writes its own entry over it.
  The address 68.0.0.0 is found before the push and not after it.\<close>

definition nested0 :: "leaf list" where
  "nested0 = [\<lparr>SubNet = 0x40000000, PreLen = 2, Port = 1\<rparr>, \<lparr>SubNet = 0x40000000, PreLen = 4, Port = 2\<rparr>, \<lparr>SubNet = 0x40000000, PreLen = 6, Port = 3\<rparr>,
     \<lparr>SubNet = 0x50000000, PreLen = 6, Port = 4\<rparr>, \<lparr>SubNet = 0x60000000, PreLen = 4, Port = 5\<rparr>, \<lparr>SubNet = 0x60000000, PreLen = 6, Port = 6\<rparr>,
     \<lparr>SubNet = 0x70000000, PreLen = 4, Port = 7\<rparr>]"

lemma nested0_push:
  "\<exists>h. MleafPush (Built []) (New 0) (heap_of (mtable nested0)) = Some h
   \<and> node_ref (Built []) h = Some \<lparr>m_entry = leaf0, m_child = [Some (New 0), Some (Built [1]), Some (New 0), Some (New 0)]\<rparr>
   \<and> map_option m_child (node_ref (Built [1]) h) = Some [Some (Built [1, 0]), Some (Built [1, 1]), Some (Built [1, 2]), Some (Built [1, 3])]
   \<and> map_option m_child (node_ref (Built [1, 0]) h) = Some [Some (Built [1, 0, 0]), Some (New 1), Some (New 1), Some (New 1)]
   \<and> node_ref (New 1) h = Some \<lparr>m_entry = \<lparr>SubNet = 0x60000000, PreLen = 4, Port = 5\<rparr>, m_child = [None, None, None, None]\<rparr>"
proof -
  have "map_option (\<lambda>h. (node_ref (Built []) h, map_option m_child (node_ref (Built [1]) h), map_option m_child (node_ref (Built [1, 0]) h), node_ref (New 1) h))
     (MleafPush (Built []) (New 0) (heap_of (mtable nested0)))
   = Some (Some \<lparr>m_entry = leaf0, m_child = [Some (New 0), Some (Built [1]), Some (New 0), Some (New 0)]\<rparr>,
       Some [Some (Built [1, 0]), Some (Built [1, 1]), Some (Built [1, 2]), Some (Built [1, 3])],
       Some [Some (Built [1, 0, 0]), Some (New 1), Some (New 1), Some (New 1)],
       Some \<lparr>m_entry = \<lparr>SubNet = 0x60000000, PreLen = 4, Port = 5\<rparr>, m_child = [None, None, None, None]\<rparr>)"
    by code_simp
  then show ?thesis by auto
qed

lemma leaf_push_loses_entry:
  "MulPTree_Search 0x44000000 (mtable nested0) = Some \<lparr>SubNet = 0x40000000, PreLen = 4, Port = 2\<rparr>
   \<and> (\<exists>h. MleafPush (Built []) (New 0) (heap_of (mtable nested0)) = Some h
       \<and> (\<forall>t. holds h (Built []) t \<longrightarrow> MulPTree_Search 0x44000000 t = Some leaf0))"
proof -
  obtain h where h: "MleafPush (Built []) (New 0) (heap_of (mtable nested0)) = Some h"
    "node_ref (Built []) h = Some \<lparr>m_entry = leaf0, m_child = [Some (New 0), Some (Built [1]), Some (New 0), Some (New 0)]\<rparr>"
    "map_option m_child (node_ref (Built [1]) h) = Some [Some (Built [1, 0]), Some (Built [1, 1]), Some (Built [1, 2]), Some (Built [1, 3])]"
    "map_option m_child (node_ref (Built [1, 0]) h) = Some [Some (Built [1, 0, 0]), Some (New 1), Some (New 1), Some (New 1)]"
    "node_ref (New 1) h = Some \<lparr>m_entry = \<lparr>SubNet = 0x60000000, PreLen = 4, Port = 5\<rparr>, m_child = [None, None, None, None]\<rparr>"
    using nested0_push by blast
  have top: "top_two 0x44000000 = 1" "top_two (push_bit 2 0x44000000) = 0" "top_two (push_bit 2 (push_bit 2 0x44000000)) = 1"
    by (simp_all add: top_two_def)
  have "MulPTree_Search 0x44000000 t = Some leaf0" if t: "holds h (Built []) t" for t
  proof -
    obtain u1 where u1: "minfo t = leaf0" "1 < length (mchild t)" "mchild t ! 1 = Some u1" "holds h (Built [1]) u1"
      using holds_child [OF t h(2), of 1] by auto
    obtain u2 where u2: "0 < length (mchild u1)" "mchild u1 ! 0 = Some u2" "holds h (Built [1, 0]) u2"
      using h(3) holds_child [OF u1(4), of _ 0] by fastforce
    obtain u3 where u3: "1 < length (mchild u2)" "mchild u2 ! 1 = Some u3" "holds h (New 1) u3"
      using h(4) holds_child [OF u2(3), of _ 1] by fastforce
    have u3': "u3 = mleaf \<lparr>SubNet = 0x60000000, PreLen = 4, Port = 5\<rparr>"
      using u3(3) h(5) by (auto elim!: holdsE simp: mleaf_def list_all2_Cons1)
    have step: "mt_walk ip v = mt_walk (push_bit 2 ip) w" if "top_two ip < length (mchild v)" "mchild v ! top_two ip = Some w" for ip v w
      using that by (cases v) (simp add: mt_walk.simps)
    note step [of "0x44000000" t u1, unfolded top, OF u1(2,3)]
    also note step [of "push_bit 2 0x44000000" u1 u2, unfolded top, OF u2(1,2)]
    also note step [of "push_bit 2 (push_bit 2 0x44000000)" u2 u3, unfolded top, OF u3(1,2)]
    finally have "mt_walk 0x44000000 t = \<lparr>SubNet = 0x60000000, PreLen = 4, Port = 5\<rparr>" unfolding u3' mt_walk_mleaf .
    moreover have "bite_loop 0x60000000 0x44000000 4 0 0 = Some 2" by code_simp
    ultimately show ?thesis using u1(1) by (simp add: MulPTree_Search_def)
  qed
  moreover have "MulPTree_Search 0x44000000 (mtable nested0) = Some \<lparr>SubNet = 0x40000000, PreLen = 4, Port = 2\<rparr>" by code_simp
  ultimately show ?thesis using h(1) by blast
qed

end
