(* ===== verification/CString.thy ===== *)
theory CString
  imports Prelude
begin

text \<open>
  Strings as the C library reads them: \<^verbatim>\<open>atoi\<close> and \<^verbatim>\<open>strstr\<close>, with the decimal notation that \<^verbatim>\<open>atoi\<close> reads back.
\<close>

section \<open>Numbers\<close>

definition is_digit :: "char \<Rightarrow> bool" where
  "is_digit c \<longleftrightarrow> 48 \<le> (of_char c :: nat) \<and> (of_char c :: nat) \<le> 57"

definition is_space :: "char \<Rightarrow> bool" where
  "is_space c \<longleftrightarrow> (of_char c :: nat) = 32 \<or> 9 \<le> (of_char c :: nat) \<and> (of_char c :: nat) \<le> 13"

fun digits_value :: "int \<Rightarrow> string \<Rightarrow> int" where
  "digits_value v [] = v"
| "digits_value v (c # cs) = (if is_digit c then digits_value (10 * v + (of_char c - 48)) cs else v)"

text \<open>\<^verbatim>\<open>atoi\<close> is undefined where the number is no \<^verbatim>\<open>int\<close>.\<close>

definition atoi :: "string \<Rightarrow> int option" where
  "atoi s = do {
     let s = dropWhile is_space s;
     let v = (case s of [] \<Rightarrow> 0
              | c # cs \<Rightarrow> if c = CHR ''-'' then - digits_value 0 cs else if c = CHR ''+'' then digits_value 0 cs else digits_value 0 s);
     ensure (- (2 ^ 31) \<le> v \<and> v < 2 ^ 31);
     Some v }"

section \<open>Substrings\<close>

text \<open>\<^verbatim>\<open>strstr\<close>, as a test.\<close>

fun begins_with :: "string \<Rightarrow> string \<Rightarrow> bool" where
  "begins_with [] t = True"
| "begins_with (c # s) [] = False"
| "begins_with (c # s) (d # t) = (c = d \<and> begins_with s t)"

fun has_sub :: "string \<Rightarrow> string \<Rightarrow> bool" where
  "has_sub s [] = (s = [])"
| "has_sub s (c # t) = (begins_with s (c # t) \<or> has_sub s t)"

lemma begins_with_iff: "begins_with s t \<longleftrightarrow> (\<exists>r. t = s @ r)"
  by (induction s t rule: begins_with.induct) auto

lemma has_sub_iff: "has_sub s t \<longleftrightarrow> (\<exists>l r. t = l @ s @ r)"
proof (induction t)
  case (Cons c t)
  have "(\<exists>l r. c # t = l @ s @ r) \<longleftrightarrow> (\<exists>r. c # t = s @ r) \<or> (\<exists>l r. t = l @ s @ r)"
    by (metis append_Cons append_Nil list.exhaust list.inject)
  then show ?case using Cons by (simp only: has_sub.simps begins_with_iff)
qed auto

section \<open>Decimal notation\<close>

definition digit :: "nat \<Rightarrow> char" where
  "digit n = char_of (48 + n)"

fun show_nat :: "nat \<Rightarrow> string" where
  "show_nat n = (if n < 10 then [digit n] else show_nat (n div 10) @ [digit (n mod 10)])"

declare show_nat.simps [simp del]

lemma of_char_digit: "n < 10 \<Longrightarrow> (of_char (digit n) :: nat) = 48 + n"
  by (simp add: digit_def)

lemma is_digit_digit: "n < 10 \<Longrightarrow> is_digit (digit n)"
  by (simp add: is_digit_def of_char_digit)

lemma show_nat_digits: "list_all is_digit (show_nat n)"
proof (induction n rule: show_nat.induct)
  case (1 n)
  then show ?case by (subst show_nat.simps) (simp add: is_digit_digit)
qed

lemma show_nat_not_Nil [simp]: "show_nat n \<noteq> []"
  by (subst show_nat.simps) simp

lemma digits_value_append: "list_all is_digit xs \<Longrightarrow> digits_value v (xs @ ys) = digits_value (digits_value v xs) ys"
  by (induction xs arbitrary: v) simp_all

definition no_digit :: "string \<Rightarrow> bool" where
  "no_digit s \<longleftrightarrow> (s = [] \<or> \<not> is_digit (hd s))"

lemma digits_value_stop: "no_digit s \<Longrightarrow> digits_value v s = v"
  by (cases s) (simp_all add: no_digit_def)

lemma of_char_int: "(of_char c :: int) = int (of_char c)"
  by (rule of_nat_of_char [symmetric])

lemma digits_value_show: "digits_value 0 (show_nat n) = int n"
proof (induction n rule: show_nat.induct)
  case (1 n)
  show ?case
  proof (cases "n < 10")
    case True
    then show ?thesis by (subst show_nat.simps) (simp add: is_digit_digit of_char_int of_char_digit del: of_nat_of_char)
  next
    case False
    have "10 * int (n div 10) + int (n mod 10) = int n" by (metis mult_div_mod_eq of_nat_add of_nat_mult of_nat_numeral)
    then show ?thesis using 1 False
      by (subst show_nat.simps) (simp add: digits_value_append show_nat_digits is_digit_digit of_char_int of_char_digit del: of_nat_of_char)
  qed
qed

lemma atoi_show: "n < 2 ^ 31 \<Longrightarrow> no_digit r \<Longrightarrow> atoi (show_nat n @ r) = Some (int n)"
proof -
  assume n: "n < 2 ^ 31" and r: "no_digit r"
  obtain c cs where s: "show_nat n = c # cs" by (cases "show_nat n") auto
  have c: "is_digit c" using show_nat_digits [of n] s by simp
  then have "\<not> is_space c" "c \<noteq> CHR ''-''" "c \<noteq> CHR ''+''" by (auto simp: is_digit_def is_space_def)
  moreover have "digits_value 0 (show_nat n @ r) = int n"
    unfolding digits_value_append [OF show_nat_digits] digits_value_show by (rule digits_value_stop [OF r])
  moreover have "int n < 2 ^ 31" using n by (metis of_nat_less_iff of_nat_numeral of_nat_power)
  ultimately show ?thesis unfolding atoi_def s by simp
qed

lemma show_nat_length: "n < 256 \<Longrightarrow> length (show_nat n) \<le> 3"
  by (simp add: show_nat.simps [of n] show_nat.simps [of "n div 10"] show_nat.simps [of "n div 10 div 10"])

lemma show_nat_no: "\<not> is_digit c \<Longrightarrow> c \<notin> set (show_nat n)"
  using show_nat_digits [of n] by (auto simp: list_all_iff)

lemma no_digits [simp]: "\<not> is_digit (CHR ''.'')" "\<not> is_digit (CHR '' '')" "\<not> is_digit (CHR 0x00)"
  by (simp_all add: is_digit_def)

end
