(* ===== verification/TableFile.thy ===== *)
theory TableFile
  imports LookupTest CString
begin

text \<open>
  The reading of the table file of lab 09: \<^verbatim>\<open>StrToIp\<close> and \<^verbatim>\<open>ConstructTree\<close> of both trees, and the freeing of the
  trees. \<^verbatim>\<open>StrToIp\<close> reads the byte behind its array of four: that byte is an argument here, and
  the address is read rightly for some of its values only.
\<close>

section \<open>The library functions used\<close>

text \<open>\<^verbatim>\<open>substr\<close> throws where it starts behind the end; a negative length is a huge one.\<close>

definition substr :: "string \<Rightarrow> nat \<Rightarrow> int \<Rightarrow> string option" where
  "substr s pos n = (if pos \<le> length s then Some (if n < 0 then drop pos s else take (nat n) (drop pos s)) else None)"

fun find_char :: "char \<Rightarrow> string \<Rightarrow> nat option" where
  "find_char c [] = None"
| "find_char c (x # xs) = (if x = c then Some 0 else map_option Suc (find_char c xs))"

definition find_last_char :: "char \<Rightarrow> string \<Rightarrow> nat option" where
  "find_last_char c s = map_option (\<lambda>i. length s - 1 - i) (find_char c (rev s))"

text \<open>\<^verbatim>\<open>npos\<close>, the result where there is none, is \<^verbatim>\<open>65535\<close> in 16 bits.\<close>

definition pos16 :: "nat option \<Rightarrow> nat" where
  "pos16 r = (case r of None \<Rightarrow> 65535 | Some i \<Rightarrow> i mod 65536)"

section \<open>Addresses\<close>

text \<open>The positions of the dots; a fourth one would be stored behind the array. A place not yet written is
  \<open>None\<close>.\<close>

fun scan_dots :: "nat \<Rightarrow> string \<Rightarrow> nat \<Rightarrow> u8 option list \<Rightarrow> u8 option list option" where
  "scan_dots i [] num loc = Some loc"
| "scan_dots i (c # cs) num loc =
     (if c = CHR ''.'' then
        (if num + 1 < 4 then scan_dots (i + 1) cs (num + 1) (loc[num + 1 := Some (of_nat i)]) else None)
      else scan_dots (i + 1) cs num loc)"

definition c_string :: "string \<Rightarrow> string" where
  "c_string s = takeWhile (\<lambda>c. c \<noteq> CHR 0x00) s"

text \<open>\<open>beyond\<close> is the byte behind \<^verbatim>\<open>loc[3]\<close>.\<close>

definition StrToIp :: "u8 \<Rightarrow> string \<Rightarrow> u32 option" where
  "StrToIp beyond s = do {
     let s = c_string s;
     loc \<leftarrow> scan_dots 0 s 0 [Some 0, None, None, None];
     l1 \<leftarrow> loc ! 1;
     t \<leftarrow> substr s 0 (int (unat l1));
     a \<leftarrow> atoi t;
     l2 \<leftarrow> loc ! 2;
     t \<leftarrow> substr s (unat l1 + 1) (int (unat l2) - int (unat l1) - 1);
     b \<leftarrow> atoi t;
     l3 \<leftarrow> loc ! 3;
     t \<leftarrow> substr s (unat l2 + 1) (int (unat l3) - int (unat l2) - 1);
     c \<leftarrow> atoi t;
     t \<leftarrow> substr s (unat l3 + 1) (int (unat beyond) - int (unat l3) - 1);
     d \<leftarrow> atoi t;
     let ip4 = ([of_int a, of_int b, of_int c, of_int d] :: u8 list);
     Some (fst (fold (\<lambda>i (ret, base). (ret + of_nat (unat (ip4 ! i)) * base, base * 256)) [3, 2, 1, 0] (0, 1))) }"

section \<open>Lines\<close>

definition parse_line :: "u8 \<Rightarrow> string \<Rightarrow> leaf option" where
  "parse_line beyond s = do {
     let fb = pos16 (find_char CHR '' '' s);
     let lb = pos16 (find_last_char CHR '' '' s);
     t \<leftarrow> substr s 0 (int fb);
     ip \<leftarrow> StrToIp beyond t;
     t \<leftarrow> substr s (fb + 1) (int lb);
     len \<leftarrow> atoi t;
     t \<leftarrow> substr s (lb + 1) (- 1);
     port \<leftarrow> atoi t;
     Some \<lparr>SubNet = ip, PreLen = of_int len, Port = of_int port\<rparr> }"

text \<open>The loop over the lines, for either tree; the stack differs from call to call.\<close>

fun read_lines :: "(leaf \<Rightarrow> 't \<Rightarrow> 't) \<Rightarrow> (nat \<Rightarrow> u8) \<Rightarrow> nat \<Rightarrow> string list \<Rightarrow> 't \<Rightarrow> 't option" where
  "read_lines ins beyond k [] t = Some t"
| "read_lines ins beyond k (s # ss) t = do {
     e \<leftarrow> parse_line (beyond k) s;
     read_lines ins beyond (k + 1) ss (ins e t) }"

definition ConstructTree_file :: "(leaf \<Rightarrow> 't \<Rightarrow> 't) \<Rightarrow> (nat \<Rightarrow> u8) \<Rightarrow> string list option \<Rightarrow> 't \<Rightarrow> (bool \<times> 't) option" where
  "ConstructTree_file ins beyond file t = (case file of
     None \<Rightarrow> Some (False, t)
   | Some ss \<Rightarrow> do { t \<leftarrow> read_lines ins beyond 0 ss t; Some (True, t) })"

section \<open>Printing\<close>

definition octet :: "u32 \<Rightarrow> nat \<Rightarrow> nat" where
  "octet ip i = unat ip div 256 ^ i mod 256"

definition dotted :: "u32 \<Rightarrow> string" where
  "dotted ip = show_nat (octet ip 3) @ ''.'' @ show_nat (octet ip 2) @ ''.'' @ show_nat (octet ip 1) @ ''.'' @ show_nat (octet ip 0)"

definition show_leaf :: "leaf \<Rightarrow> string" where
  "show_leaf e = dotted (SubNet e) @ '' '' @ show_nat (unat (PreLen e)) @ '' '' @ show_nat (unat (Port e))"

section \<open>Reading back what was printed\<close>

lemma scan_dots_skip: "CHR ''.'' \<notin> set xs \<Longrightarrow> scan_dots i (xs @ ys) num loc = scan_dots (i + length xs) ys num loc"
  by (induction xs arbitrary: i) auto

lemma substr_at:
  "pos = length a \<Longrightarrow> n = int (length b) \<Longrightarrow> substr (a @ b @ c) pos n = Some b"
  by (simp add: substr_def)

lemma substr_rest:
  "pos = length a \<Longrightarrow> n < 0 \<or> int (length b) \<le> n \<Longrightarrow> substr (a @ b) pos n = Some b"
  by (auto simp: substr_def)

text \<open>The values of the byte behind the array for which an address in dotted decimal is read rightly, wherever its
  last dot is.\<close>

definition harmless :: "u8 \<Rightarrow> bool" where
  "harmless b \<longleftrightarrow> unat b \<le> 5 \<or> 15 \<le> unat b"

lemma octet_less [simp]: "octet ip i < 256"
  by (simp add: octet_def)

lemma octets: "octet ip 3 * 16777216 + octet ip 2 * 65536 + octet ip 1 * 256 + octet ip 0 = unat ip"
proof -
  define n where "n = unat ip"
  define p q r where "p = n div 256" and "q = p div 256" and "r = q div 256"
  have "n < 4294967296" using unat_u32 [of ip] by (simp add: n_def)
  then have "r < 256" by (simp add: r_def q_def p_def flip: div_mult2_eq)
  moreover have "octet ip 0 = n mod 256" "octet ip 1 = p mod 256" "octet ip 2 = q mod 256" "octet ip 3 = r mod 256"
    by (simp_all add: octet_def p_def q_def r_def n_def flip: div_mult2_eq)
  moreover have "n = 256 * p + n mod 256" "p = 256 * q + p mod 256" "q = 256 * r + q mod 256" by (simp_all add: p_def q_def r_def)
  ultimately show ?thesis unfolding n_def [symmetric] by simp
qed

lemma dotted_read:
  assumes "harmless b"
  shows "StrToIp b (dotted ip) = Some ip"
proof -
  define A B C D where s: "A = show_nat (octet ip 3)" "B = show_nat (octet ip 2)" "C = show_nat (octet ip 1)" "D = show_nat (octet ip 0)"
  have no: "c \<notin> set A" "c \<notin> set B" "c \<notin> set C" "c \<notin> set D" if "\<not> is_digit c" for c
    using that by (simp_all add: s show_nat_no)
  have len: "length A \<le> 3" "length B \<le> 3" "length C \<le> 3" "length D \<le> 3" "0 < length A" "0 < length B" "0 < length C" "0 < length D"
    by (simp_all add: s show_nat_length)
  have val: "atoi A = Some (int (octet ip 3))" "atoi B = Some (int (octet ip 2))" "atoi C = Some (int (octet ip 1))" "atoi D = Some (int (octet ip 0))"
    using atoi_show [of _ "[]"] less_trans [OF octet_less, of "2 ^ 31"] by (simp_all add: s no_digit_def)
  have small: "unat (of_nat n :: u8) = n" if "n < 256" for n using that by (simp add: unat_of_nat)
  define p1 p2 p3 where p: "p1 = length A" "p2 = p1 + 1 + length B" "p3 = p2 + 1 + length C"
  have u: "unat (of_nat p1 :: u8) = p1" "unat (of_nat p2 :: u8) = p2" "unat (of_nat p3 :: u8) = p3"
    by (rule small, use len in \<open>simp add: p\<close>)+
  define S where "S = A @ ''.'' @ B @ ''.'' @ C @ ''.'' @ D"
  have d: "dotted ip = S" by (simp add: dotted_def s S_def)
  have "CHR 0x00 \<notin> set S" using no [of "CHR 0x00"] by (simp add: S_def)
  then have c: "c_string S = S" unfolding c_string_def takeWhile_eq_all_conv by blast
  have scan: "scan_dots 0 S 0 [Some 0, None, None, None] = Some [Some 0, Some (of_nat p1), Some (of_nat p2), Some (of_nat p3)]"
    using no [of "CHR ''.''"] scan_dots_skip [of D _ "[]"] by (simp add: S_def scan_dots_skip p)
  have nths: "[Some 0, Some (of_nat p1), Some (of_nat p2), Some (of_nat p3)] ! 1 = Some (of_nat p1 :: u8)"
    "[Some 0, Some (of_nat p1), Some (of_nat p2), Some (of_nat p3)] ! 2 = Some (of_nat p2 :: u8)"
    "[Some 0, Some (of_nat p1), Some (of_nat p2), Some (of_nat p3)] ! 3 = Some (of_nat p3 :: u8)" by simp_all
  have sub: "substr S 0 (int p1) = Some A" "substr S (p1 + 1) (int p2 - int p1 - 1) = Some B"
    "substr S (p2 + 1) (int p3 - int p2 - 1) = Some C"
    using substr_at [of 0 "[]" "int p1" A "''.'' @ B @ ''.'' @ C @ ''.'' @ D"]
      substr_at [of "p1 + 1" "A @ ''.''" "int p2 - int p1 - 1" B "''.'' @ C @ ''.'' @ D"]
      substr_at [of "p2 + 1" "A @ ''.'' @ B @ ''.''" "int p3 - int p2 - 1" C "''.'' @ D"] by (simp_all add: S_def p)
  have "int (unat b) - int p3 - 1 < 0 \<or> int (length D) \<le> int (unat b) - int p3 - 1"
    using assms len unfolding harmless_def p by linarith
  moreover have "p3 + 1 = length (A @ ''.'' @ B @ ''.'' @ C @ ''.'')" by (simp add: p)
  ultimately have last: "substr S (p3 + 1) (int (unat b) - int p3 - 1) = Some D"
    using substr_rest [of "p3 + 1" "A @ ''.'' @ B @ ''.'' @ C @ ''.''" "int (unat b) - int p3 - 1" D] by (simp only: S_def append_assoc)
  have o: "unat (of_int (int (octet ip i)) :: u8) = octet ip i" for i using octet_less [of ip i] by (simp add: unat_of_nat)
  have "StrToIp b S = Some (fst (fold (\<lambda>i (ret, base). (ret + of_nat (unat (([of_int (int (octet ip 3)), of_int (int (octet ip 2)),
      of_int (int (octet ip 1)), of_int (int (octet ip 0))] :: u8 list) ! i)) * base, base * 256)) [3, 2, 1, 0] (0, 1)))"
    unfolding StrToIp_def c Let_def scan bind.simps nths u sub last val ..
  also have "\<dots> = Some (of_nat (octet ip 0) + of_nat (octet ip 1) * 256 + of_nat (octet ip 2) * 65536 + of_nat (octet ip 3) * 16777216)"
  proof -
    have "(of_nat (unat (of_int (int (octet ip i)) :: u8)) :: u32) = of_nat (octet ip i)" for i unfolding o ..
    then have "ucast (word_of_int (int (octet ip i)) :: u8) = (of_nat (octet ip i) :: u32)" for i by simp
    then show ?thesis by (simp del: of_int_of_nat_eq)
  qed
  also have "\<dots> = Some (of_nat (unat ip))" unfolding octets [of ip, symmetric] by simp
  finally show ?thesis by (simp add: d)
qed

lemma find_char_at: "c \<notin> set xs \<Longrightarrow> find_char c (xs @ c # ys) = Some (length xs)"
  by (induction xs) auto

lemma find_last_char_at: "c \<notin> set ys \<Longrightarrow> find_last_char c (xs @ c # ys) = Some (length xs)"
  using find_char_at [of c "rev ys" "rev xs"] by (simp add: find_last_char_def)

lemma dotted_no: "\<not> is_digit c \<Longrightarrow> c \<noteq> CHR ''.'' \<Longrightarrow> c \<notin> set (dotted ip)"
  by (auto simp: dotted_def show_nat_no)

lemma dotted_length: "length (dotted ip) \<le> 15"
  using show_nat_length [OF octet_less, of ip 3] show_nat_length [OF octet_less, of ip 2] show_nat_length [OF octet_less, of ip 1]
    show_nat_length [OF octet_less, of ip 0] by (simp add: dotted_def)

lemma parse_line_show:
  assumes "harmless b"
  shows "parse_line b (show_leaf e) = Some e"
proof -
  define D N P where s: "D = dotted (SubNet e)" "N = show_nat (unat (PreLen e))" "P = show_nat (unat (Port e))"
  have small: "unat (x :: u8) < 256" for x using unsigned_less [of x] by simp
  have len: "length D \<le> 15" "length N \<le> 3" by (simp_all add: s dotted_length show_nat_length small)
  have no: "CHR '' '' \<notin> set D" "CHR '' '' \<notin> set P" by (simp_all add: s dotted_no show_nat_no)
  have S: "show_leaf e = D @ '' '' @ N @ '' '' @ P" by (simp add: show_leaf_def s)
  have fb: "pos16 (find_char CHR '' '' (show_leaf e)) = length D"
    using find_char_at [OF no(1), of "N @ '' '' @ P"] len by (simp add: S pos16_def)
  have lb: "pos16 (find_last_char CHR '' '' (show_leaf e)) = length D + 1 + length N"
    using find_last_char_at [OF no(2), of "D @ '' '' @ N"] len by (simp add: S pos16_def)
  have t1: "substr (show_leaf e) 0 (int (length D)) = Some D" using substr_at [of 0 "[]" "int (length D)" D "'' '' @ N @ '' '' @ P"] by (simp add: S)
  have t2: "substr (show_leaf e) (length D + 1) (int (length D + 1 + length N)) = Some (N @ '' '' @ take (length D) P)"
    by (simp add: S substr_def nat_add_distrib)
  have t3: "substr (show_leaf e) (length D + 1 + length N + 1) (- 1) = Some P"
    using substr_rest [of "length D + 1 + length N + 1" "D @ '' '' @ N @ '' ''" "- 1" P] by (simp add: S)
  have a: "atoi (show_nat (unat x) @ r) = Some (int (unat x))" if "no_digit r" for x :: u8 and r
    by (rule atoi_show [OF _ that]) (rule less_trans [OF small], simp)
  have a2: "atoi (N @ '' '' @ take (length D) P) = Some (int (unat (PreLen e)))" unfolding s(2) by (rule a) (simp add: no_digit_def)
  have a3: "atoi P = Some (int (unat (Port e)))" using a [of "[]" "Port e"] by (simp add: s no_digit_def)
  have "StrToIp b D = Some (SubNet e)" unfolding s by (rule dotted_read [OF assms])
  then show ?thesis
    unfolding parse_line_def Let_def fb lb t1 t2 t3 bind.simps a2 a3 by simp
qed

lemma read_lines_show: "(\<And>k. harmless (b k)) \<Longrightarrow> read_lines ins b k (map show_leaf es) t = Some (fold ins es t)"
  by (induction es arbitrary: k t) (simp_all add: parse_line_show)

section \<open>The main function\<close>

text \<open>The addresses are read by \<^verbatim>\<open>StrToIp\<close> too.\<close>

fun read_ips :: "(nat \<Rightarrow> u8) \<Rightarrow> nat \<Rightarrow> string list \<Rightarrow> u32 list option" where
  "read_ips beyond k [] = Some []"
| "read_ips beyond k (s # ss) = do {
     ip \<leftarrow> StrToIp (beyond k) s;
     ips \<leftarrow> read_ips beyond (k + 1) ss;
     Some (ip # ips) }"

lemma read_ips_dotted: "(\<And>k. harmless (b k)) \<Longrightarrow> read_ips b k (map dotted ips) = Some ips"
  by (induction ips arbitrary: k) (simp_all add: dotted_read)

text \<open>C32. The lookup program does its work on printed tables: for every non-empty table of prefixes of 1 to 31 bits, none a prefix of
  another, written out as the lines of the file, and every list of addresses in dotted decimal - as long as the byte that
  \<^verbatim>\<open>StrToIp\<close> reads behind its array is at most 5 or at least 15 - both trees are built from the file (the
  double-bit tree twice), the leaf push returns, hanging shared nodes into the tree, the compression accepts
  its result, and the answers of the three structures are the entry of the table that matches, so that no failure
  is counted.\<close>

theorem lookup_main_passes:
  assumes "prefix_free es" "\<forall>e \<in> set es. PreLen e \<noteq> 0" "es \<noteq> []" and b: "\<And>i k. harmless (b i k)"
  shows "\<exists>t0 t1 t2 h t. ConstructTree_file MulPTree_Insert (b 0) (Some (map show_leaf es)) mempty = Some (True, t0)
     \<and> ConstructTree_file MulPTree_Insert (b 1) (Some (map show_leaf es)) t0 = Some (True, t1)
     \<and> ConstructTree_file PTree_Insert (b 2) (Some (map show_leaf es)) pempty = Some (True, t2)
     \<and> MleafPush (Built []) (New 0) (heap_of t1) = Some h \<and> holds h (Built []) t \<and> fst (ConstructCVTree t)
     \<and> (\<forall>ip. MulPTree_Search ip t = Some (lookup_result es ip))
     \<and> Option.bind (read_ips (b 3) 0 (map dotted ips)) (\<lambda>ips. count_failures t2 t (snd (ConstructCVTree t)) ips 0) = Some 0"
proof -
  have built: "ConstructTree_file ins (b i) (Some (map show_leaf es)) u = Some (True, fold ins es u)" for ins i and u :: 't
    by (simp add: ConstructTree_file_def read_lines_show [of "b i", OF b])
  show ?thesis
    using lookup_test_passes [OF assms(1-3), of ips]
    unfolding built read_ips_dotted [of "b 3", OF b] MulPTree_ConstructTree_def PTree_ConstructTree_def by auto
qed

theorem lookup_main_passes_witness:
  "\<exists>t0 t1 t2 h t. ConstructTree_file MulPTree_Insert (\<lambda>_. 0) (Some (map show_leaf table0)) mempty = Some (True, t0)
     \<and> ConstructTree_file MulPTree_Insert (\<lambda>_. 0) (Some (map show_leaf table0)) t0 = Some (True, t1)
     \<and> ConstructTree_file PTree_Insert (\<lambda>_. 0) (Some (map show_leaf table0)) pempty = Some (True, t2)
     \<and> MleafPush (Built []) (New 0) (heap_of t1) = Some h \<and> holds h (Built []) t
     \<and> MulPTree_Search 0xC0A80105 t = Some \<lparr>SubNet = 0xC0A80000, PreLen = 16, Port = 2\<rparr>
     \<and> Option.bind (read_ips (\<lambda>_. 0) 0 (map dotted [0xC0A80105, 0x0B000001])) (\<lambda>ips. count_failures t2 t (snd (ConstructCVTree t)) ips 0) = Some 0"
proof -
  have "prefix_free table0" by (simp add: prefix_free_def table0_def leaf_match_def drop_bit_eq_div)
  moreover have "\<forall>e \<in> set table0. PreLen e \<noteq> 0" "table0 \<noteq> []" by (simp_all add: table0_def)
  moreover have "lookup_result table0 0xC0A80105 = \<lparr>SubNet = 0xC0A80000, PreLen = 16, Port = 2\<rparr>"
    by (simp add: lookup_result_def table0_def leaf_match_def drop_bit_eq_div)
  moreover have "harmless 0" by (simp add: harmless_def)
  ultimately show ?thesis using lookup_main_passes [of table0 "\<lambda>_ _. 0" "[0xC0A80105, 0x0B000001]"] by metis
qed

text \<open>With other values of that byte the last number is cut off.\<close>

lemma StrToIp_cut: "StrToIp 8 ''10.0.0.17'' = Some 0x0A000001"
  by (simp add: StrToIp_def c_string_def substr_def atoi_def is_digit_def is_space_def Let_def)

section \<open>Freeing a tree\<close>

text \<open>\<^verbatim>\<open>DestructTree\<close> of the trees with \<open>n\<close> children, from the child \<open>i\<close> on. Freeing a node a second time, or looking into
  a freed one, is \<open>None\<close>.\<close>

partial_function (option) DestructTree :: "nat \<Rightarrow> nat \<Rightarrow> mptr \<Rightarrow> mheap \<Rightarrow> mheap option" where
  "DestructTree n i a h = do {
     x \<leftarrow> node_ref a h;
     if i < n then do {
       h \<leftarrow> (case m_child x ! i of None \<Rightarrow> Some h | Some c \<Rightarrow> DestructTree n 0 c h);
       DestructTree n (i + 1) a h }
     else Some (h\<lparr>m_nodes := (m_nodes h)(a := None)\<rparr>) }"

declare DestructTree.simps [code]

definition PTree_DestructTree :: "mptr \<Rightarrow> mheap \<Rightarrow> mheap option" where
  "PTree_DestructTree a h = DestructTree 2 0 a h"

definition MulPTree_DestructTree :: "mptr \<Rightarrow> mheap \<Rightarrow> mheap option" where
  "MulPTree_DestructTree a h = DestructTree 4 0 a h"

definition arity :: "nat \<Rightarrow> mtree \<Rightarrow> bool" where
  "arity n t \<longleftrightarrow> (\<forall>q u. subtree t q = Some u \<longrightarrow> length (mchild u) = n)"

lemma arity_child: "arity n (MNode v cs) \<Longrightarrow> i < length cs \<Longrightarrow> cs ! i = Some u \<Longrightarrow> arity n u"
  unfolding arity_def by (metis subtree_child)

text \<open>The nodes of the children from \<open>i\<close> on, of a tree at \<open>p\<close>.\<close>

definition nodes_from :: "nat list \<Rightarrow> mtree option list \<Rightarrow> nat \<Rightarrow> mptr set" where
  "nodes_from p cs i = {Built (p @ j # q) | j q. i \<le> j \<and> at_opt (Some (MNode leaf0 cs)) (j # q) \<noteq> None}"

lemma DestructTree_ok:
  assumes "owned h p t" "arity n t"
  shows "\<exists>h'. DestructTree n 0 (Built p) h = Some h'
    \<and> (\<forall>a. m_nodes h' a = (if \<exists>q. a = Built (p @ q) \<and> subtree t q \<noteq> None then None else m_nodes h a))"
  using assms
proof (induction t arbitrary: p h)
  case (MNode v cs)
  have len: "length cs = n" using MNode.prems(2) by (auto simp: arity_def dest: spec [of _ "[]"])
  have at: "at_opt (Some (MNode leaf0 cs)) (j # q) \<noteq> None \<longleftrightarrow> (j < n \<and> (\<exists>u. cs ! j = Some u \<and> subtree u q \<noteq> None))" for j q
    using len by (cases "cs ! j") (auto simp: at_opt_def)
  have loop: "\<exists>h''. DestructTree n i (Built p) h' = Some h'' \<and> (\<forall>a. m_nodes h'' a =
      (if a = Built p \<or> a \<in> nodes_from p cs i then None else m_nodes h' a))"
    if "m_nodes h' (Built p) = Some (built_node p (MNode v cs))"
      "\<And>j q. i \<le> j \<Longrightarrow> m_nodes h' (Built (p @ j # q)) = m_nodes h (Built (p @ j # q))" for i h'
    using that
  proof (induction "n - i" arbitrary: i h')
    case 0
    then have "nodes_from p cs i = {}" using at by (fastforce simp: nodes_from_def)
    then show ?case using 0 by (subst DestructTree.simps) (simp add: node_ref_def)
  next
    case (Suc k)
    then have i: "i < n" by simp
    have kid: "m_child (built_node p (MNode v cs)) ! i = map_option (\<lambda>_. Built (p @ [i])) (cs ! i)" using i len by (simp add: built_node_def)
    have "\<exists>h1. (case m_child (built_node p (MNode v cs)) ! i of None \<Rightarrow> Some h' | Some c \<Rightarrow> DestructTree n 0 c h') = Some h1
       \<and> (\<forall>a. m_nodes h1 a = (if \<exists>q. a = Built (p @ i # q) \<and> at_opt (Some (MNode leaf0 cs)) (i # q) \<noteq> None then None else m_nodes h' a))"
    proof (cases "cs ! i")
      case None
      then show ?thesis using kid at by simp
    next
      case (Some u)
      have "owned h (p @ [i]) u" using owned_child [OF MNode.prems(1)] i len Some by simp
      then have "owned h' (p @ [i]) u" by (rule owned_frame) (use Suc.prems(2) in simp)
      moreover have "arity n u" using arity_child [OF MNode.prems(2)] i len Some by simp
      ultimately obtain h1 where "DestructTree n 0 (Built (p @ [i])) h' = Some h1"
        "\<forall>a. m_nodes h1 a = (if \<exists>q. a = Built ((p @ [i]) @ q) \<and> subtree u q \<noteq> None then None else m_nodes h' a)"
        using MNode.IH [of "Some u" u] i len Some by (metis nth_mem option.set_intros)
      then show ?thesis using kid Some i at by (intro exI [of _ h1]) auto
    qed
    then obtain h1 where h1: "(case m_child (built_node p (MNode v cs)) ! i of None \<Rightarrow> Some h' | Some c \<Rightarrow> DestructTree n 0 c h') = Some h1"
       "\<And>a. m_nodes h1 a = (if \<exists>q. a = Built (p @ i # q) \<and> at_opt (Some (MNode leaf0 cs)) (i # q) \<noteq> None then None else m_nodes h' a)" by blast
    have "\<exists>h''. DestructTree n (Suc i) (Built p) h1 = Some h'' \<and> (\<forall>a. m_nodes h'' a =
      (if a = Built p \<or> a \<in> nodes_from p cs (Suc i) then None else m_nodes h1 a))"
      by (rule Suc.hyps(1)) (use Suc h1(2) in auto)
    then obtain h'' where h'': "DestructTree n (Suc i) (Built p) h1 = Some h''"
      "\<And>a. m_nodes h'' a = (if a = Built p \<or> a \<in> nodes_from p cs (Suc i) then None else m_nodes h1 a)" by blast
    have le: "i \<le> j \<longleftrightarrow> j = i \<or> Suc i \<le> j" for j by auto
    have "nodes_from p cs i = nodes_from p cs (Suc i) \<union> {Built (p @ i # q) | q. at_opt (Some (MNode leaf0 cs)) (i # q) \<noteq> None}"
      unfolding nodes_from_def le by blast
    then have "\<forall>a. m_nodes h'' a = (if a = Built p \<or> a \<in> nodes_from p cs i then None else m_nodes h' a)"
      unfolding h''(2) h1(2) by auto
    then show ?case using i h1(1) h''(1) Suc.prems(1) by (subst DestructTree.simps) (simp add: node_ref_def)
  qed
  have "m_nodes h (Built p) = Some (built_node p (MNode v cs))" using MNode.prems(1) unfolding owned_def by (metis append_Nil2 subtree.simps(1))
  from loop [OF this, of 0] obtain h' where h': "DestructTree n 0 (Built p) h = Some h'"
    "\<And>a. m_nodes h' a = (if a = Built p \<or> a \<in> nodes_from p cs 0 then None else m_nodes h a)" by auto
  have "a = Built p \<or> a \<in> nodes_from p cs 0 \<longleftrightarrow> (\<exists>q. a = Built (p @ q) \<and> subtree (MNode v cs) q \<noteq> None)" for a
  proof -
    have eq: "subtree (MNode v cs) (j # q) \<noteq> None \<longleftrightarrow> at_opt (Some (MNode leaf0 cs)) (j # q) \<noteq> None" for j q
      unfolding at using len by (auto split: option.split)
    have n: "a \<in> nodes_from p cs 0 \<longleftrightarrow> (\<exists>j q. a = Built (p @ j # q) \<and> subtree (MNode v cs) (j # q) \<noteq> None)"
      unfolding nodes_from_def eq by simp
    have "(\<exists>q. P q) \<longleftrightarrow> P [] \<or> (\<exists>j q. P (j # q))" for P :: "nat list \<Rightarrow> bool" by (metis neq_Nil_conv)
    from this [of "\<lambda>q. a = Built (p @ q) \<and> subtree (MNode v cs) q \<noteq> None"]
    show ?thesis unfolding n by simp
  qed
  then show ?case using h' by auto
qed

text \<open>The single-bit tree on the heap.\<close>

fun mtree_of :: "ptree \<Rightarrow> mtree" where
  "mtree_of (PNode v l r) = MNode v [map_option mtree_of l, map_option mtree_of r]"

lemma mtree_of_arity: "arity 2 (mtree_of t)"
proof (induction t)
  case (PNode v l r)
  have node: "arity 2 (MNode v [a, b])" if "\<And>u. a = Some u \<Longrightarrow> arity 2 u" "\<And>u. b = Some u \<Longrightarrow> arity 2 u" for a b
    unfolding arity_def subtree_cases
  proof (intro allI impI)
    fix q u assume "q = [] \<and> u = MNode v [a, b] \<or> (\<exists>i ra c. q = i # ra \<and> i < length [a, b] \<and> [a, b] ! i = Some c \<and> subtree c ra = Some u)"
    then show "length (mchild u) = 2" using that by (auto simp: arity_def less_Suc_eq)
  qed
  show ?case unfolding mtree_of.simps by (rule node) (use PNode in auto)
qed

text \<open>C33. The single-bit tree is freed completely and only once: from every tree on the heap, \<^verbatim>\<open>DestructTree\<close> at its
  root returns without touching a freed node, and afterwards no node of the tree is left, while the rest of
  the heap is as before.\<close>

theorem DestructTree_frees_all:
  "\<exists>h. PTree_DestructTree (Built []) (heap_of (mtree_of t)) = Some h
     \<and> (\<forall>p. m_nodes h (Built p) = None) \<and> (\<forall>k. m_nodes h (New k) = m_nodes (heap_of (mtree_of t)) (New k))"
proof -
  obtain h where "DestructTree 2 0 (Built []) (heap_of (mtree_of t)) = Some h"
    "\<And>a. m_nodes h a = (if \<exists>q. a = Built ([] @ q) \<and> subtree (mtree_of t) q \<noteq> None then None else m_nodes (heap_of (mtree_of t)) a)"
    using DestructTree_ok [OF owned_heap_of mtree_of_arity] by blast
  then show ?thesis by (intro exI [of _ h]) (simp add: PTree_DestructTree_def heap_of_def)
qed

text \<open>After a leaf push the double-bit tree could not be freed: its shared leaves would be freed twice. The call is
  commented out in the main function.\<close>

lemma pushed_tree_freed_twice:
  "Option.bind (MleafPush (Built []) (New 0) (heap_of (mtable [\<lparr>SubNet = 0x40000000, PreLen = 2, Port = 1\<rparr>])))
     (MulPTree_DestructTree (Built [])) = None"
  by code_simp

end
