(* ===== verification/LetterCount.thy ===== *)
theory LetterCount
  imports Prelude
begin

text \<open>
  The letter count of lab \<^verbatim>\<open>03-socket\<close>: a master (\<^verbatim>\<open>master.c\<close>) splits a text file between two workers
  (\<^verbatim>\<open>worker.c\<close>), each counts the letters of its half, and the master adds the two results. The
  sockets carry one message each way and are the function argument of the master: a worker is a
  function from the message sent to it to the bytes received back, and \<open>recv\<close> and \<open>send\<close> move a whole
  message. Files are a map from names to contents. \<open>None\<close> is undefined behaviour, \<open>Inl\<close> an exit code.
\<close>

section \<open>Files\<close>

text \<open>\<^verbatim>\<open>fgets(buf, n, fp)\<close>: at most \<open>n - 1\<close> bytes, up to and including a newline; nothing left to read is the
  null pointer. The result is what was read and what is left.\<close>

fun fgets_loop :: "nat \<Rightarrow> bytes \<Rightarrow> bytes \<times> bytes" where
  "fgets_loop 0 bs = ([], bs)"
| "fgets_loop (Suc n) [] = ([], [])"
| "fgets_loop (Suc n) (b # bs) =
     (if b = 10 then ([b], bs) else (let (line, rest) = fgets_loop n bs in (b # line, rest)))"

definition fgets :: "nat \<Rightarrow> bytes \<Rightarrow> (bytes \<times> bytes) option" where
  "fgets n bs = (if bs = [] then None else Some (fgets_loop (n - 1) bs))"

text \<open>A C string in a buffer: the bytes before the first zero.\<close>

definition c_string :: "bytes \<Rightarrow> bytes option" where
  "c_string buf = (if 0 \<in> set buf then Some (takeWhile (\<lambda>b. b \<noteq> 0) buf) else None)"

type_synonym files = "bytes \<Rightarrow> bytes option"

section \<open>The worker\<close>

text \<open>A byte in a \<^verbatim>\<open>char\<close> is signed. The two tests follow each other, as in the code.\<close>

definition count_letter :: "u8 \<Rightarrow> int list \<Rightarrow> int list" where
  "count_letter b c =
     (let ac = sint b;
          c = (if 97 \<le> ac \<and> ac \<le> 122 then c[nat (ac - 97) := c ! nat (ac - 97) + 1] else c)
      in if 65 \<le> ac \<and> ac \<le> 90 then c[nat (ac - 65) := c ! nat (ac - 65) + 1] else c)"

text \<open>The loop over at most \<open>n\<close> bytes. The result of \<^verbatim>\<open>fgetc\<close> is stored in a \<^verbatim>\<open>char\<close> before it is compared
  with \<^verbatim>\<open>EOF\<close>, which is -1.\<close>

fun worker_loop :: "bytes \<Rightarrow> int \<Rightarrow> int list \<Rightarrow> int list" where
  "worker_loop [] n c = c"
| "worker_loop (b # bs) n c =
     (if n \<le> 0 then c else if sint b = -1 then c else worker_loop bs (n - 1) (count_letter b c))"

definition int_at :: "bytes \<Rightarrow> nat \<Rightarrow> int" where
  "int_at m i = sint (get32 m (4 * i))"

definition put_int :: "int \<Rightarrow> bytes" where
  "put_int n = put32 (of_int n)"

text \<open>The worker's answer to a received message. The message lies in a buffer of 100 bytes, the file name
  is copied out of 18 of them; seeking to a negative position fails and leaves the file at its start.\<close>

definition worker_main :: "files \<Rightarrow> bytes \<Rightarrow> (int + bytes) option" where
  "worker_main fs msg = do {
     ensure (length msg \<le> 100);
     if msg = [] then Some (Inl 1)
     else do {
       ensure (30 \<le> length msg);
       let begin = int_at msg 1;
       let stop = int_at msg 2;
       name \<leftarrow> c_string (take 18 (drop 12 msg));
       (case fs name of
          None \<Rightarrow> Some (Inl 1)
        | Some file \<Rightarrow> do {
            let rest = (if begin < 0 then file else drop (nat begin) file);
            ensure (stop - begin < 2 ^ 31 \<and> - (2 ^ 31) \<le> stop - begin);
            let counts = worker_loop rest (stop - begin) (replicate 26 0);
            Some (Inr (concat (map put_int counts))) }) } }"

section \<open>The master\<close>

definition loc :: bytes where
  "loc = map (\<lambda>c. of_char c) ''war_and_peace.txt'' @ [0]"

definition master_message :: "int \<Rightarrow> int \<Rightarrow> bytes" where
  "master_message begin stop = put_int 30 @ put_int begin @ put_int stop @ loc"

fun count_bytes :: "bytes \<Rightarrow> int \<Rightarrow> int option" where
  "count_bytes [] n = Some n"
| "count_bytes (b # bs) n = do { ensure (n + 1 < 2 ^ 31); count_bytes bs (n + 1) }"

text \<open>The addresses of the workers: \<^verbatim>\<open>bufferSize\<close> is 10.\<close>

definition read_conf :: "bytes \<Rightarrow> (bytes \<times> bytes) option" where
  "read_conf conf = do {
     (ip1, rest) \<leftarrow> fgets 10 conf;
     (ip2, rest) \<leftarrow> fgets 10 rest;
     Some (ip1, ip2) }"

definition conf_name :: bytes where "conf_name = map (\<lambda>c. of_char c) ''./workers.conf''"
definition text_name :: bytes where "text_name = map (\<lambda>c. of_char c) ''./war_and_peace.txt''"

text \<open>\<open>connect ip\<close> is the worker at that address, if the connection is made; \<open>None\<close> from a worker that \<open>recv\<close>
  fails. The answers are read as arrays of 26 integers.\<close>

definition master_main :: "files \<Rightarrow> (bytes \<Rightarrow> (bytes \<Rightarrow> bytes option) option) \<Rightarrow> (int + int list) option" where
  "master_main fs connect =
     (case fs conf_name of None \<Rightarrow> Some (Inl 1) | Some conf \<Rightarrow>
      case read_conf conf of None \<Rightarrow> Some (Inl 0) | Some (ip1, ip2) \<Rightarrow>
      case connect ip1 of None \<Rightarrow> Some (Inl 1) | Some worker1 \<Rightarrow>
      case connect ip2 of None \<Rightarrow> Some (Inl 1) | Some worker2 \<Rightarrow>
      case fs text_name of None \<Rightarrow> Some (Inl 1) | Some text \<Rightarrow> do {
        numOfChar \<leftarrow> count_bytes text 0;
        let middle = numOfChar div 2;
        (case worker1 (master_message 0 middle) of None \<Rightarrow> Some (Inl 1) | Some recv_msg1 \<Rightarrow>
         case worker2 (master_message middle numOfChar) of None \<Rightarrow> Some (Inl 1) | Some recv_msg2 \<Rightarrow> do {
           ensure (length recv_msg1 = 104 \<and> length recv_msg2 = 104);
           Some (Inr (map (\<lambda>i. int_at recv_msg1 i + int_at recv_msg2 i) [0..<26])) }) })"

section \<open>The reference: how often each letter occurs\<close>

definition is_letter :: "nat \<Rightarrow> u8 \<Rightarrow> bool" where
  "is_letter i b \<longleftrightarrow> unat b = 97 + i \<or> unat b = 65 + i"

definition letters :: "nat \<Rightarrow> bytes \<Rightarrow> nat" where
  "letters i bs = length (filter (is_letter i) bs)"

lemma letters_append: "letters i (xs @ ys) = letters i xs + letters i ys"
  by (simp add: letters_def)

lemma letters_le: "letters i bs \<le> length bs"
  by (simp add: letters_def)

lemma sint_u8: "sint (b :: u8) = (if uint b < 128 then uint b else uint b - 256)"
proof -
  have r: "0 \<le> uint b" "uint b < 256" using unsigned_less [of b, where ?'a = int] by simp_all
  have s: "sint b = (uint b + 128) mod 256 - 128"
    by (simp add: sint_uint signed_take_bit_eq_take_bit_shift take_bit_eq_mod)
  show ?thesis
  proof (cases "uint b < 128")
    case True
    then have "(uint b + 128) mod 256 = uint b + 128" using r by (intro mod_pos_pos_trivial) auto
    then show ?thesis using True s by simp
  next
    case False
    have "(uint b + 128) mod 256 = (uint b - 128 + 256) mod 256" by (simp add: algebra_simps)
    also have "\<dots> = (uint b - 128) mod 256" by (rule mod_add_self2)
    also have "\<dots> = uint b - 128" using r False by (intro mod_pos_pos_trivial) auto
    finally show ?thesis using False s by simp
  qed
qed

lemma sint_eof: "sint (b :: u8) = - 1 \<longleftrightarrow> b = 255"
proof -
  have r: "0 \<le> uint b" "uint b < 256" using unsigned_less [of b, where ?'a = int] by simp_all
  have "b = 255 \<longleftrightarrow> uint b = 255" using word_uint_eq_iff [of b 255] by simp
  moreover have "uint b \<noteq> - 1" using r(1) by linarith
  ultimately show ?thesis using r(2) by (auto simp: sint_u8)
qed

lemma count_letter_spec:
  assumes "length c = 26"
  shows "length (count_letter b c) = 26"
    and "i < 26 \<Longrightarrow> count_letter b c ! i = c ! i + (if is_letter i b then 1 else 0)"
proof -
  show "length (count_letter b c) = 26" using assms by (simp add: count_letter_def Let_def)
  show "count_letter b c ! i = c ! i + (if is_letter i b then 1 else 0)" if "i < 26"
  proof -
    define n where "n = unat b"
    have s: "sint b = (if n < 128 then int n else int n - 256)" "n < 256"
      using unat_u8 [of b] by (simp_all add: sint_u8 n_def nat_less_iff unat_eq_nat_uint del: nat_uint_eq)
    have l: "is_letter i b \<longleftrightarrow> n = 97 + i \<or> n = 65 + i" by (simp add: is_letter_def n_def)
    consider "97 \<le> n" "n \<le> 122" | "65 \<le> n" "n \<le> 90" | "\<not> (97 \<le> n \<and> n \<le> 122)" "\<not> (65 \<le> n \<and> n \<le> 90)"
      by blast
    then show ?thesis
    proof cases
      case 1
      then have e: "sint b = 97 + int (n - 97)" "n - 97 < 26" by (auto simp: s)
      have "count_letter b c = c[n - 97 := c ! (n - 97) + 1]"
        using e by (simp add: count_letter_def)
      moreover have "is_letter i b \<longleftrightarrow> n - 97 = i" using 1 that l by auto
      ultimately show ?thesis using assms e(2) by (auto simp: nth_list_update)
    next
      case 2
      then have e: "sint b = 65 + int (n - 65)" "n - 65 < 26" by (auto simp: s)
      have "count_letter b c = c[n - 65 := c ! (n - 65) + 1]"
        using e by (simp add: count_letter_def)
      moreover have "is_letter i b \<longleftrightarrow> n - 65 = i" using 2 that l by auto
      ultimately show ?thesis using assms e(2) by (auto simp: nth_list_update)
    next
      case 3
      then have "\<not> (97 \<le> sint b \<and> sint b \<le> 122)" "\<not> (65 \<le> sint b \<and> sint b \<le> 90)"
        using s by auto
      moreover have "\<not> is_letter i b" using 3 that l by auto
      ultimately show ?thesis by (auto simp: count_letter_def)
    qed
  qed
qed

lemma worker_loop_spec:
  assumes "length c = 26" "255 \<notin> set (take (nat n) bs)"
  shows "length (worker_loop bs n c) = 26"
    and "i < 26 \<Longrightarrow> worker_loop bs n c ! i = c ! i + int (letters i (take (nat n) bs))"
proof -
  have "length (worker_loop bs n c) = 26 \<and> (i < 26 \<longrightarrow> worker_loop bs n c ! i = c ! i + int (letters i (take (nat n) bs)))"
    using assms
  proof (induction bs n c rule: worker_loop.induct)
    case (2 b bs n c)
    show ?case
    proof (cases "n \<le> 0")
      case False
      then have n: "nat n = Suc (nat (n - 1))" by simp
      then have "sint b \<noteq> - 1" using 2(3) by (auto simp: sint_eof)
      then show ?thesis
        using 2 False n count_letter_spec [OF 2(2)] by (auto simp: letters_def)
    qed (use 2 in \<open>simp add: letters_def\<close>)
  qed (simp add: letters_def)
  then show "length (worker_loop bs n c) = 26"
    and "i < 26 \<Longrightarrow> worker_loop bs n c ! i = c ! i + int (letters i (take (nat n) bs))" by auto
qed

section \<open>Messages\<close>

lemma length_put_int [simp]: "length (put_int n) = 4"
  by (simp add: put_int_def put32_def)

lemma get32_append: "length xs = off \<Longrightarrow> get32 (xs @ put32 w @ ys) off = w"
  by (simp add: get32_def put32_def nth_append struct_defs byte_simps)

lemma sint_of_int_u32: "- (2 ^ 31) \<le> n \<Longrightarrow> n < 2 ^ 31 \<Longrightarrow> sint (of_int n :: u32) = n"
  by (simp add: sint_uint unsigned_of_int signed_take_bit_take_bit signed_take_bit_int_eq_self)

lemma length_concat_put_int: "length (concat (map put_int cs)) = 4 * length cs"
  by (induction cs) simp_all

lemma int_at_concat:
  assumes "i < length cs" "- (2 ^ 31) \<le> cs ! i" "cs ! i < 2 ^ 31"
  shows "int_at (concat (map put_int cs)) i = cs ! i"
proof -
  have "concat (map put_int cs) = concat (map put_int (take i cs)) @ put32 (of_int (cs ! i)) @ concat (map put_int (drop (Suc i) cs))"
    using assms(1) by (metis concat.simps(2) concat_append id_take_nth_drop list.simps(9) map_append put_int_def)
  then have "get32 (concat (map put_int cs)) (4 * i) = of_int (cs ! i)"
    using assms(1) by (simp add: get32_append length_concat_put_int)
  then show ?thesis using sint_of_int_u32 [OF assms(2,3)] by (simp add: int_at_def)
qed

lemma int_at_split:
  assumes "length xs = 4 * i" "- (2 ^ 31) \<le> n" "n < 2 ^ 31"
  shows "int_at (xs @ put_int n @ ys) i = n"
  using get32_append [OF assms(1)] sint_of_int_u32 [OF assms(2,3)] by (simp add: int_at_def put_int_def)

section \<open>The workers as the master sees them\<close>

text \<open>The contract: asked for a range of the text, a worker answers with the 26 numbers of the letters in
  that range. The range given to the other worker continues it.\<close>

locale letter_worker =
  fixes worker :: "files \<Rightarrow> bytes \<Rightarrow> bytes option"
    and good :: "bytes \<Rightarrow> bool"
  assumes answers: "fs (butlast loc) = Some content \<Longrightarrow> good content \<Longrightarrow> 0 \<le> a \<Longrightarrow> a \<le> z \<Longrightarrow> z \<le> int (length content) \<Longrightarrow>
      length content < 2 ^ 31 \<Longrightarrow>
      \<exists>r. worker fs (master_message a z) = Some r \<and> length r = 104 \<and>
        (\<forall>i < 26. int_at r i = int (letters i (take (nat (z - a)) (drop (nat a) content))))"
begin

lemma halves_add:
  assumes "fs1 (butlast loc) = Some content" "fs2 (butlast loc) = Some content" "good content" "length content < 2 ^ 31"
  obtains r1 r2 where "worker fs1 (master_message 0 (int (length content) div 2)) = Some r1"
    "worker fs2 (master_message (int (length content) div 2) (int (length content))) = Some r2"
    "length r1 = 104" "length r2 = 104"
    "\<And>i. i < 26 \<Longrightarrow> int_at r1 i + int_at r2 i = int (letters i content)"
proof -
  let ?n = "int (length content)"
  let ?m = "length content div 2"
  have half: "0 \<le> ?n div 2" "?n div 2 \<le> ?n" by linarith+
  have m: "nat (?n div 2 - 0) = ?m" "nat (?n - ?n div 2) = length content - ?m" "nat (?n div 2) = ?m" "nat 0 = 0"
    by (simp_all add: nat_div_distrib nat_diff_distrib)
  obtain r1 where r1: "worker fs1 (master_message 0 (?n div 2)) = Some r1" "length r1 = 104"
    "\<And>i. i < 26 \<Longrightarrow> int_at r1 i = int (letters i (take ?m content))"
    using answers [where fs = fs1, OF assms(1,3), of 0 "?n div 2"] half assms(4) unfolding m by auto
  obtain r2 where r2: "worker fs2 (master_message (?n div 2) ?n) = Some r2" "length r2 = 104"
    "\<And>i. i < 26 \<Longrightarrow> int_at r2 i = int (letters i (take (length content - ?m) (drop ?m content)))"
    using answers [where fs = fs2, OF assms(2,3), of "?n div 2" ?n] half assms(4) unfolding m by auto
  have "letters i (take ?m content) + letters i (take (length content - ?m) (drop ?m content)) = letters i content" for i
    using letters_append [of i "take ?m content" "drop ?m content"] by simp
  then have "int_at r1 i + int_at r2 i = int (letters i content)" if "i < 26" for i
    using r1(3) r2(3) that by (metis of_nat_add)
  then show ?thesis using that r1 r2 by blast
qed

end

definition worker_answer :: "files \<Rightarrow> bytes \<Rightarrow> bytes option" where
  "worker_answer fs msg = (case worker_main fs msg of Some (Inr r) \<Rightarrow> Some r | _ \<Rightarrow> None)"

lemma loc_facts: "length loc = 18" "c_string loc = Some (butlast loc)"
  by (simp_all add: loc_def c_string_def)

lemma master_message_fields:
  assumes "0 \<le> a" "a < 2 ^ 31" "0 \<le> z" "z < 2 ^ 31"
  shows "length (master_message a z) = 30" "int_at (master_message a z) 1 = a" "int_at (master_message a z) 2 = z"
    "take 18 (drop 12 (master_message a z)) = loc"
proof -
  show "length (master_message a z) = 30" "take 18 (drop 12 (master_message a z)) = loc"
    by (simp_all add: master_message_def loc_facts)
  show "int_at (master_message a z) 1 = a" "int_at (master_message a z) 2 = z"
    using assms int_at_split [of "put_int 30" 1 a "put_int z @ loc"] int_at_split [of "put_int 30 @ put_int a" 2 z loc]
    by (simp_all add: master_message_def)
qed

interpretation text_worker: letter_worker worker_answer "\<lambda>content. 255 \<notin> set content"
proof
  fix fs :: files and content a z
  assume fs: "fs (butlast loc) = Some content" and good: "255 \<notin> set content"
    and range: "0 \<le> a" "a \<le> z" "z \<le> int (length content)" "length content < 2 ^ 31"
  let ?rest = "drop (nat a) content"
  define counts where "counts = worker_loop ?rest (z - a) (replicate 26 0)"
  have "255 \<notin> set (take (nat (z - a)) ?rest)"
    using good by (meson in_set_dropD in_set_takeD)
  then have c: "length counts = 26" "\<And>i. i < 26 \<Longrightarrow> counts ! i = int (letters i (take (nat (z - a)) ?rest))"
    using worker_loop_spec [of "replicate 26 0" "z - a" ?rest] by (simp_all add: counts_def)
  have small: "counts ! i < 2 ^ 31 \<and> - (2 ^ 31) \<le> counts ! i" if "i < 26" for i
    using c(2) [OF that] letters_le [of i "take (nat (z - a)) ?rest"] range(4) by (simp; linarith)
  note f = master_message_fields [of a z]
  have "worker_main fs (master_message a z) = Some (Inr (concat (map put_int counts)))"
    using f loc_facts fs range by (auto simp: worker_main_def counts_def Let_def)
  then have "worker_answer fs (master_message a z) = Some (concat (map put_int counts))"
    by (simp add: worker_answer_def)
  then show "\<exists>r. worker_answer fs (master_message a z) = Some r \<and> length r = 104 \<and>
        (\<forall>i < 26. int_at r i = int (letters i (take (nat (z - a)) ?rest)))"
    using c small by (simp add: length_concat_put_int int_at_concat)
qed

section \<open>The whole count\<close>

lemma count_bytes_ok:
  "0 \<le> n \<Longrightarrow> n + int (length bs) < 2 ^ 31 \<Longrightarrow> count_bytes bs n = Some (n + int (length bs))"
  by (induction bs arbitrary: n) auto

text \<open>C24. The distributed letter count is right: when master and workers have the same text of less than
  \<open>2^31\<close> bytes, none of them the byte 255, and both workers are reached, the master's table holds for
  each letter the number of its occurrences, upper and lower case, in the whole text.\<close>

theorem letter_count_correct:
  assumes "fs conf_name = Some conf" "read_conf conf = Some (ip1, ip2)"
    and "connect ip1 = Some (worker_answer fs1)" "connect ip2 = Some (worker_answer fs2)"
    and "fs text_name = Some file" "fs1 (butlast loc) = Some file" "fs2 (butlast loc) = Some file"
    and "255 \<notin> set file" "length file < 2 ^ 31"
  shows "master_main fs connect = Some (Inr (map (\<lambda>i. int (letters i file)) [0..<26]))"
proof -
  have n: "count_bytes file 0 = Some (int (length file))"
    using count_bytes_ok [of 0 "file"] assms(9) by simp
  obtain r1 r2 where r: "worker_answer fs1 (master_message 0 (int (length file) div 2)) = Some r1"
    "worker_answer fs2 (master_message (int (length file) div 2) (int (length file))) = Some r2"
    "length r1 = 104" "length r2 = 104" "\<And>i. i < 26 \<Longrightarrow> int_at r1 i + int_at r2 i = int (letters i file)"
    using text_worker.halves_add [where ?fs1.0 = fs1 and ?fs2.0 = fs2 and content = "file", OF assms(6-9)] by blast
  have "map (\<lambda>i. int_at r1 i + int_at r2 i) [0..<26] = map (\<lambda>i. int (letters i file)) [0..<26]"
    using r(5) by (intro map_cong) auto
  then show ?thesis
    using assms(1-5) n r(1-4) by (simp add: master_main_def)
qed

definition conf0 :: bytes where "conf0 = map (\<lambda>c. of_char c) ''10.0.0.2'' @ [10] @ map (\<lambda>c. of_char c) ''10.0.0.3'' @ [10]"
definition text0 :: bytes where "text0 = map (\<lambda>c. of_char c) ''Well, Prince''"
definition files0 :: files where
  "files0 = (\<lambda>name. if name = conf_name then Some conf0 else if name = text_name \<or> name = butlast loc then Some text0 else None)"

lemma files0_facts:
  "files0 conf_name = Some conf0" "files0 text_name = Some text0" "files0 (butlast loc) = Some text0"
  by (simp_all add: files0_def conf_name_def text_name_def loc_def)

theorem letter_count_correct_witness:
  "\<exists>t. master_main files0 (\<lambda>ip. Some (worker_answer files0)) = Some (Inr t) \<and> t ! 11 = 2 \<and> t ! 22 = 1"
proof -
  have "\<exists>ip1 ip2. read_conf conf0 = Some (ip1, ip2)"
    by (simp add: read_conf_def fgets_def conf0_def numeral_eq_Suc)
  then obtain ip1 ip2 where ip: "read_conf conf0 = Some (ip1, ip2)" by blast
  have c: "255 \<notin> set text0" "length text0 < 2 ^ 31" "letters 11 text0 = 2" "letters 22 text0 = 1"
    by (simp_all add: text0_def letters_def is_letter_def)
  show ?thesis
    using letter_count_correct [where fs = files0 and ?fs1.0 = files0 and ?fs2.0 = files0 and connect = "\<lambda>ip. Some (worker_answer files0)",
      OF files0_facts(1) ip _ _ files0_facts(2,3,3) c(1,2)] c(3,4)
    by simp
qed

text \<open>The byte 255 ends a worker's count, whatever follows.\<close>

lemma worker_stops_at_255: "worker_loop (255 # bs) n c = c"
  by (simp add: sint_eof)

text \<open>An address of nine characters fills the buffer, so the newline after it is read as the second address.\<close>

lemma long_address_splits:
  assumes "length ip1 = 9" "10 \<notin> set ip1"
  shows "read_conf (ip1 @ [10] @ more) = Some (ip1, [10])"
proof -
  have "fgets_loop (length ip) (ip @ r) = (ip, r)" if "10 \<notin> set ip" for ip r
    using that by (induction ip) auto
  from this [OF assms(2)] assms(1) show ?thesis
    by (cases ip1) (auto simp: read_conf_def fgets_def numeral_eq_Suc)
qed

end
