(* ===== verification/Rtable.thy ===== *)
theory Rtable
  imports Net
begin

text \<open>
  The routing table: \<^verbatim>\<open>rtable.c\<close>, the parsing of the kernel's routes in \<^verbatim>\<open>rtable_internal.c\<close> and the
  longest prefix match of \<^verbatim>\<open>ip.c\<close> in its two versions (labs 11 to 17, and lab 08). What a lookup
  promises is the locale \<open>route_lookup\<close>.
\<close>

section \<open>Table operations\<close>

definition init_rtable :: "'a ustack_scheme \<Rightarrow> 'a ustack_scheme" where
  "init_rtable s = s\<lparr>rtable := []\<rparr>"

definition new_rt_entry :: "u32 \<Rightarrow> u32 \<Rightarrow> u32 \<Rightarrow> iface_info \<Rightarrow> rt_entry" where
  "new_rt_entry dest msk gw iface = \<lparr>rt_dest = dest, rt_mask = msk, rt_gw = gw, rt_flags = 0,
     rt_if_name = if_nm iface, rt_iface = iface\<rparr>"

definition add_rt_entry :: "rt_entry \<Rightarrow> 'a ustack_scheme \<Rightarrow> 'a ustack_scheme" where
  "add_rt_entry e s = s\<lparr>rtable := rtable s @ [e]\<rparr>"

text \<open>\<^verbatim>\<open>remove_rt_entry\<close> on the entry at position \<open>i\<close> of the list.\<close>

definition remove_rt_entry :: "nat \<Rightarrow> 'a ustack_scheme \<Rightarrow> 'a ustack_scheme" where
  "remove_rt_entry i s = s\<lparr>rtable := take i (rtable s) @ drop (Suc i) (rtable s)\<rparr>"

text \<open>\<^verbatim>\<open>while (head->next != head)\<close>: unlink the first entry until the list is empty.\<close>

fun clear_loop :: "rt_entry list \<Rightarrow> rt_entry list" where
  "clear_loop [] = []"
| "clear_loop (e # es) = clear_loop es"

definition clear_rtable :: "'a ustack_scheme \<Rightarrow> 'a ustack_scheme" where
  "clear_rtable s = s\<lparr>rtable := clear_loop (rtable s)\<rparr>"

definition get_next_hop :: "rt_entry \<Rightarrow> u32 \<Rightarrow> u32" where
  "get_next_hop e dst = (if rt_gw e \<noteq> 0 then rt_gw e else dst)"

lemma clear_loop_Nil [simp]: "clear_loop es = []"
  by (induction es) auto

section \<open>Longest prefix match\<close>

definition rt_matches :: "u32 \<Rightarrow> rt_entry \<Rightarrow> bool" where
  "rt_matches dst e \<longleftrightarrow> (dst AND rt_mask e) = (rt_dest e AND rt_mask e)"

fun lpm_loop :: "u32 \<Rightarrow> rt_entry list \<Rightarrow> rt_entry option \<Rightarrow> rt_entry option" where
  "lpm_loop dst [] selected = selected"
| "lpm_loop dst (e # es) selected =
     lpm_loop dst es
       (if (dst AND rt_mask e) = (rt_dest e AND rt_mask e) then
          (case selected of
             None \<Rightarrow> Some e
           | Some sel \<Rightarrow> if rt_mask sel < rt_mask e then Some e else selected)
        else selected)"

definition longest_prefix_match :: "'a ustack_scheme \<Rightarrow> u32 \<Rightarrow> rt_entry option" where
  "longest_prefix_match s dst = lpm_loop dst (rtable s) None"

text \<open>The router lab keeps the best mask in \<^verbatim>\<open>maxlen\<close>, starting from 0.\<close>

fun lpm_loop_08 :: "u32 \<Rightarrow> rt_entry list \<Rightarrow> u32 \<Rightarrow> rt_entry option \<Rightarrow> rt_entry option" where
  "lpm_loop_08 dst [] maxlen maxpos = maxpos"
| "lpm_loop_08 dst (e # es) maxlen maxpos =
     (if (rt_dest e AND rt_mask e) = (dst AND rt_mask e) \<and> rt_mask e > maxlen
      then lpm_loop_08 dst es (rt_mask e) (Some e)
      else lpm_loop_08 dst es maxlen maxpos)"

definition longest_prefix_match_08 :: "'a ustack_scheme \<Rightarrow> u32 \<Rightarrow> rt_entry option" where
  "longest_prefix_match_08 s dst = lpm_loop_08 dst (rtable s) 0 None"

section \<open>Routes from the kernel\<close>

text \<open>A netlink route message as the \<^verbatim>\<open>NLMSG\<close> and \<^verbatim>\<open>RTA\<close> macros iterate it; addresses are raw
  network-order values.\<close>

datatype rtattr = RTA_DST u32 | RTA_GATEWAY u32 | RTA_PREFSRC u32 | RTA_OIF int | RTA_OTHER

record nlmsg =
  rtm_table :: u8
  rtm_dst_len :: u8
  rtm_attrs :: "rtattr list"

record route_info =
  ri_dest :: u32
  ri_mask :: u32
  ri_gw :: u32
  ri_if_name :: "string option"

text \<open>The inner loop. The shift \<^verbatim>\<open>0xFFFFFFFF << (32 - rtm_dst_len)\<close> is only defined for lengths
  between 1 and 32. \<open>if_index_to_name\<close> is the kernel's answer to \<^verbatim>\<open>SIOCGIFNAME\<close>; without one the
  program exits.\<close>

definition parse_attr ::
  "(int \<Rightarrow> string option) \<Rightarrow> u8 \<Rightarrow> rtattr \<Rightarrow> route_info \<Rightarrow> route_info option" where
  "parse_attr if_index_to_name dst_len a r = (case a of
     RTA_DST w \<Rightarrow> do {
       ensure (1 \<le> dst_len \<and> dst_len \<le> 32);
       Some (r\<lparr>ri_dest := ntohl w, ri_mask := push_bit (32 - unat dst_len) 0xFFFFFFFF\<rparr>) }
   | RTA_GATEWAY w \<Rightarrow> Some (r\<lparr>ri_gw := ntohl w\<rparr>)
   | RTA_PREFSRC w \<Rightarrow> Some r
   | RTA_OIF i \<Rightarrow> do { nm \<leftarrow> if_index_to_name i; Some (r\<lparr>ri_if_name := Some nm\<rparr>) }
   | RTA_OTHER \<Rightarrow> Some r)"

text \<open>One message of the outer loop; a missing \<^verbatim>\<open>RTA_OIF\<close> leaves \<^verbatim>\<open>if_name\<close> uninitialised.\<close>

definition parse_route ::
  "(int \<Rightarrow> string option) \<Rightarrow> nlmsg \<Rightarrow> nat \<times> 'a ustack_scheme \<Rightarrow> (nat \<times> 'a ustack_scheme) option" where
  "parse_route if_index_to_name msg ns =
     (if rtm_table msg \<noteq> 254 then Some ns
      else do {
        r \<leftarrow> fold_opt (parse_attr if_index_to_name (rtm_dst_len msg)) (rtm_attrs msg)
               \<lparr>ri_dest = 0, ri_mask = 0, ri_gw = 0, ri_if_name = None\<rparr>;
        if_name \<leftarrow> ri_if_name r;
        (case if_name_to_iface (snd ns) if_name of
           None \<Rightarrow> Some ns
         | Some iface \<Rightarrow>
             Some (Suc (fst ns),
                   add_rt_entry (new_rt_entry (ri_dest r) (ri_mask r) (ri_gw r) iface) (snd ns))) })"

definition parse_routing_info ::
  "(int \<Rightarrow> string option) \<Rightarrow> nlmsg list \<Rightarrow> 'a ustack_scheme \<Rightarrow> (nat \<times> 'a ustack_scheme) option" where
  "parse_routing_info if_index_to_name msgs s =
     fold_opt (parse_route if_index_to_name) msgs (0, init_rtable s)"

section \<open>What a lookup promises\<close>

definition prefix_mask :: "nat \<Rightarrow> u32" where
  "prefix_mask n = push_bit (32 - n) 0xFFFFFFFF"

definition is_prefix_mask :: "u32 \<Rightarrow> bool" where
  "is_prefix_mask m \<longleftrightarrow> m = 0 \<or> (\<exists>n \<in> {1..32}. m = prefix_mask n)"

definition prefix_route :: "rt_entry \<Rightarrow> bool" where
  "prefix_route e = is_prefix_mask (rt_mask e)"

text \<open>Two entries for the same network are the same entry.\<close>

definition unambiguous :: "rt_entry list \<Rightarrow> bool" where
  "unambiguous t \<longleftrightarrow> (\<forall>e \<in> set t. \<forall>e' \<in> set t.
     rt_mask e = rt_mask e' \<and> (rt_dest e AND rt_mask e) = (rt_dest e' AND rt_mask e') \<longrightarrow> e = e')"

locale route_lookup =
  fixes lookup :: "rt_entry list \<Rightarrow> u32 \<Rightarrow> rt_entry option"
    and eligible :: "rt_entry \<Rightarrow> bool"
  assumes sound: "lookup t d = Some e \<Longrightarrow> e \<in> set t \<and> rt_matches d e \<and> eligible e"
    and longest: "lookup t d = Some e \<Longrightarrow> e' \<in> set t \<Longrightarrow> rt_matches d e' \<Longrightarrow> rt_mask e' \<le> rt_mask e"
    and complete: "e \<in> set t \<Longrightarrow> rt_matches d e \<Longrightarrow> eligible e \<Longrightarrow> \<exists>e'. lookup t d = Some e'"
begin

lemma none_iff: "lookup t d = None \<longleftrightarrow> (\<forall>e \<in> set t. rt_matches d e \<longrightarrow> \<not> eligible e)"
  using sound complete by (metis option.exhaust option.distinct(1))

lemma host_route:
  assumes "e \<in> set t" "rt_mask e = - 1" "rt_dest e = d" "eligible e" "unambiguous t"
  shows "lookup t d = Some e"
proof -
  have m: "rt_matches d e" using assms by (simp add: rt_matches_def)
  then obtain e' where e': "lookup t d = Some e'" using complete assms by blast
  then have "rt_mask e' = - 1"
    using longest [OF e' assms(1) m] assms(2) by (simp add: order_antisym)
  moreover have "e' \<in> set t" "rt_matches d e'" using sound [OF e'] by auto
  ultimately have "e' = e"
    using assms unfolding unambiguous_def rt_matches_def by metis
  then show ?thesis using e' by simp
qed

text \<open>In an unambiguous table the result does not depend on the order of the entries.\<close>

lemma order_independent:
  assumes "set t = set t'" "unambiguous t"
  shows "lookup t d = lookup t' d"
proof (cases "lookup t d")
  case None
  then show ?thesis using none_iff assms(1) by metis
next
  case (Some e)
  have e: "e \<in> set t'" "rt_matches d e" "eligible e" using sound [OF Some] assms(1) by auto
  then obtain e' where e': "lookup t' d = Some e'" using complete by blast
  have "e' \<in> set t" "rt_matches d e'" using sound [OF e'] assms(1) by auto
  moreover have "rt_mask e = rt_mask e'"
    using longest [OF e' e(1) e(2)] longest [OF Some calculation] by simp
  ultimately have "e = e'"
    using assms e sound [OF Some] unfolding unambiguous_def rt_matches_def by metis
  then show ?thesis using Some e' by simp
qed

end

lemma lpm_loop_sound:
  "lpm_loop d t sel = Some e \<Longrightarrow> sel = Some e \<or> (e \<in> set t \<and> rt_matches d e)"
  by (induction d t sel rule: lpm_loop.induct)
     (auto simp: rt_matches_def split: if_splits option.splits)

lemma lpm_loop_longest:
  "lpm_loop d t sel = Some e \<Longrightarrow>
   (\<forall>e' \<in> set t. rt_matches d e' \<longrightarrow> rt_mask e' \<le> rt_mask e) \<and>
   (\<forall>e'. sel = Some e' \<longrightarrow> rt_mask e' \<le> rt_mask e)"
  by (induction d t sel rule: lpm_loop.induct)
     (auto simp: rt_matches_def split: if_splits option.splits)

lemma lpm_loop_none:
  "lpm_loop d t sel = None \<longleftrightarrow> sel = None \<and> (\<forall>e \<in> set t. \<not> rt_matches d e)"
  by (induction d t sel rule: lpm_loop.induct)
     (auto simp: rt_matches_def split: option.splits)

interpretation lpm: route_lookup "\<lambda>t d. lpm_loop d t None" "\<lambda>e. True"
proof
  fix t :: "rt_entry list" and d e e'
  show "lpm_loop d t None = Some e \<Longrightarrow> e \<in> set t \<and> rt_matches d e \<and> True"
    using lpm_loop_sound by fastforce
  show "lpm_loop d t None = Some e \<Longrightarrow> e' \<in> set t \<Longrightarrow> rt_matches d e' \<Longrightarrow> rt_mask e' \<le> rt_mask e"
    using lpm_loop_longest by blast
  show "e \<in> set t \<Longrightarrow> rt_matches d e \<Longrightarrow> True \<Longrightarrow> \<exists>e'. lpm_loop d t None = Some e'"
    using lpm_loop_none by (metis not_Some_eq)
qed

lemma lpm_loop_08_sound:
  "lpm_loop_08 d t mx sel = Some e \<Longrightarrow>
   sel = Some e \<or> (e \<in> set t \<and> rt_matches d e \<and> mx < rt_mask e)"
  by (induction d t mx sel rule: lpm_loop_08.induct)
     (auto simp: rt_matches_def split: if_splits dest: order.strict_trans)

lemma lpm_loop_08_longest:
  "lpm_loop_08 d t mx sel = Some e \<Longrightarrow> (\<forall>e'. sel = Some e' \<longrightarrow> rt_mask e' = mx) \<Longrightarrow>
   (\<forall>e' \<in> set t. rt_matches d e' \<longrightarrow> rt_mask e' \<le> rt_mask e) \<and> mx \<le> rt_mask e"
proof (induction d t mx sel rule: lpm_loop_08.induct)
  case (2 d x es mx sel)
  show ?case
  proof (cases "rt_matches d x \<and> mx < rt_mask x")
    case True
    then have c: "(rt_dest x AND rt_mask x) = (d AND rt_mask x) \<and> mx < rt_mask x"
      by (simp only: rt_matches_def)
    then have "lpm_loop_08 d es (rt_mask x) (Some x) = Some e"
      using 2(3) by simp
    then have "(\<forall>e' \<in> set es. rt_matches d e' \<longrightarrow> rt_mask e' \<le> rt_mask e) \<and> rt_mask x \<le> rt_mask e"
      using 2(1) [OF c] by blast
    then show ?thesis using True by fastforce
  next
    case False
    then have c: "\<not> ((rt_dest x AND rt_mask x) = (d AND rt_mask x) \<and> mx < rt_mask x)"
      unfolding rt_matches_def by (metis (no_types))
    then have "lpm_loop_08 d es mx sel = Some e"
      using 2(3) by (simp split: if_splits)
    then have "(\<forall>e' \<in> set es. rt_matches d e' \<longrightarrow> rt_mask e' \<le> rt_mask e) \<and> mx \<le> rt_mask e"
      using 2(2) [OF c] 2(4) by blast
    then show ?thesis using False by fastforce
  qed
qed simp

lemma lpm_loop_08_none:
  "lpm_loop_08 d t mx sel = None \<longleftrightarrow> sel = None \<and> (\<forall>e \<in> set t. rt_matches d e \<longrightarrow> rt_mask e \<le> mx)"
  by (induction d t mx sel rule: lpm_loop_08.induct)
     (auto simp: rt_matches_def not_less)

interpretation lpm08: route_lookup "\<lambda>t d. lpm_loop_08 d t 0 None" "\<lambda>e. rt_mask e \<noteq> 0"
proof
  fix t :: "rt_entry list" and d e e'
  show "lpm_loop_08 d t 0 None = Some e \<Longrightarrow> e \<in> set t \<and> rt_matches d e \<and> rt_mask e \<noteq> 0"
    using lpm_loop_08_sound by fastforce
  show "lpm_loop_08 d t 0 None = Some e \<Longrightarrow> e' \<in> set t \<Longrightarrow> rt_matches d e' \<Longrightarrow> rt_mask e' \<le> rt_mask e"
    using lpm_loop_08_longest by blast
  show "e \<in> set t \<Longrightarrow> rt_matches d e \<Longrightarrow> rt_mask e \<noteq> 0 \<Longrightarrow> \<exists>e'. lpm_loop_08 d t 0 None = Some e'"
    using lpm_loop_08_none by (metis not_Some_eq word_le_0_iff)
qed

section \<open>Prefix lengths\<close>

lemma prefix_mask_bit: "n \<le> 32 \<Longrightarrow> bit (prefix_mask n) i \<longleftrightarrow> 32 - n \<le> i \<and> i < 32"
proof -
  have "prefix_mask n = push_bit (32 - n) (mask 32)"
    by (simp add: prefix_mask_def mask_eq_exp_minus_1)
  then show "n \<le> 32 \<Longrightarrow> ?thesis" by (auto simp: bit_simps)
qed

lemma prefix_mask_value: "n \<le> 32 \<Longrightarrow> prefix_mask n = of_int (2 ^ 32 - 2 ^ (32 - n))"
proof -
  have "(0xFFFFFFFF :: u32) = - 1" "(2 :: u32) ^ 32 = 0" by simp_all
  then show ?thesis by (simp only: prefix_mask_def push_bit_eq_mult of_int_diff of_int_power) simp
qed

lemma uint_prefix_mask: "1 \<le> n \<Longrightarrow> n \<le> 32 \<Longrightarrow> uint (prefix_mask n) = 2 ^ 32 - 2 ^ (32 - n)"
proof -
  assume n: "1 \<le> n" "n \<le> 32"
  have "(2::int) ^ (32 - n) \<le> 2 ^ 31" by (rule power_increasing) (use n in auto)
  moreover have "(1::int) \<le> 2 ^ (32 - n)" by simp
  ultimately have "0 \<le> (2::int) ^ 32 - 2 ^ (32 - n)" "(2::int) ^ 32 - 2 ^ (32 - n) < 2 ^ 32" by auto
  then show ?thesis
    using n unfolding prefix_mask_value [OF n(2)] uint_word_of_int_eq
    by (simp add: take_bit_int_eq_self)
qed

lemma prefix_mask_less:
  assumes "1 \<le> m" "m < n" "n \<le> 32"
  shows "prefix_mask m < prefix_mask n"
proof -
  have "(2::int) ^ (32 - n) < 2 ^ (32 - m)"
    by (rule power_strict_increasing) (use assms in auto)
  then show ?thesis
    using assms by (simp add: word_less_alt uint_prefix_mask)
qed

lemma prefix_mask_le_iff:
  "1 \<le> m \<Longrightarrow> 1 \<le> n \<Longrightarrow> m \<le> 32 \<Longrightarrow> n \<le> 32 \<Longrightarrow> prefix_mask m \<le> prefix_mask n \<longleftrightarrow> m \<le> n"
  by (metis linorder_not_less nat_less_le prefix_mask_less order_less_imp_le order.order_iff_strict)

section \<open>Properties\<close>

text \<open>C5. The lookup returns an entry that matches the destination and no matching entry has a
  longer prefix: for routes whose masks are the prefix masks of lengths between 1 and 32, the
  selected length is at least that of every other matching entry. It returns nothing exactly
  when no entry matches.\<close>

theorem longest_prefix_match_correct:
  "(longest_prefix_match s d = None \<longleftrightarrow> (\<forall>e \<in> set (rtable s). \<not> rt_matches d e)) \<and>
   (\<forall>e. longest_prefix_match s d = Some e \<longrightarrow>
      e \<in> set (rtable s) \<and> rt_matches d e \<and>
      (\<forall>e' \<in> set (rtable s). \<forall>m n. rt_matches d e' \<longrightarrow> 1 \<le> m \<and> m \<le> 32 \<and> 1 \<le> n \<and> n \<le> 32 \<longrightarrow>
          rt_mask e' = prefix_mask m \<and> rt_mask e = prefix_mask n \<longrightarrow> m \<le> n))"
proof (intro conjI allI impI ballI)
  show "longest_prefix_match s d = None \<longleftrightarrow> (\<forall>e \<in> set (rtable s). \<not> rt_matches d e)"
    by (simp add: longest_prefix_match_def lpm.none_iff)
  fix e
  assume "longest_prefix_match s d = Some e"
  note found = this [unfolded longest_prefix_match_def]
  show "e \<in> set (rtable s)" "rt_matches d e"
    using lpm.sound [OF found] by simp_all
  fix e' m n
  assume "e' \<in> set (rtable s)" "rt_matches d e'"
    and "1 \<le> m \<and> m \<le> 32 \<and> 1 \<le> n \<and> n \<le> 32"
    and "rt_mask e' = prefix_mask m \<and> rt_mask e = prefix_mask n"
  then show "m \<le> n"
    using lpm.longest [OF found] prefix_mask_le_iff by metis
qed

definition route24 :: rt_entry where "route24 = new_rt_entry 0x0A000000 (prefix_mask 24) 0 iface0"
definition route16 :: rt_entry where "route16 = new_rt_entry 0x0A000000 (prefix_mask 16) 0x0A000102 iface1"
definition route_default :: rt_entry where "route_default = new_rt_entry 0 0 0x0A000202 iface2"

lemmas route_examples = route24_def route16_def route_default_def new_rt_entry_def

theorem longest_prefix_match_correct_witness:
  "longest_prefix_match (ustack0\<lparr>rtable := [route16, route24, route_default]\<rparr>) 0x0A000007 = Some route24
   \<and> route24 \<in> set (rtable (ustack0\<lparr>rtable := [route16, route24, route_default]\<rparr>))"
proof -
  let ?s = "ustack0\<lparr>rtable := [route16, route24, route_default]\<rparr>"
  have "longest_prefix_match ?s 0x0A000007 = Some route24"
    by (simp add: longest_prefix_match_def route_examples prefix_mask_def)
  then show ?thesis
    using longest_prefix_match_correct [of ?s "0x0A000007"] by blast
qed

text \<open>In a table without two entries for the same network the result of the lookup depends
  on the set of routes only, not on the order in which they were added.\<close>

theorem longest_prefix_match_order_independent:
  assumes "set (rtable s) = set (rtable s')" "unambiguous (rtable s)"
  shows "longest_prefix_match s d = longest_prefix_match s' d"
  unfolding longest_prefix_match_def by (rule lpm.order_independent [OF assms])

theorem longest_prefix_match_order_independent_witness:
  "longest_prefix_match (ustack0\<lparr>rtable := [route_default, route24]\<rparr>) 0x0A000007
   = longest_prefix_match (ustack0\<lparr>rtable := [route24, route_default]\<rparr>) 0x0A000007"
  by (rule longest_prefix_match_order_independent)
     (auto simp: unambiguous_def route_examples prefix_mask_def)

lemma lpm_08_agree:
  assumes u: "unambiguous (rtable s)" and e: "longest_prefix_match_08 s d = Some e"
  shows "longest_prefix_match s d = Some e"
proof -
  have e': "e \<in> set (rtable s)" "rt_matches d e"
    using lpm08.sound [of d "rtable s"] e by (auto simp: longest_prefix_match_08_def)
  then obtain f where f: "longest_prefix_match s d = Some f"
    using lpm.complete [OF e'] by (auto simp: longest_prefix_match_def)
  then have f': "f \<in> set (rtable s)" "rt_matches d f"
    using lpm.sound [of d "rtable s"] by (auto simp: longest_prefix_match_def)
  have "rt_mask e = rt_mask f"
    using lpm.longest [of d "rtable s" f e] lpm08.longest [of d "rtable s" e f] e f e' f'
    by (auto simp: longest_prefix_match_def longest_prefix_match_08_def)
  then have "e = f" using u e' f' unfolding unambiguous_def rt_matches_def by metis
  then show ?thesis using f by simp
qed

text \<open>The router lab's lookup (lab 08) agrees with the later one on every destination that some
  route with a non-zero mask matches, but never selects a default route: when only routes with
  mask 0 match, it finds no route where the later version returns the default route.\<close>

theorem longest_prefix_match_08_default_route:
  "(longest_prefix_match_08 s d = None \<longleftrightarrow> (\<forall>e \<in> set (rtable s). rt_matches d e \<longrightarrow> rt_mask e = 0)) \<and>
   (unambiguous (rtable s) \<longrightarrow> longest_prefix_match_08 s d \<noteq> None \<longrightarrow>
      longest_prefix_match_08 s d = longest_prefix_match s d)"
  using lpm08.none_iff [of d "rtable s"] lpm_08_agree by (auto simp: longest_prefix_match_08_def)

theorem longest_prefix_match_08_default_route_witness:
  "longest_prefix_match_08 (ustack0\<lparr>rtable := [route24, route_default]\<rparr>) 0x0B000007 = None
   \<and> longest_prefix_match_08 (ustack0\<lparr>rtable := [route24, route_default]\<rparr>) 0x0A000007
     = longest_prefix_match (ustack0\<lparr>rtable := [route24, route_default]\<rparr>) 0x0A000007"
proof -
  let ?s = "ustack0\<lparr>rtable := [route24, route_default]\<rparr>"
  have "unambiguous (rtable ?s)"
    by (auto simp: unambiguous_def route_examples prefix_mask_def)
  moreover have "longest_prefix_match_08 ?s 0x0A000007 \<noteq> None"
    by (simp add: longest_prefix_match_08_def route_examples prefix_mask_def)
  moreover have "\<forall>e \<in> set (rtable ?s). rt_matches 0x0B000007 e \<longrightarrow> rt_mask e = 0"
    by (simp add: rt_matches_def route_examples prefix_mask_def)
  ultimately show ?thesis
    using longest_prefix_match_08_default_route [of ?s "0x0B000007"]
      longest_prefix_match_08_default_route [of ?s "0x0A000007"] by blast
qed

section \<open>The loaded table\<close>

lemma parse_attr_mask:
  assumes "parse_attr nm len a r = Some r'" "is_prefix_mask (ri_mask r)"
  shows "is_prefix_mask (ri_mask r')"
proof (cases a)
  case (RTA_DST w)
  then have "unat len \<in> {1..32}" "ri_mask r' = prefix_mask (unat len)"
    using assms(1) by (auto simp: parse_attr_def prefix_mask_def word_le_nat_alt split: if_splits)
  then show ?thesis unfolding is_prefix_mask_def by blast
qed (use assms in \<open>auto simp: parse_attr_def bind_eq_Some_conv\<close>)

lemma parse_route_prefix:
  assumes "parse_route nm msg ns = Some ns'" "\<forall>e \<in> set (rtable (snd ns)). prefix_route e"
  shows "\<forall>e \<in> set (rtable (snd ns')). prefix_route e"
proof -
  have "is_prefix_mask (ri_mask r)"
    if "fold_opt (parse_attr nm (rtm_dst_len msg)) (rtm_attrs msg)
          \<lparr>ri_dest = 0, ri_mask = 0, ri_gw = 0, ri_if_name = None\<rparr> = Some r" for r
    using that by (rule fold_opt_invariant) (simp add: is_prefix_mask_def, rule parse_attr_mask)
  then show ?thesis
    using assms
    by (auto simp: parse_route_def bind_eq_Some_conv add_rt_entry_def new_rt_entry_def prefix_route_def
          split: if_splits option.splits)
qed

text \<open>Loading the kernel's routes gives a table in which every mask is a prefix mask (or 0, a
  default route), whatever the table was before: the shape under which the largest mask is the
  longest prefix.\<close>

theorem parse_routing_info_prefix_masks:
  assumes "parse_routing_info nm msgs s = Some (n, s')" and "e \<in> set (rtable s')"
  shows "prefix_route e"
proof -
  have "\<forall>e \<in> set (rtable (snd (n, s'))). prefix_route e"
    using assms(1) unfolding parse_routing_info_def
    by (rule fold_opt_invariant) (auto simp: init_rtable_def dest: parse_route_prefix)
  then show ?thesis using assms(2) by simp
qed

definition msg24 :: nlmsg where
  "msg24 = \<lparr>rtm_table = 254, rtm_dst_len = 24, rtm_attrs = [RTA_DST (htonl 0x0A000000), RTA_OIF 1]\<rparr>"

theorem parse_routing_info_prefix_masks_witness:
  "prefix_route route24"
proof (rule parse_routing_info_prefix_masks)
  show "parse_routing_info (\<lambda>i. Some ''r1-eth0'') [msg24] ustack0 = Some (1, ustack0\<lparr>rtable := [route24]\<rparr>)"
    by (simp add: parse_routing_info_def parse_route_def parse_attr_def msg24_def init_rtable_def
        if_name_to_iface_def ustack0_def iface0_def iface1_def iface2_def add_rt_entry_def
        route_examples prefix_mask_def)
qed simp

end
