(* ===== verification/Ip.thy ===== *)
theory Ip
  imports Rtable Arp "HOL-Library.Multiset"
begin

text \<open>
  IP and ICMP (\<^verbatim>\<open>ip.c\<close> and \<^verbatim>\<open>icmp.c\<close> of labs 15 to 17) and the sweeping of the ARP cache, which
  reports unreachable hosts by ICMP. \<^verbatim>\<open>handle_tcp_packet\<close> of the transport layer is an argument
  of \<open>handle_ip_packet\<close>.
\<close>

section \<open>Headers of own packets\<close>

definition ip_init_hdr :: "bytes \<Rightarrow> nat \<Rightarrow> u32 \<Rightarrow> u32 \<Rightarrow> u16 \<Rightarrow> u8 \<Rightarrow> 'a ustack_scheme \<Rightarrow>
    (bytes \<times> 'a ustack_scheme) option" where
  "ip_init_hdr m off saddr daddr len proto s = do {
     old \<leftarrow> get_ip m off;
     let (r, s) = rand s;
     let h = \<lparr>ip_ihl = 5, ip_version = 4, ip_tos = 0, ip_tot_len = htons len, ip_id = of_nat r,
              ip_frag_off = htons IP_DF, ip_ttl = DEFAULT_TTL, ip_protocol = proto,
              ip_checksum_fld = ip_checksum_fld old, ip_saddr = htonl saddr, ip_daddr = htonl daddr\<rparr>;
     m \<leftarrow> put_ip m off h;
     c \<leftarrow> ip_checksum m off;
     m \<leftarrow> put_ip m off (h\<lparr>ip_checksum_fld := c\<rparr>);
     Some (m, s) }"

definition ip_send_packet :: "bytes \<Rightarrow> int \<Rightarrow> 'a ustack_scheme \<Rightarrow> 'a ustack_scheme option" where
  "ip_send_packet packet len s = do {
     ip \<leftarrow> get_ip packet ETHER_HDR_SIZE;
     let dst = ntohl (ip_daddr ip);
     (case longest_prefix_match s dst of
        None \<Rightarrow> Some s
      | Some entry \<Rightarrow> do {
          let next_hop = get_next_hop entry dst;
          let iface = rt_iface entry;
          eh \<leftarrow> get_eth packet;
          packet \<leftarrow> put_eth packet (eh\<lparr>ether_type := ntohs ETH_P_IP, ether_shost := if_mac iface\<rparr>);
          iface_send_packet_by_arp iface next_hop packet len s }) }"

section \<open>ICMP\<close>

text \<open>The first half of \<^verbatim>\<open>icmp_send_packet\<close>: lengths, the zeroed packet, header, copied data and
  checksum. The result is the packet with its two lengths, or \<open>Inl ()\<close> when \<^verbatim>\<open>malloc\<close> refuses the
  size.\<close>

definition icmp_lens :: "iphdr \<Rightarrow> int \<Rightarrow> u8 \<Rightarrow> int \<times> int" where
  "icmp_lens in_ip len type =
     (if type = ICMP_ECHOREPLY
      then (len, int (unat (ntohs (ip_tot_len in_ip))) - int (IP_HDR_SIZE in_ip))
      else let icmp_len = int (ICMP_HDR_SIZE + IP_HDR_SIZE in_ip + ICMP_COPIED_DATA_LEN)
           in (int (ETHER_HDR_SIZE + IP_BASE_HDR_SIZE) + icmp_len, icmp_len))"

definition icmp_fill :: "bytes \<Rightarrow> iphdr \<Rightarrow> int \<Rightarrow> int \<Rightarrow> u8 \<Rightarrow> u8 \<Rightarrow> bytes option" where
  "icmp_fill in_pkt in_ip out_len icmp_len type code = do {
     let out_pkt = replicate (nat out_len) 0;
     let in_icmp_off = ETHER_HDR_SIZE + IP_HDR_SIZE in_ip;
     let out_icmp_off = ETHER_HDR_SIZE + IP_BASE_HDR_SIZE;
     oh \<leftarrow> get_icmp out_pkt out_icmp_off;
     let oh = oh\<lparr>icmp_type := type, icmp_code := code\<rparr>;
     out_pkt \<leftarrow> put_icmp out_pkt out_icmp_off oh;
     out_pkt \<leftarrow>
       (if type = ICMP_ECHOREPLY then do {
          ih \<leftarrow> get_icmp in_pkt in_icmp_off;
          out_pkt \<leftarrow> put_icmp out_pkt out_icmp_off
             (oh\<lparr>icmp_identifier := icmp_identifier ih, icmp_sequence := icmp_sequence ih\<rparr>);
          memcpy out_pkt (out_icmp_off + ICMP_HDR_SIZE) in_pkt (in_icmp_off + ICMP_HDR_SIZE)
             (icmp_len - int ICMP_HDR_SIZE) }
        else memcpy out_pkt (out_icmp_off + ICMP_HDR_SIZE) in_pkt ETHER_HDR_SIZE
               (icmp_len - int ICMP_HDR_SIZE));
     c \<leftarrow> icmp_checksum out_pkt out_icmp_off icmp_len;
     oh \<leftarrow> get_icmp out_pkt out_icmp_off;
     put_icmp out_pkt out_icmp_off (oh\<lparr>icmp_checksum_fld := c\<rparr>) }"

definition icmp_send_packet :: "bytes \<Rightarrow> int \<Rightarrow> u8 \<Rightarrow> u8 \<Rightarrow> 'a ustack_scheme \<Rightarrow> 'a ustack_scheme option" where
  "icmp_send_packet in_pkt len type code s = do {
     in_ip \<leftarrow> get_ip in_pkt ETHER_HDR_SIZE;
     let (out_len, icmp_len) = icmp_lens in_ip len type;
     if out_len < 0 then Some s
     else do {
       out_pkt \<leftarrow> icmp_fill in_pkt in_ip out_len icmp_len type code;
       let daddr = ntohl (ip_saddr in_ip);
       let saddr = (if type = ICMP_ECHOREPLY then Some (ntohl (ip_daddr in_ip))
                    else map_option (\<lambda>e. if_ip (rt_iface e)) (longest_prefix_match s daddr));
       (case saddr of
          None \<Rightarrow> Some s
        | Some saddr \<Rightarrow> do {
            (out_pkt, s) \<leftarrow> ip_init_hdr out_pkt ETHER_HDR_SIZE saddr daddr
               (of_int (int IP_BASE_HDR_SIZE + icmp_len)) IPPROTO_ICMP s;
            ip_send_packet out_pkt out_len s }) } }"

section \<open>Forwarding and delivery\<close>

definition ip_forward_packet :: "u32 \<Rightarrow> bytes \<Rightarrow> int \<Rightarrow> 'a ustack_scheme \<Rightarrow> 'a ustack_scheme option" where
  "ip_forward_packet ip_dst packet len s = do {
     hdr \<leftarrow> get_ip packet ETHER_HDR_SIZE;
     if ip_ttl hdr \<le> 1 then icmp_send_packet packet len ICMP_TIME_EXCEEDED ICMP_EXC_TTL s
     else do {
       let hdr = hdr\<lparr>ip_ttl := ip_ttl hdr - 1\<rparr>;
       packet \<leftarrow> put_ip packet ETHER_HDR_SIZE hdr;
       c \<leftarrow> ip_checksum packet ETHER_HDR_SIZE;
       packet \<leftarrow> put_ip packet ETHER_HDR_SIZE (hdr\<lparr>ip_checksum_fld := c\<rparr>);
       (case longest_prefix_match s ip_dst of
          None \<Rightarrow> icmp_send_packet packet len ICMP_DEST_UNREACH ICMP_NET_UNREACH s
        | Some entry \<Rightarrow> do {
            let next_hop = get_next_hop entry ip_dst;
            (case arpcache_lookup s next_hop of
               Some dst \<Rightarrow> do {
                 eh \<leftarrow> get_eth packet;
                 packet \<leftarrow> put_eth packet (eh\<lparr>ether_dhost := dst, ether_shost := if_mac (rt_iface entry)\<rparr>);
                 iface_send_packet (rt_iface entry) packet len s }
             | None \<Rightarrow> arpcache_append_packet (rt_iface entry) next_hop packet len s) }) } }"

definition handle_ip_packet ::
  "(bytes \<Rightarrow> nat \<Rightarrow> nat \<Rightarrow> 'a ustack_scheme \<Rightarrow> 'a ustack_scheme option) \<Rightarrow>
   iface_info \<Rightarrow> bytes \<Rightarrow> int \<Rightarrow> 'a ustack_scheme \<Rightarrow> 'a ustack_scheme option" where
  "handle_ip_packet handle_tcp_packet iface packet len s = do {
     ip \<leftarrow> get_ip packet ETHER_HDR_SIZE;
     let daddr = ntohl (ip_daddr ip);
     if daddr = if_ip iface then
       (if ip_protocol ip = IPPROTO_ICMP then do {
          icmp \<leftarrow> load8 packet (ETHER_HDR_SIZE + IP_HDR_SIZE ip);
          if icmp = ICMP_ECHOREQUEST then icmp_send_packet packet len ICMP_ECHOREPLY 0 s else Some s }
        else if ip_protocol ip = IPPROTO_TCP then
          handle_tcp_packet packet ETHER_HDR_SIZE (ETHER_HDR_SIZE + IP_HDR_SIZE ip) s
        else Some s)
     else ip_forward_packet daddr packet len s }"

section \<open>Sweeping\<close>

text \<open>The loop over the requests: those sent less than a second ago stay, those with retries left
  are sent again, the others give up their packets.\<close>

fun sweep_reqs :: "int \<Rightarrow> arp_req list \<Rightarrow> 'a ustack_scheme \<Rightarrow>
    (arp_req list \<times> cached_pkt list \<times> 'a ustack_scheme) option" where
  "sweep_reqs t [] s = Some ([], [], s)"
| "sweep_reqs t (r # rs) s =
     (if t - req_sent r < 1 then do {
        (rs', ps, s) \<leftarrow> sweep_reqs t rs s; Some (r # rs', ps, s) }
      else if req_retries r < ARP_REQUEST_MAX_RETRIES then do {
        s \<leftarrow> arp_send_request (req_iface r) (req_ip4 r) s;
        (rs', ps, s) \<leftarrow> sweep_reqs t rs s;
        Some (r\<lparr>req_retries := req_retries r + 1\<rparr> # rs', ps, s) }
      else do {
        (rs', ps, s) \<leftarrow> sweep_reqs t rs s; Some (rs', req_pkts r @ ps, s) })"

text \<open>One round of \<^verbatim>\<open>arpcache_sweep\<close> at time \<^verbatim>\<open>time(NULL)\<close>.\<close>

definition arpcache_sweep :: "'a ustack_scheme \<Rightarrow> 'a ustack_scheme option" where
  "arpcache_sweep s = do {
     let t = now s;
     let s = arp_age t s;
     (rs, pkts, s) \<leftarrow> sweep_reqs t (req_list (arpcache s)) s;
     let s = s\<lparr>arpcache := (arpcache s)\<lparr>req_list := rs\<rparr>\<rparr>;
     fold_opt (\<lambda>p s. icmp_send_packet (cp_packet p) (cp_len p) ICMP_DEST_UNREACH ICMP_HOST_UNREACH s) pkts s }"

section \<open>Own headers are valid\<close>

definition own_hdr :: "u32 \<Rightarrow> u32 \<Rightarrow> u16 \<Rightarrow> u8 \<Rightarrow> u16 \<Rightarrow> u16 \<Rightarrow> iphdr" where
  "own_hdr saddr daddr len proto i c =
     \<lparr>ip_ihl = 5, ip_version = 4, ip_tos = 0, ip_tot_len = htons len, ip_id = i,
      ip_frag_off = htons IP_DF, ip_ttl = DEFAULT_TTL, ip_protocol = proto,
      ip_checksum_fld = c, ip_saddr = htonl saddr, ip_daddr = htonl daddr\<rparr>"

text \<open>\<^verbatim>\<open>ip_init_hdr\<close> on any buffer with room for the header returns, writes the version 4
  header with the given addresses, length and protocol, leaves all bytes outside the header
  alone, and the checksum it stores makes the header verify.\<close>

lemma ip_init_hdr_valid:
  assumes "off + 20 \<le> length m"
  shows "\<exists>m' c. ip_init_hdr m off saddr daddr len proto s = Some (m', s\<lparr>rand_pos := Suc (rand_pos s)\<rparr>)
     \<and> get_ip m' off = Some (own_hdr saddr daddr len proto (of_nat (rand_fn s (rand_pos s))) c)
     \<and> ip_header_ok m' off \<and> length m' = length m
     \<and> (\<forall>j n. j + n \<le> off \<or> off + 20 \<le> j \<longrightarrow> load_bytes m' j n = load_bytes m j n)"
proof -
  obtain old where old: "get_ip m off = Some old" using iph.load_defined [OF assms] by blast
  define h where "h = own_hdr saddr daddr len proto (of_nat (rand_fn s (rand_pos s))) (ip_checksum_fld old)"
  obtain m1 where m1: "put_ip m off h = Some m1" using iph.store_defined [OF assms] by blast
  have len1: "length m1 = length m" by (rule iph.store_length [OF m1])
  have "IP_HDR_SIZE h = 20" "unat (ip_ihl h) = 5" by (simp_all add: h_def own_hdr_def IP_HDR_SIZE_def)
  then obtain c m2 where c: "ip_checksum m1 off = Some c" "put_ip m1 off (h\<lparr>ip_checksum_fld := c\<rparr>) = Some m2"
    "ip_header_ok m2 off"
    using ip_checksum_store_ok [OF iph.load_after_store [OF m1]] assms len1 by auto
  have "ip_init_hdr m off saddr daddr len proto s = Some (m2, s\<lparr>rand_pos := Suc (rand_pos s)\<rparr>)"
    using old m1 c by (simp add: ip_init_hdr_def rand_def h_def own_hdr_def)
  moreover have "get_ip m2 off = Some (h\<lparr>ip_checksum_fld := c\<rparr>)" by (rule iph.load_after_store [OF c(2)])
  moreover have "length m2 = length m" using iph.store_length [OF c(2)] len1 by simp
  moreover have "load_bytes m2 j n = load_bytes m j n" if "j + n \<le> off \<or> off + 20 \<le> j" for j n
    using iph.load_bytes_after_store [OF c(2) that] iph.load_bytes_after_store [OF m1 that] by simp
  ultimately show ?thesis
    using c(3) by (intro exI [of _ m2] exI [of _ c]) (auto simp: h_def own_hdr_def)
qed

section \<open>Forwarding\<close>

lemma put_eth_macs:
  assumes "14 \<le> length p" "get_eth p = Some eh"
  shows "put_eth p (eh\<lparr>ether_dhost := m, ether_shost := if_mac iface\<rparr>) = Some (fill_macs m iface p)"
proof -
  have "enc_ether eh = take 14 p"
    using assms by (auto simp: get_eth_whole intro!: eth.enc_dec)
  then have "put16 (ether_type eh) = drop 12 (take 14 p)"
    by (simp add: enc_ether_def flip: \<open>enc_ether eh = take 14 p\<close>)
  moreover have "drop 12 (take 14 p @ drop 14 p) = drop 12 (take 14 p) @ drop 14 p"
    using assms(1) by (simp only: drop_append length_take) simp
  ultimately have "put16 (ether_type eh) @ drop 14 p = drop 12 p"
    by simp
  then show ?thesis
    using assms(1) by (simp add: put_eth_whole enc_ether_def fill_macs_def)
qed

lemma ip_forward_packet_ok:
  assumes "whole p len" "get_ip p 14 = Some h" "1 < ip_ttl h"
    and "5 \<le> unat (ip_ihl h)" "14 + IP_HDR_SIZE h \<le> length p"
    and "longest_prefix_match s d = Some e"
  shows "\<exists>p' c. get_ip p' 14 = Some (h\<lparr>ip_ttl := ip_ttl h - 1, ip_checksum_fld := c\<rparr>)
     \<and> ip_header_ok p' 14 \<and> length p' = length p \<and> drop 34 p' = drop 34 p \<and> take 14 p' = take 14 p
     \<and> ip_forward_packet d p len s =
         (case arpcache_lookup s (get_next_hop e d) of
            Some m \<Rightarrow> Some (s\<lparr>wire := wire s @ [(rt_iface e, fill_macs m (rt_iface e) p')]\<rparr>)
          | None \<Rightarrow> arpcache_append_packet (rt_iface e) (get_next_hop e d) p' len s)"
proof -
  define h1 where "h1 = h\<lparr>ip_ttl := ip_ttl h - 1\<rparr>"
  have size: "IP_HDR_SIZE h1 = IP_HDR_SIZE h" "unat (ip_ihl h1) = unat (ip_ihl h)"
    by (simp_all add: h1_def IP_HDR_SIZE_def)
  have bound: "14 + 20 \<le> length p" by (rule iph.load_bounds [OF assms(2)])
  obtain p1 where p1: "put_ip p 14 h1 = Some p1" using iph.store_defined [OF bound] by blast
  have len1: "length p1 = length p" by (rule iph.store_length [OF p1])
  obtain c p2 where p2: "ip_checksum p1 14 = Some c" "put_ip p1 14 (h1\<lparr>ip_checksum_fld := c\<rparr>) = Some p2"
    "ip_header_ok p2 14"
    using ip_checksum_store_ok [OF iph.load_after_store [OF p1]] assms(4,5) size len1 by auto
  have len2: "length p2 = length p" using iph.store_length [OF p2(2)] len1 by simp
  have same: "drop 34 p2 = drop 34 p" "take 14 p2 = take 14 p"
    using p1 p2(2) bound by (simp_all add: store_struct_def store_bytes_Some iph.length_enc)
  have w2: "whole p2 len" using assms(1) len2 by (simp add: whole_def)
  have w3: "whole (fill_macs m i p2) len" for m i
    using w2 by (simp add: whole_def fill_macs_def)
  obtain eh where eh: "get_eth p2 = Some eh" using get_eth_whole w2 by (auto simp: whole_def)
  have "\<not> ip_ttl h \<le> 1" using assms(3) by simp
  then have "ip_forward_packet d p len s =
         (case arpcache_lookup s (get_next_hop e d) of
            Some m \<Rightarrow> Some (s\<lparr>wire := wire s @ [(rt_iface e, fill_macs m (rt_iface e) p2)]\<rparr>)
          | None \<Rightarrow> arpcache_append_packet (rt_iface e) (get_next_hop e d) p2 len s)"
    using assms(2,6) p1 p2 eh w2 w3 put_eth_macs [OF _ eh]
    by (auto simp: ip_forward_packet_def h1_def whole_def split: option.split)
  then show ?thesis
    using iph.load_after_store [OF p2(2)] p2(3) len2 same
    by (intro exI [of _ p2] exI [of _ c]) (auto simp: h1_def)
qed

text \<open>C7. A forwarded packet is the received one with the time to live one lower and a header checksum
  that verifies; addresses, options and data are untouched. With the next hop's hardware address
  known it leaves through the interface of the longest matching route, otherwise it is queued
  there for address resolution.\<close>

theorem ip_forward_packet_hop:
  assumes "whole p len" "get_ip p 14 = Some h" "1 < ip_ttl h"
    and "5 \<le> unat (ip_ihl h)" "14 + IP_HDR_SIZE h \<le> length p"
    and "longest_prefix_match s d = Some e"
  shows "\<exists>p' c. get_ip p' 14 = Some (h\<lparr>ip_ttl := ip_ttl h - 1, ip_checksum_fld := c\<rparr>)
     \<and> ip_header_ok p' 14 \<and> length p' = length p \<and> drop 34 p' = drop 34 p \<and> take 14 p' = take 14 p
     \<and> ip_forward_packet d p len s =
         (case arpcache_lookup s (get_next_hop e d) of
            Some m \<Rightarrow> Some (s\<lparr>wire := wire s @ [(rt_iface e, fill_macs m (rt_iface e) p')]\<rparr>)
          | None \<Rightarrow> arpcache_append_packet (rt_iface e) (get_next_hop e d) p' len s)"
  using assms by (rule ip_forward_packet_ok)

definition transit_hdr :: iphdr where
  "transit_hdr = own_hdr 0x0A000009 0x0A000107 26 17 1 0"

definition transit_packet :: bytes where
  "transit_packet = replicate 14 0 @ enc_ip transit_hdr @ [1, 2, 3, 4, 5, 6]"

definition ustack1 :: ustack where
  "ustack1 = ustack0\<lparr>rtable := [route24, route16, route_default]\<rparr>"

lemma transit_facts:
  "whole transit_packet 40" "get_ip transit_packet 14 = Some transit_hdr" "ip_ttl transit_hdr = 64"
  "IP_HDR_SIZE transit_hdr = 20" "unat (ip_ihl transit_hdr) = 5" "length transit_packet = 40"
  "longest_prefix_match ustack1 0x0A000107 = Some route16"
  by (simp_all add: whole_def transit_packet_def iph.length_enc load_struct_def load_bytes_def iph.dec_enc
      transit_hdr_def own_hdr_def IP_HDR_SIZE_def DEFAULT_TTL_def longest_prefix_match_def ustack1_def
      route_examples prefix_mask_def)

theorem ip_forward_packet_hop_witness:
  "\<exists>p' c. get_ip p' 14 = Some (transit_hdr\<lparr>ip_ttl := ip_ttl transit_hdr - 1, ip_checksum_fld := c\<rparr>)
     \<and> ip_header_ok p' 14
     \<and> ip_forward_packet 0x0A000107 transit_packet 40 ustack1 =
         arpcache_append_packet iface1 0x0A000102 p' 40 ustack1"
proof -
  have "get_next_hop route16 0x0A000107 = 0x0A000102" "rt_iface route16 = iface1"
    by (simp_all add: get_next_hop_def route_examples)
  moreover have "arpcache_lookup ustack1 0x0A000102 = None"
    using arpcache_lookup_ustack0 by (simp add: ustack1_def arpcache_lookup_def)
  ultimately show ?thesis
    using ip_forward_packet_hop [OF transit_facts(1,2) _ _ _ transit_facts(7)] transit_facts by auto
qed

section \<open>ICMP messages\<close>

definition icmp_ok :: "bytes \<Rightarrow> nat \<Rightarrow> nat \<Rightarrow> bool" where
  "icmp_ok m off n \<longleftrightarrow> oc_norm (word_total (take n (drop off m))) = 65535"

lemma word_total_enc_icmp:
  "word_total (enc_icmp h) = word_total (enc_icmp (h\<lparr>icmp_checksum_fld := 0\<rparr>)) + unat (icmp_checksum_fld h)"
proof -
  have "word_total (enc_icmp (h\<lparr>icmp_checksum_fld := c\<rparr>)) =
      word_total [icmp_type h, icmp_code h] + unat c + unat (icmp_identifier h) + unat (icmp_sequence h)" for c
    by (simp add: enc_icmp_def word_total_append)
  from this [of "icmp_checksum_fld h"] this [of 0] show ?thesis by simp
qed

lemma checksum_defined: "off + n \<le> length m \<Longrightarrow> \<exists>c. checksum m off (int n) s = Some c"
  by (auto simp: checksum_def load_bytes_def load8_def Let_def)

lemma icmp_checksum_defined:
  assumes "get_icmp m off = Some h" "off + n \<le> length m"
  shows "\<exists>c. icmp_checksum m off (int n) = Some c"
proof -
  have b: "off + 8 \<le> length m" by (rule icmph.load_bounds [OF assms(1)])
  obtain m' where m': "put_icmp m off (h\<lparr>icmp_checksum_fld := 0\<rparr>) = Some m'"
    using icmph.store_defined [OF b] by blast
  then show ?thesis
    using checksum_defined [of off n m' 0] assms icmph.store_length [OF m']
    by (auto simp: icmp_checksum_def)
qed

text \<open>The stored ICMP checksum makes a message of even length verify.\<close>

lemma icmp_checksum_store_ok:
  assumes h: "get_icmp m off = Some h" and n: "8 \<le> n" "even n" "n \<le> 65536" "off + n \<le> length m"
    and c: "icmp_checksum m off (int n) = Some c" and m': "put_icmp m off (h\<lparr>icmp_checksum_fld := c\<rparr>) = Some m'"
  shows "icmp_ok m' off n"
proof -
  define rest where "rest = take (n - 8) (drop (off + 8) m)"
  have shape: "take n (drop off q) = enc_icmp x @ rest" if "put_icmp m off x = Some q" for x q
    using store_struct_take_drop [OF that icmph.length_enc n(1,4)] by (simp add: rest_def)
  obtain m0 where m0: "put_icmp m off (h\<lparr>icmp_checksum_fld := 0\<rparr>) = Some m0"
    "checksum m0 off (int n) 0 = Some c"
    using c h by (auto simp: icmp_checksum_def bind_eq_Some_conv)
  have "word_total (take n (drop off m0)) < 2 ^ 32"
    using word_total_bound [of "take n (drop off m0)"] n by simp
  then have "unat c = 65535 - oc_norm (word_total (take n (drop off m0)))"
    using checksum_value [of off n m0 0] n icmph.store_length [OF m0(1)] m0(2) by auto
  moreover have "word_total (take n (drop off m')) = word_total (take n (drop off m0)) + unat c"
    using word_total_enc_icmp [of "h\<lparr>icmp_checksum_fld := c\<rparr>"]
    by (simp add: shape [OF m'] shape [OF m0(1)] word_total_append icmph.length_enc)
  ultimately show ?thesis by (simp add: icmp_ok_def oc_norm_complement)
qed

text \<open>The part of \<^verbatim>\<open>icmp_send_packet\<close> that writes the message, from a buffer that has the header in
  place and the bytes to copy.\<close>

lemma icmp_finish:
  assumes g: "get_icmp o1 34 = Some oh" and src: "load_bytes src j k = Some data"
    and room: "42 + k \<le> length o1" "k \<le> 60000"
  shows "\<exists>o2 c o3. memcpy o1 42 src j (int k) = Some o2 \<and> icmp_checksum o2 34 (int (k + 8)) = Some c
     \<and> get_icmp o2 34 = Some oh \<and> put_icmp o2 34 (oh\<lparr>icmp_checksum_fld := c\<rparr>) = Some o3
     \<and> get_icmp o3 34 = Some (oh\<lparr>icmp_checksum_fld := c\<rparr>) \<and> load_bytes o3 42 k = Some data
     \<and> length o3 = length o1 \<and> (even k \<longrightarrow> icmp_ok o3 34 (k + 8))"
proof -
  have kd: "length data = k" by (rule load_bytes_length [OF src])
  obtain o2 where o2: "store_bytes o1 42 data = Some o2"
    using store_bytes_defined [of 42 data o1] room kd by auto
  then have len2: "length o2 = length o1" by (rule store_bytes_length)
  have "load_bytes o2 34 8 = load_bytes o1 34 8" by (rule load_store_other [OF o2]) simp
  then have g2: "get_icmp o2 34 = Some oh" using g by (simp add: load_struct_def)
  obtain c where c: "icmp_checksum o2 34 (int (k + 8)) = Some c"
    using icmp_checksum_defined [OF g2, of "k + 8"] room len2 by auto
  obtain o3 where o3: "put_icmp o2 34 (oh\<lparr>icmp_checksum_fld := c\<rparr>) = Some o3"
    using icmph.store_defined [of 34 o2] room len2 by auto
  have "load_bytes o3 42 k = load_bytes o2 42 k"
    by (rule icmph.load_bytes_after_store [OF o3]) simp
  also have "\<dots> = Some data" using load_store_same [OF o2] kd by simp
  finally have "load_bytes o3 42 k = Some data" .
  moreover have "memcpy o1 42 src j (int k) = Some o2" using src o2 by (simp add: memcpy_def)
  moreover have "icmp_ok o3 34 (k + 8)" if "even k"
    using icmp_checksum_store_ok [OF g2 _ _ _ _ c o3] room that len2 by simp
  ultimately show ?thesis
    using g2 c o3 icmph.load_after_store [OF o3] icmph.store_length [OF o3] len2 by fastforce
qed

lemma icmp_start:
  assumes "42 \<le> n"
  shows "\<exists>oh o1. get_icmp (replicate n 0) 34 = Some oh
     \<and> put_icmp (replicate n 0) 34 (oh\<lparr>icmp_type := type, icmp_code := code\<rparr>) = Some o1
     \<and> length o1 = n \<and> get_icmp o1 34 = Some (oh\<lparr>icmp_type := type, icmp_code := code\<rparr>)"
proof -
  obtain oh where oh: "get_icmp (replicate n 0) 34 = Some oh"
    using icmph.load_defined [of 34 "replicate n 0"] assms by auto
  obtain o1 where o1: "put_icmp (replicate n 0) 34 (oh\<lparr>icmp_type := type, icmp_code := code\<rparr>) = Some o1"
    using icmph.store_defined [of 34 "replicate n 0"] assms by auto
  show ?thesis
    using oh o1 icmph.store_length [OF o1] icmph.load_after_store [OF o1] by auto
qed

lemma icmp_fill_echo:
  assumes ih: "get_icmp p (14 + IP_HDR_SIZE h) = Some ih"
    and data: "load_bytes p (14 + IP_HDR_SIZE h + 8) k = Some data" and room: "42 + k \<le> n" "k \<le> 60000"
  shows "\<exists>q oh. icmp_fill p h (int n) (int (k + 8)) ICMP_ECHOREPLY 0 = Some q \<and> length q = n
     \<and> get_icmp q 34 = Some oh \<and> icmp_type oh = ICMP_ECHOREPLY \<and> icmp_code oh = 0
     \<and> icmp_identifier oh = icmp_identifier ih \<and> icmp_sequence oh = icmp_sequence ih
     \<and> load_bytes q 42 k = Some data \<and> (even k \<longrightarrow> icmp_ok q 34 (k + 8))"
proof -
  obtain oh o1 where o1: "get_icmp (replicate n 0) 34 = Some oh"
    "put_icmp (replicate n 0) 34 (oh\<lparr>icmp_type := ICMP_ECHOREPLY, icmp_code := 0\<rparr>) = Some o1" "length o1 = n"
    using icmp_start [of n 0 ICMP_ECHOREPLY] room by auto
  define h2 where "h2 = oh\<lparr>icmp_type := ICMP_ECHOREPLY, icmp_code := 0,
    icmp_identifier := icmp_identifier ih, icmp_sequence := icmp_sequence ih\<rparr>"
  obtain o2 where o2: "put_icmp o1 34 h2 = Some o2"
    using icmph.store_defined [of 34 o1 h2] o1(3) room by auto
  have len2: "length o2 = n" using icmph.store_length [OF o2] o1(3) by simp
  obtain o3 c o4 where o4: "memcpy o2 42 p (14 + IP_HDR_SIZE h + 8) (int k) = Some o3"
    "icmp_checksum o3 34 (int (k + 8)) = Some c" "get_icmp o3 34 = Some h2"
    "put_icmp o3 34 (h2\<lparr>icmp_checksum_fld := c\<rparr>) = Some o4"
    "get_icmp o4 34 = Some (h2\<lparr>icmp_checksum_fld := c\<rparr>)" "load_bytes o4 42 k = Some data"
    "length o4 = n" "even k \<longrightarrow> icmp_ok o4 34 (k + 8)"
    using icmp_finish [OF icmph.load_after_store [OF o2] data] room len2 by auto
  have "icmp_fill p h (int n) (int (k + 8)) ICMP_ECHOREPLY 0 = Some o4"
    using o1 o2 o4 ih by (simp add: icmp_fill_def h2_def add.assoc)
  then show ?thesis using o4 by (intro exI [of _ o4] exI [of _ "h2\<lparr>icmp_checksum_fld := c\<rparr>"]) (simp add: h2_def)
qed

lemma icmp_fill_error:
  assumes data: "load_bytes p 14 k = Some data" and k: "k \<le> 60000" and type: "type \<noteq> ICMP_ECHOREPLY"
  shows "\<exists>q oh. icmp_fill p h (int (42 + k)) (int (k + 8)) type code = Some q \<and> length q = 42 + k
     \<and> get_icmp q 34 = Some oh \<and> icmp_type oh = type \<and> icmp_code oh = code
     \<and> load_bytes q 42 k = Some data \<and> (even k \<longrightarrow> icmp_ok q 34 (k + 8))"
proof -
  obtain oh o1 where o1: "get_icmp (replicate (42 + k) 0) 34 = Some oh"
    "put_icmp (replicate (42 + k) 0) 34 (oh\<lparr>icmp_type := type, icmp_code := code\<rparr>) = Some o1" "length o1 = 42 + k"
    "get_icmp o1 34 = Some (oh\<lparr>icmp_type := type, icmp_code := code\<rparr>)"
    using icmp_start [of "42 + k" code type] by auto
  obtain o3 c o4 where o4: "memcpy o1 42 p 14 (int k) = Some o3"
    "icmp_checksum o3 34 (int (k + 8)) = Some c" "get_icmp o3 34 = Some (oh\<lparr>icmp_type := type, icmp_code := code\<rparr>)"
    "put_icmp o3 34 (oh\<lparr>icmp_type := type, icmp_code := code, icmp_checksum_fld := c\<rparr>) = Some o4"
    "get_icmp o4 34 = Some (oh\<lparr>icmp_type := type, icmp_code := code, icmp_checksum_fld := c\<rparr>)"
    "load_bytes o4 42 k = Some data"
    "length o4 = 42 + k" "even k \<longrightarrow> icmp_ok o4 34 (k + 8)"
    using icmp_finish [OF o1(4) data _ k] o1(3) by auto
  have "nat (42 + int k) = 42 + k" by simp
  then have "icmp_fill p h (int (42 + k)) (int (k + 8)) type code = Some o4"
    using o1 o4 type by (simp add: icmp_fill_def)
  then show ?thesis using o4
    by (intro exI [of _ o4] exI [of _ "oh\<lparr>icmp_type := type, icmp_code := code, icmp_checksum_fld := c\<rparr>"]) simp
qed

lemma ip_send_packet_known:
  assumes "whole p len" "get_ip p 14 = Some h" "longest_prefix_match s (ntohl (ip_daddr h)) = Some e"
    and "arpcache_lookup s (get_next_hop e (ntohl (ip_daddr h))) = Some m"
  shows "ip_send_packet p len s = Some (s\<lparr>wire := wire s @ [(rt_iface e, fill_eth m (rt_iface e) p)]\<rparr>)"
proof -
  obtain eh where eh: "get_eth p = Some eh" using assms(1) get_eth_whole by (auto simp: whole_def)
  have p1: "put_eth p x = Some (enc_ether x @ drop 14 p)" for x
    using assms(1) by (simp add: whole_def put_eth_whole)
  have "whole (enc_ether x @ drop 14 p) len" for x
    using assms(1) by (simp add: whole_def eth.length_enc)
  then show ?thesis
    using assms(2,3) eh p1 send_by_arp_known [OF _ assms(4)]
    by (simp add: ip_send_packet_def fill_eth_def eth.length_enc Let_def)
qed

text \<open>Sending always returns and touches the ARP cache and the wire only.\<close>

lemma arpcache_append_packet_total:
  "\<exists>A w. arpcache_append_packet iface ip4 p len s = Some (s\<lparr>arpcache := A, wire := w\<rparr>)"
proof (cases "append_to_req iface ip4 \<lparr>cp_packet = p, cp_len = len\<rparr> (req_list (arpcache s))")
  case None
  then show ?thesis by (auto simp: arpcache_append_packet_def Let_def arp_send_request_sent)
next
  case (Some rs)
  then have "arpcache_append_packet iface ip4 p len s
      = Some (s\<lparr>arpcache := (arpcache s)\<lparr>req_list := rs\<rparr>, wire := wire s\<rparr>)"
    by (simp add: arpcache_append_packet_def Let_def)
  then show ?thesis by blast
qed

lemma ip_send_packet_total:
  assumes "whole p len" "34 \<le> length p"
  shows "\<exists>A w. ip_send_packet p len s = Some (s\<lparr>arpcache := A, wire := w\<rparr>)"
proof -
  obtain h where h: "get_ip p 14 = Some h" using iph.load_defined [of 14 p] assms(2) by auto
  show ?thesis
  proof (cases "longest_prefix_match s (ntohl (ip_daddr h))")
    case None
    then have "ip_send_packet p len s = Some (s\<lparr>arpcache := arpcache s, wire := wire s\<rparr>)"
      using h by (simp add: ip_send_packet_def)
    then show ?thesis by blast
  next
    case (Some e)
    define nh where "nh = get_next_hop e (ntohl (ip_daddr h))"
    obtain eh where eh: "get_eth p = Some eh" using assms(1) get_eth_whole by (auto simp: whole_def)
    have p1: "put_eth p x = Some (enc_ether x @ drop 14 p)" for x
      using assms(1) by (simp add: whole_def put_eth_whole)
    have w: "whole (enc_ether x @ drop 14 p) len" for x
      using assms(1) by (simp add: whole_def eth.length_enc)
    have send: "ip_send_packet p len s = iface_send_packet_by_arp (rt_iface e) nh
        (enc_ether (eh\<lparr>ether_type := ntohs ETH_P_IP, ether_shost := if_mac (rt_iface e)\<rparr>) @ drop 14 p) len s"
      using h Some eh p1 by (simp add: ip_send_packet_def nh_def Let_def)
    show ?thesis
    proof (cases "arpcache_lookup s nh")
      case None
      show ?thesis
        unfolding send send_by_arp_unknown [OF w None] by (rule arpcache_append_packet_total)
    next
      case (Some m)
      have "s\<lparr>wire := w\<rparr> = s\<lparr>arpcache := arpcache s, wire := w\<rparr>" for w
        by simp
      with send_by_arp_known [OF w Some] send show ?thesis
        by metis
    qed
  qed
qed

text \<open>An echo request as a well-behaved host sends it: an IP packet with a complete header whose total
  length is the received one, carrying an ICMP message with \<open>k\<close> bytes of data.\<close>

definition echo_request :: "bytes \<Rightarrow> iphdr \<Rightarrow> icmphdr \<Rightarrow> nat \<Rightarrow> bool" where
  "echo_request p h ih k \<longleftrightarrow> get_ip p 14 = Some h \<and> 5 \<le> unat (ip_ihl h)
     \<and> get_icmp p (14 + IP_HDR_SIZE h) = Some ih
     \<and> length p = 14 + IP_HDR_SIZE h + 8 + k \<and> k \<le> 60000
     \<and> unat (ntohs (ip_tot_len h)) = IP_HDR_SIZE h + 8 + k"

lemma icmp_echo_sent:
  assumes "echo_request p h ih k" "longest_prefix_match s (ntohl (ip_saddr h)) = Some e"
    and "arpcache_lookup s (get_next_hop e (ntohl (ip_saddr h))) = Some m"
  shows "\<exists>q oh c. icmp_send_packet p (int (length p)) ICMP_ECHOREPLY 0 s
       = Some (s\<lparr>rand_pos := Suc (rand_pos s), wire := wire s @ [(rt_iface e, fill_eth m (rt_iface e) q)]\<rparr>)
     \<and> length q = length p \<and> ip_header_ok q 14
     \<and> get_ip q 14 = Some (own_hdr (ntohl (ip_daddr h)) (ntohl (ip_saddr h)) (of_nat (28 + k)) IPPROTO_ICMP
                             (of_nat (rand_fn s (rand_pos s))) c)
     \<and> get_icmp q 34 = Some oh \<and> icmp_type oh = ICMP_ECHOREPLY \<and> icmp_code oh = 0
     \<and> icmp_identifier oh = icmp_identifier ih \<and> icmp_sequence oh = icmp_sequence ih
     \<and> load_bytes q 42 k = load_bytes p (14 + IP_HDR_SIZE h + 8) k
     \<and> (even k \<longrightarrow> icmp_ok q 34 (k + 8))"
proof -
  define n where "n = length p"
  have r: "get_ip p 14 = Some h" "5 \<le> unat (ip_ihl h)" "get_icmp p (14 + IP_HDR_SIZE h) = Some ih"
    "n = 14 + IP_HDR_SIZE h + 8 + k" "k \<le> 60000" "unat (ntohs (ip_tot_len h)) = IP_HDR_SIZE h + 8 + k"
    using assms(1) by (auto simp: echo_request_def n_def)
  have size: "20 \<le> IP_HDR_SIZE h" using r(2) by (simp add: IP_HDR_SIZE_def)
  obtain data where data: "load_bytes p (14 + IP_HDR_SIZE h + 8) k = Some data"
    using r(4) by (auto simp: load_bytes_def n_def)
  obtain q1 oh where q1: "icmp_fill p h (int n) (int (k + 8)) ICMP_ECHOREPLY 0 = Some q1" "length q1 = n"
    "get_icmp q1 34 = Some oh" "icmp_type oh = ICMP_ECHOREPLY" "icmp_code oh = 0"
    "icmp_identifier oh = icmp_identifier ih" "icmp_sequence oh = icmp_sequence ih"
    "load_bytes q1 42 k = Some data" "even k \<longrightarrow> icmp_ok q1 34 (k + 8)"
    using icmp_fill_echo [OF r(3) data, of n] size r by auto
  obtain q c where q: "ip_init_hdr q1 14 (ntohl (ip_daddr h)) (ntohl (ip_saddr h)) (of_nat (28 + k)) IPPROTO_ICMP s
      = Some (q, s\<lparr>rand_pos := Suc (rand_pos s)\<rparr>)"
    "get_ip q 14 = Some (own_hdr (ntohl (ip_daddr h)) (ntohl (ip_saddr h)) (of_nat (28 + k)) IPPROTO_ICMP
        (of_nat (rand_fn s (rand_pos s))) c)"
    "ip_header_ok q 14" "length q = length q1"
    "\<And>j l. 34 \<le> j \<Longrightarrow> load_bytes q j l = load_bytes q1 j l"
    using ip_init_hdr_valid [of 14 q1 "ntohl (ip_daddr h)" "ntohl (ip_saddr h)" "of_nat (28 + k)" IPPROTO_ICMP s]
      size r q1(2) by auto
  let ?s1 = "s\<lparr>rand_pos := Suc (rand_pos s)\<rparr>"
  have s1: "longest_prefix_match ?s1 x = longest_prefix_match s x" "arpcache_lookup ?s1 y = arpcache_lookup s y" for x y
    by (simp_all add: longest_prefix_match_def arpcache_lookup_def)
  have w: "whole q (int n)" using q(4) q1(2) r(4) by (simp add: whole_def)
  have "ip_send_packet q (int n) ?s1 = Some (?s1\<lparr>wire := wire s @ [(rt_iface e, fill_eth m (rt_iface e) q)]\<rparr>)"
    using ip_send_packet_known [OF w q(2), of ?s1 e m] assms(2,3) by (simp add: s1 own_hdr_def)
  moreover have "icmp_lens h (int n) ICMP_ECHOREPLY = (int n, int (k + 8))"
    using r(6) by (simp add: icmp_lens_def)
  moreover have "(of_int (int IP_BASE_HDR_SIZE + int (k + 8)) :: u16) = of_nat (28 + k)"
    by simp
  ultimately have sent: "icmp_send_packet p (int n) ICMP_ECHOREPLY 0 s
       = Some (s\<lparr>rand_pos := Suc (rand_pos s), wire := wire s @ [(rt_iface e, fill_eth m (rt_iface e) q)]\<rparr>)"
    using r(1) q1(1) q(1) by (simp add: icmp_send_packet_def)
  have drop34: "drop 34 q = drop 34 q1"
    using q(5) [of 34 "n - 34"] q(4) q1(2) r(4) size by (simp add: load_bytes_def)
  have "get_icmp q 34 = Some oh" using q(5) [of 34 8] q1(3) by (simp add: load_struct_def)
  moreover have "load_bytes q 42 k = load_bytes p (14 + IP_HDR_SIZE h + 8) k"
    using q(5) [of 42 k] q1(8) data by simp
  moreover have "even k \<longrightarrow> icmp_ok q 34 (k + 8)" using q1(9) drop34 by (simp add: icmp_ok_def)
  moreover have "length q = length p" using q(4) q1(2) by (simp add: n_def)
  ultimately show ?thesis
    using sent [unfolded n_def] q(2,3) q1(4-7)
    by (intro exI [of _ q] exI [of _ oh] exI [of _ c] conjI) (assumption)+
qed

definition ping_ip :: iphdr where "ping_ip = own_hdr 0x0A000009 0x0A000001 32 IPPROTO_ICMP 1 0"
definition ping_icmp :: icmphdr where
  "ping_icmp = \<lparr>icmp_type = ICMP_ECHOREQUEST, icmp_code = 0, icmp_checksum_fld = 0, icmp_identifier = 7,
     icmp_sequence = 1\<rparr>"
definition ping :: bytes where "ping = replicate 14 0 @ enc_ip ping_ip @ enc_icmp ping_icmp @ [1, 2, 3, 4]"
definition ustack2 :: ustack where
  "ustack2 = ustack1\<lparr>arpcache := (arpcache ustack1)\<lparr>entries :=
     (entries (arpcache ustack1))[3 := new_entry 0 0x0A000009 (Mac 0 0 0 0 0 9)]\<rparr>\<rparr>"

lemma ping_facts:
  "echo_request ping ping_ip ping_icmp 4" "length ping = 46" "ntohl (ip_saddr ping_ip) = 0x0A000009"
  "longest_prefix_match ustack2 0x0A000009 = Some route24"
  "arpcache_lookup ustack2 (get_next_hop route24 0x0A000009) = Some (Mac 0 0 0 0 0 9)"
proof -
  show "echo_request ping ping_ip ping_icmp 4" "length ping = 46"
    by (simp_all add: echo_request_def ping_def load_struct_def load_bytes_def iph.length_enc icmph.length_enc
        iph.dec_enc icmph.dec_enc IP_HDR_SIZE_def) (simp_all add: ping_ip_def own_hdr_def IP_HDR_SIZE_def icmph.dec_enc
        icmph.length_enc iph.length_enc)
  show "ntohl (ip_saddr ping_ip) = 0x0A000009" by (simp add: ping_ip_def own_hdr_def)
  show "longest_prefix_match ustack2 0x0A000009 = Some route24"
    by (simp add: longest_prefix_match_def ustack2_def ustack1_def route_examples prefix_mask_def)
  have "arp_inv ustack2" "ent_hit 0x0A000009 (entries (arpcache ustack2) ! 3)"
    by (auto simp: arp_inv_def ustack2_def ustack1_def ustack0_def ent_hit_def new_entry_def nth_list_update)
  then show "arpcache_lookup ustack2 (get_next_hop route24 0x0A000009) = Some (Mac 0 0 0 0 0 9)"
    by (subst arp_lookup_unique [of _ 3])
       (auto simp: get_next_hop_def route_examples ustack2_def ustack1_def ustack0_def new_entry_def)
qed

lemma icmp_type_byte: "get_icmp p off = Some ih \<Longrightarrow> load8 p off = Some (icmp_type ih)"
  by (auto simp: load_struct_def load_bytes_def load8_def dec_icmp_def split: if_splits)

text \<open>C8. Ping is answered: when the IP handler gets an ICMP echo request addressed to the interface it came in
  on, whose sender is routable and whose next hop is resolved, the stack sends exactly one packet, back
  through the route to the sender. It is an echo reply
  with the addresses exchanged, the identifier, sequence number and data of the request, a valid
  header checksum and, for data of even length, a valid ICMP checksum. (The request is a packet with a
  complete header whose total length is the received one; the handler of TCP segments is an argument.)\<close>

theorem icmp_echo_reply:
  assumes "echo_request p h ih k" "ip_protocol h = IPPROTO_ICMP" "icmp_type ih = ICMP_ECHOREQUEST"
    and "ntohl (ip_daddr h) = if_ip iface"
    and "longest_prefix_match s (ntohl (ip_saddr h)) = Some e"
    and "arpcache_lookup s (get_next_hop e (ntohl (ip_saddr h))) = Some m"
  shows "\<exists>q oh c. handle_ip_packet tcp iface p (int (length p)) s
       = Some (s\<lparr>rand_pos := Suc (rand_pos s), wire := wire s @ [(rt_iface e, fill_eth m (rt_iface e) q)]\<rparr>)
     \<and> length q = length p \<and> ip_header_ok q 14
     \<and> get_ip q 14 = Some (own_hdr (if_ip iface) (ntohl (ip_saddr h)) (of_nat (28 + k)) IPPROTO_ICMP
                             (of_nat (rand_fn s (rand_pos s))) c)
     \<and> get_icmp q 34 = Some oh \<and> icmp_type oh = ICMP_ECHOREPLY \<and> icmp_code oh = 0
     \<and> icmp_identifier oh = icmp_identifier ih \<and> icmp_sequence oh = icmp_sequence ih
     \<and> load_bytes q 42 k = load_bytes p (14 + IP_HDR_SIZE h + 8) k
     \<and> (even k \<longrightarrow> icmp_ok q 34 (k + 8))"
proof -
  have "get_ip p 14 = Some h" "get_icmp p (14 + IP_HDR_SIZE h) = Some ih" using assms(1) by (auto simp: echo_request_def)
  then have "handle_ip_packet tcp iface p (int (length p)) s = icmp_send_packet p (int (length p)) ICMP_ECHOREPLY 0 s"
    using assms(2-4) icmp_type_byte by (simp add: handle_ip_packet_def)
  then show ?thesis using icmp_echo_sent [OF assms(1,5,6)] assms(4) by simp
qed

theorem icmp_echo_reply_witness:
  "\<exists>q oh. handle_ip_packet (\<lambda>_ _ _ _. None) iface0 ping 46 ustack2
       = Some (ustack2\<lparr>rand_pos := Suc (rand_pos ustack2), wire := [(iface0, fill_eth (Mac 0 0 0 0 0 9) iface0 q)]\<rparr>)
     \<and> get_icmp q 34 = Some oh \<and> icmp_identifier oh = 7 \<and> icmp_ok q 34 12"
proof -
  have "wire ustack2 = []" "rt_iface route24 = iface0"
    by (simp_all add: ustack2_def ustack1_def ustack0_def route_examples)
  moreover have "ip_protocol ping_ip = IPPROTO_ICMP" "icmp_type ping_icmp = ICMP_ECHOREQUEST" "ntohl (ip_daddr ping_ip) = if_ip iface0"
    by (simp_all add: ping_ip_def ping_icmp_def own_hdr_def iface0_def)
  ultimately show ?thesis
    using icmp_echo_reply [OF ping_facts(1), of iface0 ustack2 route24 "Mac 0 0 0 0 0 9" "\<lambda>_ _ _ _. None"] ping_facts
    by (auto simp: ping_icmp_def)
qed

text \<open>The echo reply trusts the total length of the received header: when it promises more data
  than was received, copying the data reads past the end of the packet.\<close>

theorem icmp_echo_trusts_tot_len:
  assumes "get_ip p 14 = Some h" "length p < 14 + unat (ntohs (ip_tot_len h))"
  shows "icmp_send_packet p (int (length p)) ICMP_ECHOREPLY 0 s = None"
proof -
  define j where "j = 14 + IP_HDR_SIZE h"
  define l where "l = int (unat (ntohs (ip_tot_len h))) - int (IP_HDR_SIZE h)"
  have "memcpy q 42 p (j + 8) (l - 8) = None" for q
  proof -
    have "\<not> (j + 8) + nat (l - 8) \<le> length p" if "8 \<le> l"
      using that assms(2) unfolding j_def l_def by linarith
    then show ?thesis by (auto simp: memcpy_def load_bytes_def)
  qed
  then have "icmp_fill p h (int (length p)) l ICMP_ECHOREPLY 0 = None"
    by (auto simp: icmp_fill_def j_def Let_def add.assoc split: bind_splits)
  moreover have "icmp_lens h (int (length p)) ICMP_ECHOREPLY = (int (length p), l)"
    by (simp add: icmp_lens_def l_def)
  ultimately show ?thesis using assms(1) by (simp add: icmp_send_packet_def)
qed

theorem icmp_echo_trusts_tot_len_witness:
  "icmp_send_packet (replicate 14 0 @ enc_ip ping_ip @ enc_icmp ping_icmp) 42 ICMP_ECHOREPLY 0 ustack0 = None"
  using icmp_echo_trusts_tot_len [of "replicate 14 0 @ enc_ip ping_ip @ enc_icmp ping_icmp" ping_ip ustack0]
  by (simp add: load_struct_def load_bytes_def iph.length_enc iph.dec_enc icmph.length_enc)
     (simp add: ping_ip_def own_hdr_def)

lemma icmp_error_sent:
  assumes "get_ip p 14 = Some h" "14 + IP_HDR_SIZE h + 8 \<le> length p" "type \<noteq> ICMP_ECHOREPLY"
    and "longest_prefix_match s (ntohl (ip_saddr h)) = Some e"
    and "arpcache_lookup s (get_next_hop e (ntohl (ip_saddr h))) = Some m"
  shows "\<exists>q oh c. icmp_send_packet p len type code s
       = Some (s\<lparr>rand_pos := Suc (rand_pos s), wire := wire s @ [(rt_iface e, fill_eth m (rt_iface e) q)]\<rparr>)
     \<and> ip_header_ok q 14
     \<and> get_ip q 14 = Some (own_hdr (if_ip (rt_iface e)) (ntohl (ip_saddr h)) (of_nat (36 + IP_HDR_SIZE h)) IPPROTO_ICMP
                             (of_nat (rand_fn s (rand_pos s))) c)
     \<and> get_icmp q 34 = Some oh \<and> icmp_type oh = type \<and> icmp_code oh = code
     \<and> load_bytes q 42 (IP_HDR_SIZE h + 8) = load_bytes p 14 (IP_HDR_SIZE h + 8)
     \<and> icmp_ok q 34 (IP_HDR_SIZE h + 16)"
proof -
  define k where "k = IP_HDR_SIZE h + 8"
  have k: "k \<le> 68" "even k" using ihl_bound [of "ip_ihl h"] by (auto simp: k_def IP_HDR_SIZE_def)
  obtain data where data: "load_bytes p 14 k = Some data"
    using assms(2) by (auto simp: load_bytes_def k_def)
  obtain q1 oh where q1: "icmp_fill p h (int (42 + k)) (int (k + 8)) type code = Some q1" "length q1 = 42 + k"
    "get_icmp q1 34 = Some oh" "icmp_type oh = type" "icmp_code oh = code"
    "load_bytes q1 42 k = Some data" "icmp_ok q1 34 (k + 8)"
    using icmp_fill_error [OF data _ assms(3), of h code] k by auto
  obtain q c where q: "ip_init_hdr q1 14 (if_ip (rt_iface e)) (ntohl (ip_saddr h)) (of_nat (28 + k)) IPPROTO_ICMP s
      = Some (q, s\<lparr>rand_pos := Suc (rand_pos s)\<rparr>)"
    "get_ip q 14 = Some (own_hdr (if_ip (rt_iface e)) (ntohl (ip_saddr h)) (of_nat (28 + k)) IPPROTO_ICMP
        (of_nat (rand_fn s (rand_pos s))) c)"
    "ip_header_ok q 14" "length q = length q1"
    "\<And>j l. 34 \<le> j \<Longrightarrow> load_bytes q j l = load_bytes q1 j l"
    using ip_init_hdr_valid [of 14 q1 "if_ip (rt_iface e)" "ntohl (ip_saddr h)" "of_nat (28 + k)" IPPROTO_ICMP s]
      q1(2) by auto
  let ?s1 = "s\<lparr>rand_pos := Suc (rand_pos s)\<rparr>"
  have s1: "longest_prefix_match ?s1 x = longest_prefix_match s x" "arpcache_lookup ?s1 y = arpcache_lookup s y" for x y
    by (simp_all add: longest_prefix_match_def arpcache_lookup_def)
  have w: "whole q (int (42 + k))" using q(4) q1(2) by (simp add: whole_def)
  have "ip_send_packet q (int (42 + k)) ?s1 = Some (?s1\<lparr>wire := wire s @ [(rt_iface e, fill_eth m (rt_iface e) q)]\<rparr>)"
    using ip_send_packet_known [OF w q(2), of ?s1 e m] assms(4,5) by (simp add: s1 own_hdr_def)
  moreover have "icmp_lens h len type = (int (42 + k), int (k + 8))"
    using assms(3) by (simp add: icmp_lens_def k_def)
  moreover have "(of_int (int IP_BASE_HDR_SIZE + int (k + 8)) :: u16) = of_nat (28 + k)" by simp
  ultimately have "icmp_send_packet p len type code s
       = Some (s\<lparr>rand_pos := Suc (rand_pos s), wire := wire s @ [(rt_iface e, fill_eth m (rt_iface e) q)]\<rparr>)"
    using assms(1,3,4) q1(1) q(1) by (simp add: icmp_send_packet_def)
  moreover have "drop 34 q = drop 34 q1"
    using q(5) [of 34 "8 + k"] q(4) q1(2) by (simp add: load_bytes_def)
  then have "icmp_ok q 34 (k + 8)" using q1(7) by (simp add: icmp_ok_def)
  moreover have "get_icmp q 34 = Some oh" using q(5) [of 34 8] q1(3) by (simp add: load_struct_def)
  moreover have "load_bytes q 42 k = load_bytes p 14 k" using q(5) [of 42 k] q1(6) data by simp
  ultimately show ?thesis
    using q(2,3) q1(4,5) unfolding k_def by (auto simp: add.commute)
qed

text \<open>A packet whose time to live has run out is not forwarded: with a routable, resolved sender
  the only frame sent is an ICMP time-exceeded message to the sender, from the address of the
  outgoing interface, with valid IP and ICMP checksums, quoting the packet's header and the first
  8 bytes behind it.\<close>

theorem ip_forward_packet_ttl_expired:
  assumes "get_ip p 14 = Some h" "ip_ttl h \<le> 1" "14 + IP_HDR_SIZE h + 8 \<le> length p"
    and "longest_prefix_match s (ntohl (ip_saddr h)) = Some e"
    and "arpcache_lookup s (get_next_hop e (ntohl (ip_saddr h))) = Some m"
  shows "\<exists>q oh c. ip_forward_packet d p len s
       = Some (s\<lparr>rand_pos := Suc (rand_pos s), wire := wire s @ [(rt_iface e, fill_eth m (rt_iface e) q)]\<rparr>)
     \<and> ip_header_ok q 14
     \<and> get_ip q 14 = Some (own_hdr (if_ip (rt_iface e)) (ntohl (ip_saddr h)) (of_nat (36 + IP_HDR_SIZE h)) IPPROTO_ICMP
                             (of_nat (rand_fn s (rand_pos s))) c)
     \<and> get_icmp q 34 = Some oh \<and> icmp_type oh = ICMP_TIME_EXCEEDED \<and> icmp_code oh = ICMP_EXC_TTL
     \<and> load_bytes q 42 (IP_HDR_SIZE h + 8) = load_bytes p 14 (IP_HDR_SIZE h + 8)
     \<and> icmp_ok q 34 (IP_HDR_SIZE h + 16)"
proof -
  have "ip_forward_packet d p len s = icmp_send_packet p len ICMP_TIME_EXCEEDED ICMP_EXC_TTL s"
    using assms(1,2) by (simp add: ip_forward_packet_def)
  moreover have "ICMP_TIME_EXCEEDED \<noteq> ICMP_ECHOREPLY"
    by (simp add: ICMP_TIME_EXCEEDED_def ICMP_ECHOREPLY_def)
  ultimately show ?thesis
    using icmp_error_sent [OF assms(1,3) _ assms(4,5), of ICMP_TIME_EXCEEDED len ICMP_EXC_TTL] by simp
qed

definition dying_ip :: iphdr where "dying_ip = ping_ip\<lparr>ip_ttl := 1\<rparr>"

theorem ip_forward_packet_ttl_expired_witness:
  "\<exists>q oh. ip_forward_packet 0x0A000107 (replicate 14 0 @ enc_ip dying_ip @ replicate 12 7) 46 ustack2
       = Some (ustack2\<lparr>rand_pos := Suc (rand_pos ustack2), wire := wire ustack2 @ [(iface0, fill_eth (Mac 0 0 0 0 0 9) iface0 q)]\<rparr>)
     \<and> get_icmp q 34 = Some oh \<and> icmp_type oh = ICMP_TIME_EXCEEDED \<and> icmp_ok q 34 36"
proof -
  have "rt_iface route24 = iface0" "ip_saddr dying_ip = ip_saddr ping_ip" "ip_ttl dying_ip = 1"
    "IP_HDR_SIZE dying_ip = 20"
    by (simp_all add: route_examples dying_ip_def ping_ip_def own_hdr_def IP_HDR_SIZE_def)
  moreover have "get_ip (replicate 14 0 @ enc_ip dying_ip @ replicate 12 7) 14 = Some dying_ip"
    by (simp add: load_struct_def load_bytes_def iph.length_enc iph.dec_enc)
  ultimately show ?thesis
    using ip_forward_packet_ttl_expired [of "replicate 14 0 @ enc_ip dying_ip @ replicate 12 7" dying_ip ustack2
        route24 "Mac 0 0 0 0 0 9" "0x0A000107" 46] ping_facts
    by (auto simp: iph.length_enc)
qed

section \<open>Giving up on a host\<close>

text \<open>A waiting packet that an ICMP error can quote: its IP header and 8 bytes behind it are there.\<close>

definition quotable :: "cached_pkt \<Rightarrow> bool" where
  "quotable c \<longleftrightarrow> (\<exists>h. get_ip (cp_packet c) 14 = Some h \<and> 14 + IP_HDR_SIZE h + 8 \<le> length (cp_packet c))"

text \<open>Among the frames there is a host-unreachable message for the packet: sent along the route \<open>e\<close> to the
  hardware address \<open>m\<close>, addressed to the packet's sender, with valid checksums, quoting the packet.\<close>

definition host_unreachable :: "cached_pkt \<Rightarrow> rt_entry \<Rightarrow> mac \<Rightarrow> frame list \<Rightarrow> bool" where
  "host_unreachable c e m fs \<longleftrightarrow> (\<exists>q h oh i chk. (rt_iface e, fill_eth m (rt_iface e) q) \<in> set fs
     \<and> get_ip (cp_packet c) 14 = Some h \<and> ip_header_ok q 14
     \<and> get_ip q 14 = Some (own_hdr (if_ip (rt_iface e)) (ntohl (ip_saddr h)) (of_nat (36 + IP_HDR_SIZE h)) IPPROTO_ICMP i chk)
     \<and> get_icmp q 34 = Some oh \<and> icmp_type oh = ICMP_DEST_UNREACH \<and> icmp_code oh = ICMP_HOST_UNREACH
     \<and> load_bytes q 42 (IP_HDR_SIZE h + 8) = load_bytes (cp_packet c) 14 (IP_HDR_SIZE h + 8)
     \<and> icmp_ok q 34 (IP_HDR_SIZE h + 16))"

lemma host_unreachable_mono: "host_unreachable c e m fs \<Longrightarrow> set fs \<subseteq> set fs' \<Longrightarrow> host_unreachable c e m fs'"
  unfolding host_unreachable_def by blast

abbreviation reqs :: "'a ustack_scheme \<Rightarrow> arp_req set" where
  "reqs s \<equiv> set (req_list (arpcache s))"

text \<open>What sending an ICMP message does to the waiting packets: it may add a packet to a request or add a
  request; nothing that waits is lost.\<close>

definition icmp_step :: "'a ustack_scheme \<Rightarrow> 'a ustack_scheme \<Rightarrow> bool" where
  "icmp_step s s' \<longleftrightarrow> rtable s' = rtable s \<and> now s' = now s \<and> entries (arpcache s') = entries (arpcache s)
     \<and> (\<exists>w. wire s' = wire s @ w)
     \<and> (\<forall>r' \<in> reqs s'. (\<forall>c \<in> set (req_pkts r'). quotable c \<or> (\<exists>r \<in> reqs s. c \<in> set (req_pkts r)))
          \<and> (req_sent r' = now s \<or> (\<exists>r \<in> reqs s. req_sent r' = req_sent r \<and> req_retries r' = req_retries r)))
     \<and> (\<forall>r \<in> reqs s. \<exists>r' \<in> reqs s'. req_sent r' = req_sent r \<and> set (req_pkts r) \<subseteq> set (req_pkts r'))"

lemma icmp_step_same:
  assumes "rtable s' = rtable s" "now s' = now s" "arpcache s' = arpcache s" "wire s' = wire s @ w"
  shows "icmp_step s s'"
  using assms unfolding icmp_step_def by auto

lemma icmp_step_pkts: "icmp_step s s' \<Longrightarrow> r' \<in> reqs s' \<Longrightarrow> c \<in> set (req_pkts r') \<Longrightarrow> \<not> quotable c \<Longrightarrow> \<exists>r \<in> reqs s. c \<in> set (req_pkts r)"
  unfolding icmp_step_def by blast

lemma icmp_step_sent:
  "icmp_step s s' \<Longrightarrow> r' \<in> reqs s' \<Longrightarrow> req_sent r' \<noteq> now s \<Longrightarrow> \<exists>r \<in> reqs s. req_sent r' = req_sent r \<and> req_retries r' = req_retries r"
  unfolding icmp_step_def by blast

lemma icmp_step_kept:
  "icmp_step s s' \<Longrightarrow> r \<in> reqs s \<Longrightarrow> \<exists>r' \<in> reqs s'. req_sent r' = req_sent r \<and> set (req_pkts r) \<subseteq> set (req_pkts r')"
  unfolding icmp_step_def by blast

lemma icmp_step_trans:
  assumes "icmp_step s t" "icmp_step t u"
  shows "icmp_step s u"
proof -
  have 1: "rtable u = rtable s" "now u = now s" "entries (arpcache u) = entries (arpcache s)" "\<exists>w. wire u = wire s @ w"
    and t: "now t = now s"
    using assms by (auto simp: icmp_step_def)
  have 2: "quotable c \<or> (\<exists>r \<in> reqs s. c \<in> set (req_pkts r))" if "r' \<in> reqs u" "c \<in> set (req_pkts r')" for r' c
    using icmp_step_pkts [OF assms(2) that] icmp_step_pkts [OF assms(1)] by blast
  have 3: "req_sent r' = now s \<or> (\<exists>r \<in> reqs s. req_sent r' = req_sent r \<and> req_retries r' = req_retries r)"
    if r': "r' \<in> reqs u" for r'
  proof (cases "req_sent r' = now s")
    case False
    then obtain r1 where "r1 \<in> reqs t" "req_sent r' = req_sent r1" "req_retries r' = req_retries r1"
      using icmp_step_sent [OF assms(2) r'] t by auto
    then show ?thesis using icmp_step_sent [OF assms(1), of r1] by auto
  qed simp
  have 4: "\<exists>r' \<in> reqs u. req_sent r' = req_sent r \<and> set (req_pkts r) \<subseteq> set (req_pkts r')" if r: "r \<in> reqs s" for r
  proof -
    obtain r1 where r1: "r1 \<in> reqs t" "req_sent r1 = req_sent r" "set (req_pkts r) \<subseteq> set (req_pkts r1)"
      using icmp_step_kept [OF assms(1) r] by auto
    obtain r2 where "r2 \<in> reqs u" "req_sent r2 = req_sent r1" "set (req_pkts r1) \<subseteq> set (req_pkts r2)"
      using icmp_step_kept [OF assms(2) r1(1)] by auto
    with r1 show ?thesis by (intro bexI [of _ r2]) auto
  qed
  show ?thesis unfolding icmp_step_def using 1 2 3 4 by (intro conjI ballI) auto
qed

lemma append_to_req_grows:
  "append_to_req i ip4 pkt rs = Some rs' \<Longrightarrow>
     (\<forall>r' \<in> set rs'. \<exists>r \<in> set rs. req_sent r' = req_sent r \<and> req_retries r' = req_retries r
         \<and> set (req_pkts r') \<subseteq> insert pkt (set (req_pkts r)))
   \<and> (\<forall>r \<in> set rs. \<exists>r' \<in> set rs'. req_sent r' = req_sent r \<and> set (req_pkts r) \<subseteq> set (req_pkts r'))"
proof (induction rs arbitrary: rs')
  case (Cons r rs)
  show ?case
  proof (cases "if_index (req_iface r) = if_index i \<and> req_ip4 r = ip4")
    case True
    then have "rs' = r\<lparr>req_pkts := req_pkts r @ [pkt]\<rparr> # rs" using Cons.prems by simp
    then show ?thesis by auto
  next
    case False
    then obtain q where q: "rs' = r # q" "append_to_req i ip4 pkt rs = Some q" using Cons.prems by auto
    from Cons.IH [OF q(2)] show ?thesis unfolding q(1) by (simp, blast)
  qed
qed simp

lemma queue_step:
  assumes "quotable \<lparr>cp_packet = p, cp_len = len\<rparr>"
  shows "\<exists>s'. arpcache_append_packet i ip4 p len s = Some s' \<and> icmp_step s s'"
proof (cases "append_to_req i ip4 \<lparr>cp_packet = p, cp_len = len\<rparr> (req_list (arpcache s))")
  case (Some rs)
  then have "arpcache_append_packet i ip4 p len s = Some (s\<lparr>arpcache := (arpcache s)\<lparr>req_list := rs\<rparr>\<rparr>)"
    by (simp add: arpcache_append_packet_def Let_def)
  moreover have "icmp_step s (s\<lparr>arpcache := (arpcache s)\<lparr>req_list := rs\<rparr>\<rparr>)"
  proof -
    let ?t = "s\<lparr>arpcache := (arpcache s)\<lparr>req_list := rs\<rparr>\<rparr>"
    have "quotable c \<or> (\<exists>r \<in> reqs s. c \<in> set (req_pkts r))" if "r' \<in> set rs" "c \<in> set (req_pkts r')" for r' c
      using append_to_req_grows [OF Some] assms that by fastforce
    moreover have "\<exists>r \<in> reqs s. req_sent r' = req_sent r \<and> req_retries r' = req_retries r" if "r' \<in> set rs" for r'
      using append_to_req_grows [OF Some] that by fastforce
    moreover have "\<exists>r' \<in> set rs. req_sent r' = req_sent r \<and> set (req_pkts r) \<subseteq> set (req_pkts r')" if "r \<in> reqs s" for r
      using append_to_req_grows [OF Some] that by fastforce
    ultimately show ?thesis unfolding icmp_step_def by simp
  qed
  ultimately show ?thesis by blast
next
  case None
  let ?r = "\<lparr>req_iface = i, req_ip4 = ip4, req_sent = now s, req_retries = 1, req_pkts = [\<lparr>cp_packet = p, cp_len = len\<rparr>]\<rparr>"
  let ?s = "s\<lparr>arpcache := (arpcache s)\<lparr>req_list := ?r # req_list (arpcache s)\<rparr>, wire := wire s @ [(i, arp_request_packet i ip4)]\<rparr>"
  have "arpcache_append_packet i ip4 p len s = Some ?s"
    using None by (simp add: arpcache_append_packet_def Let_def arp_send_request_sent)
  moreover have "icmp_step s ?s" using assms unfolding icmp_step_def by auto
  ultimately show ?thesis by blast
qed

text \<open>One message of the last loop of the sweep.\<close>

lemma icmp_unreach_step:
  assumes "quotable c"
  shows "\<exists>s'. icmp_send_packet (cp_packet c) (cp_len c) ICMP_DEST_UNREACH ICMP_HOST_UNREACH s = Some s' \<and> icmp_step s s'
     \<and> (\<forall>h e m. get_ip (cp_packet c) 14 = Some h \<and> longest_prefix_match s (ntohl (ip_saddr h)) = Some e
          \<and> arpcache_lookup s (get_next_hop e (ntohl (ip_saddr h))) = Some m
          \<longrightarrow> host_unreachable c e m (drop (length (wire s)) (wire s')))"
proof -
  let ?p = "cp_packet c" and ?u = ICMP_DEST_UNREACH
  obtain h where h: "get_ip ?p 14 = Some h" "14 + IP_HDR_SIZE h + 8 \<le> length ?p"
    using assms by (auto simp: quotable_def)
  have u: "?u \<noteq> ICMP_ECHOREPLY" by (simp add: ICMP_DEST_UNREACH_def ICMP_ECHOREPLY_def)
  define k where "k = IP_HDR_SIZE h + 8"
  have k: "k \<le> 68" "even k" using ihl_bound [of "ip_ihl h"] by (auto simp: k_def IP_HDR_SIZE_def)
  obtain data where data: "load_bytes ?p 14 k = Some data"
    using h(2) by (auto simp: load_bytes_def k_def)
  obtain q1 where q1: "icmp_fill ?p h (int (42 + k)) (int (k + 8)) ?u ICMP_HOST_UNREACH = Some q1" "length q1 = 42 + k"
    using icmp_fill_error [OF data _ u, of h ICMP_HOST_UNREACH] k by auto
  have lens: "icmp_lens h (cp_len c) ?u = (int (42 + k), int (k + 8))"
    using u by (simp add: icmp_lens_def k_def)
  show ?thesis
  proof (cases "longest_prefix_match s (ntohl (ip_saddr h))")
    case None
    then have "icmp_send_packet ?p (cp_len c) ?u ICMP_HOST_UNREACH s = Some s"
      using h(1) q1(1) lens u by (simp add: icmp_send_packet_def)
    then show ?thesis using None h(1) by (auto intro!: icmp_step_same [where w = "[]"])
  next
    case route: (Some e)
    show ?thesis
    proof (cases "arpcache_lookup s (get_next_hop e (ntohl (ip_saddr h)))")
      case (Some m)
      let ?f = "\<lambda>q. (rt_iface e, fill_eth m (rt_iface e) q)"
      obtain q where q: "icmp_send_packet ?p (cp_len c) ?u ICMP_HOST_UNREACH s
          = Some (s\<lparr>rand_pos := Suc (rand_pos s), wire := wire s @ [?f q]\<rparr>)" "host_unreachable c e m [?f q]"
        using icmp_error_sent [OF h u route Some, of "cp_len c" ICMP_HOST_UNREACH] h(1)
        unfolding host_unreachable_def by fastforce
      moreover have "icmp_step s (s\<lparr>rand_pos := Suc (rand_pos s), wire := wire s @ [?f q]\<rparr>)"
        by (rule icmp_step_same) simp_all
      ultimately show ?thesis using h(1) route Some by (intro exI conjI) auto
    next
      case None
      let ?s1 = "s\<lparr>rand_pos := Suc (rand_pos s)\<rparr>" and ?nh = "get_next_hop e (ntohl (ip_saddr h))"
      obtain q i chk where q: "ip_init_hdr q1 14 (if_ip (rt_iface e)) (ntohl (ip_saddr h)) (of_nat (28 + k)) IPPROTO_ICMP s = Some (q, ?s1)"
        "get_ip q 14 = Some (own_hdr (if_ip (rt_iface e)) (ntohl (ip_saddr h)) (of_nat (28 + k)) IPPROTO_ICMP i chk)"
        "length q = length q1"
        using ip_init_hdr_valid [of 14 q1 "if_ip (rt_iface e)" "ntohl (ip_saddr h)" "of_nat (28 + k)" IPPROTO_ICMP s] q1(2) by auto
      have s1: "longest_prefix_match ?s1 x = longest_prefix_match s x" "arpcache_lookup ?s1 y = arpcache_lookup s y" for x y
        by (simp_all add: longest_prefix_match_def arpcache_lookup_def)
      have w: "whole q (int (42 + k))" using q(3) q1(2) by (simp add: whole_def)
      obtain eh where eh: "get_eth q = Some eh" using w get_eth_whole by (auto simp: whole_def)
      define q2 where "q2 = enc_ether (eh\<lparr>ether_type := ntohs ETH_P_IP, ether_shost := if_mac (rt_iface e)\<rparr>) @ drop 14 q"
      have put: "put_eth q (eh\<lparr>ether_type := ntohs ETH_P_IP, ether_shost := if_mac (rt_iface e)\<rparr>) = Some q2"
        using w by (simp add: put_eth_whole whole_def q2_def)
      have w2: "whole q2 (int (42 + k))" using w by (simp add: whole_def q2_def eth.length_enc)
      have "icmp_send_packet ?p (cp_len c) ?u ICMP_HOST_UNREACH s = ip_send_packet q (int (42 + k)) ?s1"
        using h(1) q1(1) lens u route q(1) by (simp add: icmp_send_packet_def)
      also have "\<dots> = iface_send_packet_by_arp (rt_iface e) ?nh q2 (int (42 + k)) ?s1"
        using q(2) eh put route by (simp add: ip_send_packet_def s1 own_hdr_def)
      also have "\<dots> = arpcache_append_packet (rt_iface e) ?nh (fill_eth (old_dhost q2) (rt_iface e) q2) (int (42 + k)) ?s1"
        using None by (intro send_by_arp_unknown [OF w2]) (simp add: s1)
      finally have send: "icmp_send_packet ?p (cp_len c) ?u ICMP_HOST_UNREACH s
        = arpcache_append_packet (rt_iface e) ?nh (fill_eth (old_dhost q2) (rt_iface e) q2) (int (42 + k)) ?s1" .
      have "get_ip (fill_eth (old_dhost q2) (rt_iface e) q2) 14 = get_ip q 14"
        using w by (simp add: fill_eth_def q2_def eth.length_enc load_struct_def load_bytes_def whole_def)
      moreover have "length (fill_eth (old_dhost q2) (rt_iface e) q2) = 42 + k"
        using w by (simp add: fill_eth_def q2_def eth.length_enc whole_def)
      ultimately have "quotable \<lparr>cp_packet = fill_eth (old_dhost q2) (rt_iface e) q2, cp_len = int (42 + k)\<rparr>"
        using q(2) by (simp add: quotable_def own_hdr_def IP_HDR_SIZE_def)
      from queue_step [OF this, of "rt_iface e" ?nh ?s1] obtain s' where
        s': "icmp_send_packet ?p (cp_len c) ?u ICMP_HOST_UNREACH s = Some s'" "icmp_step ?s1 s'" unfolding send by blast
      moreover have "icmp_step s ?s1" by (rule icmp_step_same [where w = "[]"]) simp_all
      ultimately have "icmp_step s s'" using icmp_step_trans by blast
      with s'(1) None route h(1) show ?thesis by auto
    qed
  qed
qed

lemma icmp_unreach_all:
  assumes "\<forall>c \<in> set ps. quotable c"
  shows "\<exists>s'. fold_opt (\<lambda>p s. icmp_send_packet (cp_packet p) (cp_len p) ICMP_DEST_UNREACH ICMP_HOST_UNREACH s) ps s = Some s'
     \<and> icmp_step s s'
     \<and> (\<forall>c \<in> set ps. \<forall>h e m. get_ip (cp_packet c) 14 = Some h \<and> longest_prefix_match s (ntohl (ip_saddr h)) = Some e
          \<and> arpcache_lookup s (get_next_hop e (ntohl (ip_saddr h))) = Some m
          \<longrightarrow> host_unreachable c e m (drop (length (wire s)) (wire s')))"
  using assms
proof (induction ps arbitrary: s)
  case Nil
  then show ?case by (auto intro!: icmp_step_same [where w = "[]"])
next
  case (Cons c ps)
  obtain s1 where s1: "icmp_send_packet (cp_packet c) (cp_len c) ICMP_DEST_UNREACH ICMP_HOST_UNREACH s = Some s1" "icmp_step s s1"
    "\<And>h e m. get_ip (cp_packet c) 14 = Some h \<Longrightarrow> longest_prefix_match s (ntohl (ip_saddr h)) = Some e
       \<Longrightarrow> arpcache_lookup s (get_next_hop e (ntohl (ip_saddr h))) = Some m
       \<Longrightarrow> host_unreachable c e m (drop (length (wire s)) (wire s1))"
    using icmp_unreach_step [of c s] Cons.prems by auto
  obtain s' where s': "fold_opt (\<lambda>p s. icmp_send_packet (cp_packet p) (cp_len p) ICMP_DEST_UNREACH ICMP_HOST_UNREACH s) ps s1 = Some s'"
    "icmp_step s1 s'"
    "\<And>c h e m. c \<in> set ps \<Longrightarrow> get_ip (cp_packet c) 14 = Some h \<Longrightarrow> longest_prefix_match s1 (ntohl (ip_saddr h)) = Some e
       \<Longrightarrow> arpcache_lookup s1 (get_next_hop e (ntohl (ip_saddr h))) = Some m
       \<Longrightarrow> host_unreachable c e m (drop (length (wire s1)) (wire s'))"
    using Cons.IH [of s1] Cons.prems by auto
  obtain w1 w2 where w: "wire s1 = wire s @ w1" "wire s' = wire s1 @ w2"
    using s1(2) s'(2) unfolding icmp_step_def by blast
  have same: "longest_prefix_match s1 x = longest_prefix_match s x" "arpcache_lookup s1 y = arpcache_lookup s y" for x y
    using s1(2) by (simp_all add: icmp_step_def longest_prefix_match_def arpcache_lookup_def)
  have sub: "set (drop (length (wire s)) (wire s1)) \<subseteq> set (drop (length (wire s)) (wire s'))"
    "set (drop (length (wire s1)) (wire s')) \<subseteq> set (drop (length (wire s)) (wire s'))"
    by (simp_all add: w)
  have "host_unreachable c' e m (drop (length (wire s)) (wire s'))"
    if "c' \<in> set (c # ps)" "get_ip (cp_packet c') 14 = Some h" "longest_prefix_match s (ntohl (ip_saddr h)) = Some e"
      "arpcache_lookup s (get_next_hop e (ntohl (ip_saddr h))) = Some m" for c' h e m
  proof (cases "c' = c")
    case True
    then show ?thesis using host_unreachable_mono [OF s1(3) sub(1)] that by blast
  next
    case False
    then show ?thesis using host_unreachable_mono [OF s'(3) sub(2), of c' h] that same by simp
  qed
  then show ?case using s1(1) s'(1) icmp_step_trans [OF s1(2) s'(2)] by auto
qed

definition resent :: "int \<Rightarrow> arp_req list \<Rightarrow> frame list" where
  "resent t rs = map (\<lambda>r. (req_iface r, arp_request_packet (req_iface r) (req_ip4 r)))
     (filter (\<lambda>r. 1 \<le> t - req_sent r \<and> req_retries r < 5) rs)"

text \<open>The loop over the requests always returns; each packet stays with its request or is given up.\<close>

lemma sweep_reqs_step:
  "\<exists>rs' ps. sweep_reqs t rs s = Some (rs', ps, s\<lparr>wire := wire s @ resent t rs\<rparr>)
     \<and> (\<forall>c \<in> set ps. \<exists>r \<in> set rs. c \<in> set (req_pkts r))
     \<and> (\<forall>r \<in> set rs. set (req_pkts r) \<subseteq> set ps \<or> (\<exists>r' \<in> set rs'. req_sent r' = req_sent r \<and> req_pkts r' = req_pkts r))
     \<and> (\<forall>r' \<in> set rs'. \<exists>r \<in> set rs. req_sent r' = req_sent r \<and> req_pkts r' = req_pkts r \<and>
          (if req_sent r < t then req_retries r < 5 \<and> req_retries r' = req_retries r + 1 else req_retries r' = req_retries r))"
proof (induction rs arbitrary: s)
  case (Cons r rs)
  define s0 where "s0 = (if 1 \<le> t - req_sent r \<and> req_retries r < 5
     then s\<lparr>wire := wire s @ [(req_iface r, arp_request_packet (req_iface r) (req_ip4 r))]\<rparr> else s)"
  obtain rs' ps where IH: "sweep_reqs t rs s0 = Some (rs', ps, s0\<lparr>wire := wire s0 @ resent t rs\<rparr>)"
    "\<forall>c \<in> set ps. \<exists>r \<in> set rs. c \<in> set (req_pkts r)"
    "\<forall>r \<in> set rs. set (req_pkts r) \<subseteq> set ps \<or> (\<exists>r' \<in> set rs'. req_sent r' = req_sent r \<and> req_pkts r' = req_pkts r)"
    "\<forall>r' \<in> set rs'. \<exists>r \<in> set rs. req_sent r' = req_sent r \<and> req_pkts r' = req_pkts r \<and>
          (if req_sent r < t then req_retries r < 5 \<and> req_retries r' = req_retries r + 1 else req_retries r' = req_retries r)"
    using Cons.IH [of s0] by blast
  have w: "s0\<lparr>wire := wire s0 @ resent t rs\<rparr> = s\<lparr>wire := wire s @ resent t (r # rs)\<rparr>"
    by (simp add: s0_def resent_def)
  consider "t - req_sent r < 1" | "1 \<le> t - req_sent r" "req_retries r < 5" | "1 \<le> t - req_sent r" "5 \<le> req_retries r"
    by linarith
  then show ?case
  proof cases
    case 1
    then show ?thesis using IH w
      by (intro exI [of _ "r # rs'"] exI [of _ ps]) (auto simp: s0_def)
  next
    case 2
    then show ?thesis using IH w
      by (intro exI [of _ "r\<lparr>req_retries := req_retries r + 1\<rparr> # rs'"] exI [of _ ps])
         (auto simp: s0_def arp_send_request_sent)
  next
    case 3
    then show ?thesis using IH w
      by (intro exI [of _ rs'] exI [of _ "req_pkts r @ ps"]) (auto simp: s0_def)
  qed
qed (simp add: resent_def)

text \<open>What one round of the sweeping thread does to the requests and their packets.\<close>

definition reported :: "'a ustack_scheme \<Rightarrow> int list \<Rightarrow> 'a ustack_scheme \<Rightarrow> cached_pkt \<Rightarrow> bool" where
  "reported s ts s' c \<longleftrightarrow> (\<forall>h e m. get_ip (cp_packet c) 14 = Some h \<and> longest_prefix_match s (ntohl (ip_saddr h)) = Some e
      \<and> (\<forall>t \<in> set ts. arpcache_lookup (arp_age t s) (get_next_hop e (ntohl (ip_saddr h))) = Some m)
      \<longrightarrow> host_unreachable c e m (drop (length (wire s)) (wire s')))"

lemma sweep_step:
  assumes "\<forall>r \<in> reqs s. \<forall>c \<in> set (req_pkts r). quotable c"
  shows "\<exists>s'. arpcache_sweep s = Some s' \<and> rtable s' = rtable s
     \<and> entries (arpcache s') = expire_entries (now s) (entries (arpcache s)) \<and> (\<exists>w. wire s' = wire s @ w)
     \<and> (\<forall>r \<in> reqs s'. \<forall>c \<in> set (req_pkts r). quotable c)
     \<and> (\<forall>r' \<in> reqs s'. req_sent r' = now s \<or> (\<exists>r \<in> reqs s. req_sent r' = req_sent r \<and>
          (if req_sent r < now s then req_retries r < 5 \<and> req_retries r' = req_retries r + 1 else req_retries r' = req_retries r)))
     \<and> (\<forall>r \<in> reqs s. \<forall>c \<in> set (req_pkts r).
          (\<exists>r' \<in> reqs s'. req_sent r' = req_sent r \<and> c \<in> set (req_pkts r')) \<or> reported s [now s] s' c)"
proof -
  let ?t = "now s"
  let ?s0 = "arp_age ?t s"
  have s0: "req_list (arpcache ?s0) = req_list (arpcache s)" "wire ?s0 = wire s" "rtable ?s0 = rtable s" "now ?s0 = now s"
    "entries (arpcache ?s0) = expire_entries ?t (entries (arpcache s))"
    by (simp_all add: arp_age_def)
  obtain rs ps where 1: "sweep_reqs ?t (req_list (arpcache s)) ?s0 = Some (rs, ps, ?s0\<lparr>wire := wire s @ resent ?t (req_list (arpcache s))\<rparr>)"
    "\<forall>c \<in> set ps. \<exists>r \<in> reqs s. c \<in> set (req_pkts r)"
    "\<forall>r \<in> reqs s. set (req_pkts r) \<subseteq> set ps \<or> (\<exists>r' \<in> set rs. req_sent r' = req_sent r \<and> req_pkts r' = req_pkts r)"
    "\<forall>r' \<in> set rs. \<exists>r \<in> reqs s. req_sent r' = req_sent r \<and> req_pkts r' = req_pkts r \<and>
          (if req_sent r < ?t then req_retries r < 5 \<and> req_retries r' = req_retries r + 1 else req_retries r' = req_retries r)"
    using sweep_reqs_step [of ?t "req_list (arpcache s)" ?s0] s0(2) by auto
  define s1 where "s1 = (?s0\<lparr>wire := wire s @ resent ?t (req_list (arpcache s))\<rparr>)\<lparr>arpcache := (arpcache ?s0)\<lparr>req_list := rs\<rparr>\<rparr>"
  have s1: "req_list (arpcache s1) = rs" "rtable s1 = rtable s" "now s1 = now s" "entries (arpcache s1) = expire_entries ?t (entries (arpcache s))"
    "wire s1 = wire s @ resent ?t (req_list (arpcache s))"
    by (simp_all add: s1_def s0)
  have "\<forall>c \<in> set ps. quotable c" using 1(2) assms by blast
  from icmp_unreach_all [OF this, of s1] obtain s' where
    s': "fold_opt (\<lambda>p s. icmp_send_packet (cp_packet p) (cp_len p) ICMP_DEST_UNREACH ICMP_HOST_UNREACH s) ps s1 = Some s'"
    "icmp_step s1 s'"
    "\<And>c h e m. c \<in> set ps \<Longrightarrow> get_ip (cp_packet c) 14 = Some h \<Longrightarrow> longest_prefix_match s1 (ntohl (ip_saddr h)) = Some e
       \<Longrightarrow> arpcache_lookup s1 (get_next_hop e (ntohl (ip_saddr h))) = Some m
       \<Longrightarrow> host_unreachable c e m (drop (length (wire s1)) (wire s'))" by blast
  have sw: "arpcache_sweep s = Some s'"
    using 1(1) s'(1) by (simp add: arpcache_sweep_def s0 s1_def Let_def)
  obtain w where w: "wire s' = wire s1 @ w" using s'(2) unfolding icmp_step_def by blast
  have keep: "rtable s' = rtable s" "entries (arpcache s') = expire_entries ?t (entries (arpcache s))"
    using s'(2) s1 by (simp_all add: icmp_step_def)
  have quot: "quotable c" if r': "r' \<in> reqs s'" "c \<in> set (req_pkts r')" for r' c
  proof (rule ccontr)
    assume "\<not> quotable c"
    then obtain r1 where "r1 \<in> set rs" "c \<in> set (req_pkts r1)" using icmp_step_pkts [OF s'(2) r'] s1(1) by auto
    then show False using 1(4) assms \<open>\<not> quotable c\<close> by metis
  qed
  have old: "req_sent r' = now s \<or> (\<exists>r \<in> reqs s. req_sent r' = req_sent r \<and>
      (if req_sent r < now s then req_retries r < 5 \<and> req_retries r' = req_retries r + 1 else req_retries r' = req_retries r))"
    if r': "r' \<in> reqs s'" for r'
  proof (cases "req_sent r' = now s")
    case False
    then obtain r1 where r1: "r1 \<in> set rs" "req_sent r' = req_sent r1" "req_retries r' = req_retries r1"
      using icmp_step_sent [OF s'(2) r'] s1(1,3) by auto
    with 1(4) show ?thesis by (metis (no_types))
  qed simp
  have pk: "(\<exists>r' \<in> reqs s'. req_sent r' = req_sent r \<and> c \<in> set (req_pkts r')) \<or> reported s [now s] s' c"
    if r: "r \<in> reqs s" "c \<in> set (req_pkts r)" for r c
  proof (cases "c \<in> set ps")
    case True
    have same: "longest_prefix_match s1 x = longest_prefix_match s x" "arpcache_lookup s1 y = arpcache_lookup (arp_age ?t s) y" for x y
      using s1 by (simp_all add: longest_prefix_match_def arpcache_lookup_def s0)
    have "set (drop (length (wire s1)) (wire s')) \<subseteq> set (drop (length (wire s)) (wire s'))"
      by (simp add: w s1(5))
    then have "reported s [now s] s' c"
      using s'(3) [OF True] host_unreachable_mono unfolding reported_def same by (metis list.set_intros(1))
    then show ?thesis ..
  next
    case False
    then obtain r1 where r1: "r1 \<in> set rs" "req_sent r1 = req_sent r" "req_pkts r1 = req_pkts r" using 1(3) r by blast
    then obtain r2 where "r2 \<in> reqs s'" "req_sent r2 = req_sent r1" "set (req_pkts r1) \<subseteq> set (req_pkts r2)"
      using icmp_step_kept [OF s'(2), of r1] s1(1) by auto
    with r1 r(2) show ?thesis by auto
  qed
  show ?thesis using sw keep w s1(5) quot old pk by (intro exI [of _ s'] conjI ballI) auto
qed

text \<open>Rounds at the times \<open>ts\<close>.\<close>

lemma expire_twice: "t \<le> u \<Longrightarrow> expire_entries u (expire_entries t es) = expire_entries u es"
  by (auto simp: expire_entries_def ARP_ENTRY_TIMEOUT_def)

lemma reported_mono:
  assumes "reported s ts s1 c" "set ts \<subseteq> set us" "wire s1 = wire s @ w1" "wire s' = wire s1 @ w2"
  shows "reported s us s' c"
  unfolding reported_def
proof (intro allI impI)
  fix h e m
  assume "get_ip (cp_packet c) 14 = Some h \<and> longest_prefix_match s (ntohl (ip_saddr h)) = Some e
    \<and> (\<forall>t \<in> set us. arpcache_lookup (arp_age t s) (get_next_hop e (ntohl (ip_saddr h))) = Some m)"
  then have "host_unreachable c e m (drop (length (wire s)) (wire s1))"
    using assms(1,2) unfolding reported_def by blast
  then show "host_unreachable c e m (drop (length (wire s)) (wire s'))"
    by (rule host_unreachable_mono) (simp add: assms(3,4))
qed

lemma reported_later:
  assumes "reported s1 ts s' c" "\<forall>u \<in> set ts. t \<le> u"
    and "rtable s1 = rtable s" "entries (arpcache s1) = expire_entries t (entries (arpcache s))" "wire s1 = wire s @ w1" "wire s' = wire s1 @ w2"
  shows "reported s ts s' c"
  unfolding reported_def
proof (intro allI impI)
  fix h e m
  assume a: "get_ip (cp_packet c) 14 = Some h \<and> longest_prefix_match s (ntohl (ip_saddr h)) = Some e
    \<and> (\<forall>t \<in> set ts. arpcache_lookup (arp_age t s) (get_next_hop e (ntohl (ip_saddr h))) = Some m)"
  have "arpcache_lookup (arp_age u s1) k = arpcache_lookup (arp_age u s) k" if "u \<in> set ts" for u k
    using assms(2,4) that by (simp add: arpcache_lookup_def arp_age_def expire_twice)
  then have "host_unreachable c e m (drop (length (wire s1)) (wire s'))"
    using a assms(1,3) unfolding reported_def by (simp add: longest_prefix_match_def)
  then show "host_unreachable c e m (drop (length (wire s)) (wire s'))"
    by (rule host_unreachable_mono) (simp add: assms(5,6))
qed

abbreviation sweeps :: "int list \<Rightarrow> 'a ustack_scheme \<Rightarrow> 'a ustack_scheme option" where
  "sweeps \<equiv> fold_opt (\<lambda>t s. arpcache_sweep (s\<lparr>now := t\<rparr>))"

lemma sweeps_give_up:
  assumes "sorted ts" "ts \<noteq> []" "\<forall>t \<in> set ts. t0 \<le> t"
    and "\<forall>r \<in> reqs s. \<forall>c \<in> set (req_pkts r). quotable c"
    and "\<forall>r \<in> reqs s. req_sent r < t0 \<longrightarrow> 6 - int (length ts) \<le> req_retries r"
  shows "\<exists>s' w. sweeps ts s = Some s' \<and> wire s' = wire s @ w \<and> (\<forall>r \<in> reqs s'. t0 \<le> req_sent r)
     \<and> (\<forall>r \<in> reqs s. req_sent r < t0 \<longrightarrow> (\<forall>c \<in> set (req_pkts r). reported s ts s' c))"
  using assms
proof (induction ts arbitrary: s)
  case (Cons t ts)
  have t: "t0 \<le> t" using Cons.prems(3) by simp
  let ?s = "s\<lparr>now := t\<rparr>"
  obtain s1 where s1: "arpcache_sweep ?s = Some s1" "rtable s1 = rtable ?s"
    "entries (arpcache s1) = expire_entries t (entries (arpcache s))" "\<exists>w. wire s1 = wire s @ w"
    "\<forall>r \<in> reqs s1. \<forall>c \<in> set (req_pkts r). quotable c"
    "\<forall>r' \<in> reqs s1. req_sent r' = t \<or> (\<exists>r \<in> reqs s. req_sent r' = req_sent r \<and>
          (if req_sent r < t then req_retries r < 5 \<and> req_retries r' = req_retries r + 1 else req_retries r' = req_retries r))"
    "\<forall>r \<in> reqs s. \<forall>c \<in> set (req_pkts r). (\<exists>r' \<in> reqs s1. req_sent r' = req_sent r \<and> c \<in> set (req_pkts r')) \<or> reported ?s [t] s1 c"
    using sweep_step [of ?s] Cons.prems(4) by auto
  obtain w1 where w1: "wire s1 = wire s @ w1" using s1(4) by blast
  have rep: "reported ?s l u c = reported s l u c" for l u c
    by (simp add: reported_def longest_prefix_match_def arpcache_lookup_def arp_age_def)
  have old: "6 - int (length ts) \<le> req_retries r' \<and> req_retries r' \<le> 5" if r': "r' \<in> reqs s1" "req_sent r' < t0" for r'
  proof -
    have "req_sent r' \<noteq> t" using r'(2) t by simp
    then obtain r where r: "r \<in> reqs s" "req_sent r' = req_sent r"
      "if req_sent r < t then req_retries r < 5 \<and> req_retries r' = req_retries r + 1 else req_retries r' = req_retries r"
      using s1(6) r'(1) by blast
    then have "req_sent r < t" using r'(2) t by simp
    then have "req_retries r < 5" "req_retries r' = req_retries r + 1" using r(3) by simp_all
    moreover have "6 - int (length (t # ts)) \<le> req_retries r" using Cons.prems(5) r(1,2) r'(2) by auto
    ultimately show ?thesis by simp
  qed
  show ?case
  proof (cases "ts = []")
    case True
    then have new: "t0 \<le> req_sent r'" if "r' \<in> reqs s1" for r' using old [OF that] by force
    have "reported s [t] s1 c" if "r \<in> reqs s" "req_sent r < t0" "c \<in> set (req_pkts r)" for r c
      using s1(7) that new unfolding rep by (metis linorder_not_le)
    then show ?thesis using s1(1) w1 new True by auto
  next
    case False
    have so: "sorted ts" "\<forall>u \<in> set ts. t \<le> u" using Cons.prems(1) by simp_all
    obtain s' w2 where s': "sweeps ts s1 = Some s'" "wire s' = wire s1 @ w2" "\<forall>r \<in> reqs s'. t0 \<le> req_sent r"
      "\<forall>r \<in> reqs s1. req_sent r < t0 \<longrightarrow> (\<forall>c \<in> set (req_pkts r). reported s1 ts s' c)"
      using Cons.IH [OF so(1) False _ s1(5)] old Cons.prems(3) by auto
    have "reported s (t # ts) s' c" if r: "r \<in> reqs s" "req_sent r < t0" "c \<in> set (req_pkts r)" for r c
    proof -
      from s1(7) r consider r' where "r' \<in> reqs s1" "req_sent r' = req_sent r" "c \<in> set (req_pkts r')" | "reported s [t] s1 c"
        unfolding rep by blast
      then show ?thesis
      proof cases
        case 1
        then have "reported s1 ts s' c" using s'(4) r(2) by simp
        then have "reported s ts s' c"
          by (rule reported_later [OF _ so(2) _ s1(3) w1 s'(2)]) (simp add: s1(2))
        then show ?thesis by (rule reported_mono [where ?w2.0 = "[]"]) (auto simp: w1 s'(2))
      next
        case 2
        then show ?thesis by (rule reported_mono [OF _ _ w1 s'(2)]) simp
      qed
    qed
    moreover have "sweeps (t # ts) s = Some s'" using s1(1) s'(1) by simp
    ultimately show ?thesis using s'(2,3) w1 by (intro exI [of _ s'] exI [of _ "w1 @ w2"]) auto
  qed
qed simp

text \<open>C19. No packet waits for ever: after five rounds of the sweeping thread (\<^verbatim>\<open>arpcache_sweep\<close> with its ICMP
  messages, nothing else happening between the rounds), the first later than every request and the times not
  running backwards, all requests that were there have been given up; a request found then was made during the rounds, by
  an ICMP message whose own next hop was unknown. Every packet that waited has been answered: if its
  sender has a route and the hardware address of the next hop is known at each of the times, a
  host-unreachable message that quotes the packet has been sent to its sender, with valid checksums.
  No round crashes, provided that the waiting packets carry an IP header and 8 bytes behind it.\<close>

theorem arp_requests_give_up:
  assumes "\<forall>r \<in> set (req_list (arpcache s)). 1 \<le> req_retries r \<and> req_sent r < hd ts \<and> (\<forall>c \<in> set (req_pkts r). quotable c)"
    and "sorted ts" "5 \<le> length ts"
  shows "\<exists>s'. fold_opt (\<lambda>t s. arpcache_sweep (s\<lparr>now := t\<rparr>)) ts s = Some s'
     \<and> (\<forall>r \<in> set (req_list (arpcache s')). hd ts \<le> req_sent r)
     \<and> (\<forall>r \<in> set (req_list (arpcache s)). \<forall>c \<in> set (req_pkts r). \<forall>h e m. get_ip (cp_packet c) 14 = Some h
          \<and> longest_prefix_match s (ntohl (ip_saddr h)) = Some e
          \<and> (\<forall>t \<in> set ts. arpcache_lookup (arp_age t s) (get_next_hop e (ntohl (ip_saddr h))) = Some m)
          \<longrightarrow> host_unreachable c e m (drop (length (wire s)) (wire s')))"
proof -
  have ne: "ts \<noteq> []" using assms(3) by auto
  then have "\<forall>t \<in> set ts. hd ts \<le> t" using assms(2) by (cases ts) auto
  from sweeps_give_up [OF assms(2) ne this, of s] assms(1,3) obtain s' w where
    "sweeps ts s = Some s'" "\<forall>r \<in> reqs s'. hd ts \<le> req_sent r"
    "\<forall>r \<in> reqs s. \<forall>c \<in> set (req_pkts r). reported s ts s' c" by fastforce
  then show ?thesis unfolding reported_def by blast
qed

text \<open>A router with a packet that waits for the address of a host that does not answer.\<close>

definition waiting0 :: cached_pkt where
  "waiting0 = \<lparr>cp_packet = replicate 14 0 @ enc_ip ping_ip @ replicate 12 7, cp_len = 46\<rparr>"

definition ustack_waiting :: ustack where
  "ustack_waiting = ustack2\<lparr>arpcache := (arpcache ustack2)\<lparr>req_list :=
     [\<lparr>req_iface = iface1, req_ip4 = 0x0A000107, req_sent = 0, req_retries = 1, req_pkts = [waiting0]\<rparr>]\<rparr>\<rparr>"

theorem arp_requests_give_up_witness:
  "\<exists>s'. fold_opt (\<lambda>t s. arpcache_sweep (s\<lparr>now := t\<rparr>)) [1, 2, 3, 4, 5] ustack_waiting = Some s'
     \<and> (\<forall>r \<in> set (req_list (arpcache s')). 1 \<le> req_sent r)
     \<and> host_unreachable waiting0 route24 (Mac 0 0 0 0 0 9) (wire s')"
proof -
  have g: "get_ip (cp_packet waiting0) 14 = Some ping_ip"
    by (simp add: waiting0_def load_struct_def load_bytes_def iph.length_enc iph.dec_enc)
  have "length (cp_packet waiting0) = 46" "IP_HDR_SIZE ping_ip = 20"
    by (simp_all add: waiting0_def iph.length_enc ping_ip_def own_hdr_def IP_HDR_SIZE_def)
  with g have q: "quotable waiting0" by (simp add: quotable_def)
  have rl: "req_list (arpcache ustack_waiting) = [\<lparr>req_iface = iface1, req_ip4 = 0x0A000107, req_sent = 0, req_retries = 1, req_pkts = [waiting0]\<rparr>]"
    by (simp add: ustack_waiting_def)
  have "longest_prefix_match ustack_waiting (ntohl (ip_saddr ping_ip)) = longest_prefix_match ustack2 0x0A000009"
    by (simp add: ping_facts(3) ustack_waiting_def longest_prefix_match_def)
  then have r: "longest_prefix_match ustack_waiting (ntohl (ip_saddr ping_ip)) = Some route24" by (simp add: ping_facts(4))
  have es: "expire_entries t (entries (arpcache ustack_waiting)) = entries (arpcache ustack2)" if "t \<le> 5" for t
    using that by (simp add: ustack_waiting_def ustack2_def ustack1_def ustack0_def expire_entries_def new_entry_def ARP_ENTRY_TIMEOUT_def
        map_update)
  have "arpcache_lookup (arp_age t ustack_waiting) (get_next_hop route24 (ntohl (ip_saddr ping_ip))) = Some (Mac 0 0 0 0 0 9)"
    if "t \<le> 5" for t
    using es [OF that] ping_facts(5) by (simp add: ping_facts(3) arpcache_lookup_def arp_age_def)
  then have l: "\<forall>t \<in> set [1, 2, 3, 4, 5]. arpcache_lookup (arp_age t ustack_waiting) (get_next_hop route24 (ntohl (ip_saddr ping_ip)))
      = Some (Mac 0 0 0 0 0 9)" by simp
  have "wire ustack_waiting = []" by (simp add: ustack_waiting_def ustack2_def ustack1_def ustack0_def)
  then show ?thesis
    using arp_requests_give_up [where s = ustack_waiting and ts = "[1, 2, 3, 4, 5]"] g q r l
    by (simp add: rl)
qed

end
