(* ===== verification/Ip12.thy ===== *)
theory Ip12
  imports Ip
begin

text \<open>
  The network layer of the dynamic routing labs (\<^verbatim>\<open>11-mospf\<close>, \<^verbatim>\<open>12-mospf\<close>), where it differs from that
  of theory Ip: packets of both directions go through \<^verbatim>\<open>iface_send_packet_by_arp\<close>, and packets for the
  routing protocol are handed to it, the handler being an argument of \<open>handle_ip_packet_12\<close>.
\<close>

definition handle_arp_packet_12 :: "iface_info \<Rightarrow> bytes \<Rightarrow> int \<Rightarrow> 'a ustack_scheme \<Rightarrow> 'a ustack_scheme option" where
  "handle_arp_packet_12 iface packet len s = do {
     arp \<leftarrow> get_arp packet ETHER_HDR_SIZE;
     let src_ip = ntohl (arp_spa arp);
     let dst_ip = ntohl (arp_tpa arp);
     if if_ip iface = dst_ip then
       (if ntohs (arp_op arp) = ARPOP_REQUEST then do {
          s \<leftarrow> arp_send_reply iface arp s;
          arpcache_insert src_ip (arp_sha arp) s }
        else if ntohs (arp_op arp) = ARPOP_REPLY then arpcache_insert src_ip (arp_sha arp) s
        else Some s)
     else Some s }"

definition iface_send_packet_by_arp_12 ::
  "iface_info \<Rightarrow> u32 \<Rightarrow> bytes \<Rightarrow> int \<Rightarrow> 'a ustack_scheme \<Rightarrow> 'a ustack_scheme option" where
  "iface_send_packet_by_arp_12 iface dst_ip packet len s = do {
     eh \<leftarrow> get_eth packet;
     let eh = eh\<lparr>ether_type := htons ETH_P_IP\<rparr>;
     packet \<leftarrow> put_eth packet eh;
     (case arpcache_lookup s dst_ip of
        Some dst_mac \<Rightarrow> do {
          packet \<leftarrow> put_eth packet (eh\<lparr>ether_shost := if_mac iface, ether_dhost := dst_mac\<rparr>);
          iface_send_packet iface packet len s }
      | None \<Rightarrow> arpcache_append_packet iface dst_ip packet len s) }"

definition ip_send_packet_12 :: "bytes \<Rightarrow> int \<Rightarrow> 'a ustack_scheme \<Rightarrow> 'a ustack_scheme option" where
  "ip_send_packet_12 packet len s = do {
     ip \<leftarrow> get_ip packet ETHER_HDR_SIZE;
     let dst = ntohl (ip_daddr ip);
     (case longest_prefix_match s dst of
        None \<Rightarrow> Some s
      | Some entry \<Rightarrow>
          iface_send_packet_by_arp_12 (rt_iface entry) (get_next_hop entry dst) packet len s) }"

definition icmp_send_packet_12 :: "bytes \<Rightarrow> int \<Rightarrow> u8 \<Rightarrow> u8 \<Rightarrow> 'a ustack_scheme \<Rightarrow> 'a ustack_scheme option" where
  "icmp_send_packet_12 in_pkt len type code s = do {
     in_ip \<leftarrow> get_ip in_pkt ETHER_HDR_SIZE;
     let (out_len, icmp_len) = icmp_lens in_ip len type;
     if out_len < 0 then Some s
     else do {
       out_pkt \<leftarrow> icmp_fill in_pkt in_ip out_len icmp_len type code;
       let out_ip_len = of_int (int IP_BASE_HDR_SIZE + icmp_len);
       let daddr = ntohl (ip_saddr in_ip);
       if type = ICMP_ECHOREPLY then do {
         (out_pkt, s) \<leftarrow> ip_init_hdr out_pkt ETHER_HDR_SIZE (ntohl (ip_daddr in_ip)) daddr out_ip_len IPPROTO_ICMP s;
         ip_send_packet_12 out_pkt out_len s }
       else (case longest_prefix_match s daddr of
          None \<Rightarrow> Some s
        | Some entry \<Rightarrow> do {
            (out_pkt, s) \<leftarrow> ip_init_hdr out_pkt ETHER_HDR_SIZE (if_ip (rt_iface entry)) daddr out_ip_len IPPROTO_ICMP s;
            iface_send_packet_by_arp_12 (rt_iface entry) (get_next_hop entry daddr) out_pkt out_len s }) } }"

definition ip_forward_packet_12 :: "u32 \<Rightarrow> bytes \<Rightarrow> int \<Rightarrow> 'a ustack_scheme \<Rightarrow> 'a ustack_scheme option" where
  "ip_forward_packet_12 ip_dst packet len s = do {
     ip \<leftarrow> get_ip packet ETHER_HDR_SIZE;
     if ip_ttl ip \<le> 1 then icmp_send_packet_12 packet len ICMP_TIME_EXCEEDED ICMP_EXC_TTL s
     else do {
       let ip = ip\<lparr>ip_ttl := ip_ttl ip - 1\<rparr>;
       packet \<leftarrow> put_ip packet ETHER_HDR_SIZE ip;
       c \<leftarrow> ip_checksum packet ETHER_HDR_SIZE;
       packet \<leftarrow> put_ip packet ETHER_HDR_SIZE (ip\<lparr>ip_checksum_fld := c\<rparr>);
       (case longest_prefix_match s ip_dst of
          None \<Rightarrow> icmp_send_packet_12 packet len ICMP_DEST_UNREACH ICMP_NET_UNREACH s
        | Some entry \<Rightarrow>
            iface_send_packet_by_arp_12 (rt_iface entry) (get_next_hop entry ip_dst) packet len s) } }"

definition MOSPF_ALLSPFRouters :: u32 where "MOSPF_ALLSPFRouters = 0xe0000005"

definition handle_ip_packet_12 ::
  "(iface_info \<Rightarrow> bytes \<Rightarrow> int \<Rightarrow> 'a ustack_scheme \<Rightarrow> 'a ustack_scheme option) \<Rightarrow>
   iface_info \<Rightarrow> bytes \<Rightarrow> int \<Rightarrow> 'a ustack_scheme \<Rightarrow> 'a ustack_scheme option" where
  "handle_ip_packet_12 handle_mospf_packet iface packet len s = do {
     ip \<leftarrow> get_ip packet ETHER_HDR_SIZE;
     let daddr = ntohl (ip_daddr ip);
     if daddr = if_ip iface then
       (if ip_protocol ip = IPPROTO_ICMP then do {
          icmp \<leftarrow> load8 packet (ETHER_HDR_SIZE + IP_HDR_SIZE ip);
          if icmp = ICMP_ECHOREQUEST then icmp_send_packet_12 packet len ICMP_ECHOREPLY 0 s else Some s }
        else if ip_protocol ip = IPPROTO_MOSPF then handle_mospf_packet iface packet len s
        else Some s)
     else if ip_daddr ip = htonl MOSPF_ALLSPFRouters then do {
       ensure (ip_protocol ip = IPPROTO_MOSPF);
       handle_mospf_packet iface packet len s }
     else ip_forward_packet_12 daddr packet len s }"

text \<open>One round of \<^verbatim>\<open>arpcache_sweep\<close>; it gives up with this lab's ICMP.\<close>

definition arpcache_sweep_12 :: "'a ustack_scheme \<Rightarrow> 'a ustack_scheme option" where
  "arpcache_sweep_12 s = do {
     let t = now s;
     let s = arp_age t s;
     (rs, pkts, s) \<leftarrow> sweep_reqs t (req_list (arpcache s)) s;
     let s = s\<lparr>arpcache := (arpcache s)\<lparr>req_list := rs\<rparr>\<rparr>;
     fold_opt (\<lambda>p s. icmp_send_packet_12 (cp_packet p) (cp_len p) ICMP_DEST_UNREACH ICMP_HOST_UNREACH s) pkts s }"

lemma eth_all_fields_12:
  "h\<lparr>ether_type := b, ether_shost := a, ether_dhost := m\<rparr> = \<lparr>ether_dhost = m, ether_shost = a, ether_type = b\<rparr>"
  by (cases h) simp

lemma send_by_arp_12_known:
  assumes "whole p len" "arpcache_lookup s ip4 = Some m"
  shows "iface_send_packet_by_arp_12 iface ip4 p len s = iface_send_packet_by_arp iface ip4 p len s"
  using assms fill_eth_whole [OF assms(1), of m iface] send_by_arp_known [OF assms, of iface]
  by (simp add: iface_send_packet_by_arp_12_def whole_def get_eth_whole put_eth_whole eth.length_enc fill_eth_def
      eth_all_fields_12)

lemma fill_eth_fill_macs:
  assumes "14 \<le> length p" "get_eth p = Some eh" "ether_type eh = htons ETH_P_IP"
  shows "fill_eth m iface p = fill_macs m iface p"
proof -
  have "put_eth p (eh\<lparr>ether_dhost := m, ether_shost := if_mac iface\<rparr>) = Some (fill_macs m iface p)"
    by (rule put_eth_macs [OF assms(1,2)])
  moreover have "eh\<lparr>ether_dhost := m, ether_shost := if_mac iface\<rparr>
      = \<lparr>ether_dhost = m, ether_shost = if_mac iface, ether_type = htons ETH_P_IP\<rparr>"
    using assms(3) by (cases eh) simp
  ultimately show ?thesis using assms(1) by (simp add: put_eth_whole fill_eth_def)
qed

text \<open>The two forwarding routines agree: for an IP frame with time to live above 1, a route and a
  resolved next hop, the routing labs' \<^verbatim>\<open>ip_forward_packet\<close>, which goes through
  \<^verbatim>\<open>iface_send_packet_by_arp\<close>, and the TCP labs' version, which fills in the addresses itself,
  lead to the same state and the same frame on the wire.\<close>

theorem ip_forward_packet_12_equiv:
  assumes "whole p len" "get_eth p = Some eh" "ether_type eh = htons ETH_P_IP"
    and "get_ip p 14 = Some h" "1 < ip_ttl h" "5 \<le> unat (ip_ihl h)" "14 + IP_HDR_SIZE h \<le> length p"
    and "longest_prefix_match s d = Some e" "arpcache_lookup s (get_next_hop e d) = Some m"
  shows "ip_forward_packet_12 d p len s = ip_forward_packet d p len s"
proof -
  define h1 where "h1 = h\<lparr>ip_ttl := ip_ttl h - 1\<rparr>"
  have bound: "14 + 20 \<le> length p" by (rule iph.load_bounds [OF assms(4)])
  obtain p1 where p1: "put_ip p 14 h1 = Some p1" using iph.store_defined [OF bound] by blast
  have len1: "length p1 = length p" by (rule iph.store_length [OF p1])
  obtain c p2 where p2: "ip_checksum p1 14 = Some c" "put_ip p1 14 (h1\<lparr>ip_checksum_fld := c\<rparr>) = Some p2"
    using ip_checksum_store_ok [OF iph.load_after_store [OF p1]] assms(6,7) len1
    by (auto simp: h1_def IP_HDR_SIZE_def)
  have w2: "whole p2 len" using assms(1) iph.store_length [OF p2(2)] len1 by (simp add: whole_def)
  have e2: "get_eth p2 = Some eh"
    using iph.load_struct_frame [OF p2(2), of 0 14 dec_ether] iph.load_struct_frame [OF p1, of 0 14 dec_ether] assms(2) by simp
  have w3: "whole (fill_macs m i p2) len" for i using w2 by (simp add: whole_def fill_macs_def)
  have l2: "14 \<le> length p2" using w2 by (simp add: whole_def)
  have "\<not> ip_ttl h \<le> 1" using assms(5) by simp
  then show ?thesis
    using assms(4,8,9) p1 p2 e2 w3 put_eth_macs [OF l2 e2] send_by_arp_12_known [OF w2 assms(9)]
      send_by_arp_known [OF w2 assms(9)] fill_eth_fill_macs [OF l2 e2 assms(3)]
    by (simp add: ip_forward_packet_12_def ip_forward_packet_def h1_def)
qed

definition ip_frame :: bytes where
  "ip_frame = enc_ether \<lparr>ether_dhost = bc_mac, ether_shost = bc_mac, ether_type = htons ETH_P_IP\<rparr> @ enc_ip transit_hdr @ replicate 6 0"

theorem ip_forward_packet_12_equiv_witness:
  "ip_forward_packet_12 0x0A000009 ip_frame 40 ustack2 = ip_forward_packet 0x0A000009 ip_frame 40 ustack2"
  by (rule ip_forward_packet_12_equiv [OF _ _ _ _ _ _ _ ping_facts(4,5),
        of _ _ "\<lparr>ether_dhost = bc_mac, ether_shost = bc_mac, ether_type = htons ETH_P_IP\<rparr>" transit_hdr])
     (simp_all add: transit_facts ip_frame_def whole_def load_struct_def load_bytes_def eth.length_enc iph.length_enc
        eth.dec_enc iph.dec_enc)

end
