(* ===== verification/Router08.thy ===== *)
theory Router08
  imports Ip12
begin

text \<open>
  The router of lab \<^verbatim>\<open>08-router\<close> (\<^verbatim>\<open>arp.c\<close>, \<^verbatim>\<open>arpcache.c\<close>, \<^verbatim>\<open>icmp.c\<close>, \<^verbatim>\<open>ip.c\<close>, \<^verbatim>\<open>packet.c\<close>, \<^verbatim>\<open>main.c\<close>), an
  implementation of its own: the later labs were given other versions of these files. Frames,
  interfaces, routes and cache entries are those of theory Net.

  Two things matter here that the later code avoids. The mutex of the cache is not recursive and is
  held while ICMP messages are sent, so it is part of the state: \<open>arp_lock\<close> is \<open>None\<close> when the
  caller holds it already, since the call then never returns. And buffers come from \<^verbatim>\<open>malloc\<close> without
  being cleared, so the state has a stream of the bytes that fresh memory happens to hold. As
  everywhere, \<open>None\<close> also stands for an access outside an object, through a null pointer or to
  freed memory.
\<close>

record router08 = ustack +
  arp_locked :: bool
  junk_fn :: "nat \<Rightarrow> u8"
  junk_pos :: nat

definition malloc_08 :: "nat \<Rightarrow> 'a router08_scheme \<Rightarrow> bytes \<times> 'a router08_scheme" where
  "malloc_08 n s = (map (\<lambda>i. junk_fn s (junk_pos s + i)) [0..<n], s\<lparr>junk_pos := junk_pos s + n\<rparr>)"

definition arp_lock :: "'a router08_scheme \<Rightarrow> 'a router08_scheme option" where
  "arp_lock s = (if arp_locked s then None else Some (s\<lparr>arp_locked := True\<rparr>))"

definition arp_unlock :: "'a router08_scheme \<Rightarrow> 'a router08_scheme" where
  "arp_unlock s = s\<lparr>arp_locked := False\<rparr>"

section \<open>Sending\<close>

definition iface_send_packet_08 :: "iface_info \<Rightarrow> bytes \<Rightarrow> int \<Rightarrow> 'a ustack_scheme \<Rightarrow> 'a ustack_scheme option" where
  "iface_send_packet_08 iface packet len s = do {
     dhost \<leftarrow> load_bytes packet 0 ETH_ALEN;
     if len < 0 then Some s
     else do {
       sent \<leftarrow> load_bytes packet 0 (nat len);
       Some (s\<lparr>wire := wire s @ [(iface, sent)]\<rparr>) } }"

text \<open>The request leaves the target hardware address as it was in the fresh memory; the reply starts
  from a copy of the request.\<close>

definition arp_send_request_08 :: "iface_info \<Rightarrow> u32 \<Rightarrow> 'a router08_scheme \<Rightarrow> 'a router08_scheme option" where
  "arp_send_request_08 iface dst_ip s = (let (packet, s) = malloc_08 42 s in do {
     eth_arp \<leftarrow> get_arp packet ETHER_HDR_SIZE;
     packet \<leftarrow> put_eth packet \<lparr>ether_dhost = bc_mac, ether_shost = if_mac iface, ether_type = htons ETH_P_ARP\<rparr>;
     packet \<leftarrow> put_arp packet ETHER_HDR_SIZE
        (eth_arp\<lparr>arp_hln := 6, arp_pln := 4, arp_hrd := htons ARPHRD_ETHER, arp_pro := htons ETH_P_IP,
                 arp_op := htons ARPOP_REQUEST, arp_spa := htonl (if_ip iface), arp_sha := if_mac iface,
                 arp_tpa := htonl dst_ip\<rparr>);
     iface_send_packet_08 iface packet 42 s })"

definition arp_send_reply_08 :: "iface_info \<Rightarrow> ether_arp \<Rightarrow> 'a router08_scheme \<Rightarrow> 'a router08_scheme option" where
  "arp_send_reply_08 iface req_hdr s = (let (packet, s) = malloc_08 42 s in do {
     packet \<leftarrow> put_arp packet ETHER_HDR_SIZE
        (req_hdr\<lparr>arp_sha := if_mac iface, arp_spa := htonl (if_ip iface), arp_tha := arp_sha req_hdr,
                 arp_tpa := arp_spa req_hdr, arp_op := htons ARPOP_REPLY\<rparr>);
     packet \<leftarrow> put_eth packet \<lparr>ether_dhost = arp_sha req_hdr, ether_shost = if_mac iface, ether_type = htons ETH_P_ARP\<rparr>;
     iface_send_packet_08 iface packet 42 s })"

section \<open>The cache\<close>

definition arpcache_init_08 :: "'a router08_scheme \<Rightarrow> 'a router08_scheme" where
  "arpcache_init_08 s = s\<lparr>arpcache :=
     \<lparr>entries = replicate MAX_ARP_SIZE \<lparr>ent_ip4 = 0, ent_mac = Mac 0 0 0 0 0 0, ent_added = 0, ent_valid = False\<rparr>,
      req_list = []\<rparr>, arp_locked := False\<rparr>"

definition arpcache_destroy_08 :: "'a router08_scheme \<Rightarrow> 'a router08_scheme option" where
  "arpcache_destroy_08 s = do {
     s \<leftarrow> arp_lock s;
     Some (arp_unlock (s\<lparr>arpcache := (arpcache s)\<lparr>req_list := []\<rparr>\<rparr>)) }"

definition arpcache_lookup_08 :: "u32 \<Rightarrow> 'a router08_scheme \<Rightarrow> (mac option \<times> 'a router08_scheme) option" where
  "arpcache_lookup_08 ip4 s = do {
     s \<leftarrow> arp_lock s;
     let hit = find (\<lambda>e. ent_ip4 e = ip4 \<and> ent_valid e) (entries (arpcache s));
     Some (map_option ent_mac hit, arp_unlock s) }"

fun append_to_req_08 :: "iface_info \<Rightarrow> u32 \<Rightarrow> cached_pkt \<Rightarrow> arp_req list \<Rightarrow> arp_req list option" where
  "append_to_req_08 iface ip4 pkt [] = None"
| "append_to_req_08 iface ip4 pkt (r # rs) =
     (if req_iface r = iface \<and> req_ip4 r = ip4
      then Some (r\<lparr>req_pkts := req_pkts r @ [pkt]\<rparr> # rs)
      else map_option (\<lambda>rs'. r # rs') (append_to_req_08 iface ip4 pkt rs))"

definition arpcache_append_packet_08 ::
  "iface_info \<Rightarrow> u32 \<Rightarrow> bytes \<Rightarrow> int \<Rightarrow> 'a router08_scheme \<Rightarrow> 'a router08_scheme option" where
  "arpcache_append_packet_08 iface ip4 packet len s = do {
     s \<leftarrow> arp_lock s;
     let pkt = \<lparr>cp_packet = packet, cp_len = len\<rparr>;
     let c = arpcache s;
     (case append_to_req_08 iface ip4 pkt (req_list c) of
        Some rs \<Rightarrow> Some (arp_unlock (s\<lparr>arpcache := c\<lparr>req_list := rs\<rparr>\<rparr>))
      | None \<Rightarrow> do {
          let new_rep = \<lparr>req_iface = iface, req_ip4 = ip4, req_sent = now s, req_retries = 0, req_pkts = [pkt]\<rparr>;
          s \<leftarrow> arp_send_request_08 iface ip4 (s\<lparr>arpcache := c\<lparr>req_list := req_list c @ [new_rep]\<rparr>\<rparr>);
          Some (arp_unlock s) }) }"

text \<open>The search of \<^verbatim>\<open>arpcache_insert\<close> stops at the first invalid entry (\<open>Inl\<close>) or at the first one for
  the address (\<open>Inr\<close>), or runs through the table.\<close>

fun insert_slot_08 :: "u32 \<Rightarrow> arp_cache_entry list \<Rightarrow> nat \<Rightarrow> nat + nat" where
  "insert_slot_08 ip4 [] i = Inl i"
| "insert_slot_08 ip4 (e # es) i =
     (if \<not> ent_valid e then Inl i
      else if ent_ip4 e = ip4 then Inr i
      else insert_slot_08 ip4 es (i + 1))"

definition flush_packet_08 :: "iface_info \<Rightarrow> mac \<Rightarrow> cached_pkt \<Rightarrow> 'a ustack_scheme \<Rightarrow> 'a ustack_scheme option" where
  "flush_packet_08 iface mac pkt s = do {
     packet \<leftarrow> store_bytes (cp_packet pkt) 0 (mac_bytes mac);
     iface_send_packet_08 iface packet (cp_len pkt) s }"

fun flush_reqs_08 :: "u32 \<Rightarrow> mac \<Rightarrow> arp_req list \<Rightarrow> 'a ustack_scheme \<Rightarrow> (arp_req list \<times> 'a ustack_scheme) option" where
  "flush_reqs_08 ip4 mac [] s = Some ([], s)"
| "flush_reqs_08 ip4 mac (r # rs) s =
     (if req_ip4 r = ip4 then do {
        s \<leftarrow> fold_opt (flush_packet_08 (req_iface r) mac) (req_pkts r) s;
        flush_reqs_08 ip4 mac rs s }
      else do {
        (rs', s) \<leftarrow> flush_reqs_08 ip4 mac rs s;
        Some (r # rs', s) })"

definition arpcache_insert_08 :: "u32 \<Rightarrow> mac \<Rightarrow> 'a router08_scheme \<Rightarrow> 'a router08_scheme option" where
  "arpcache_insert_08 ip4 mac s = do {
     s \<leftarrow> arp_lock s;
     let c = arpcache s;
     (case insert_slot_08 ip4 (entries c) 0 of
        Inr i \<Rightarrow> Some (arp_unlock (s\<lparr>arpcache := c\<lparr>entries := (entries c)[i := (entries c ! i)\<lparr>ent_added := now s\<rparr>]\<rparr>\<rparr>))
      | Inl i \<Rightarrow> do {
          let i = (if i < MAX_ARP_SIZE then i else 0);
          ensure (i < length (entries c));
          let e = \<lparr>ent_ip4 = ip4, ent_mac = mac, ent_added = now s, ent_valid = True\<rparr>;
          let s = s\<lparr>arpcache := c\<lparr>entries := (entries c)[i := e]\<rparr>\<rparr>;
          (rs, s) \<leftarrow> flush_reqs_08 ip4 mac (req_list c) s;
          Some (arp_unlock (s\<lparr>arpcache := (arpcache s)\<lparr>req_list := rs\<rparr>\<rparr>)) }) }"

definition iface_send_packet_by_arp_08 ::
  "iface_info \<Rightarrow> u32 \<Rightarrow> bytes \<Rightarrow> int \<Rightarrow> 'a router08_scheme \<Rightarrow> 'a router08_scheme option" where
  "iface_send_packet_by_arp_08 iface dst_ip packet len s = do {
     eh \<leftarrow> get_eth packet;
     let eh = eh\<lparr>ether_shost := if_mac iface, ether_type := htons ETH_P_IP\<rparr>;
     packet \<leftarrow> put_eth packet eh;
     (found, s) \<leftarrow> arpcache_lookup_08 dst_ip s;
     (case found of
        Some dst_mac \<Rightarrow> do {
          packet \<leftarrow> put_eth packet (eh\<lparr>ether_dhost := dst_mac\<rparr>);
          iface_send_packet_08 iface packet len s }
      | None \<Rightarrow> arpcache_append_packet_08 iface dst_ip packet len s) }"

text \<open>\<^verbatim>\<open>handle_arp_packet\<close>: a request for another host's address is sent back out of the interface it
  came from, which frees the packet; the test for a reply then reads the freed header.\<close>

definition handle_arp_packet_08 :: "iface_info \<Rightarrow> bytes \<Rightarrow> int \<Rightarrow> 'a router08_scheme \<Rightarrow> 'a router08_scheme option" where
  "handle_arp_packet_08 iface packet len s = do {
     eth_arp \<leftarrow> get_arp packet ETHER_HDR_SIZE;
     (s, freed) \<leftarrow>
       (if ntohs (arp_op eth_arp) = 1 then
          (if ntohl (arp_tpa eth_arp) = if_ip iface then do {
             s \<leftarrow> arpcache_insert_08 (ntohl (arp_spa eth_arp)) (arp_sha eth_arp) s;
             s \<leftarrow> arp_send_reply_08 iface eth_arp s;
             Some (s, False) }
           else do {
             s \<leftarrow> iface_send_packet_08 iface packet len s;
             Some (s, True) })
        else Some (s, False));
     ensure (\<not> freed);
     if ntohs (arp_op eth_arp) = 2 then arpcache_insert_08 (ntohl (arp_spa eth_arp)) (arp_sha eth_arp) s
     else Some s }"

section \<open>IP\<close>

definition ip_checksum_08 :: "bytes \<Rightarrow> nat \<Rightarrow> u16 option" where
  "ip_checksum_08 m off = do {
     h \<leftarrow> get_ip m off;
     m' \<leftarrow> put_ip m off (h\<lparr>ip_checksum_fld := 0\<rparr>);
     checksum_08 m' off (int (IP_HDR_SIZE h)) 0 }"

definition ip_init_hdr_08 :: "bytes \<Rightarrow> nat \<Rightarrow> u32 \<Rightarrow> u32 \<Rightarrow> u16 \<Rightarrow> u8 \<Rightarrow> 'a ustack_scheme \<Rightarrow>
    (bytes \<times> 'a ustack_scheme) option" where
  "ip_init_hdr_08 m off saddr daddr len proto s = do {
     old \<leftarrow> get_ip m off;
     let (r, s) = rand s;
     let h = \<lparr>ip_ihl = 5, ip_version = 4, ip_tos = 0, ip_tot_len = htons len, ip_id = of_nat r,
              ip_frag_off = htons IP_DF, ip_ttl = DEFAULT_TTL, ip_protocol = proto,
              ip_checksum_fld = ip_checksum_fld old, ip_saddr = htonl saddr, ip_daddr = htonl daddr\<rparr>;
     m \<leftarrow> put_ip m off h;
     c \<leftarrow> ip_checksum_08 m off;
     m \<leftarrow> put_ip m off (h\<lparr>ip_checksum_fld := c\<rparr>);
     Some (m, s) }"

definition ip_send_packet_08 :: "bytes \<Rightarrow> int \<Rightarrow> 'a router08_scheme \<Rightarrow> 'a router08_scheme option" where
  "ip_send_packet_08 packet len s = do {
     ip \<leftarrow> get_ip packet ETHER_HDR_SIZE;
     let dst = ntohl (ip_daddr ip);
     (case longest_prefix_match_08 s dst of
        None \<Rightarrow> Some s
      | Some entry \<Rightarrow> do {
          let next_hop = (if rt_gw entry = 0 then dst else rt_gw entry);
          eh \<leftarrow> get_eth packet;
          packet \<leftarrow> put_eth packet (eh\<lparr>ether_type := ntohs ETH_P_IP, ether_shost := if_mac (rt_iface entry)\<rparr>);
          iface_send_packet_by_arp_08 (rt_iface entry) next_hop packet len s }) }"

section \<open>ICMP\<close>

text \<open>The accesses to the ICMP header are to its first four bytes only, so a message may be shorter
  than the structure.\<close>

definition icmp_checksum_08 :: "bytes \<Rightarrow> nat \<Rightarrow> int \<Rightarrow> u16 option" where
  "icmp_checksum_08 m off len = do {
     m' \<leftarrow> store_bytes m (off + 2) [0, 0];
     checksum_08 m' off len 0 }"

text \<open>The message behind the IP header: for the argument 8 an echo reply, otherwise an error message.\<close>

definition icmp_echo_08 :: "bytes \<Rightarrow> bytes \<Rightarrow> iphdr \<Rightarrow> int \<Rightarrow> bytes option" where
  "icmp_echo_08 packet in_pkt ip len = do {
     let icmp = ETHER_HDR_SIZE + IP_BASE_HDR_SIZE;
     packet \<leftarrow> store_bytes packet icmp [0, 0];
     let data_size = len - int ETHER_HDR_SIZE - int (IP_HDR_SIZE ip) - int ICMP_HDR_SIZE + 4;
     packet \<leftarrow> memcpy packet (icmp + 4) in_pkt (ETHER_HDR_SIZE + IP_HDR_SIZE ip + 4) data_size;
     c \<leftarrow> icmp_checksum_08 packet icmp (data_size + 4);
     store_bytes packet (icmp + 2) (put16 c) }"

definition icmp_error_08 :: "bytes \<Rightarrow> bytes \<Rightarrow> iphdr \<Rightarrow> u8 \<Rightarrow> u8 \<Rightarrow> bytes option" where
  "icmp_error_08 packet in_pkt ip type code = do {
     let icmp = ETHER_HDR_SIZE + IP_BASE_HDR_SIZE;
     packet \<leftarrow> store_bytes packet icmp [type, code];
     let data_size = int (IP_HDR_SIZE ip) + 8;
     packet \<leftarrow> store_bytes packet (icmp + 4) [0, 0, 0, 0];
     packet \<leftarrow> memcpy packet (icmp + 8) in_pkt ETHER_HDR_SIZE data_size;
     c \<leftarrow> icmp_checksum_08 packet icmp (data_size + 8);
     store_bytes packet (icmp + 2) (put16 c) }"

text \<open>The size is taken from the received length for an echo. The route back is dereferenced without a
  test.\<close>

definition icmp_packet_len_08 :: "iphdr \<Rightarrow> int \<Rightarrow> u8 \<Rightarrow> int" where
  "icmp_packet_len_08 ip len type = (if type = 8 then len else
     int (ETHER_HDR_SIZE + IP_BASE_HDR_SIZE + ICMP_HDR_SIZE + IP_HDR_SIZE ip + 8))"

definition icmp_send_packet_08 :: "bytes \<Rightarrow> int \<Rightarrow> u8 \<Rightarrow> u8 \<Rightarrow> 'a router08_scheme \<Rightarrow> 'a router08_scheme option" where
  "icmp_send_packet_08 in_pkt len type code s = do {
     in_eth_h \<leftarrow> get_eth in_pkt;
     ip \<leftarrow> get_ip in_pkt ETHER_HDR_SIZE;
     let packet_len = icmp_packet_len_08 ip len type;
     ensure (0 \<le> packet_len);
     let (packet, s) = malloc_08 (nat packet_len) s;
     packet \<leftarrow> put_eth packet \<lparr>ether_dhost = ether_dhost in_eth_h, ether_shost = ether_dhost in_eth_h,
                               ether_type = htons ETH_P_IP\<rparr>;
     entry \<leftarrow> longest_prefix_match_08 s (ntohl (ip_saddr ip));
     (packet, s) \<leftarrow> ip_init_hdr_08 packet ETHER_HDR_SIZE (if_ip (rt_iface entry)) (ntohl (ip_saddr ip))
        (of_int (packet_len - int ETHER_HDR_SIZE)) 1 s;
     packet \<leftarrow> (if type = 8 then icmp_echo_08 packet in_pkt ip len
                else icmp_error_08 packet in_pkt ip type code);
     ip_send_packet_08 packet packet_len s }"

definition ip_forward_packet_08 :: "u32 \<Rightarrow> bytes \<Rightarrow> int \<Rightarrow> 'a router08_scheme \<Rightarrow> 'a router08_scheme option" where
  "ip_forward_packet_08 ip_dst packet len s = do {
     iphr \<leftarrow> get_ip packet ETHER_HDR_SIZE;
     let iphr = iphr\<lparr>ip_ttl := ip_ttl iphr - 1\<rparr>;
     packet \<leftarrow> put_ip packet ETHER_HDR_SIZE iphr;
     if ip_ttl iphr \<le> 0 then icmp_send_packet_08 packet len 11 0 s
     else do {
       let dst = longest_prefix_match_08 s ip_dst;
       c \<leftarrow> ip_checksum_08 packet ETHER_HDR_SIZE;
       packet \<leftarrow> put_ip packet ETHER_HDR_SIZE (iphr\<lparr>ip_checksum_fld := c\<rparr>);
       (case dst of
          Some dst \<Rightarrow> do {
            let next_hop = (if rt_gw dst = 0 then ip_dst else rt_gw dst);
            iface_send_packet_by_arp_08 (rt_iface dst) next_hop packet len s }
        | None \<Rightarrow> icmp_send_packet_08 packet len 3 0 s) } }"

definition handle_ip_packet_08 :: "iface_info \<Rightarrow> bytes \<Rightarrow> int \<Rightarrow> 'a router08_scheme \<Rightarrow> 'a router08_scheme option" where
  "handle_ip_packet_08 iface packet len s = do {
     eh \<leftarrow> get_eth packet;
     packet \<leftarrow> put_eth packet (eh\<lparr>ether_shost := if_mac iface\<rparr>);
     ip \<leftarrow> get_ip packet ETHER_HDR_SIZE;
     if ip_protocol ip = 1 then do {
       icmp_type \<leftarrow> load8 packet (ETHER_HDR_SIZE + IP_HDR_SIZE ip);
       if icmp_type = 8 \<and> if_ip iface = ntohl (ip_daddr ip) then icmp_send_packet_08 packet len 8 0 s
       else ip_forward_packet_08 (ntohl (ip_daddr ip)) packet len s }
     else ip_forward_packet_08 (ntohl (ip_daddr ip)) packet len s }"

definition handle_packet_08 :: "iface_info \<Rightarrow> bytes \<Rightarrow> int \<Rightarrow> 'a router08_scheme \<Rightarrow> 'a router08_scheme option" where
  "handle_packet_08 iface packet len s = do {
     eh \<leftarrow> get_eth packet;
     if ntohs (ether_type eh) = ETH_P_IP then handle_ip_packet_08 iface packet len s
     else if ntohs (ether_type eh) = ETH_P_ARP then handle_arp_packet_08 iface packet len s
     else Some s }"

definition ustack_run_step_08 :: "int \<Rightarrow> bytes \<Rightarrow> bool \<Rightarrow> 'a router08_scheme \<Rightarrow> 'a router08_scheme option" where
  "ustack_run_step_08 = ustack_run_step handle_packet_08"

section \<open>Sweeping\<close>

definition expire_entries_08 :: "int \<Rightarrow> arp_cache_entry list \<Rightarrow> arp_cache_entry list" where
  "expire_entries_08 t = map (\<lambda>e. if t - ent_added e > 15 then e\<lparr>ent_valid := False\<rparr> else e)"

text \<open>The loop over the requests, run with the mutex held. After a request has been given up its node is
  freed, and \<^verbatim>\<open>req_pos->sent\<close> is read from the freed node.\<close>

fun sweep_reqs_08 :: "int \<Rightarrow> arp_req list \<Rightarrow> 'a router08_scheme \<Rightarrow> (arp_req list \<times> 'a router08_scheme) option" where
  "sweep_reqs_08 t [] s = Some ([], s)"
| "sweep_reqs_08 t (r # rs) s = do {
     (s, freed) \<leftarrow>
       (if req_retries r > 5 then do {
          s \<leftarrow> fold_opt (\<lambda>p s. icmp_send_packet_08 (cp_packet p) (cp_len p) 3 1 s) (req_pkts r) s;
          Some (s, True) }
        else Some (s, False));
     ensure (\<not> freed);
     (r', s) \<leftarrow>
       (if t - req_sent r > 1 then do {
          s \<leftarrow> arp_send_request_08 (req_iface r) (req_ip4 r) s;
          Some (r\<lparr>req_retries := req_retries r + 1\<rparr>, s) }
        else Some (r, s));
     (rs', s) \<leftarrow> sweep_reqs_08 t rs s;
     Some (r' # rs', s) }"

definition arpcache_sweep_08 :: "'a router08_scheme \<Rightarrow> 'a router08_scheme option" where
  "arpcache_sweep_08 s = do {
     s \<leftarrow> arp_lock s;
     let t = now s;
     let s = s\<lparr>arpcache := (arpcache s)\<lparr>entries := expire_entries_08 t (entries (arpcache s))\<rparr>\<rparr>;
     (rs, s) \<leftarrow> sweep_reqs_08 t (req_list (arpcache s)) s;
     Some (arp_unlock (s\<lparr>arpcache := (arpcache s)\<lparr>req_list := rs\<rparr>\<rparr>)) }"

section \<open>The parts the labs share\<close>

lemma iface_send_packet_08_eq [simp]: "iface_send_packet_08 = iface_send_packet"
  by (simp add: fun_eq_iff iface_send_packet_08_def iface_send_packet_def iface_send_frame_def)

lemma ip_checksum_08_eq [simp]: "ip_checksum_08 = ip_checksum"
  by (simp add: fun_eq_iff ip_checksum_08_def ip_checksum_def checksum_08_eq IP_HDR_SIZE_def)

lemma ip_init_hdr_08_eq [simp]: "ip_init_hdr_08 = ip_init_hdr"
  by (simp add: fun_eq_iff ip_init_hdr_08_def ip_init_hdr_def)

lemma next_hop_08 [simp]: "(if rt_gw e = 0 then d else rt_gw e) = get_next_hop e d"
  by (simp add: get_next_hop_def)

lemma lock_unlocked [simp]:
  "\<not> arp_locked s \<Longrightarrow> arp_lock s = Some (s\<lparr>arp_locked := True\<rparr>)"
  "arp_locked s \<Longrightarrow> arp_lock s = None"
  by (simp_all add: arp_lock_def)

lemma set_locked_same: "\<not> arp_locked s \<Longrightarrow> s\<lparr>arp_locked := False\<rparr> = s"
  by simp

lemma arpcache_lookup_08_eq:
  "arpcache_lookup_08 ip4 s = (if arp_locked s then None else Some (arpcache_lookup s ip4, s))"
proof -
  have "(\<lambda>e. ent_ip4 e = ip4 \<and> ent_valid e) = ent_hit ip4"
    by (auto simp: ent_hit_def)
  then show ?thesis
    by (simp add: arpcache_lookup_08_def arpcache_lookup_def arp_unlock_def set_locked_same)
qed

lemma length_malloc_08 [simp]: "length (fst (malloc_08 n s)) = n"
  by (simp add: malloc_08_def)

text \<open>What the two ARP messages look like on the wire.\<close>

definition junk_arp :: "'a router08_scheme \<Rightarrow> ether_arp" where
  "junk_arp s = dec_arp (map (\<lambda>i. junk_fn s (junk_pos s + i)) [14..<42])"

definition arp_request_frame_08 :: "iface_info \<Rightarrow> u32 \<Rightarrow> 'a router08_scheme \<Rightarrow> bytes" where
  "arp_request_frame_08 iface dst_ip s =
     enc_ether \<lparr>ether_dhost = bc_mac, ether_shost = if_mac iface, ether_type = htons ETH_P_ARP\<rparr> @
     enc_arp \<lparr>arp_hrd = htons ARPHRD_ETHER, arp_pro = htons ETH_P_IP, arp_hln = 6, arp_pln = 4,
              arp_op = htons ARPOP_REQUEST, arp_sha = if_mac iface, arp_spa = htonl (if_ip iface),
              arp_tha = arp_tha (junk_arp s), arp_tpa = htonl dst_ip\<rparr>"

lemma put_eth_arp:
  assumes "length p = 42"
  shows "put_eth p h = Some (enc_ether h @ drop 14 p)"
    and "put_arp p 14 a = Some (take 14 p @ enc_arp a)"
  using assms by (simp_all add: store_struct_def store_bytes_def eth.length_enc arph.length_enc)

lemma drop_map_upt: "drop k (map f [0..<n]) = map f [k..<n]"
  by (simp add: drop_map)

lemma arp_send_request_08_sent:
  "arp_send_request_08 i d s = Some (s\<lparr>junk_pos := junk_pos s + 42, wire := wire s @ [(i, arp_request_frame_08 i d s)]\<rparr>)"
proof -
  define p where "p = map (\<lambda>i. junk_fn s (junk_pos s + i)) [0..<42]"
  have p: "length p = 42" "take 28 (drop 14 p) = map (\<lambda>i. junk_fn s (junk_pos s + i)) [14..<42]"
    by (simp_all add: p_def drop_map)
  have "get_arp p 14 = Some (junk_arp s)"
    using p by (simp add: load_struct_def load_bytes_def junk_arp_def)
  moreover have "malloc_08 42 s = (p, s\<lparr>junk_pos := junk_pos s + 42\<rparr>)"
    by (simp add: malloc_08_def p_def)
  ultimately show ?thesis
    by (cases "junk_arp s")
       (simp add: arp_send_request_08_def p put_eth_arp eth.length_enc arp_request_frame_08_def whole_def arph.length_enc)
qed

lemma arp_send_reply_08_sent:
  "arp_send_reply_08 i r s = Some (s\<lparr>junk_pos := junk_pos s + 42, wire := wire s @ [(i,
     enc_ether \<lparr>ether_dhost = arp_sha r, ether_shost = if_mac i, ether_type = htons ETH_P_ARP\<rparr> @
     enc_arp (r\<lparr>arp_sha := if_mac i, arp_spa := htonl (if_ip i), arp_tha := arp_sha r, arp_tpa := arp_spa r,
                arp_op := htons ARPOP_REPLY\<rparr>))]\<rparr>)"
proof -
  obtain p where p: "malloc_08 42 s = (p, s\<lparr>junk_pos := junk_pos s + 42\<rparr>)" "length p = 42"
    by (simp add: malloc_08_def)
  show ?thesis
    by (simp add: arp_send_reply_08_def p put_eth_arp eth.length_enc arph.length_enc whole_def)
qed

section \<open>Stale mappings\<close>

text \<open>As long as an address is in the leading part of the table that has no holes, its hardware address
  cannot be changed.\<close>

lemma insert_slot_08_hit:
  "insert_slot_08 ip4 es k = Inr i \<Longrightarrow>
     \<exists>j. i = k + j \<and> j < length es \<and> ent_hit ip4 (es ! j) \<and> (\<forall>l < j. \<not> ent_hit ip4 (es ! l))"
proof (induction ip4 es k rule: insert_slot_08.induct)
  case (2 ip4 e es k)
  show ?case
  proof (cases "ent_hit ip4 e")
    case True
    then have "i = k" using 2(2) by (auto simp: ent_hit_def)
    then show ?thesis using True by (intro exI [of _ 0]) simp
  next
    case False
    then have "insert_slot_08 ip4 es (k + 1) = Inr i" "ent_valid e" "ent_ip4 e \<noteq> ip4"
      using 2(2) by (auto simp: ent_hit_def split: if_splits)
    then obtain j where "i = k + 1 + j" "j < length es" "ent_hit ip4 (es ! j)" "\<forall>l < j. \<not> ent_hit ip4 (es ! l)"
      using 2(1) by blast
    then show ?thesis
      using False by (intro exI [of _ "Suc j"]) (auto simp: nth_Cons split: nat.split)
  qed
qed simp

lemma insert_slot_08_found:
  assumes "\<forall>e \<in> set pre. ent_valid e \<and> ent_ip4 e \<noteq> ip4" "ent_hit ip4 e"
  shows "insert_slot_08 ip4 (pre @ e # post) k = Inr (k + length pre)"
  using assms by (induction pre arbitrary: k) (auto simp: ent_hit_def)

lemma lookup_first:
  assumes "\<forall>e \<in> set pre. \<not> ent_hit ip4 e" "ent_hit ip4 e"
  shows "find (ent_hit ip4) (pre @ e # post) = Some e"
  using assms by (induction pre) auto

text \<open>The address sits in slot \<open>length pre\<close> and every slot in front of it is in use.\<close>

definition settled_08 :: "u32 \<Rightarrow> mac \<Rightarrow> 'a router08_scheme \<Rightarrow> bool" where
  "settled_08 ip4 m s \<longleftrightarrow> \<not> arp_locked s \<and>
     (\<exists>pre e post. entries (arpcache s) = pre @ e # post \<and> ent_hit ip4 e \<and> ent_mac e = m
        \<and> (\<forall>x \<in> set pre. ent_valid x \<and> ent_ip4 x \<noteq> ip4))"

lemma settled_08_lookup: "settled_08 ip4 m s \<Longrightarrow> arpcache_lookup s ip4 = Some m"
  by (auto simp: settled_08_def arpcache_lookup_def ent_hit_def lookup_first)

lemma settled_08_insert:
  assumes "settled_08 ip4 m s"
  shows "\<exists>s'. arpcache_insert_08 ip4 m' s = Some s' \<and> settled_08 ip4 m s' \<and> wire s' = wire s
    \<and> req_list (arpcache s') = req_list (arpcache s)"
proof -
  obtain pre e post where e: "entries (arpcache s) = pre @ e # post" "ent_hit ip4 e" "ent_mac e = m"
    "\<forall>x \<in> set pre. ent_valid x \<and> ent_ip4 x \<noteq> ip4" and u: "\<not> arp_locked s"
    using assms by (auto simp: settled_08_def)
  define s' where "s' = arp_unlock (s\<lparr>arp_locked := True, arpcache := (arpcache s)\<lparr>entries :=
     pre @ e\<lparr>ent_added := now s\<rparr> # post\<rparr>\<rparr>)"
  have "arpcache_insert_08 ip4 m' s = Some s'"
    using u insert_slot_08_found [OF e(4,2), of post 0]
    by (simp add: arpcache_insert_08_def e(1) list_update_append s'_def)
  moreover have "ent_hit ip4 (e\<lparr>ent_added := now s\<rparr>)"
    using e(2) by (simp add: ent_hit_def)
  then have "settled_08 ip4 m s'"
    using e(3,4) unfolding settled_08_def s'_def arp_unlock_def by fastforce
  ultimately show ?thesis by (auto simp: s'_def arp_unlock_def)
qed

text \<open>A hardware address is never updated: once an address is in the leading, gap-free part of the
  table, any sequence of announcements of other hardware addresses for it is accepted without
  effect on the lookup, and packets queued for the address stay queued.\<close>

theorem arpcache_insert_08_stale:
  assumes "settled_08 ip4 m s"
  shows "\<exists>s'. fold_opt (\<lambda>(t, m') s. arpcache_insert_08 ip4 m' (s\<lparr>now := t\<rparr>)) ops s = Some s'
     \<and> arpcache_lookup_08 ip4 s' = Some (Some m, s') \<and> req_list (arpcache s') = req_list (arpcache s)"
proof -
  have "\<exists>s'. fold_opt (\<lambda>(t, m') s. arpcache_insert_08 ip4 m' (s\<lparr>now := t\<rparr>)) ops s = Some s'
     \<and> settled_08 ip4 m s' \<and> req_list (arpcache s') = req_list (arpcache s)"
    using assms
  proof (induction ops arbitrary: s)
    case (Cons op ops)
    obtain t m' where op: "op = (t, m')" by (cases op)
    have "settled_08 ip4 m (s\<lparr>now := t\<rparr>)" using Cons.prems by (simp add: settled_08_def)
    from settled_08_insert [OF this, of m'] obtain s1 where s1: "arpcache_insert_08 ip4 m' (s\<lparr>now := t\<rparr>) = Some s1"
      "settled_08 ip4 m s1" "req_list (arpcache s1) = req_list (arpcache s)" by auto
    from Cons.IH [OF s1(2)] show ?case by (auto simp: op s1)
  qed simp
  then obtain s' where s': "fold_opt (\<lambda>(t, m') s. arpcache_insert_08 ip4 m' (s\<lparr>now := t\<rparr>)) ops s = Some s'"
    "settled_08 ip4 m s'" "req_list (arpcache s') = req_list (arpcache s)"
    by blast
  moreover have "arpcache_lookup_08 ip4 s' = Some (Some m, s')"
    using settled_08_lookup [OF s'(2)] s'(2) by (simp add: arpcache_lookup_08_eq settled_08_def)
  ultimately show ?thesis by blast
qed

text \<open>A router with two interfaces and a network behind each; fresh memory is filled with \<open>0xaa\<close>.\<close>

definition router0 :: router08 where
  "router0 = ustack.extend ustack1 \<lparr>arp_locked = False, junk_fn = (\<lambda>i. 0xaa), junk_pos = 0\<rparr>"

definition router1 :: router08 where
  "router1 = router0\<lparr>arpcache := (arpcache router0)\<lparr>entries :=
     (entries (arpcache router0))[0 := new_entry 0 0x0A000009 (Mac 0 0 0 0 0 9)]\<rparr>\<rparr>"

lemma router0_simps [simp]:
  "arpcache router0 = arpcache ustack0" "rtable router0 = rtable ustack1" "now router0 = 0" "\<not> arp_locked router0"
  "wire router0 = []" "iface_list router0 = iface_list ustack0" "rand_fn router0 = rand_fn ustack0"
  by (simp_all add: router0_def ustack.defs ustack1_def ustack0_def)

lemma router1_settled: "settled_08 0x0A000009 (Mac 0 0 0 0 0 9) router1"
proof -
  have "entries (arpcache router1) = [] @ new_entry 0 0x0A000009 (Mac 0 0 0 0 0 9) # drop 1 (entries (arpcache ustack0))"
    by (simp add: router1_def ustack0_def replicate_eqI upt_unfold numeral_eq_Suc)
  then show ?thesis
    unfolding settled_08_def by (force simp: router1_def new_entry_def ent_hit_def)
qed

theorem arpcache_insert_08_stale_witness:
  "\<exists>s'. fold_opt (\<lambda>(t, m') s. arpcache_insert_08 0x0A000009 m' (s\<lparr>now := t\<rparr>))
         [(5, Mac 1 1 1 1 1 1), (9, Mac 2 2 2 2 2 2)] router1 = Some s'
     \<and> arpcache_lookup_08 0x0A000009 s' = Some (Some (Mac 0 0 0 0 0 9), s')"
  using arpcache_insert_08_stale [OF router1_settled] by blast

section \<open>Giving up\<close>

text \<open>With the mutex held no ICMP message gets out: whatever the packet, the call reads outside of it,
  follows a missing route or waits for the mutex.\<close>

lemma ip_send_packet_08_routed:
  assumes "get_ip p 14 = Some h" "longest_prefix_match_08 s (ntohl (ip_daddr h)) = Some e" "arp_locked s"
  shows "ip_send_packet_08 p len s = None"
  using assms by (auto simp: ip_send_packet_08_def iface_send_packet_by_arp_08_def arpcache_lookup_08_eq
      bind_eq_None_conv)

text \<open>The message is written behind the IP header.\<close>

lemma store_bytes_prefix:
  "store_bytes p i vs = Some q \<Longrightarrow> n \<le> i \<Longrightarrow> take n q = take n p \<and> length q = length p"
  by (auto simp: store_bytes_Some min_absorb2)

lemma memcpy_prefix:
  "memcpy p i src j k = Some q \<Longrightarrow> n \<le> i \<Longrightarrow> take n q = take n p \<and> length q = length p"
  by (auto simp: memcpy_def bind_eq_Some_conv store_bytes_prefix split: if_splits)

definition same_prefix :: "nat \<Rightarrow> bytes \<Rightarrow> bytes \<Rightarrow> bool" where
  "same_prefix n p q \<longleftrightarrow> take n q = take n p \<and> length q = length p"

lemma same_prefix_trans: "same_prefix n p q \<Longrightarrow> same_prefix n q r \<Longrightarrow> same_prefix n p r"
  by (simp add: same_prefix_def)

lemma same_prefix_store: "store_bytes p i vs = Some q \<Longrightarrow> n \<le> i \<Longrightarrow> same_prefix n p q"
  by (simp add: same_prefix_def store_bytes_prefix)

lemma same_prefix_memcpy: "memcpy p i src j k = Some q \<Longrightarrow> n \<le> i \<Longrightarrow> same_prefix n p q"
  by (simp add: same_prefix_def memcpy_prefix)

lemma icmp_echo_prefix:
  assumes "icmp_echo_08 p in_pkt ip len = Some q"
  shows "same_prefix 34 p q"
proof -
  obtain p1 p2 i c k where p: "store_bytes p 34 [0, 0] = Some p1" "memcpy p1 38 in_pkt i k = Some p2"
    "store_bytes p2 36 (put16 c) = Some q"
    using assms unfolding icmp_echo_08_def Let_def bind_eq_Some_conv hdr_sizes
    by (elim exE conjE) (rule that, simp_all)
  have "same_prefix 34 p p1" "same_prefix 34 p1 p2" "same_prefix 34 p2 q"
    by (rule same_prefix_store [OF p(1)] same_prefix_memcpy [OF p(2)] same_prefix_store [OF p(3)]; simp)+
  then show ?thesis using same_prefix_trans by blast
qed

lemma icmp_error_prefix:
  assumes "icmp_error_08 p in_pkt ip type code = Some q"
  shows "same_prefix 34 p q"
proof -
  obtain p1 p2 p3 i c k where p: "store_bytes p 34 [type, code] = Some p1" "store_bytes p1 38 [0, 0, 0, 0] = Some p2"
    "memcpy p2 42 in_pkt i k = Some p3" "store_bytes p3 36 (put16 c) = Some q"
    using assms unfolding icmp_error_08_def Let_def bind_eq_Some_conv hdr_sizes
    by (elim exE conjE) (rule that, simp_all)
  have "same_prefix 34 p p1" "same_prefix 34 p1 p2" "same_prefix 34 p2 p3" "same_prefix 34 p3 q"
    by (rule same_prefix_store [OF p(1)] same_prefix_store [OF p(2)] same_prefix_memcpy [OF p(3)]
        same_prefix_store [OF p(4)]; simp)+
  then show ?thesis using same_prefix_trans by blast
qed

lemma get_ip_prefix: 
  assumes "same_prefix 34 p q"
  shows "get_ip q 14 = get_ip p 14"
proof -
  have "take 20 (drop 14 q) = drop 14 (take 34 q)" "take 20 (drop 14 p) = drop 14 (take 34 p)"
    by (simp_all add: take_drop)
  then have "take 20 (drop 14 q) = take 20 (drop 14 p)"
    using assms by (simp add: same_prefix_def)
  then show ?thesis using assms by (simp add: load_struct_def load_bytes_def same_prefix_def)
qed

lemma ip_init_hdr_result:
  assumes "ip_init_hdr m off saddr daddr len proto s = Some (m', s')"
  shows "s' = s\<lparr>rand_pos := Suc (rand_pos s)\<rparr>" "length m' = length m"
    "\<exists>c. get_ip m' off = Some (own_hdr saddr daddr len proto (of_nat (rand_fn s (rand_pos s))) c)"
proof -
  obtain old where "get_ip m off = Some old"
    using assms by (auto simp: ip_init_hdr_def bind_eq_Some_conv)
  then have "off + 20 \<le> length m" by (rule iph.load_bounds)
  from ip_init_hdr_valid [OF this, of saddr daddr len proto s] assms
  show "s' = s\<lparr>rand_pos := Suc (rand_pos s)\<rparr>" "length m' = length m"
    "\<exists>c. get_ip m' off = Some (own_hdr saddr daddr len proto (of_nat (rand_fn s (rand_pos s))) c)"
    by auto
qed

lemma lpm_08_frame [simp]:
  "longest_prefix_match_08 (s\<lparr>junk_pos := j\<rparr>) d = longest_prefix_match_08 s d"
  "longest_prefix_match_08 (s\<lparr>rand_pos := k\<rparr>) d = longest_prefix_match_08 s d"
  "longest_prefix_match_08 (s\<lparr>arpcache := a\<rparr>) d = longest_prefix_match_08 s d"
  "longest_prefix_match_08 (s\<lparr>arp_locked := b\<rparr>) d = longest_prefix_match_08 s d"
  "longest_prefix_match_08 (s\<lparr>now := t\<rparr>) d = longest_prefix_match_08 s d"
  by (simp_all add: longest_prefix_match_08_def)

text \<open>What an ICMP message that was sent went through: a route back to the source, a packet that is
  addressed to the source, and \<open>ip_send_packet_08\<close> in a state that differs in the consumed random
  number and fresh memory only.\<close>

lemma icmp_send_packet_08_sent:
  assumes "icmp_send_packet_08 in_pkt len type code s = Some s'"
  obtains ip e p q h j where "get_ip in_pkt 14 = Some ip" "longest_prefix_match_08 s (ntohl (ip_saddr ip)) = Some e"
    "get_ip q 14 = Some h" "ntohl (ip_daddr h) = ntohl (ip_saddr ip)" "length q = nat (icmp_packet_len_08 ip len type)"
    "0 \<le> icmp_packet_len_08 ip len type"
    "(if type = 8 then icmp_echo_08 p in_pkt ip len else icmp_error_08 p in_pkt ip type code) = Some q"
    "ip_send_packet_08 q (icmp_packet_len_08 ip len type) (s\<lparr>junk_pos := j, rand_pos := Suc (rand_pos s)\<rparr>) = Some s'"
proof -
  let ?n = "\<lambda>ip. nat (icmp_packet_len_08 ip len type)"
  obtain ieh ip where ip: "get_eth in_pkt = Some ieh" "get_ip in_pkt 14 = Some ip"
    using assms by (auto simp: icmp_send_packet_08_def bind_eq_Some_conv)
  obtain p0 s0 where m: "malloc_08 (?n ip) s = (p0, s0)" by fastforce
  have pos: "0 \<le> icmp_packet_len_08 ip len type"
    using assms ip by (rule_tac ccontr) (simp add: icmp_send_packet_08_def Let_def)
  obtain p1 e p2 s2 p3 where *:
    "put_eth p0 \<lparr>ether_dhost = ether_dhost ieh, ether_shost = ether_dhost ieh, ether_type = htons ETH_P_IP\<rparr> = Some p1"
    "longest_prefix_match_08 s0 (ntohl (ip_saddr ip)) = Some e"
    "ip_init_hdr p1 14 (if_ip (rt_iface e)) (ntohl (ip_saddr ip)) (of_int (icmp_packet_len_08 ip len type - 14)) 1 s0 = Some (p2, s2)"
    "(if type = 8 then icmp_echo_08 p2 in_pkt ip len else icmp_error_08 p2 in_pkt ip type code) = Some p3"
    "ip_send_packet_08 p3 (icmp_packet_len_08 ip len type) s2 = Some s'"
    using assms ip m pos by (auto simp: icmp_send_packet_08_def bind_eq_Some_conv Let_def)
  have s0: "s0 = s\<lparr>junk_pos := junk_pos s + ?n ip\<rparr>" "length p0 = ?n ip"
    using m by (auto simp: malloc_08_def)
  have "same_prefix 34 p2 p3"
    using *(4) icmp_echo_prefix icmp_error_prefix by (cases "type = 8") auto
  then have "get_ip p3 14 = get_ip p2 14" "length p3 = ?n ip"
    using get_ip_prefix ip_init_hdr_result(2) [OF *(3)] eth.store_length [OF *(1)] s0
    by (auto simp: same_prefix_def)
  then show ?thesis
    using that [OF ip(2) _ _ _ _ pos *(4)] ip_init_hdr_result(1,3) [OF *(3)] *(2,5) s0(1) by (auto simp: own_hdr_def)
qed

lemma icmp_send_packet_08_locked:
  assumes "arp_locked s"
  shows "icmp_send_packet_08 p len type code s = None"
proof (rule ccontr)
  assume "icmp_send_packet_08 p len type code s \<noteq> None"
  then obtain s' where "icmp_send_packet_08 p len type code s = Some s'" by blast
  then obtain ip e q h j where *: "longest_prefix_match_08 s (ntohl (ip_saddr ip)) = Some e"
    "get_ip q 14 = Some h" "ntohl (ip_daddr h) = ntohl (ip_saddr ip)"
    "ip_send_packet_08 q (icmp_packet_len_08 ip len type) (s\<lparr>junk_pos := j, rand_pos := Suc (rand_pos s)\<rparr>) = Some s'"
    by (rule icmp_send_packet_08_sent)
  then show False
    using ip_send_packet_08_routed [OF *(2), of "s\<lparr>junk_pos := j, rand_pos := Suc (rand_pos s)\<rparr>" e] assms by simp
qed

lemma give_up_08_stuck:
  "arp_locked s \<Longrightarrow> ps \<noteq> [] \<Longrightarrow>
     fold_opt (\<lambda>p s. icmp_send_packet_08 (cp_packet p) (cp_len p) type code s) ps s = None"
  by (cases ps) (simp_all add: icmp_send_packet_08_locked)

lemma sweep_reqs_08_stuck:
  "arp_locked s \<Longrightarrow> r \<in> set rs \<Longrightarrow> 5 < req_retries r \<Longrightarrow> sweep_reqs_08 t rs s = None"
proof (induction rs arbitrary: s)
  case (Cons q rs)
  show ?case
  proof (cases "5 < req_retries q")
    case True
    then show ?thesis
      by (cases "fold_opt (\<lambda>p. icmp_send_packet_08 (cp_packet p) (cp_len p) 3 1) (req_pkts q) s") simp_all
  next
    case False
    then have "sweep_reqs_08 t rs s' = None" if "arp_locked s'" for s' :: "'a router08_scheme"
      using Cons.IH [OF that] Cons.prems(2,3) False by auto
    then show ?thesis
      using False Cons.prems(1) by (simp add: arp_send_request_08_sent)
  qed
qed simp

definition overdue :: "int \<Rightarrow> arp_req \<Rightarrow> bool" where
  "overdue t r \<longleftrightarrow> t - req_sent r > 1"

lemma sweep_reqs_08_resend:
  assumes "\<forall>r \<in> set rs. overdue t r \<and> req_retries r \<le> 5"
  shows "\<exists>w j. sweep_reqs_08 t rs s = Some (map (\<lambda>r. r\<lparr>req_retries := req_retries r + 1\<rparr>) rs, s\<lparr>junk_pos := j, wire := wire s @ w\<rparr>)
    \<and> map fst w = map req_iface rs"
  using assms
proof (induction rs arbitrary: s)
  case Nil
  then show ?case by (intro exI [of _ "[]"] exI [of _ "junk_pos s"]) simp
next
  case (Cons r rs)
  define s1 where "s1 = s\<lparr>junk_pos := junk_pos s + 42, wire := wire s @ [(req_iface r, arp_request_frame_08 (req_iface r) (req_ip4 r) s)]\<rparr>"
  obtain w j where "sweep_reqs_08 t rs s1 = Some (map (\<lambda>r. r\<lparr>req_retries := req_retries r + 1\<rparr>) rs, s1\<lparr>junk_pos := j, wire := wire s1 @ w\<rparr>)"
    "map fst w = map req_iface rs"
    using Cons by fastforce
  then show ?case
    using Cons.prems
    by (intro exI [of _ "(req_iface r, arp_request_frame_08 (req_iface r) (req_ip4 r) s) # w"] exI [of _ j])
       (simp add: overdue_def arp_send_request_08_sent flip: s1_def, simp add: s1_def)
qed

definition resent :: "nat \<Rightarrow> arp_req list \<Rightarrow> arp_req list" where
  "resent k = map (\<lambda>r. r\<lparr>req_retries := req_retries r + int k\<rparr>)"

lemma resent_simps [simp]:
  "resent 0 rs = rs" "resent 1 (resent k rs) = resent (Suc k) rs" "resent k [] = []"
  "set (resent k rs) = (\<lambda>r. r\<lparr>req_retries := req_retries r + int k\<rparr>) ` set rs"
  by (simp_all add: resent_def add.assoc)

lemma arpcache_sweep_08_resend:
  assumes "\<not> arp_locked s" "\<forall>r \<in> set (req_list (arpcache s)). overdue (now s) r \<and> req_retries r \<le> 5"
  shows "\<exists>s' w. arpcache_sweep_08 s = Some s' \<and> req_list (arpcache s') = resent 1 (req_list (arpcache s))
     \<and> wire s' = wire s @ w \<and> map fst w = map req_iface (req_list (arpcache s)) \<and> \<not> arp_locked s'"
proof -
  define s1 where "s1 = s\<lparr>arp_locked := True, arpcache := (arpcache s)\<lparr>entries := expire_entries_08 (now s) (entries (arpcache s))\<rparr>\<rparr>"
  have "req_list (arpcache s1) = req_list (arpcache s)" "wire s1 = wire s" by (simp_all add: s1_def)
  then obtain w j where w: "sweep_reqs_08 (now s) (req_list (arpcache s1)) s1
      = Some (resent 1 (req_list (arpcache s)), s1\<lparr>junk_pos := j, wire := wire s @ w\<rparr>)"
    "map fst w = map req_iface (req_list (arpcache s))"
    using sweep_reqs_08_resend [of "req_list (arpcache s)" "now s" s1] assms(2) by (auto simp: resent_def)
  have "arpcache_sweep_08 s = Some (arp_unlock (s1\<lparr>junk_pos := j, wire := wire s @ w,
      arpcache := (arpcache s1)\<lparr>req_list := resent 1 (req_list (arpcache s))\<rparr>\<rparr>))"
    using assms(1) w(1) by (simp add: arpcache_sweep_08_def s1_def)
  then show ?thesis using w(2) by (simp add: arp_unlock_def)
qed

text \<open>C22. A host that does not answer stops the router: requests that have just been queued are sent
  again in each of the next six overdue sweeps, since the time of the last request is never recorded,
  and the seventh sweep, which gives them up, never returns.\<close>

theorem unanswered_request_stops_sweep_08:
  assumes "\<not> arp_locked s" "req_list (arpcache s) \<noteq> []"
    and "\<forall>r \<in> set (req_list (arpcache s)). req_retries r = 0 \<and> req_pkts r \<noteq> []"
    and "length ts = 6" "\<forall>t \<in> set ts. \<forall>r \<in> set (req_list (arpcache s)). overdue t r"
  shows "\<exists>s' w. fold_opt (\<lambda>t s. arpcache_sweep_08 (s\<lparr>now := t\<rparr>)) ts s = Some s'
     \<and> wire s' = wire s @ w \<and> map fst w = concat (replicate 6 (map req_iface (req_list (arpcache s))))
     \<and> (\<forall>t. arpcache_sweep_08 (s'\<lparr>now := t\<rparr>) = None)"
proof -
  define rs where "rs = req_list (arpcache s)"
  have "\<exists>s' w. fold_opt (\<lambda>t s. arpcache_sweep_08 (s\<lparr>now := t\<rparr>)) ts s = Some s'
     \<and> wire s' = wire s @ w \<and> map fst w = concat (replicate (length ts) (map req_iface rs))
     \<and> req_list (arpcache s') = resent (k + length ts) rs \<and> \<not> arp_locked s'"
    if "k + length ts \<le> 6" "req_list (arpcache s) = resent k rs" "\<not> arp_locked s"
      "\<forall>r \<in> set rs. req_retries r = 0" "\<forall>t \<in> set ts. \<forall>r \<in> set rs. overdue t r" for k ts s
    using that
  proof (induction ts arbitrary: s k)
    case (Cons t ts)
    have "\<forall>r \<in> set (req_list (arpcache (s\<lparr>now := t\<rparr>))). overdue (now (s\<lparr>now := t\<rparr>)) r \<and> req_retries r \<le> 5"
      using Cons.prems by (auto simp: overdue_def)
    from arpcache_sweep_08_resend [OF _ this] Cons.prems obtain s1 w1 where s1: "arpcache_sweep_08 (s\<lparr>now := t\<rparr>) = Some s1"
      "req_list (arpcache s1) = resent (k + 1) rs" "wire s1 = wire s @ w1" "map fst w1 = map req_iface rs" "\<not> arp_locked s1"
      by (auto simp: resent_def)
    from Cons.IH [of "k + 1" s1] Cons.prems s1 obtain s' w where "fold_opt (\<lambda>t s. arpcache_sweep_08 (s\<lparr>now := t\<rparr>)) ts s1 = Some s'"
      "wire s' = wire s1 @ w" "map fst w = concat (replicate (length ts) (map req_iface rs))"
      "req_list (arpcache s') = resent (k + 1 + length ts) rs" "\<not> arp_locked s'"
      by auto
    then show ?case using s1 by (intro exI [of _ s'] exI [of _ "w1 @ w"]) simp
  qed (intro exI conjI, auto)
  from this [of 0 ts s] obtain s' w where s': "fold_opt (\<lambda>t s. arpcache_sweep_08 (s\<lparr>now := t\<rparr>)) ts s = Some s'"
    "wire s' = wire s @ w" "map fst w = concat (replicate 6 (map req_iface rs))"
    "req_list (arpcache s') = resent 6 rs" "\<not> arp_locked s'"
    using assms by (auto simp: rs_def)
  obtain r where "r \<in> set rs"
    using assms(2) last_in_set unfolding rs_def by blast
  then have "r\<lparr>req_retries := 6\<rparr> \<in> set (req_list (arpcache s'))"
    using assms(3) s'(4) by (force simp: rs_def)
  then have "arpcache_sweep_08 (s'\<lparr>now := t\<rparr>) = None" for t
    using s'(5) by (simp add: arpcache_sweep_08_def sweep_reqs_08_stuck [where r = "r\<lparr>req_retries := 6\<rparr>"])
  then show ?thesis using s'(1-3) by (auto simp: rs_def)
qed

definition pending_08 :: arp_req where
  "pending_08 = \<lparr>req_iface = iface1, req_ip4 = 0x0A000102, req_sent = 0, req_retries = 0,
     req_pkts = [\<lparr>cp_packet = transit_packet, cp_len = 40\<rparr>]\<rparr>"

definition router2 :: router08 where
  "router2 = router0\<lparr>arpcache := (arpcache router0)\<lparr>req_list := [pending_08]\<rparr>\<rparr>"

theorem unanswered_request_stops_sweep_08_witness:
  "\<exists>s' w. fold_opt (\<lambda>t s. arpcache_sweep_08 (s\<lparr>now := t\<rparr>)) [2, 3, 4, 5, 6, 7] router2 = Some s'
     \<and> wire s' = w \<and> map fst w = replicate 6 iface1 \<and> arpcache_sweep_08 (s'\<lparr>now := 8\<rparr>) = None"
  using unanswered_request_stops_sweep_08 [of router2 "[2, 3, 4, 5, 6, 7]"]
  by (auto simp: router2_def pending_08_def overdue_def numeral_eq_Suc)

section \<open>Ping\<close>

text \<open>Storing the checksum makes a message of even length verify; a message of odd length stops the
  process in the assertion.\<close>

lemma icmp_checksum_08_odd: "odd n \<Longrightarrow> icmp_checksum_08 m off n = None"
  by (simp add: icmp_checksum_08_def checksum_08_def bind_eq_None_conv)

lemma icmp_checksum_08_store:
  assumes n: "even n" "4 \<le> n" "n \<le> 65536" "off + n \<le> length m"
  shows "\<exists>c m'. icmp_checksum_08 m off (int n) = Some c \<and> store_bytes m (off + 2) (put16 c) = Some m' \<and> icmp_ok m' off n"
proof -
  have shape: "take n (drop off (take (off + 2) m @ v @ drop (off + 4) m))
      = take 2 (drop off m) @ v @ take (n - 4) (drop (off + 4) m)" if "length v = 2" for v
    using that n by (simp add: take_drop min_def)
  define m0 where "m0 = take (off + 2) m @ [0, 0] @ drop (off + 4) m"
  have four: "Suc (Suc (Suc (Suc off))) = off + 4" by simp
  have m0: "store_bytes m (off + 2) [0, 0] = Some m0" "length m0 = length m"
    using n by (simp_all add: store_bytes_def m0_def four)
  have even2: "even (length (take 2 (drop off m)))" using n by simp
  have total: "word_total (take 2 (drop off m) @ v @ r) = word_total (take 2 (drop off m)) + word_total v + word_total r"
    if "length v = 2" for v r
    using that even2 by (simp only: word_total_append add.assoc) (simp add: word_total_append)
  have small: "word_total (take n (drop off m0)) < 2 ^ 32"
    using word_total_bound [of "take n (drop off m0)"] n by simp
  obtain c where c: "checksum m0 off (int n) 0 = Some c"
    "unat c = 65535 - oc_norm (word_total (take n (drop off m0)))"
    using checksum_value [of off n m0 0] n m0(2) small by auto
  define m' where "m' = take (off + 2) m @ put16 c @ drop (off + 4) m"
  have "word_total (take n (drop off m')) = word_total (take n (drop off m0)) + unat c"
    using shape [of "put16 c"] shape [of "[0, 0]"] total [of "put16 c"] total [of "[0, 0]"]
    by (simp add: m'_def m0_def mk16_def)
  then have "icmp_ok m' off n" using c(2) by (simp add: icmp_ok_def oc_norm_complement)
  moreover have "store_bytes m (off + 2) (put16 c) = Some m'"
    using n by (simp add: store_bytes_def m'_def four)
  moreover have "icmp_checksum_08 m off (int n) = Some c"
    using m0(1) c(1) n(1) by (simp add: icmp_checksum_08_def checksum_08_eq)
  ultimately show ?thesis by blast
qed

lemma icmp_echo_08_ok:
  assumes "length p = 42 + k" "length in_pkt = 42 + k" "IP_HDR_SIZE ip = 20" "even k" "k \<le> 60000"
  shows "\<exists>q. icmp_echo_08 p in_pkt ip (int (42 + k)) = Some q \<and> same_prefix 34 p q
     \<and> load_bytes q 34 2 = Some [0, 0] \<and> load_bytes q 38 (4 + k) = load_bytes in_pkt 38 (4 + k) \<and> icmp_ok q 34 (k + 8)"
proof -
  obtain p1 where p1: "store_bytes p 34 [0, 0] = Some p1"
    using store_bytes_defined [of 34 "[0, 0]" p] assms(1) by auto
  have l1: "length p1 = 42 + k" using store_bytes_length [OF p1] assms(1) by simp
  obtain data where data: "load_bytes in_pkt 38 (4 + k) = Some data"
    using assms(2) by (simp add: load_bytes_def)
  have ld: "length data = 4 + k" by (rule load_bytes_length [OF data])
  obtain p2 where p2: "store_bytes p1 38 data = Some p2"
    using store_bytes_defined [of 38 data p1] l1 ld by auto
  have l2: "length p2 = 42 + k" using store_bytes_length [OF p2] l1 by simp
  obtain c q where q: "icmp_checksum_08 p2 34 (int (k + 8)) = Some c" "store_bytes p2 36 (put16 c) = Some q" "icmp_ok q 34 (k + 8)"
    using icmp_checksum_08_store [of "k + 8" 34 p2] assms(4,5) l2 by auto
  have "memcpy p1 38 in_pkt 38 (4 + int k) = Some p2"
    using data p2 by (simp add: memcpy_def nat_add_distrib)
  then have echo: "icmp_echo_08 p in_pkt ip (int (42 + k)) = Some q"
    using p1 q assms(3) by (simp add: icmp_echo_08_def Let_def algebra_simps)
  have "load_bytes q 34 2 = load_bytes p2 34 2" by (rule load_store_other [OF q(2)]) simp
  also have "\<dots> = load_bytes p1 34 2" by (rule load_store_other [OF p2]) simp
  also have "\<dots> = Some [0, 0]" using load_store_same [OF p1, of 2] by simp
  finally have "load_bytes q 34 2 = Some [0, 0]" .
  moreover have "load_bytes q 38 (4 + k) = load_bytes p2 38 (4 + k)"
    by (rule load_store_other [OF q(2)]) simp
  moreover have "load_bytes p2 38 (4 + k) = Some data" using load_store_same [OF p2] ld by simp
  ultimately show ?thesis
    using echo icmp_echo_prefix [OF echo] q(3) data by auto
qed

lemma send_by_arp_08_known:
  assumes "whole p len" "arpcache_lookup s ip4 = Some m" "\<not> arp_locked s"
  shows "iface_send_packet_by_arp_08 iface ip4 p len s = Some (s\<lparr>wire := wire s @ [(iface, fill_eth m iface p)]\<rparr>)"
  using assms fill_eth_whole [OF assms(1), of m iface]
  by (simp add: iface_send_packet_by_arp_08_def arpcache_lookup_08_eq whole_def get_eth_whole put_eth_whole
      eth.length_enc fill_eth_def eth_all_fields)

lemma fill_eth_put_eth:
  "14 \<le> length p \<Longrightarrow> fill_eth m iface (enc_ether h @ drop 14 p) = fill_eth m iface p"
  by (simp add: fill_eth_def eth.length_enc)

lemma ip_send_packet_08_known:
  assumes "whole p len" "get_ip p 14 = Some h" "longest_prefix_match_08 s (ntohl (ip_daddr h)) = Some e"
    and "arpcache_lookup s (get_next_hop e (ntohl (ip_daddr h))) = Some m" "\<not> arp_locked s"
  shows "ip_send_packet_08 p len s = Some (s\<lparr>wire := wire s @ [(rt_iface e, fill_eth m (rt_iface e) p)]\<rparr>)"
proof -
  have l: "14 \<le> length p" using assms(1) by (simp add: whole_def)
  have w: "whole (enc_ether x @ drop 14 p) len" for x
    using assms(1) by (simp add: whole_def eth.length_enc)
  then show ?thesis
    using assms(2,3) get_eth_whole [OF l] put_eth_whole [OF l] send_by_arp_08_known [OF w assms(4,5)]
    by (simp add: ip_send_packet_08_def fill_eth_put_eth [OF l])
qed

text \<open>An echo request without IP options.\<close>

definition echo_request_08 :: "bytes \<Rightarrow> iphdr \<Rightarrow> nat \<Rightarrow> bool" where
  "echo_request_08 p h k \<longleftrightarrow> get_ip p 14 = Some h \<and> IP_HDR_SIZE h = 20 \<and> ip_protocol h = 1
     \<and> load8 p 34 = Some 8 \<and> length p = 42 + k \<and> k \<le> 60000"

lemma set_shost_same_packet:
  assumes "42 \<le> length p"
  obtains eh p' where "get_eth p = Some eh" "put_eth p (eh\<lparr>ether_shost := m\<rparr>) = Some p'"
    "length p' = length p" "drop 14 p' = drop 14 p" "get_ip p' 14 = get_ip p 14" "load8 p' 34 = load8 p 34"
    "get_eth p' = Some (eh\<lparr>ether_shost := m\<rparr>)"
proof -
  obtain eh where eh: "get_eth p = Some eh" using eth.load_defined [of 0 p] assms by auto
  obtain p' where p': "put_eth p (eh\<lparr>ether_shost := m\<rparr>) = Some p'" using eth.store_defined [of 0 p] assms by auto
  have "drop 14 p' = drop 14 p" "length p' = length p"
    using p' put_eth_whole [of p] assms by (auto simp: eth.length_enc)
  moreover have "get_ip p' 14 = get_ip p 14" by (rule eth.load_struct_frame [OF p']) simp
  moreover have "load8 p' 34 = load8 p 34"
    using eth.load_bytes_after_store [OF p', of 34 1] by (simp add: load8_eq_load_bytes)
  ultimately show ?thesis using that eh p' eth.load_after_store [OF p'] by blast
qed

lemma icmp_send_packet_08_echo:
  assumes "get_eth p = Some eh" "get_ip p 14 = Some h" "IP_HDR_SIZE h = 20" "length p = 42 + k" "even k" "k \<le> 60000"
    and "\<not> arp_locked s" "longest_prefix_match_08 s (ntohl (ip_saddr h)) = Some e"
    and "arpcache_lookup s (get_next_hop e (ntohl (ip_saddr h))) = Some m"
  shows "\<exists>q c. icmp_send_packet_08 p (int (length p)) 8 code s
       = Some (s\<lparr>junk_pos := junk_pos s + length p, rand_pos := Suc (rand_pos s),
                 wire := wire s @ [(rt_iface e, fill_eth m (rt_iface e) q)]\<rparr>)
     \<and> length q = length p \<and> ip_header_ok q 14
     \<and> get_ip q 14 = Some (own_hdr (if_ip (rt_iface e)) (ntohl (ip_saddr h)) (of_nat (28 + k)) 1
                             (of_nat (rand_fn s (rand_pos s))) c)
     \<and> load_bytes q 34 2 = Some [0, 0] \<and> load_bytes q 38 (4 + k) = load_bytes p 38 (4 + k)
     \<and> icmp_ok q 34 (k + 8)"
proof -
  define s1 where "s1 = s\<lparr>junk_pos := junk_pos s + (42 + k)\<rparr>"
  define s2 where "s2 = s1\<lparr>rand_pos := Suc (rand_pos s1)\<rparr>"
  obtain p0 where p0: "malloc_08 (42 + k) s = (p0, s1)" "length p0 = 42 + k"
    by (simp add: malloc_08_def s1_def)
  have "0 + 14 \<le> length p0" using p0(2) by simp
  then obtain p1 where p1: "put_eth p0 \<lparr>ether_dhost = ether_dhost eh, ether_shost = ether_dhost eh, ether_type = htons ETH_P_IP\<rparr> = Some p1"
    using eth.store_defined by blast
  have l1: "length p1 = 42 + k" using eth.store_length [OF p1] p0(2) by simp
  let ?own = "own_hdr (if_ip (rt_iface e)) (ntohl (ip_saddr h)) (of_nat (28 + k)) 1 (of_nat (rand_fn s (rand_pos s)))"
  obtain p2 c where p2: "ip_init_hdr p1 14 (if_ip (rt_iface e)) (ntohl (ip_saddr h)) (of_nat (28 + k)) 1 s1 = Some (p2, s2)"
    "get_ip p2 14 = Some (?own c)" "ip_header_ok p2 14" "length p2 = 42 + k"
    using ip_init_hdr_valid [of 14 p1 "if_ip (rt_iface e)" "ntohl (ip_saddr h)" "of_nat (28 + k)" 1 s1] l1
    by (auto simp: s2_def s1_def)
  obtain q where q: "icmp_echo_08 p2 p h (int (42 + k)) = Some q" "same_prefix 34 p2 q" "load_bytes q 34 2 = Some [0, 0]"
    "load_bytes q 38 (4 + k) = load_bytes p 38 (4 + k)" "icmp_ok q 34 (k + 8)"
    using icmp_echo_08_ok [OF p2(4) assms(4,3,5,6)] by auto
  have hdr: "get_ip q 14 = Some (?own c)" "length q = 42 + k"
    using get_ip_prefix [OF q(2)] p2(2,4) q(2) by (simp_all add: same_prefix_def)
  have "take 20 (drop 14 x) = drop 14 (take 34 x)" for x :: bytes by (simp add: take_drop)
  then have ok: "ip_header_ok q 14"
    using p2(2,3,4) hdr q(2) by (simp add: ip_header_ok_def same_prefix_def own_hdr_def IP_HDR_SIZE_def)
  have w: "whole q (int (42 + k))" using hdr(2) by (simp add: whole_def)
  have send: "ip_send_packet_08 q (int (42 + k)) s2 = Some (s2\<lparr>wire := wire s @ [(rt_iface e, fill_eth m (rt_iface e) q)]\<rparr>)"
    using ip_send_packet_08_known [OF w hdr(1), of s2 e m] assms(7-9)
    by (simp add: own_hdr_def s2_def s1_def arpcache_lookup_def)
  define n where "n = 42 + k"
  have n: "icmp_packet_len_08 h (int n) 8 = int n" "(of_nat n :: u16) - 14 = 28 + of_nat k"
    by (simp_all add: icmp_packet_len_08_def n_def)
  have "longest_prefix_match_08 s1 (ntohl (ip_saddr h)) = Some e" using assms(8) by (simp add: s1_def)
  then have "icmp_send_packet_08 p (int n) 8 code s = Some (s2\<lparr>wire := wire s @ [(rt_iface e, fill_eth m (rt_iface e) q)]\<rparr>)"
    using assms(1,2) p0(1) [folded n_def] p1 p2(1) q(1) [folded n_def] send [folded n_def]
    by (simp add: icmp_send_packet_08_def n)
  then show ?thesis
    using hdr q(3-5) assms(4) ok by (intro exI [of _ q] exI [of _ c]) (simp add: n_def s2_def s1_def)
qed

text \<open>C21. Ping is answered in lab 8: for an echo request without options and with an even number of data
  bytes, to the address of the interface it came in on, from a routable source with a resolved next
  hop, the router sends exactly one frame. It goes back along the route to the source and is an echo
  reply from the address of the outgoing interface, with identifier, sequence number and data of
  the request and valid header and message checksums.\<close>

theorem ping_08_answered:
  assumes "echo_request_08 p h k" "even k" "if_ip iface = ntohl (ip_daddr h)" "\<not> arp_locked s"
    and "longest_prefix_match_08 s (ntohl (ip_saddr h)) = Some e"
    and "arpcache_lookup s (get_next_hop e (ntohl (ip_saddr h))) = Some m"
  shows "\<exists>q c. handle_ip_packet_08 iface p (int (length p)) s
       = Some (s\<lparr>junk_pos := junk_pos s + length p, rand_pos := Suc (rand_pos s),
                 wire := wire s @ [(rt_iface e, fill_eth m (rt_iface e) q)]\<rparr>)
     \<and> length q = length p \<and> ip_header_ok q 14
     \<and> get_ip q 14 = Some (own_hdr (if_ip (rt_iface e)) (ntohl (ip_saddr h)) (of_nat (28 + k)) 1
                             (of_nat (rand_fn s (rand_pos s))) c)
     \<and> load_bytes q 34 2 = Some [0, 0] \<and> load_bytes q 38 (4 + k) = load_bytes p 38 (4 + k)
     \<and> icmp_ok q 34 (k + 8)"
proof -
  have r: "get_ip p 14 = Some h" "IP_HDR_SIZE h = 20" "ip_protocol h = 1" "load8 p 34 = Some 8" "length p = 42 + k" "k \<le> 60000"
    using assms(1) by (auto simp: echo_request_08_def)
  obtain eh p' where p': "get_eth p = Some eh" "put_eth p (eh\<lparr>ether_shost := if_mac iface\<rparr>) = Some p'"
    "length p' = length p" "drop 14 p' = drop 14 p" "get_ip p' 14 = Some h" "load8 p' 34 = Some 8"
    "get_eth p' = Some (eh\<lparr>ether_shost := if_mac iface\<rparr>)"
    using set_shost_same_packet [of p "if_mac iface"] r by auto
  have "handle_ip_packet_08 iface p (int (length p)) s = icmp_send_packet_08 p' (int (length p')) 8 0 s"
    using p' r assms(3) by (simp add: handle_ip_packet_08_def)
  moreover have "load_bytes p' 38 (4 + k) = load_bytes p 38 (4 + k)"
    using arg_cong [OF p'(4), of "drop 24"] p'(3) by (simp add: load_bytes_def)
  ultimately show ?thesis
    using icmp_send_packet_08_echo [OF p'(7,5) r(2) _ assms(2) r(6) assms(4-6), of 0] p'(3) r(5) by simp
qed

text \<open>With an odd number of data bytes the checksum's assertion ends the process.\<close>

theorem ping_08_odd_aborts:
  assumes "echo_request_08 p h k" "odd k" "if_ip iface = ntohl (ip_daddr h)"
  shows "handle_ip_packet_08 iface p (int (length p)) s = None"
proof -
  have r: "get_ip p 14 = Some h" "IP_HDR_SIZE h = 20" "ip_protocol h = 1" "load8 p 34 = Some 8" "length p = 42 + k"
    using assms(1) by (auto simp: echo_request_08_def)
  obtain eh p' where p': "get_eth p = Some eh" "put_eth p (eh\<lparr>ether_shost := if_mac iface\<rparr>) = Some p'"
    "length p' = length p" "drop 14 p' = drop 14 p" "get_ip p' 14 = Some h" "load8 p' 34 = Some 8"
    "get_eth p' = Some (eh\<lparr>ether_shost := if_mac iface\<rparr>)"
    using set_shost_same_packet [of p "if_mac iface"] r by auto
  have odd: "icmp_echo_08 q p' h (int (length p)) = None" for q
    using assms(2) r(2,5) by (simp add: icmp_echo_08_def Let_def bind_eq_None_conv icmp_checksum_08_odd)
  have "icmp_send_packet_08 p' (int (length p)) 8 0 s = None"
  proof (rule ccontr)
    assume "\<not> ?thesis"
    then obtain s' where "icmp_send_packet_08 p' (int (length p)) 8 0 s = Some s'" by blast
    then show False by (rule icmp_send_packet_08_sent) (use odd p'(5) in auto)
  qed
  then show ?thesis
    using p' r assms(3) by (simp add: handle_ip_packet_08_def)
qed

lemma ping_08_facts:
  "echo_request_08 ping ping_ip 4" "ntohl (ip_daddr ping_ip) = if_ip iface0"
  "longest_prefix_match_08 router1 (ntohl (ip_saddr ping_ip)) = Some route24"
  "arpcache_lookup router1 (get_next_hop route24 (ntohl (ip_saddr ping_ip))) = Some (Mac 0 0 0 0 0 9)"
  "\<not> arp_locked router1" "wire router1 = []" "rt_iface route24 = iface0"
proof -
  have "get_ip ping 14 = Some ping_ip" using ping_facts(1) by (simp add: echo_request_def)
  then show "echo_request_08 ping ping_ip 4"
    using ping_facts(2) by (simp add: echo_request_08_def ping_def iph.length_enc nth_append enc_icmp_def ping_icmp_def load8_def
      ICMP_ECHOREQUEST_def) (simp add: ping_ip_def own_hdr_def IP_HDR_SIZE_def IPPROTO_ICMP_def)
  show "ntohl (ip_daddr ping_ip) = if_ip iface0" by (simp add: ping_ip_def own_hdr_def iface0_def)
  show "longest_prefix_match_08 router1 (ntohl (ip_saddr ping_ip)) = Some route24"
    by (simp add: ping_ip_def own_hdr_def longest_prefix_match_08_def router1_def ustack1_def route_examples prefix_mask_def)
  show "arpcache_lookup router1 (get_next_hop route24 (ntohl (ip_saddr ping_ip))) = Some (Mac 0 0 0 0 0 9)"
    using settled_08_lookup [OF router1_settled] by (simp add: get_next_hop_def route_examples ping_ip_def own_hdr_def)
  show "\<not> arp_locked router1" "wire router1 = []" "rt_iface route24 = iface0"
    by (simp_all add: router1_def route_examples)
qed

theorem ping_08_answered_witness:
  "\<exists>q s'. handle_ip_packet_08 iface0 ping 46 router1 = Some s' \<and> wire s' = [(iface0, fill_eth (Mac 0 0 0 0 0 9) iface0 q)]
     \<and> load_bytes q 38 8 = load_bytes ping 38 8 \<and> icmp_ok q 34 12"
  using ping_08_answered [OF ping_08_facts(1) _ ping_08_facts(2) [symmetric] ping_08_facts(5,3,4)]
  by (auto simp: ping_08_facts(6,7) ping_facts(2))

section \<open>Forwarding\<close>

text \<open>C23. Forwarding in lab 8 agrees with the later routing labs, and hence with the TCP labs: for a
  packet with time to live above 1, a route with a non-zero mask in an unambiguous table, and a
  resolved next hop, the router sends the same frame and ends in the same state.\<close>

theorem ip_forward_packet_08_equiv:
  assumes "whole p len" "get_ip p 14 = Some h" "1 < ip_ttl h" "\<not> arp_locked s" "unambiguous (rtable s)"
    and "longest_prefix_match_08 s d = Some e" "arpcache_lookup s (get_next_hop e d) = Some m"
  shows "ip_forward_packet_08 d p len s = ip_forward_packet_12 d p len s"
proof -
  have ttl: "\<not> ip_ttl h \<le> 1" "ip_ttl h \<noteq> 1" using assms(3) by auto
  have lpm: "longest_prefix_match s d = Some e" by (rule lpm_08_agree [OF assms(5,6)])
  have "iface_send_packet_by_arp_08 (rt_iface e) (get_next_hop e d) q len s
      = iface_send_packet_by_arp_12 (rt_iface e) (get_next_hop e d) q len s"
    if "put_ip p 14 h1 = Some p1" "put_ip p1 14 h2 = Some q" for h1 p1 h2 q
  proof -
    have "whole q len"
      using assms(1) iph.store_length [OF that(1)] iph.store_length [OF that(2)] by (simp add: whole_def)
    then show ?thesis
      using assms(4,7) by (simp add: send_by_arp_08_known send_by_arp_12_known send_by_arp_known)
  qed
  then show ?thesis
    using assms(2,6) ttl lpm
    by (auto simp: ip_forward_packet_08_def ip_forward_packet_12_def bind_eq_Some_conv Let_def split: Option.bind_split)
qed

theorem ip_forward_packet_08_equiv_witness:
  "ip_forward_packet_08 0x0A000009 transit_packet 40 router1 = ip_forward_packet_12 0x0A000009 transit_packet 40 router1"
proof (rule ip_forward_packet_08_equiv [OF transit_facts(1,2)])
  show "1 < ip_ttl transit_hdr" by (simp add: transit_facts)
  show "\<not> arp_locked router1" "unambiguous (rtable router1)"
    by (auto simp: router1_def ustack1_def unambiguous_def route_examples prefix_mask_def)
  show "longest_prefix_match_08 router1 0x0A000009 = Some route24"
    "arpcache_lookup router1 (get_next_hop route24 0x0A000009) = Some (Mac 0 0 0 0 0 9)"
    using ping_08_facts(3,4) by (simp_all add: ping_ip_def own_hdr_def)
qed

text \<open>A packet that arrives with time to live 0 is not reported as expired but leaves with 255, which is
  -1 in eight bits.\<close>

lemma ip_forward_packet_08_ttl_0:
  assumes "get_ip p 14 = Some h" "ip_ttl h = 0" "put_ip p 14 (h\<lparr>ip_ttl := - 1\<rparr>) = Some p1"
    and "ip_checksum p1 14 = Some c" "put_ip p1 14 (h\<lparr>ip_ttl := - 1, ip_checksum_fld := c\<rparr>) = Some p2"
    and "longest_prefix_match_08 s d = Some e"
  shows "ip_forward_packet_08 d p len s = iface_send_packet_by_arp_08 (rt_iface e) (get_next_hop e d) p2 len s"
  using assms by (simp add: ip_forward_packet_08_def Let_def)

text \<open>A request for the address of another host on the segment ends in the freed packet.\<close>

lemma arp_request_for_other_08:
  assumes "get_arp p 14 = Some r" "ntohs (arp_op r) = 1" "ntohl (arp_tpa r) \<noteq> if_ip iface"
  shows "handle_arp_packet_08 iface p len s = None"
  using assms by (simp add: handle_arp_packet_08_def bind_eq_None_conv)

section \<open>What stays true of the cache\<close>

definition req_ok_08 :: "arp_req \<Rightarrow> bool" where
  "req_ok_08 r \<longleftrightarrow> req_pkts r \<noteq> [] \<and> 0 \<le> req_retries r \<and> req_retries r \<le> 6 \<and> (\<forall>p \<in> set (req_pkts r). pkt_whole p)"

definition req_key :: "arp_req \<Rightarrow> iface_info \<times> u32" where
  "req_key r = (req_iface r, req_ip4 r)"

definition wf_08 :: "'a router08_scheme \<Rightarrow> bool" where
  "wf_08 s \<longleftrightarrow> \<not> arp_locked s \<and> length (entries (arpcache s)) = 32
     \<and> (\<forall>r \<in> set (req_list (arpcache s)). req_ok_08 r) \<and> distinct (map req_key (req_list (arpcache s)))"

lemma wf_08_junk [simp]: "wf_08 (s\<lparr>junk_pos := j, wire := w\<rparr>) = wf_08 s"
  by (simp add: wf_08_def)

lemma junk_wire_self: "\<exists>w j. s = s\<lparr>junk_pos := j, wire := w\<rparr>"
  by (rule exI [of _ "wire s"], rule exI [of _ "junk_pos s"]) simp

lemma iface_send_packet_wire: "iface_send_packet i p len s = Some s' \<Longrightarrow> \<exists>w. s' = s\<lparr>wire := w\<rparr>"
  by (auto simp: iface_send_packet_def iface_send_frame_def bind_eq_Some_conv wire_self split: if_splits)

lemma req_key_simps:
  "req_key (r\<lparr>req_pkts := ps\<rparr>) = req_key r" "req_key (r\<lparr>req_retries := k\<rparr>) = req_key r"
  by (simp_all add: req_key_def)

lemma req_key_eq: "(i, d) = req_key r \<longleftrightarrow> req_iface r = i \<and> req_ip4 r = d" "req_key (r\<lparr>req_pkts := ps\<rparr>) = req_key r"
  by (auto simp: req_key_def)

lemma append_to_req_08_cases:
  "(case append_to_req_08 iface ip4 pkt rs of
      None \<Rightarrow> (iface, ip4) \<notin> req_key ` set rs
    | Some rs' \<Rightarrow> map req_key rs' = map req_key rs \<and>
        (\<forall>r' \<in> set rs'. r' \<in> set rs \<or> (\<exists>r \<in> set rs. r' = r\<lparr>req_pkts := req_pkts r @ [pkt]\<rparr>)))"
  by (induction rs) (auto simp: req_key_eq split: option.splits)

lemma append_08_wf:
  assumes wf: "wf_08 s" and "whole p len" and app: "arpcache_append_packet_08 iface ip4 p len s = Some s'"
  shows "wf_08 s'"
proof -
  let ?pkt = "\<lparr>cp_packet = p, cp_len = len\<rparr>"
  note cases = append_to_req_08_cases [where iface = iface and ?ip4.0 = ip4 and pkt = ?pkt and rs = "req_list (arpcache s)"]
  show ?thesis
  proof (cases "append_to_req_08 iface ip4 ?pkt (req_list (arpcache s))")
    case None
    then have "req_key \<lparr>req_iface = iface, req_ip4 = ip4, req_sent = t, req_retries = 0, req_pkts = [?pkt]\<rparr>
        \<notin> req_key ` set (req_list (arpcache s))" for t
      using cases by (simp add: req_key_def)
    then show ?thesis
      using None wf app assms(2)
      by (auto simp: arpcache_append_packet_08_def wf_08_def arp_send_request_08_sent arp_unlock_def req_ok_08_def pkt_whole_def Let_def)
  next
    case (Some rs)
    then have rs: "map req_key rs = map req_key (req_list (arpcache s))"
      "\<And>r'. r' \<in> set rs \<Longrightarrow> r' \<in> set (req_list (arpcache s)) \<or> (\<exists>r \<in> set (req_list (arpcache s)). r' = r\<lparr>req_pkts := req_pkts r @ [?pkt]\<rparr>)"
      using cases by auto
    have "req_ok_08 r'" if "r' \<in> set rs" for r'
      using rs(2) [OF that] wf assms(2) by (auto simp: wf_08_def req_ok_08_def pkt_whole_def)
    then show ?thesis
      using Some wf app rs(1) by (auto simp: arpcache_append_packet_08_def wf_08_def arp_unlock_def Let_def)
  qed
qed

lemma by_arp_08_wf:
  assumes "wf_08 s" "whole p len" "iface_send_packet_by_arp_08 iface ip4 p len s = Some s'"
  shows "wf_08 s'"
proof (cases "arpcache_lookup s ip4")
  case (Some m)
  then show ?thesis
    using assms by (auto simp: send_by_arp_08_known wf_08_def)
next
  case None
  have l: "14 \<le> length p" using assms(2) by (simp add: whole_def)
  have w: "whole (enc_ether x @ drop 14 p) len" for x
    using assms(2) by (simp add: whole_def eth.length_enc)
  show ?thesis
    using assms None get_eth_whole [OF l] put_eth_whole [OF l]
    by (auto simp: iface_send_packet_by_arp_08_def arpcache_lookup_08_eq wf_08_def [of s] intro: append_08_wf [OF assms(1) w])
qed

lemma ip_send_08_wf:
  assumes "wf_08 s" "whole p len" "ip_send_packet_08 p len s = Some s'"
  shows "wf_08 s'"
proof -
  have l: "14 \<le> length p" using assms(2) by (simp add: whole_def)
  have w: "whole (enc_ether x @ drop 14 p) len" for x
    using assms(2) by (simp add: whole_def eth.length_enc)
  show ?thesis
    using assms(1,3) get_eth_whole [OF l] put_eth_whole [OF l] by_arp_08_wf [OF assms(1) w]
    by (auto simp: ip_send_packet_08_def bind_eq_Some_conv Let_def split: option.splits)
qed

lemma icmp_send_08_wf:
  assumes "wf_08 s" "icmp_send_packet_08 p len type code s = Some s'"
  shows "wf_08 s'"
  using assms(2)
proof (rule icmp_send_packet_08_sent)
  fix ip q h j
  assume q: "get_ip q 14 = Some h" "length q = nat (icmp_packet_len_08 ip len type)" "0 \<le> icmp_packet_len_08 ip len type"
    and send: "ip_send_packet_08 q (icmp_packet_len_08 ip len type) (s\<lparr>junk_pos := j, rand_pos := Suc (rand_pos s)\<rparr>) = Some s'"
  have "34 \<le> length q" using iph.load_bounds [OF q(1)] by simp
  then have "whole q (icmp_packet_len_08 ip len type)" using q(2,3) by (simp add: whole_def)
  moreover have "wf_08 (s\<lparr>junk_pos := j, rand_pos := Suc (rand_pos s)\<rparr>)" using assms(1) by (simp add: wf_08_def)
  ultimately show ?thesis using send ip_send_08_wf by blast
qed

lemma ip_forward_08_wf:
  assumes "wf_08 s" "whole p len" "ip_forward_packet_08 d p len s = Some s'"
  shows "wf_08 s'"
proof -
  have w: "whole q len" if "put_ip p 14 h = Some r" "put_ip r 14 h' = Some q" for q r h h'
    using assms(2) iph.store_length [OF that(1)] iph.store_length [OF that(2)] by (simp add: whole_def)
  show ?thesis
    using assms(3) icmp_send_08_wf [OF assms(1)] by_arp_08_wf [OF assms(1) w]
    by (auto simp: ip_forward_packet_08_def bind_eq_Some_conv Let_def split: if_splits option.splits)
qed

lemma flush_packet_08_wire: "flush_packet_08 i m p s = Some s' \<Longrightarrow> \<exists>w. s' = s\<lparr>wire := w\<rparr>"
  by (auto simp: flush_packet_08_def bind_eq_Some_conv dest!: iface_send_packet_wire)

lemma flush_loop_08_wire:
  "fold_opt (flush_packet_08 i m) ps s = Some s' \<Longrightarrow> \<exists>w. s' = s\<lparr>wire := w\<rparr>"
proof (induction ps arbitrary: s)
  case (Cons p ps)
  then obtain w s1 where "s1 = s\<lparr>wire := w\<rparr>" "fold_opt (flush_packet_08 i m) ps s1 = Some s'"
    by (auto simp: bind_eq_Some_conv dest!: flush_packet_08_wire)
  then show ?case using Cons.IH [of s1] by auto
qed (simp add: wire_self)

lemma flush_reqs_08_result:
  "flush_reqs_08 ip4 m rs s = Some (rs', s') \<Longrightarrow> rs' = filter (\<lambda>r. req_ip4 r \<noteq> ip4) rs \<and> (\<exists>w. s' = s\<lparr>wire := w\<rparr>)"
proof (induction rs arbitrary: s rs' s')
  case (Cons r rs)
  show ?case
  proof (cases "req_ip4 r = ip4")
    case True
    then obtain w where "flush_reqs_08 ip4 m rs (s\<lparr>wire := w\<rparr>) = Some (rs', s')"
      using Cons.prems by (auto simp: bind_eq_Some_conv dest!: flush_loop_08_wire)
    then show ?thesis using Cons.IH True by fastforce
  next
    case False
    then obtain rs1 where "flush_reqs_08 ip4 m rs s = Some (rs1, s')" "rs' = r # rs1"
      using Cons.prems by (auto simp: bind_eq_Some_conv)
    then show ?thesis using Cons.IH False by fastforce
  qed
qed (simp add: wire_self)

lemma insert_08_wf:
  assumes "wf_08 s" "arpcache_insert_08 ip4 m s = Some s'"
  shows "wf_08 s'"
proof (cases "insert_slot_08 ip4 (entries (arpcache s)) 0")
  case (Inr i)
  then show ?thesis
    using assms by (auto simp: arpcache_insert_08_def wf_08_def arp_unlock_def Let_def)
next
  case (Inl i)
  then have "length (entries (arpcache s')) = 32 \<and> \<not> arp_locked s' \<and>
      req_list (arpcache s') = filter (\<lambda>r. req_ip4 r \<noteq> ip4) (req_list (arpcache s))"
    using assms unfolding wf_08_def
    by (auto simp: arpcache_insert_08_def arp_unlock_def bind_eq_Some_conv Let_def ensure_def split: if_splits
        dest!: flush_reqs_08_result)
  then show ?thesis
    using assms(1) by (simp add: wf_08_def distinct_map_filter)
qed

lemma handle_arp_08_wf:
  assumes "wf_08 s" "handle_arp_packet_08 iface p len s = Some s'"
  shows "wf_08 s'"
  using assms
  by (auto simp: handle_arp_packet_08_def bind_eq_Some_conv arp_send_reply_08_sent split: if_splits
      dest!: insert_08_wf [OF assms(1)])

lemma handle_packet_08_wf:
  assumes "wf_08 s" "handle_packet_08 iface p (int (length p)) s = Some s'"
  shows "wf_08 s'"
proof -
  have w: "whole q (int (length p))" if "put_eth p eh = Some q" for q eh
    using eth.store_bounds [OF that] eth.store_length [OF that] by (simp add: whole_def)
  have "wf_08 s'" if "handle_ip_packet_08 iface p (int (length p)) s = Some s'"
    using that ip_forward_08_wf [OF assms(1) w] icmp_send_08_wf [OF assms(1)]
    by (auto simp: handle_ip_packet_08_def bind_eq_Some_conv split: if_splits)
  then show ?thesis
    using assms handle_arp_08_wf by (auto simp: handle_packet_08_def bind_eq_Some_conv split: if_splits)
qed

lemma sweep_reqs_08_result:
  "sweep_reqs_08 t rs s = Some (rs', s') \<Longrightarrow> \<forall>r \<in> set rs. req_ok_08 r \<Longrightarrow>
     (\<forall>r \<in> set rs'. req_ok_08 r) \<and> map req_key rs' = map req_key rs \<and> (\<exists>w j. s' = s\<lparr>junk_pos := j, wire := w\<rparr>)"
proof (induction rs arbitrary: s rs' s')
  case Nil
  then show ?case using junk_wire_self by auto
next
  case (Cons r rs)
  then have k: "\<not> 5 < req_retries r"
    by (auto simp: bind_eq_Some_conv)
  define s1 r1 where "s1 = (if t - req_sent r > 1 then s\<lparr>junk_pos := junk_pos s + 42,
      wire := wire s @ [(req_iface r, arp_request_frame_08 (req_iface r) (req_ip4 r) s)]\<rparr> else s)"
    and "r1 = (if t - req_sent r > 1 then r\<lparr>req_retries := req_retries r + 1\<rparr> else r)"
  obtain rs1 where rs1: "sweep_reqs_08 t rs s1 = Some (rs1, s')" "rs' = r1 # rs1"
    using Cons.prems(1) k by (auto simp: bind_eq_Some_conv arp_send_request_08_sent s1_def r1_def split: if_splits)
  obtain w j where w: "\<forall>r \<in> set rs1. req_ok_08 r" "map req_key rs1 = map req_key rs" "s' = s1\<lparr>junk_pos := j, wire := w\<rparr>"
    using Cons.IH [OF rs1(1)] Cons.prems(2) by auto
  have "s' = s\<lparr>junk_pos := j, wire := w\<rparr>" using w(3) by (simp add: s1_def)
  moreover have "req_ok_08 r1" "req_key r1 = req_key r"
    using Cons.prems(2) k by (auto simp: r1_def req_ok_08_def req_key_simps)
  ultimately show ?case using w(1,2) rs1(2) by auto
qed

lemma sweep_08_wf:
  assumes "wf_08 s" "arpcache_sweep_08 s = Some s'"
  shows "wf_08 s'"
  using assms by (auto simp: arpcache_sweep_08_def wf_08_def bind_eq_Some_conv Let_def arp_unlock_def expire_entries_08_def
      dest!: sweep_reqs_08_result)

text \<open>The states the router can get into: frames are received, the sweeping thread does its rounds and
  time passes. A call that does not return has no next state.\<close>

inductive reach_08 :: "'a router08_scheme \<Rightarrow> bool" where
  start: "reach_08 (arpcache_init_08 s)"
| receive: "reach_08 s \<Longrightarrow> handle_packet_08 iface p (int (length p)) s = Some s' \<Longrightarrow> reach_08 s'"
| sweep: "reach_08 s \<Longrightarrow> arpcache_sweep_08 s = Some s' \<Longrightarrow> reach_08 s'"
| tick: "reach_08 s \<Longrightarrow> now s \<le> t \<Longrightarrow> reach_08 (s\<lparr>now := t\<rparr>)"

text \<open>C20. Well-formedness of the router's cache: in every reachable state the mutex is free, the table has
  its 32 entries, no two queued requests are for the same interface and address, and every request
  has at least one waiting packet, all of them whole frames, and has been sent again at most six
  times.\<close>

theorem reach_08_well_formed:
  assumes "reach_08 s"
  shows "\<not> arp_locked s \<and> length (entries (arpcache s)) = 32
     \<and> (\<forall>r \<in> set (req_list (arpcache s)). req_ok_08 r) \<and> distinct (map req_key (req_list (arpcache s)))"
proof -
  have "wf_08 s"
    using assms
  proof (induction rule: reach_08.induct)
    case (start s)
    then show ?case by (simp add: wf_08_def arpcache_init_08_def)
  next
    case (tick s t)
    then show ?case by (simp add: wf_08_def)
  qed (auto intro: handle_packet_08_wf sweep_08_wf)
  then show ?thesis by (simp add: wf_08_def)
qed

theorem reach_08_well_formed_witness:
  "\<exists>s'. arpcache_sweep_08 ((arpcache_init_08 router0)\<lparr>now := 7\<rparr>) = Some s' \<and> \<not> arp_locked s' \<and> length (entries (arpcache s')) = 32"
proof -
  have r: "reach_08 ((arpcache_init_08 router0)\<lparr>now := 7\<rparr>)"
    by (rule reach_08.tick [OF reach_08.start]) (simp add: arpcache_init_08_def)
  obtain s' where s': "arpcache_sweep_08 ((arpcache_init_08 router0)\<lparr>now := 7\<rparr>) = Some s'"
    by (simp add: arpcache_sweep_08_def arpcache_init_08_def Let_def)
  then show ?thesis using reach_08_well_formed [OF reach_08.sweep [OF r s']] by simp
qed

end
