(* ===== verification/Stp.thy ===== *)
theory Stp
  imports Net
begin

text \<open>
  The spanning tree protocol of \<^verbatim>\<open>06-stp\<close>: the configuration message, the priority of
  configurations, the handling of a received configuration, and the hello timer. C \<^verbatim>\<open>int\<close> fields are
  integers, with the conversions from and to 32-bit unsigned values written out; a pointer into
  the array of ports is its index.
\<close>

section \<open>64-bit fields\<close>

definition put64 :: "u64 \<Rightarrow> bytes" where
  "put64 w = put32 (ucast w) @ put32 (ucast (drop_bit 32 w))"

definition get64 :: "bytes \<Rightarrow> nat \<Rightarrow> u64" where
  "get64 bs i = ucast (get32 bs i) OR push_bit 32 (ucast (get32 bs (i + 4)))"

text \<open>\<^verbatim>\<open>htonll\<close> of \<^verbatim>\<open>utils.h\<close> on a little-endian host; \<^verbatim>\<open>ntohll\<close> is the same macro.\<close>

definition htonll :: "u64 \<Rightarrow> u64" where
  "htonll x = push_bit 32 (ucast (htonl (ucast (x AND 0xFFFFFFFF)))) OR ucast (htonl (ucast (drop_bit 32 x)))"

abbreviation ntohll :: "u64 \<Rightarrow> u64" where "ntohll \<equiv> htonll"

definition join64 :: "u32 \<Rightarrow> u32 \<Rightarrow> u64" where
  "join64 lo hi = ucast lo OR push_bit 32 (ucast hi)"

lemma ucast_join64 [byte_simps]:
  "(ucast (join64 lo hi) :: u32) = lo" "(ucast (drop_bit 32 (join64 lo hi)) :: u32) = hi"
  by (rule bit_word_eqI; auto simp: join64_def bit_simps dest: bit_imp_le_length)+

lemma join64_split [byte_simps]: "join64 (ucast w) (ucast (drop_bit 32 w)) = w"
  by (rule bit_word_eqI) (auto simp: join64_def bit_simps)

lemma get64_join: "get64 bs i = join64 (get32 bs i) (get32 bs (i + 4))"
  by (simp add: get64_def join64_def)

lemma mask32_ucast: "(ucast (x AND 0xFFFFFFFF :: u64) :: u32) = ucast x"
proof -
  have m: "(0xFFFFFFFF :: u64) = mask 32" by (simp add: mask_eq_exp_minus_1)
  show ?thesis unfolding m by (rule bit_word_eqI) (simp add: bit_simps)
qed

lemma htonll_join: "htonll x = join64 (htonl (ucast (drop_bit 32 x))) (htonl (ucast x))"
  unfolding htonll_def join64_def mask32_ucast by (simp add: or.commute)

lemma ntohll_htonll [simp]: "ntohll (htonll x) = x"
  by (simp add: htonll_join byte_simps)

lemma length_put64 [simp]: "length (put64 w) = 8"
  by (simp add: put64_def)

section \<open>The configuration message\<close>

definition LLC_HDR_SIZE :: nat where "LLC_HDR_SIZE = 3"
definition LLC_DSAP_SNAP :: u8 where "LLC_DSAP_SNAP = 0x42"
definition LLC_SSAP_SNAP :: u8 where "LLC_SSAP_SNAP = 0x42"
definition LLC_CNTL_SNAP :: u8 where "LLC_CNTL_SNAP = 3"
definition STP_BRIDGE_PRIORITY :: u64 where "STP_BRIDGE_PRIORITY = 32768"
definition STP_PORT_PRIORITY :: int where "STP_PORT_PRIORITY = 128"
definition STP_MAX_PORTS :: nat where "STP_MAX_PORTS = 32"
definition STP_MAX_AGE :: int where "STP_MAX_AGE = 20000 * 256 div 1000"
definition STP_HELLO_TIME :: int where "STP_HELLO_TIME = 2000 * 256 div 1000"
definition STP_FWD_DELAY :: int where "STP_FWD_DELAY = 15000 * 256 div 1000"
definition STP_TYPE_CONFIG :: u8 where "STP_TYPE_CONFIG = 0x00"
definition STP_TYPE_TCN :: u8 where "STP_TYPE_TCN = 0x80"

record stp_config =
  cf_proto_id :: u16
  cf_version :: u8
  cf_msg_type :: u8
  cf_flags :: u8
  cf_root_id :: u64
  cf_root_path_cost :: u32
  cf_switch_id :: u64
  cf_port_id :: u16
  cf_msg_age :: u16
  cf_max_age :: u16
  cf_hello_time :: u16
  cf_fwd_delay :: u16

definition enc_config :: "stp_config \<Rightarrow> bytes" where
  "enc_config c = put16 (cf_proto_id c) @ [cf_version c, cf_msg_type c, cf_flags c] @ put64 (cf_root_id c)
     @ put32 (cf_root_path_cost c) @ put64 (cf_switch_id c) @ put16 (cf_port_id c) @ put16 (cf_msg_age c)
     @ put16 (cf_max_age c) @ put16 (cf_hello_time c) @ put16 (cf_fwd_delay c)"

definition dec_config :: "bytes \<Rightarrow> stp_config" where
  "dec_config bs = \<lparr>cf_proto_id = get16 bs 0, cf_version = bs ! 2, cf_msg_type = bs ! 3, cf_flags = bs ! 4,
     cf_root_id = get64 bs 5, cf_root_path_cost = get32 bs 13, cf_switch_id = get64 bs 17,
     cf_port_id = get16 bs 25, cf_msg_age = get16 bs 27, cf_max_age = get16 bs 29,
     cf_hello_time = get16 bs 31, cf_fwd_delay = get16 bs 33\<rparr>"

interpretation cfg: layout enc_config dec_config 35
proof
  fix x bs
  show "length (enc_config x) = 35"
    by (simp add: enc_config_def)
  show "dec_config (enc_config x) = x"
    by (cases x) (simp add: enc_config_def dec_config_def struct_defs get64_join put64_def byte_simps)
  assume "length (bs :: bytes) = 35"
  then show "enc_config (dec_config bs) = bs"
    by (rule list_by_length[rotated])
       (simp add: enc_config_def dec_config_def struct_defs get64_join put64_def byte_simps upt_unfold)
qed

section \<open>State\<close>

record stp_timer =
  tm_active :: bool
  tm_time :: int
  tm_timeout :: int

record stp_port =
  port_id :: int
  port_iface :: iface_info
  path_cost :: int
  p_root :: u64
  p_switch :: u64
  p_port :: int
  p_cost :: int

record stp_t =
  switch_id :: u64
  designated_root :: u64
  root_path_cost :: int
  root_port :: "nat option"
  hello_timer :: stp_timer
  ports :: "stp_port list"

text \<open>The switch with its interfaces and the time in ticks of 1/256 second.\<close>

record stp_sys = ustack +
  stp :: stp_t
  tick :: int

datatype role = ROOT | DESIGNATED | ALTERNATE

section \<open>Timers\<close>

definition time_tick_now :: "int \<Rightarrow> int \<Rightarrow> int" where
  "time_tick_now tv_sec tv_usec = tv_sec * 256 + tv_usec * 256 div 1000000"

definition stp_init_timer :: "int \<Rightarrow> stp_timer" where
  "stp_init_timer timeout = \<lparr>tm_active = False, tm_time = 0, tm_timeout = timeout\<rparr>"

definition stp_start_timer :: "int \<Rightarrow> stp_timer \<Rightarrow> stp_timer" where
  "stp_start_timer t tm = tm\<lparr>tm_active := True, tm_time := t\<rparr>"

definition stp_stop_timer :: "stp_timer \<Rightarrow> stp_timer" where
  "stp_stop_timer tm = tm\<lparr>tm_active := False\<rparr>"

definition stp_check_timer :: "stp_timer \<Rightarrow> int \<Rightarrow> stp_timer \<times> bool" where
  "stp_check_timer tm t =
     (if tm_active tm then
        (if t \<ge> tm_time tm + tm_timeout tm then (tm\<lparr>tm_active := False\<rparr>, True) else (tm, False))
      else (tm, False))"

section \<open>Roles and messages\<close>

definition stp_is_root_switch :: "stp_t \<Rightarrow> bool" where
  "stp_is_root_switch st \<longleftrightarrow> designated_root st = switch_id st"

definition stp_port_is_designated :: "stp_t \<Rightarrow> stp_port \<Rightarrow> bool" where
  "stp_port_is_designated st p \<longleftrightarrow> p_switch p = switch_id st \<and> p_port p = port_id p"

definition stp_port_state :: "stp_t \<Rightarrow> stp_port \<Rightarrow> role" where
  "stp_port_state st p =
     (if (case root_port st of Some r \<Rightarrow> port_id p = port_id (ports st ! r) | None \<Rightarrow> False) then ROOT
      else if p_switch p = switch_id st \<and> p_port p = port_id p then DESIGNATED
      else ALTERNATE)"

text \<open>\<^verbatim>\<open>PRIOR\<close>: the first configuration has priority over the second. The costs are compared as
  unsigned values for a received message and as signed ones between ports.\<close>

definition PRIOR :: "u64 \<Rightarrow> u64 \<Rightarrow> 'c::linorder \<Rightarrow> 'c \<Rightarrow> u64 \<Rightarrow> u64 \<Rightarrow> int \<Rightarrow> int \<Rightarrow> bool" where
  "PRIOR r1 r2 c1 c2 s1 s2 p1 p2 =
     (if r1 < r2 then True else if r1 > r2 then False else
      if c1 < c2 then True else if c1 > c2 then False else
      if s1 < s2 then True else if s1 > s2 then False else
      if p1 < p2 then True else False)"

definition eth_stp_addr :: mac where "eth_stp_addr = Mac 0x01 0x80 0xC2 0x00 0x00 0x01"

definition stp_port_send_packet :: "stp_port \<Rightarrow> bytes \<Rightarrow> 'a ustack_scheme \<Rightarrow> 'a ustack_scheme option" where
  "stp_port_send_packet p stp_msg s =
     (let pkt_len = ETHER_HDR_SIZE + LLC_HDR_SIZE + length stp_msg in
      iface_send_packet (port_iface p)
        (enc_ether \<lparr>ether_dhost = eth_stp_addr, ether_shost = if_mac (port_iface p),
                    ether_type = htons (of_nat (pkt_len - ETHER_HDR_SIZE))\<rparr>
         @ [LLC_DSAP_SNAP, LLC_SSAP_SNAP, LLC_CNTL_SNAP] @ stp_msg) (int pkt_len) s)"

definition make_config :: "stp_t \<Rightarrow> stp_port \<Rightarrow> stp_config" where
  "make_config st p = \<lparr>cf_proto_id = htons 0, cf_version = 0, cf_msg_type = STP_TYPE_CONFIG, cf_flags = 0,
     cf_root_id = htonll (designated_root st), cf_root_path_cost = htonl (of_int (root_path_cost st)),
     cf_switch_id = htonll (switch_id st), cf_port_id = htons (of_int (port_id p)), cf_msg_age = htons 0,
     cf_max_age = htons (of_int STP_MAX_AGE), cf_hello_time = htons (of_int STP_HELLO_TIME),
     cf_fwd_delay = htons (of_int STP_FWD_DELAY)\<rparr>"

definition stp_port_send_config :: "stp_port \<Rightarrow> 'a stp_sys_scheme \<Rightarrow> 'a stp_sys_scheme option" where
  "stp_port_send_config p s =
     (if \<not> stp_is_root_switch (stp s) \<and> root_port (stp s) = None then Some s
      else stp_port_send_packet p (enc_config (make_config (stp s) p)) s)"

definition stp_send_config :: "'a stp_sys_scheme \<Rightarrow> 'a stp_sys_scheme option" where
  "stp_send_config s =
     fold_opt (\<lambda>p s. if stp_port_is_designated (stp s) p then stp_port_send_config p s else Some s)
       (ports (stp s)) s"

definition stp_handle_hello_timeout :: "'a stp_sys_scheme \<Rightarrow> 'a stp_sys_scheme option" where
  "stp_handle_hello_timeout s = do {
     s \<leftarrow> stp_send_config s;
     Some (s\<lparr>stp := (stp s)\<lparr>hello_timer := stp_start_timer (tick s) (hello_timer (stp s))\<rparr>\<rparr>) }"

text \<open>\<^verbatim>\<open>stp_timer_run_once\<close>: the hello timer is the only one in the list.\<close>

definition stp_timer_run_once :: "'a stp_sys_scheme \<Rightarrow> 'a stp_sys_scheme option" where
  "stp_timer_run_once s =
     (let (tm, expired) = stp_check_timer (hello_timer (stp s)) (tick s);
          s = s\<lparr>stp := (stp s)\<lparr>hello_timer := tm\<rparr>\<rparr>
      in if expired then stp_handle_hello_timeout s else Some s)"

section \<open>Initialisation\<close>

definition mac_to_u64 :: "mac \<Rightarrow> u64" where
  "mac_to_u64 m = fold (\<lambda>b acc. push_bit 8 acc + ucast b) (mac_bytes m) 0"

definition stp_port_init :: "stp_t \<Rightarrow> stp_port \<Rightarrow> stp_port" where
  "stp_port_init st p = p\<lparr>p_root := designated_root st, p_switch := switch_id st,
     p_port := port_id p, p_cost := root_path_cost st\<rparr>"

fun init_ports :: "stp_t \<Rightarrow> iface_info list \<Rightarrow> nat \<Rightarrow> stp_port list option" where
  "init_ports st [] n = Some []"
| "init_ports st (i # is) n = do {
     ensure (n < STP_MAX_PORTS);
     ps \<leftarrow> init_ports st is (Suc n);
     Some (stp_port_init st \<lparr>port_id = STP_PORT_PRIORITY * 256 + int (n + 1), port_iface = i, path_cost = 1,
             p_root = 0, p_switch = 0, p_port = 0, p_cost = 0\<rparr> # ps) }"

definition stp_init :: "'a stp_sys_scheme \<Rightarrow> 'a stp_sys_scheme option" where
  "stp_init s = do {
     ensure (iface_list s \<noteq> []);
     let sid = mac_to_u64 (if_mac (hd (iface_list s))) OR push_bit 48 STP_BRIDGE_PRIORITY;
     let st = \<lparr>switch_id = sid, designated_root = sid, root_path_cost = 0, root_port = None,
               hello_timer = stp_start_timer (tick s) (stp_init_timer STP_HELLO_TIME), ports = []\<rparr>;
     ps \<leftarrow> init_ports st (iface_list s) 0;
     Some (s\<lparr>stp := st\<lparr>ports := ps\<rparr>\<rparr>) }"

section \<open>Handling a configuration\<close>

text \<open>The port takes over the received configuration.\<close>

definition port_adopt :: "stp_config \<Rightarrow> stp_port \<Rightarrow> stp_port" where
  "port_adopt c p = p\<lparr>p_root := ntohll (cf_root_id c), p_port := int (unat (ntohs (cf_port_id c))),
     p_switch := ntohll (cf_switch_id c), p_cost := sint (ntohl (cf_root_path_cost c))\<rparr>"

definition config_prior :: "stp_config \<Rightarrow> stp_port \<Rightarrow> bool" where
  "config_prior c p = PRIOR (ntohll (cf_root_id c)) (p_root p) (ntohl (cf_root_path_cost c)) (of_int (p_cost p))
     (ntohll (cf_switch_id c)) (p_switch p) (int (unat (ntohs (cf_port_id c)))) (p_port p)"

definition port_prior :: "stp_port \<Rightarrow> stp_port \<Rightarrow> bool" where
  "port_prior p q = PRIOR (p_root p) (p_root q) (p_cost p) (p_cost q) (p_switch p) (p_switch q) (p_port p) (p_port q)"

definition candidate :: "stp_t \<Rightarrow> nat \<Rightarrow> bool" where
  "candidate st i \<longleftrightarrow> \<not> stp_port_is_designated st (ports st ! i) \<and> stp_port_state st (ports st ! i) = ALTERNATE"

text \<open>The loop from port 1 on: without a first candidate the switch declares itself the root and
  stops, otherwise a better candidate replaces the current one.\<close>

fun root_loop :: "nat list \<Rightarrow> stp_t \<Rightarrow> nat option \<Rightarrow> stp_t \<times> nat option" where
  "root_loop [] st rp = (st, rp)"
| "root_loop (i # is) st None = (st\<lparr>designated_root := switch_id st, root_path_cost := 0\<rparr>, None)"
| "root_loop (i # is) st (Some r) =
     root_loop is st (if candidate st i \<and> port_prior (ports st ! i) (ports st ! r) then Some i else Some r)"

definition select_root :: "stp_t \<Rightarrow> stp_t option" where
  "select_root st =
     (case root_loop [1..<length (ports st)] st (find (candidate st) [0..<length (ports st)]) of
        (st, None) \<Rightarrow> Some st
      | (st, Some r) \<Rightarrow> do {
          ensure (p_cost (ports st ! r) + path_cost (ports st ! r) \<le> 2147483647);
          Some (st\<lparr>designated_root := p_root (ports st ! r), root_port := Some r,
                   root_path_cost := p_cost (ports st ! r) + path_cost (ports st ! r)\<rparr>) })"

text \<open>The loop over all ports: designated ports advertise the new view, and alternate ports with a
  greater cost become designated.\<close>

definition update_port :: "stp_t \<Rightarrow> stp_port \<Rightarrow> stp_port" where
  "update_port st p =
     (if stp_port_is_designated st p then p\<lparr>p_root := designated_root st, p_cost := root_path_cost st\<rparr>
      else if stp_port_state st p = ALTERNATE \<and> root_path_cost st < p_cost p
      then p\<lparr>p_root := designated_root st, p_cost := root_path_cost st, p_switch := switch_id st,
             p_port := port_id p\<rparr>
      else p)"

text \<open>A superior configuration: the port adopts it, the root port is chosen again, the ports are
  updated, and the hello timer stops unless the switch is the root.\<close>

definition stop_unless_root :: "stp_t \<Rightarrow> stp_t" where
  "stop_unless_root st =
     (if stp_is_root_switch st then st else st\<lparr>hello_timer := stp_stop_timer (hello_timer st)\<rparr>)"

definition update_ports :: "stp_t \<Rightarrow> stp_t" where
  "update_ports st = st\<lparr>ports := map (update_port st) (ports st)\<rparr>"

definition stp_apply_config :: "nat \<Rightarrow> stp_config \<Rightarrow> stp_t \<Rightarrow> stp_t option" where
  "stp_apply_config i config st =
     map_option (\<lambda>st. stop_unless_root (update_ports st))
       (select_root (st\<lparr>ports := (ports st)[i := port_adopt config (ports st ! i)]\<rparr>))"

definition stp_handle_config_packet :: "nat \<Rightarrow> stp_config \<Rightarrow> 'a stp_sys_scheme \<Rightarrow> 'a stp_sys_scheme option" where
  "stp_handle_config_packet i config s =
     (let st = stp s in
      if config_prior config (ports st ! i) then do {
        st \<leftarrow> stp_apply_config i config st;
        stp_send_config (s\<lparr>stp := st\<rparr>) }
      else stp_port_send_config (ports st ! i) s)"

definition stp_port_handle_packet :: "nat \<Rightarrow> bytes \<Rightarrow> 'a stp_sys_scheme \<Rightarrow> 'a stp_sys_scheme option" where
  "stp_port_handle_packet i packet s = do {
     msg_type \<leftarrow> load8 packet (ETHER_HDR_SIZE + LLC_HDR_SIZE + 3);
     if msg_type = STP_TYPE_CONFIG then do {
       config \<leftarrow> load_struct dec_config 35 packet (ETHER_HDR_SIZE + LLC_HDR_SIZE);
       stp_handle_config_packet i config s }
     else Some s }"

text \<open>\<^verbatim>\<open>handle_packet\<close> of the switch compares \<^verbatim>\<open>sizeof(*eth_stp_addr)\<close> bytes of the destination, which is
  one byte. The interface's port is the one created for it, at the same position of the list.\<close>

definition handle_packet_06 :: "nat \<Rightarrow> bytes \<Rightarrow> 'a stp_sys_scheme \<Rightarrow> 'a stp_sys_scheme option" where
  "handle_packet_06 i packet s = do {
     b \<leftarrow> load8 packet 0;
     if b \<noteq> hd (mac_bytes eth_stp_addr) then Some s
     else stp_port_handle_packet i packet s }"

section \<open>The priority order\<close>

text \<open>A configuration as a priority vector, ordered lexicographically; smaller is better.\<close>

datatype vec = Vec (v_root: u64) (v_cost: int) (v_switch: u64) (v_port: int)

instantiation vec :: linorder
begin

definition less_vec :: "vec \<Rightarrow> vec \<Rightarrow> bool" where
  "less_vec a b \<longleftrightarrow> v_root a < v_root b \<or> v_root a = v_root b \<and> (v_cost a < v_cost b \<or> v_cost a = v_cost b \<and>
     (v_switch a < v_switch b \<or> v_switch a = v_switch b \<and> v_port a < v_port b))"

definition less_eq_vec :: "vec \<Rightarrow> vec \<Rightarrow> bool" where
  "less_eq_vec a b \<longleftrightarrow> a < b \<or> a = b"

instance
proof
  fix x y z :: vec
  show "x < y \<longleftrightarrow> x \<le> y \<and> \<not> y \<le> x"
    by (auto simp: less_vec_def less_eq_vec_def)
  show "x \<le> x" by (simp add: less_eq_vec_def)
  show "x \<le> y \<Longrightarrow> y \<le> z \<Longrightarrow> x \<le> z"
    by (auto simp: less_vec_def less_eq_vec_def)
  show "x \<le> y \<Longrightarrow> y \<le> x \<Longrightarrow> x = y"
    by (auto simp: less_vec_def less_eq_vec_def)
  show "x \<le> y \<or> y \<le> x"
    by (cases x; cases y) (auto simp: less_vec_def less_eq_vec_def)
qed

end

definition port_vec :: "stp_port \<Rightarrow> vec" where
  "port_vec p = Vec (p_root p) (p_cost p) (p_switch p) (p_port p)"

definition config_vec :: "stp_config \<Rightarrow> vec" where
  "config_vec c = Vec (ntohll (cf_root_id c)) (uint (ntohl (cf_root_path_cost c)))
     (ntohll (cf_switch_id c)) (int (unat (ntohs (cf_port_id c))))"

definition cost_ok :: "int \<Rightarrow> bool" where "cost_ok c \<longleftrightarrow> 0 \<le> c \<and> c \<le> 2147483647"

lemma PRIOR_lex: "PRIOR r1 r2 c1 c2 s1 s2 p1 p2 \<longleftrightarrow> Vec r1 c1 s1 p1 < Vec r2 c2 s2 p2"
  by (auto simp: PRIOR_def less_vec_def)

lemma cost_unat: "cost_ok c \<Longrightarrow> uint (of_int c :: u32) = c"
  by (simp add: cost_ok_def uint_word_of_int_eq take_bit_int_eq_self)

lemma u32_order: "(w :: u32) < v \<longleftrightarrow> uint w < uint v"
  by (simp add: word_less_def)

text \<open>For costs in the range of a non-negative \<^verbatim>\<open>int\<close> the macro \<^verbatim>\<open>PRIOR\<close> decides a linear order: a received
  configuration has priority over the one stored at a port exactly when its vector of root,
  cost, switch and port is lexicographically smaller, and the same comparison decides between two
  ports.\<close>

theorem stp_prior_lexicographic:
  assumes "cost_ok (p_cost p)"
  shows "(config_prior c p \<longleftrightarrow> config_vec c < port_vec p) \<and> (port_prior q p \<longleftrightarrow> port_vec q < port_vec p)"
proof
  show "port_prior q p \<longleftrightarrow> port_vec q < port_vec p"
    by (simp add: port_prior_def port_vec_def PRIOR_lex)
  let ?w = "ntohl (cf_root_path_cost c)"
  have "?w < of_int (p_cost p) \<longleftrightarrow> uint ?w < p_cost p"
    "of_int (p_cost p) < ?w \<longleftrightarrow> p_cost p < uint ?w"
    using cost_unat [OF assms] by (simp_all only: u32_order)
  then show "config_prior c p \<longleftrightarrow> config_vec c < port_vec p"
    unfolding config_prior_def PRIOR_def config_vec_def port_vec_def less_vec_def
    by (auto simp: not_less)
qed

definition config0 :: stp_config where
  "config0 = \<lparr>cf_proto_id = 0, cf_version = 0, cf_msg_type = 0, cf_flags = 0, cf_root_id = htonll 5,
     cf_root_path_cost = htonl 2, cf_switch_id = htonll 6, cf_port_id = htons 4, cf_msg_age = 0, cf_max_age = 0,
     cf_hello_time = 0, cf_fwd_delay = 0\<rparr>"

definition port0 :: stp_port where
  "port0 = \<lparr>port_id = 1, port_iface = iface0, path_cost = 1, p_root = 5, p_switch = 6, p_port = 7, p_cost = 8\<rparr>"

theorem stp_prior_lexicographic_witness:
  "config_prior config0 port0 \<and> config_vec config0 < port_vec port0"
proof -
  have "config_vec config0 < port_vec port0"
    by (simp add: less_vec_def config_vec_def port_vec_def config0_def port0_def)
  then show ?thesis
    using stp_prior_lexicographic [of port0 config0 port0] by (simp add: cost_ok_def port0_def)
qed

section \<open>Messages on the wire\<close>

text \<open>The bytes \<^verbatim>\<open>stp_port_send_config\<close> puts on the wire (\<open>stp_port_send_config_sent\<close>).\<close>

definition config_frame :: "stp_t \<Rightarrow> stp_port \<Rightarrow> bytes" where
  "config_frame st p =
     enc_ether \<lparr>ether_dhost = eth_stp_addr, ether_shost = if_mac (port_iface p), ether_type = htons 38\<rparr>
     @ [LLC_DSAP_SNAP, LLC_SSAP_SNAP, LLC_CNTL_SNAP] @ enc_config (make_config st p)"

lemma stp_port_send_config_sent:
  assumes "stp_is_root_switch (stp s) \<or> root_port (stp s) \<noteq> None"
  shows "stp_port_send_config p s = Some (s\<lparr>wire := wire s @ [(port_iface p, config_frame (stp s) p)]\<rparr>)"
proof -
  have "whole (config_frame (stp s) p) 52"
    by (simp add: whole_def config_frame_def eth.length_enc cfg.length_enc)
  then show ?thesis
    using assms by (auto simp: stp_port_send_config_def stp_port_send_packet_def config_frame_def
        cfg.length_enc LLC_HDR_SIZE_def)
qed

lemma stp_port_send_config_total:
  "\<exists>w. stp_port_send_config p s = Some (s\<lparr>wire := w\<rparr>)"
proof (cases "\<not> stp_is_root_switch (stp s) \<and> root_port (stp s) = None")
  case True
  then have "stp_port_send_config p s = Some (s\<lparr>wire := wire s\<rparr>)"
    by (simp add: stp_port_send_config_def)
  then show ?thesis by blast
next
  case False
  then show ?thesis using stp_port_send_config_sent by blast
qed

lemma stp_send_loop_total:
  "\<exists>w. fold_opt (\<lambda>p s. if stp_port_is_designated (stp s) p then stp_port_send_config p s else Some s) ps s
     = Some (s\<lparr>wire := w\<rparr>)"
proof (induction ps arbitrary: s)
  case Nil
  then show ?case by (intro exI [of _ "wire s"]) simp
next
  case (Cons p ps)
  obtain w where w: "stp_port_send_config p s = Some (s\<lparr>wire := w\<rparr>)"
    using stp_port_send_config_total by blast
  show ?case using Cons [of s] Cons [of "s\<lparr>wire := w\<rparr>"] w by auto
qed

lemma stp_send_config_total: "\<exists>w. stp_send_config s = Some (s\<lparr>wire := w\<rparr>)"
  unfolding stp_send_config_def by (rule stp_send_loop_total)

lemma stp_send_loop_sent:
  assumes "stp_is_root_switch (stp s) \<or> root_port (stp s) \<noteq> None"
  shows "fold_opt (\<lambda>p s. if stp_port_is_designated (stp s) p then stp_port_send_config p s else Some s) ps s
     = Some (s\<lparr>wire := wire s @ map (\<lambda>p. (port_iface p, config_frame (stp s) p))
          (filter (stp_port_is_designated (stp s)) ps)\<rparr>)"
  using assms by (induction ps arbitrary: s) (simp_all add: stp_port_send_config_sent)

lemma stp_send_config_sent:
  assumes "stp_is_root_switch (stp s) \<or> root_port (stp s) \<noteq> None"
  shows "stp_send_config s = Some (s\<lparr>wire := wire s @ map (\<lambda>p. (port_iface p, config_frame (stp s) p))
          (filter (stp_port_is_designated (stp s)) (ports (stp s)))\<rparr>)"
  unfolding stp_send_config_def by (rule stp_send_loop_sent [OF assms])

lemma config_frame_received:
  assumes "cost_ok (root_path_cost st)" "0 \<le> port_id p" "port_id p < 65536"
  shows "handle_packet_06 j (config_frame st p) s = stp_handle_config_packet j (make_config st p) s \<and>
         config_vec (make_config st p) = Vec (designated_root st) (root_path_cost st) (switch_id st) (port_id p)"
proof
  let ?pre = "enc_ether \<lparr>ether_dhost = eth_stp_addr, ether_shost = if_mac (port_iface p), ether_type = htons 38\<rparr>
     @ [LLC_DSAP_SNAP, LLC_SSAP_SNAP, LLC_CNTL_SNAP]"
  have f: "config_frame st p = ?pre @ enc_config (make_config st p)" "length ?pre = 17"
    by (simp_all add: config_frame_def eth.length_enc)
  have "load_struct dec_config 35 (config_frame st p) 17 = Some (make_config st p)"
    using f by (simp add: load_struct_def load_bytes_def cfg.length_enc cfg.dec_enc)
  moreover have "enc_config (make_config st p) ! 3 = STP_TYPE_CONFIG"
    by (simp add: enc_config_def make_config_def put16_def)
  then have "load8 (config_frame st p) 20 = Some STP_TYPE_CONFIG"
    using f by (simp add: load8_def cfg.length_enc nth_append)
  moreover have "load8 (config_frame st p) 0 = Some 1"
    by (simp add: load8_def config_frame_def enc_ether_def eth_stp_addr_def)
  ultimately show "handle_packet_06 j (config_frame st p) s = stp_handle_config_packet j (make_config st p) s"
    by (simp add: handle_packet_06_def stp_port_handle_packet_def eth_stp_addr_def LLC_HDR_SIZE_def)
  have "int (unat (of_int (port_id p) :: u16)) = port_id p"
    using assms(2,3) by (simp add: uint_word_of_int_eq take_bit_int_eq_self)
  then show "config_vec (make_config st p) = Vec (designated_root st) (root_path_cost st) (switch_id st) (port_id p)"
    using cost_unat [OF assms(1)] by (simp add: config_vec_def make_config_def)
qed

definition sw_port :: "u64 \<Rightarrow> int \<Rightarrow> iface_info \<Rightarrow> stp_port" where
  "sw_port sid n i = \<lparr>port_id = 0x8000 + n, port_iface = i, path_cost = 1, p_root = sid, p_switch = sid,
     p_port = 0x8000 + n, p_cost = 0\<rparr>"

definition stp0 :: stp_t where
  "stp0 = \<lparr>switch_id = 9, designated_root = 9, root_path_cost = 0, root_port = None,
     hello_timer = stp_start_timer 0 (stp_init_timer STP_HELLO_TIME),
     ports = [sw_port 9 1 iface0, sw_port 9 2 iface1, sw_port 9 3 iface2]\<rparr>"

definition stp_sys0 :: stp_sys where
  "stp_sys0 = ustack.extend ustack0 \<lparr>stp = stp0, tick = 0\<rparr>"

text \<open>C29. What a switch sends is what its neighbour reads: a switch that knows its root (it is the root or has a
  root port) sends exactly one frame through the port, and the switch that receives this frame, on any port
  and in any state, handles it as a configuration whose priority vector, for a non-negative root path cost and a 16-bit port
  number, is the sender's root, cost, switch and port.\<close>

theorem stp_config_received:
  assumes "stp_is_root_switch (stp s) \<or> root_port (stp s) \<noteq> None"
    and "cost_ok (root_path_cost (stp s))" "0 \<le> port_id p" "port_id p < 65536"
  shows "\<exists>f c. stp_port_send_config p s = Some (s\<lparr>wire := wire s @ [(port_iface p, f)]\<rparr>)
     \<and> (\<forall>j u. handle_packet_06 j f u = stp_handle_config_packet j c u)
     \<and> config_vec c = Vec (designated_root (stp s)) (root_path_cost (stp s)) (switch_id (stp s)) (port_id p)"
  using stp_port_send_config_sent [OF assms(1)] config_frame_received [OF assms(2-4)] by blast

theorem stp_config_received_witness:
  "\<exists>f c. stp_port_send_config (sw_port 9 1 iface0) stp_sys0 = Some (stp_sys0\<lparr>wire := [(iface0, f)]\<rparr>)
     \<and> handle_packet_06 2 f stp_sys0 = stp_handle_config_packet 2 c stp_sys0 \<and> config_vec c = Vec 9 0 9 0x8001"
proof -
  have s: "stp stp_sys0 = stp0" "wire stp_sys0 = []" "port_iface (sw_port 9 1 iface0) = iface0" "port_id (sw_port 9 1 iface0) = 0x8001"
    by (simp_all add: stp_sys0_def ustack.defs ustack0_def sw_port_def)
  show ?thesis
    using stp_config_received [of stp_sys0 "sw_port 9 1 iface0"]
    by (simp add: s) (auto simp: stp0_def cost_ok_def stp_is_root_switch_def)
qed

section \<open>Reachable states\<close>

datatype stp_event = Receive nat bytes | Tick int

fun stp_step :: "stp_event \<Rightarrow> 'a stp_sys_scheme \<Rightarrow> 'a stp_sys_scheme option" where
  "stp_step (Receive i pkt) s =
     (if i < length (ports (stp s)) then handle_packet_06 i pkt s else None)"
| "stp_step (Tick t) s = stp_timer_run_once (s\<lparr>tick := t\<rparr>)"

inductive stp_reachable :: "'a stp_sys_scheme \<Rightarrow> bool" where
  start: "stp_init s = Some s' \<Longrightarrow> stp_reachable s'"
| step: "stp_reachable s \<Longrightarrow> stp_step e s = Some s' \<Longrightarrow> stp_reachable s'"

definition stp_inv :: "stp_t \<Rightarrow> bool" where
  "stp_inv st \<longleftrightarrow> designated_root st \<le> switch_id st
     \<and> (\<forall>p \<in> set (ports st). p_root p \<le> switch_id st)
     \<and> (\<forall>p \<in> set (ports st). stp_port_is_designated st p \<longrightarrow>
          p_root p = designated_root st \<and> p_cost p = root_path_cost st)
     \<and> (\<forall>r. root_port st = Some r \<longrightarrow> r < length (ports st))"

lemma designated_frame [simp]:
  "stp_port_is_designated (st\<lparr>ports := ps\<rparr>) p = stp_port_is_designated st p"
  "stp_port_is_designated (st\<lparr>hello_timer := h\<rparr>) p = stp_port_is_designated st p"
  by (simp_all add: stp_port_is_designated_def)

lemma stp_inv_timer [simp]: "stp_inv (st\<lparr>hello_timer := h\<rparr>) = stp_inv st"
  by (simp add: stp_inv_def)

lemma init_ports_designated:
  "init_ports st is n = Some ps \<Longrightarrow> \<forall>p \<in> set ps. p_root p = designated_root st \<and> p_cost p = root_path_cost st"
  by (induction st "is" n arbitrary: ps rule: init_ports.induct)
     (auto simp: bind_eq_Some_conv stp_port_init_def split: if_splits)

lemma stp_init_inv: "stp_init s = Some s' \<Longrightarrow> stp_inv (stp s')"
  by (auto simp: stp_init_def bind_eq_Some_conv stp_inv_def Let_def split: if_splits dest: init_ports_designated)

text \<open>The loops of the handler keep the switch's identity and pick a port of the array.\<close>

lemma root_loop_spec:
  assumes "root_loop is st rp = (st', rp')"
  shows "(st' = st \<or> st' = st\<lparr>designated_root := switch_id st, root_path_cost := 0\<rparr>)
     \<and> (\<forall>r. rp' = Some r \<longrightarrow> st' = st \<and> (rp = Some r \<or> r \<in> set is))"
  using assms by (induction "is" st rp rule: root_loop.induct) (auto split: if_splits)

lemma select_root_spec:
  assumes "select_root st = Some st'"
  shows "switch_id st' = switch_id st \<and> ports st' = ports st \<and> hello_timer st' = hello_timer st \<and>
     (designated_root st' \<in> {designated_root st, switch_id st} \<and> root_port st' = root_port st \<or>
      (\<exists>r < length (ports st). root_port st' = Some r \<and> designated_root st' = p_root (ports st ! r)))"
proof -
  obtain st1 rp where loop: "root_loop [1..<length (ports st)] st
      (find (candidate st) [0..<length (ports st)]) = (st1, rp)" by fastforce
  note spec = root_loop_spec [OF loop]
  show ?thesis
  proof (cases rp)
    case None
    then show ?thesis using assms loop spec by (auto simp: select_root_def)
  next
    case (Some r)
    have "r < length (ports st)"
      using spec Some by (auto simp: find_Some_iff)
    then show ?thesis using assms loop spec Some by (auto simp: select_root_def bind_eq_Some_conv split: if_splits)
  qed
qed

lemma stp_apply_config_inv:
  assumes "stp_apply_config i config st = Some st'" "stp_inv st" "i < length (ports st)"
    and "config_prior config (ports st ! i)"
  shows "stp_inv st'"
proof -
  define st1 where "st1 = st\<lparr>ports := (ports st)[i := port_adopt config (ports st ! i)]\<rparr>"
  obtain st2 where st2: "select_root st1 = Some st2" "st' = stop_unless_root (update_ports st2)"
    using assms(1) by (auto simp: stp_apply_config_def st1_def)
  have "ntohll (cf_root_id config) \<le> p_root (ports st ! i)"
    using assms(4) by (auto simp: config_prior_def PRIOR_def split: if_splits)
  also have "p_root (ports st ! i) \<le> switch_id st"
    using assms(2,3) by (simp add: stp_inv_def)
  finally have roots1: "\<forall>p \<in> set (ports st1). p_root p \<le> switch_id st"
    using assms(2) set_update_subset_insert [of "ports st" i "port_adopt config (ports st ! i)"]
    by (fastforce simp: st1_def stp_inv_def port_adopt_def)
  note sel = select_root_spec [OF st2(1)]
  have d2: "designated_root st2 \<le> switch_id st2" "switch_id st2 = switch_id st"
    using sel roots1 assms(2) by (auto simp: st1_def stp_inv_def)
  have "p_root (update_port st2 p) \<le> switch_id st2" if "p \<in> set (ports st2)" for p
    using that d2 sel roots1 by (auto simp: update_port_def)
  moreover have "p_root (update_port st2 p) = designated_root st2 \<and> p_cost (update_port st2 p) = root_path_cost st2"
    if "stp_port_is_designated st2 (update_port st2 p)" for p
    using that by (auto simp: update_port_def stp_port_is_designated_def split: if_splits)
  moreover have "\<forall>r. root_port st2 = Some r \<longrightarrow> r < length (ports st2)"
    using sel assms(2) by (auto simp: st1_def stp_inv_def)
  ultimately have "stp_inv (update_ports st2)"
    unfolding stp_inv_def update_ports_def using d2(1) by simp
  then show ?thesis
    by (simp add: st2(2) stop_unless_root_def)
qed

lemma stp_handle_config_inv:
  assumes "stp_handle_config_packet i config s = Some s'" "stp_inv (stp s)" "i < length (ports (stp s))"
  shows "stp_inv (stp s')"
proof (cases "config_prior config (ports (stp s) ! i)")
  case False
  then show ?thesis
    using assms(1,2) stp_port_send_config_total [of "ports (stp s) ! i" s]
    by (auto simp: stp_handle_config_packet_def Let_def)
next
  case True
  then obtain st' where st': "stp_apply_config i config (stp s) = Some st'" "stp_send_config (s\<lparr>stp := st'\<rparr>) = Some s'"
    using assms(1) by (auto simp: stp_handle_config_packet_def Let_def bind_eq_Some_conv)
  then have "stp s' = st'" using stp_send_config_total [of "s\<lparr>stp := st'\<rparr>"] by auto
  then show ?thesis using stp_apply_config_inv [OF st'(1) assms(2,3) True] by simp
qed

lemma stp_step_inv:
  assumes "stp_step e s = Some s'" "stp_inv (stp s)"
  shows "stp_inv (stp s')"
proof (cases e)
  case (Receive i pkt)
  then show ?thesis
    using assms stp_handle_config_inv
    by (auto simp: handle_packet_06_def stp_port_handle_packet_def bind_eq_Some_conv split: if_splits)
next
  case (Tick t)
  obtain tm x where tm: "stp_check_timer (hello_timer (stp s)) t = (tm, x)" by fastforce
  define s1 where "s1 = s\<lparr>tick := t, stp := (stp s)\<lparr>hello_timer := tm\<rparr>\<rparr>"
  obtain w where w: "stp_send_config s1 = Some (s1\<lparr>wire := w\<rparr>)" using stp_send_config_total by blast
  have "\<exists>h. stp s' = (stp s)\<lparr>hello_timer := h\<rparr>"
  proof (cases x)
    case True
    then have "stp_handle_hello_timeout s1 = Some s'"
      using assms(1) Tick tm by (simp add: stp_timer_run_once_def s1_def)
    then have "stp s' = (stp s1)\<lparr>hello_timer := stp_start_timer t tm\<rparr>"
      using w by (auto simp: stp_handle_hello_timeout_def s1_def)
    then show ?thesis by (auto simp: s1_def)
  next
    case False
    then have "s' = s1" using assms(1) Tick tm by (simp add: stp_timer_run_once_def s1_def)
    then show ?thesis by (auto simp: s1_def)
  qed
  then obtain h where "stp s' = (stp s)\<lparr>hello_timer := h\<rparr>" by blast
  then show ?thesis using assms(2) by simp
qed

text \<open>C17. Invariant of every reachable switch, whatever messages arrive in whatever order and
  however the timer runs: it never believes in a root with a greater identifier than its own, no
  port does, and every designated port advertises exactly the switch's own root and root path cost.\<close>

theorem stp_reachable_inv:
  assumes "stp_reachable s"
  shows "designated_root (stp s) \<le> switch_id (stp s) \<and>
    (\<forall>p \<in> set (ports (stp s)). p_root p \<le> switch_id (stp s) \<and>
       (stp_port_is_designated (stp s) p \<longrightarrow>
          p_root p = designated_root (stp s) \<and> p_cost p = root_path_cost (stp s)))"
proof -
  have "stp_inv (stp s)"
    using assms by induction (auto intro: stp_init_inv stp_step_inv)
  then show ?thesis by (simp add: stp_inv_def)
qed

theorem stp_reachable_inv_witness:
  "\<exists>s. stp_init stp_sys0 = Some s \<and> designated_root (stp s) \<le> switch_id (stp s)"
proof -
  have "\<exists>s. stp_init stp_sys0 = Some s"
    by (simp add: stp_init_def stp_sys0_def ustack0_def ustack.defs STP_MAX_PORTS_def Let_def)
  then show ?thesis
    using stp_reachable_inv stp_reachable.start by blast
qed

section \<open>Choosing the root port\<close>

text \<open>Looking for candidates after port \<open>i\<close> has adopted another switch's configuration, when all the
  other ports are designated.\<close>

lemma candidate_only:
  assumes "\<forall>j < length (ports st). j \<noteq> i \<longrightarrow> stp_port_is_designated st (ports st ! j)"
    and "i < length (ports st)" "ntohll (cf_switch_id c) \<noteq> switch_id st" "j < length (ports st)"
    and "st1 = st\<lparr>ports := (ports st)[i := port_adopt c (ports st ! i)]\<rparr>"
  shows "candidate st1 j \<longleftrightarrow> j = i \<and> stp_port_state st1 (ports st1 ! i) = ALTERNATE"
    and "\<not> stp_port_is_designated st1 (ports st1 ! i)"
    and "j \<noteq> i \<Longrightarrow> stp_port_is_designated st1 (ports st1 ! j)"
  using assms by (auto simp: candidate_def stp_port_is_designated_def port_adopt_def nth_list_update)

lemma port_prior_irrefl [simp]: "\<not> port_prior p p"
  by (simp add: port_prior_def PRIOR_def)

lemma root_loop_stable:
  "\<forall>j \<in> set is. candidate st j \<longrightarrow> j = r \<Longrightarrow> root_loop is st (Some r) = (st, Some r)"
  by (induction "is") auto

lemma find_upt_only:
  assumes "i < n" "P i" "\<And>j. j < n \<Longrightarrow> P j \<Longrightarrow> j = i"
  shows "find P [0..<n] = Some i"
proof -
  have "\<forall>j < i. \<not> P j" using assms by (metis less_trans nat_neq_iff)
  then show ?thesis using assms(1,2) by (auto simp: find_Some_iff intro!: exI [of _ i])
qed

lemma select_root_first:
  assumes "\<forall>j < length (ports st). j \<noteq> i \<longrightarrow> stp_port_is_designated st (ports st ! j)"
    and "i < length (ports st)" "ntohll (cf_switch_id c) \<noteq> switch_id st" "root_port st = None"
    and "st1 = st\<lparr>ports := (ports st)[i := port_adopt c (ports st ! i)]\<rparr>"
    and "sint (ntohl (cf_root_path_cost c)) + path_cost (ports st ! i) \<le> 2147483647"
  shows "select_root st1 = Some (st1\<lparr>designated_root := ntohll (cf_root_id c), root_port := Some i,
           root_path_cost := sint (ntohl (cf_root_path_cost c)) + path_cost (ports st ! i)\<rparr>)"
proof -
  note only = candidate_only [OF assms(1-3) _ assms(5)]
  have len: "length (ports st1) = length (ports st)" by (simp add: assms(5))
  have "stp_port_state st1 (ports st1 ! i) = ALTERNATE"
    using only(2) [OF assms(2)] assms(4,5) by (auto simp: stp_port_state_def stp_port_is_designated_def)
  then have cand: "candidate st1 j \<longleftrightarrow> j = i" if "j < length (ports st)" for j
    using only(1) [OF that] by simp
  have "find (candidate st1) [0..<length (ports st1)] = Some i"
    using cand assms(2) len by (intro find_upt_only) auto
  moreover have "root_loop [1..<length (ports st1)] st1 (Some i) = (st1, Some i)"
    using cand len by (intro root_loop_stable) auto
  moreover have "p_root (ports st1 ! i) = ntohll (cf_root_id c)" "path_cost (ports st1 ! i) = path_cost (ports st ! i)"
    "p_cost (ports st1 ! i) = sint (ntohl (cf_root_path_cost c))"
    using assms(2) by (simp_all add: assms(5) port_adopt_def)
  ultimately show ?thesis using assms(6) by (simp add: select_root_def)
qed

lemma map_except:
  assumes "i < length xs" "f x = x" "\<And>j. j < length xs \<Longrightarrow> j \<noteq> i \<Longrightarrow> f (xs ! j) = g (xs ! j)"
  shows "map f (xs[i := x]) = (map g xs)[i := x]"
  using assms by (intro nth_equalityI) (auto simp: nth_list_update)

text \<open>A switch that believes to be the root, with all ports designated, accepts a better
  configuration of another switch: the receiving port becomes the root port and keeps what it heard, the
  switch takes over the announced root with the path cost increased by the cost of the port, every
  other port advertises the new root and cost, and one configuration leaves through each port that is
  still designated.\<close>

theorem stp_first_superior_config:
  assumes "\<forall>j < length (ports (stp s)). stp_port_is_designated (stp s) (ports (stp s) ! j)"
    and "i < length (ports (stp s))" "ntohll (cf_switch_id c) \<noteq> switch_id (stp s)" "root_port (stp s) = None"
    and "config_prior c (ports (stp s) ! i)"
    and "sint (ntohl (cf_root_path_cost c)) + path_cost (ports (stp s) ! i) \<le> 2147483647"
  shows "\<exists>s'. stp_handle_config_packet i c s = Some s'
     \<and> designated_root (stp s') = ntohll (cf_root_id c) \<and> root_port (stp s') = Some i
     \<and> root_path_cost (stp s') = sint (ntohl (cf_root_path_cost c)) + path_cost (ports (stp s) ! i)
     \<and> ports (stp s') = (map (\<lambda>p. p\<lparr>p_root := designated_root (stp s'), p_cost := root_path_cost (stp s')\<rparr>)
                            (ports (stp s))) [i := port_adopt c (ports (stp s) ! i)]
     \<and> wire s' = wire s @ map (\<lambda>p. (port_iface p, config_frame (stp s') p))
                            (filter (stp_port_is_designated (stp s')) (ports (stp s')))"
proof -
  define st where "st = stp s"
  define p' where "p' = port_adopt c (ports st ! i)"
  define st1 where "st1 = st\<lparr>ports := (ports st)[i := p']\<rparr>"
  define st2 where "st2 = st1\<lparr>designated_root := ntohll (cf_root_id c), root_port := Some i,
    root_path_cost := sint (ntohl (cf_root_path_cost c)) + path_cost (ports st ! i)\<rparr>"
  define st4 where "st4 = stop_unless_root (update_ports st2)"
  have sel: "select_root st1 = Some st2"
    unfolding st2_def by (rule select_root_first) (use assms in \<open>auto simp: st_def st1_def p'_def\<close>)
  have same2: "ports st2 = (ports st)[i := p']" "switch_id st2 = switch_id st" "root_port st2 = Some i"
    by (simp_all add: st2_def st1_def)
  have "\<not> stp_port_is_designated st2 p'" "stp_port_state st2 p' = ROOT"
    using assms(2,3) by (auto simp: same2 p'_def port_adopt_def stp_port_is_designated_def stp_port_state_def st_def)
  then have keep: "update_port st2 p' = p'" by (simp add: update_port_def)
  have upd: "update_port st2 (ports st ! j)
      = (ports st ! j)\<lparr>p_root := designated_root st2, p_cost := root_path_cost st2\<rparr>" if "j < length (ports st)" for j
    using that assms(1) by (simp add: update_port_def stp_port_is_designated_def same2 st_def)
  have ports4: "ports st4 = (map (\<lambda>p. p\<lparr>p_root := designated_root st2, p_cost := root_path_cost st2\<rparr>) (ports st))[i := p']"
    unfolding st4_def stop_unless_root_def update_ports_def
    using map_except [of i "ports st" "update_port st2" p'] assms(2) keep upd by (simp add: same2 st_def)
  have view: "designated_root st4 = designated_root st2" "root_path_cost st4 = root_path_cost st2" "root_port st4 = Some i"
    by (simp_all add: st4_def stop_unless_root_def update_ports_def same2)
  have "stp_apply_config i c st = Some st4"
    using sel by (simp add: stp_apply_config_def st4_def st1_def p'_def)
  then have "stp_handle_config_packet i c s = Some (s\<lparr>stp := st4, wire := wire s @
      map (\<lambda>p. (port_iface p, config_frame st4 p)) (filter (stp_port_is_designated st4) (ports st4))\<rparr>)"
    using assms(5) stp_send_config_sent [of "s\<lparr>stp := st4\<rparr>"] view(3)
    by (simp add: stp_handle_config_packet_def st_def)
  then show ?thesis
    using ports4 view by (simp add: st2_def p'_def st_def)
qed

theorem stp_first_superior_config_witness:
  "\<exists>s'. stp_handle_config_packet 1 config0 stp_sys0 = Some s' \<and> designated_root (stp s') = 5
     \<and> root_port (stp s') = Some 1 \<and> root_path_cost (stp s') = 3"
proof -
  have d: "\<forall>j < 3. stp_port_is_designated stp0 (ports stp0 ! j)"
    by (auto simp: stp0_def sw_port_def stp_port_is_designated_def numeral_3_eq_3 less_Suc_eq)
  have p: "config_prior config0 (ports stp0 ! 1)"
    by (simp add: config_prior_def PRIOR_def config0_def stp0_def sw_port_def)
  have "stp stp_sys0 = stp0" "length (ports stp0) = 3" "root_port stp0 = None" "switch_id stp0 = 9"
    "ntohll (cf_switch_id config0) = 6" "ntohll (cf_root_id config0) = 5" "sint (ntohl (cf_root_path_cost config0)) = 2"
    "path_cost (ports stp0 ! 1) = 1"
    by (simp_all add: stp_sys0_def ustack.defs stp0_def config0_def sw_port_def)
  then show ?thesis
    using stp_first_superior_config [of stp_sys0 1 config0] d p by auto
qed

text \<open>C39. The search for the root port leaves out the current root port: when a better configuration arrives
  there and no other port is an alternate, the switch declares itself the root with cost 0, although
  the port has just recorded the better root.\<close>

theorem stp_root_port_forgotten:
  assumes "\<forall>j < length (ports (stp s)). j \<noteq> i \<longrightarrow> stp_port_is_designated (stp s) (ports (stp s) ! j)"
    and "i < length (ports (stp s))" "2 \<le> length (ports (stp s))"
    and "ntohll (cf_switch_id c) \<noteq> switch_id (stp s)" "root_port (stp s) = Some i"
    and "config_prior c (ports (stp s) ! i)"
  shows "\<exists>s'. stp_handle_config_packet i c s = Some s' \<and> stp_is_root_switch (stp s') \<and> root_path_cost (stp s') = 0
     \<and> p_root (ports (stp s') ! i) = ntohll (cf_root_id c)"
proof -
  define st where "st = stp s"
  define p' where "p' = port_adopt c (ports st ! i)"
  define st1 where "st1 = st\<lparr>ports := (ports st)[i := p']\<rparr>"
  define st2 where "st2 = st1\<lparr>designated_root := switch_id st1, root_path_cost := 0\<rparr>"
  define st4 where "st4 = stop_unless_root (update_ports st2)"
  note only = candidate_only [OF assms(1,2,4) _ st1_def [unfolded p'_def st_def]]
  have len: "length (ports st1) = length (ports (stp s))" by (simp add: st1_def st_def)
  have "stp_port_state st1 (ports st1 ! i) = ROOT"
    using assms(2,5) by (simp add: stp_port_state_def st1_def st_def)
  then have "find (candidate st1) [0..<length (ports st1)] = None"
    using only(1) len by (auto simp: find_None_iff)
  moreover obtain k where "[1..<length (ports st1)] = 1 # k"
    using assms(3) len by (metis One_nat_def Suc_1 Suc_le_lessD upt_conv_Cons)
  ultimately have sel: "select_root st1 = Some st2"
    by (simp add: select_root_def st2_def)
  have "\<not> stp_port_is_designated st2 p'" "stp_port_state st2 p' = ROOT"
    using assms(2,4,5) by (auto simp: st2_def st1_def p'_def port_adopt_def stp_port_is_designated_def stp_port_state_def st_def)
  then have "ports st4 ! i = p'"
    using assms(2) by (simp add: st4_def stop_unless_root_def update_ports_def st2_def st1_def st_def update_port_def)
  moreover have "stp_is_root_switch st4" "root_path_cost st4 = 0"
    by (simp_all add: st4_def stop_unless_root_def update_ports_def st2_def stp_is_root_switch_def)
  moreover have "stp_apply_config i c st = Some st4"
    using sel by (simp add: stp_apply_config_def st4_def st1_def p'_def)
  ultimately show ?thesis
    using assms(6) stp_send_config_sent [of "s\<lparr>stp := st4\<rparr>"]
    by (simp add: stp_handle_config_packet_def st_def p'_def port_adopt_def)
qed

definition stp1 :: stp_t where
  "stp1 = stp0\<lparr>designated_root := 7, root_path_cost := 2, root_port := Some 0,
     ports := [(sw_port 9 1 iface0)\<lparr>p_root := 7, p_switch := 8, p_cost := 1\<rparr>, sw_port 9 2 iface1]\<rparr>"

theorem stp_root_port_forgotten_witness:
  "\<exists>s'. stp_handle_config_packet 0 config0 (stp_sys0\<lparr>stp := stp1\<rparr>) = Some s' \<and> stp_is_root_switch (stp s')
     \<and> p_root (ports (stp s') ! 0) = 5"
proof -
  have "config_prior config0 (ports stp1 ! 0)"
    by (simp add: config_prior_def PRIOR_def config0_def stp1_def sw_port_def)
  moreover have "length (ports stp1) = 2" "root_port stp1 = Some 0" "switch_id stp1 = 9"
    "ntohll (cf_switch_id config0) = 6" "ntohll (cf_root_id config0) = 5"
    "stp_port_is_designated stp1 (ports stp1 ! 1)"
    by (simp_all add: stp1_def stp0_def config0_def sw_port_def stp_port_is_designated_def)
  ultimately show ?thesis
    using stp_root_port_forgotten [of "stp_sys0\<lparr>stp := stp1\<rparr>" 0 config0] by (auto simp: less_2_cases_iff)
qed

end
