(* ===== verification/Dijkstra.thy ===== *)
theory Dijkstra
  imports Prelude
begin

text \<open>
  The shortest path computation of \<^verbatim>\<open>12-mospf/mospf_daemon.c\<close>: the global arrays, \<^verbatim>\<open>init_Graph\<close>,
  \<^verbatim>\<open>get_Node\<close>, \<^verbatim>\<open>Min_dist\<close>, \<^verbatim>\<open>Dijkstra\<close> and the walk along \<^verbatim>\<open>Prev\<close> to the first hop. The arrays have
  \<^verbatim>\<open>MAX_NUM\<close> elements of 32 bits; an index outside them and a failed assertion are \<open>None\<close>.
\<close>

definition MAX_NUM :: nat where "MAX_NUM = 15"
definition MAX_INT :: u32 where "MAX_INT = 255"

record spf =
  Dist :: "u32 list"
  Prev :: "u32 list"
  Node :: "u32 list"
  Visited :: "bool list"
  Graph :: "u32 list list"

definition spf_arrays :: "spf \<Rightarrow> bool" where
  "spf_arrays s \<longleftrightarrow> length (Dist s) = MAX_NUM \<and> length (Prev s) = MAX_NUM \<and> length (Node s) = MAX_NUM
     \<and> length (Visited s) = MAX_NUM \<and> length (Graph s) = MAX_NUM \<and> (\<forall>r \<in> set (Graph s). length r = MAX_NUM)"

definition init_Graph :: "spf \<Rightarrow> spf" where
  "init_Graph s = s\<lparr>Graph := map (\<lambda>i. map (\<lambda>j. if i = j then 0 else MAX_INT) [0..<MAX_NUM]) [0..<MAX_NUM]\<rparr>"

definition get_Node :: "spf \<Rightarrow> u32 \<Rightarrow> nat \<Rightarrow> nat option" where
  "get_Node s rid node_num = find (\<lambda>i. rid = Node s ! i) [0..<node_num]"

text \<open>The scan of \<^verbatim>\<open>Min_dist\<close>: \<open>rank\<close> is the first unvisited node of smallest distance below
  \<^verbatim>\<open>MAX_INT\<close>, and the assertion fails when there is none.\<close>

fun min_loop :: "spf \<Rightarrow> nat list \<Rightarrow> u32 \<Rightarrow> nat option \<Rightarrow> nat option" where
  "min_loop s [] m rank = rank"
| "min_loop s (i # is) m rank =
     (if \<not> Visited s ! i \<and> Dist s ! i < m then min_loop s is (Dist s ! i) (Some i)
      else min_loop s is m rank)"

definition Min_dist :: "nat \<Rightarrow> spf \<Rightarrow> nat option" where
  "Min_dist n s = min_loop s [0..<n] MAX_INT None"

text \<open>The initialisation loop of \<^verbatim>\<open>Dijkstra\<close> and the assignments after it; \<^verbatim>\<open>-1\<close> is stored in an
  unsigned array.\<close>

definition init_node :: "nat \<Rightarrow> spf \<Rightarrow> spf" where
  "init_node i s =
     (let d = Graph s ! 0 ! i in
      s\<lparr>Visited := (Visited s)[i := False], Dist := (Dist s)[i := d],
        Prev := (Prev s)[i := (if d = MAX_INT \<or> d = 0 then - 1 else 0)]\<rparr>)"

definition dijkstra_init :: "nat \<Rightarrow> spf \<Rightarrow> spf" where
  "dijkstra_init n s =
     (let s = fold init_node [0..<n] s in s\<lparr>Dist := (Dist s)[0 := 0], Visited := (Visited s)[0 := True]\<rparr>)"

definition relax :: "nat \<Rightarrow> nat \<Rightarrow> spf \<Rightarrow> spf" where
  "relax u v s =
     (if \<not> Visited s ! v \<and> Graph s ! u ! v > 0 \<and> Dist s ! u \<noteq> MAX_INT
         \<and> Dist s ! u + Graph s ! u ! v < Dist s ! v
      then s\<lparr>Dist := (Dist s)[v := Dist s ! u + Graph s ! u ! v], Prev := (Prev s)[v := of_nat u]\<rparr>
      else s)"

definition dijkstra_round :: "nat \<Rightarrow> spf \<Rightarrow> spf option" where
  "dijkstra_round n s = do {
     u \<leftarrow> Min_dist n s;
     Some (fold (relax u) [0..<n] (s\<lparr>Visited := (Visited s)[u := True]\<rparr>)) }"

definition Dijkstra :: "nat \<Rightarrow> spf \<Rightarrow> spf option" where
  "Dijkstra n s = do {
     ensure (1 \<le> n \<and> n \<le> MAX_NUM);
     fold_opt (\<lambda>i. dijkstra_round n) [0..<n - 1] (dijkstra_init n s) }"

text \<open>\<^verbatim>\<open>while (Prev[hop]) hop = Prev[hop];\<close>\<close>

partial_function (option) first_hop :: "spf \<Rightarrow> nat \<Rightarrow> nat option" where
  "first_hop s hop =
     (if hop \<ge> MAX_NUM then None
      else if Prev s ! hop = 0 then Some hop
      else first_hop s (unat (Prev s ! hop)))"

declare first_hop.simps [code]

section \<open>Walks\<close>

abbreviation wt :: "spf \<Rightarrow> nat \<Rightarrow> nat \<Rightarrow> nat" where
  "wt s u v \<equiv> unat (Graph s ! u ! v)"

text \<open>A walk from node 0 over nodes below \<open>n\<close>, with the sum of its weights.\<close>

inductive walk :: "spf \<Rightarrow> nat \<Rightarrow> nat \<Rightarrow> nat \<Rightarrow> bool" for s n where
  start: "walk s n 0 0"
| step: "walk s n u c \<Longrightarrow> v < n \<Longrightarrow> u \<noteq> v \<Longrightarrow> walk s n v (c + wt s u v)"

text \<open>Graphs as \<^verbatim>\<open>caculate_graph\<close> builds them: no weight on the diagonal, and between different nodes a
  weight from 1 to 255, where 255 stands for no edge.\<close>

definition graph_ok :: "spf \<Rightarrow> nat \<Rightarrow> bool" where
  "graph_ok s n \<longleftrightarrow> (\<forall>u < n. \<forall>v < n. u \<noteq> v \<longrightarrow> 1 \<le> wt s u v \<and> wt s u v \<le> 255)
     \<and> (\<forall>u < n. Graph s ! u ! u = 0)"

section \<open>The invariant\<close>

definition dij_inv :: "spf \<Rightarrow> nat \<Rightarrow> spf \<Rightarrow> bool" where
  "dij_inv s0 n s \<longleftrightarrow> spf_arrays s \<and> Graph s = Graph s0 \<and> Node s = Node s0
     \<and> Visited s ! 0 \<and> Dist s ! 0 = 0
     \<and> (\<forall>v < n. unat (Dist s ! v) \<le> 255 \<and> walk s0 n v (unat (Dist s ! v)))
     \<and> (\<forall>u < n. \<forall>v < n. Visited s ! u \<longrightarrow> u \<noteq> v \<longrightarrow> unat (Dist s ! v) \<le> unat (Dist s ! u) + wt s0 u v)
     \<and> (\<forall>u < n. \<forall>v < n. Visited s ! u \<longrightarrow> \<not> Visited s ! v \<longrightarrow> Dist s ! u \<le> Dist s ! v)
     \<and> (\<forall>v < n. v \<noteq> 0 \<longrightarrow> unat (Dist s ! v) < 255 \<longrightarrow>
          (\<exists>p < n. p \<noteq> v \<and> Prev s ! v = of_nat p \<and> Visited s ! p \<and> unat (Dist s ! v) = unat (Dist s ! p) + wt s0 p v))"

lemma min_loop_spec:
  "min_loop s is m rank = r \<Longrightarrow>
   (case r of
      None \<Rightarrow> rank = None \<and> (\<forall>i \<in> set is. \<not> Visited s ! i \<longrightarrow> m \<le> Dist s ! i)
    | Some u \<Rightarrow> (rank = Some u \<and> (\<forall>i \<in> set is. \<not> Visited s ! i \<longrightarrow> m \<le> Dist s ! i)) \<or>
        (u \<in> set is \<and> \<not> Visited s ! u \<and> Dist s ! u < m \<and> (\<forall>i \<in> set is. \<not> Visited s ! i \<longrightarrow> Dist s ! u \<le> Dist s ! i)))"
proof (induction s "is" m rank rule: min_loop.induct)
  case (2 s i "is" m rank)
  show ?case
  proof (cases "\<not> Visited s ! i \<and> Dist s ! i < m")
    case True
    then have "min_loop s is (Dist s ! i) (Some i) = r" using 2(3) by simp
    from 2(1) [OF True this] True show ?thesis
      by (cases r) (auto intro: order.strict_trans order.strict_implies_order)
  next
    case False
    then have eq: "min_loop s is m rank = r" using 2(3) by (simp split: if_splits)
    show ?thesis
    proof (cases r)
      case None
      then show ?thesis using 2(2) [OF False eq] False by auto
    next
      case (Some u)
      then show ?thesis using 2(2) [OF False eq] False by fastforce
    qed
  qed
qed (auto split: option.splits)

lemma Min_dist_Some:
  assumes "Min_dist n s = Some u"
  shows "u < n" "\<not> Visited s ! u" "Dist s ! u < MAX_INT" "\<forall>i < n. \<not> Visited s ! i \<longrightarrow> Dist s ! u \<le> Dist s ! i"
  using min_loop_spec [OF assms [unfolded Min_dist_def]] by auto

lemma Min_dist_None:
  "Min_dist n s = None \<Longrightarrow> i < n \<Longrightarrow> \<not> Visited s ! i \<Longrightarrow> MAX_INT \<le> Dist s ! i"
  using min_loop_spec [of s "[0..<n]" MAX_INT None None] by (auto simp: Min_dist_def)

text \<open>The effect of relaxing all edges out of \<open>u\<close>, one target at a time.\<close>

definition relaxed :: "nat \<Rightarrow> spf \<Rightarrow> nat \<Rightarrow> bool" where
  "relaxed u s v \<longleftrightarrow> \<not> Visited s ! v \<and> Graph s ! u ! v > 0 \<and> Dist s ! u \<noteq> MAX_INT \<and> Dist s ! u + Graph s ! u ! v < Dist s ! v"

lemma relax_frame [simp]:
  "Visited (relax u v s) = Visited s" "Graph (relax u v s) = Graph s" "Node (relax u v s) = Node s"
  "length (Dist (relax u v s)) = length (Dist s)" "length (Prev (relax u v s)) = length (Prev s)"
  by (simp_all add: relax_def)

lemma relax_fold:
  assumes "k \<le> length (Dist s)" "length (Prev s) = length (Dist s)" "Visited s ! u" "u < length (Dist s)"
  shows "let t = fold (relax u) [0..<k] s in
     Visited t = Visited s \<and> Graph t = Graph s \<and> Node t = Node s \<and> length (Dist t) = length (Dist s)
     \<and> length (Prev t) = length (Prev s)
     \<and> (\<forall>v < length (Dist s). Dist t ! v = (if v < k \<and> relaxed u s v then Dist s ! u + Graph s ! u ! v else Dist s ! v)
                         \<and> Prev t ! v = (if v < k \<and> relaxed u s v then of_nat u else Prev s ! v))"
  using assms(1)
proof (induction k)
  case (Suc k)
  define t where "t = fold (relax u) [0..<k] s"
  have IH: "Visited t = Visited s" "Graph t = Graph s" "Node t = Node s" "length (Dist t) = length (Dist s)"
    "length (Prev t) = length (Prev s)"
    "\<And>v. v < length (Dist s) \<Longrightarrow> Dist t ! v = (if v < k \<and> relaxed u s v then Dist s ! u + Graph s ! u ! v else Dist s ! v)"
    "\<And>v. v < length (Dist s) \<Longrightarrow> Prev t ! v = (if v < k \<and> relaxed u s v then of_nat u else Prev s ! v)"
    using Suc by (simp_all add: t_def Let_def)
  have k: "k < length (Dist s)" using Suc.prems by simp
  have du: "Dist t ! u = Dist s ! u" using IH(6) [OF assms(4)] assms(3) by (simp add: relaxed_def)
  have dk: "Dist t ! k = Dist s ! k" using IH(6) [OF k] by simp
  have r: "relaxed u t k = relaxed u s k" by (simp add: relaxed_def IH du dk)
  have f: "fold (relax u) [0..<Suc k] s = relax u k t" by (simp add: t_def)
  have "Dist (relax u k t) ! v = (if v < Suc k \<and> relaxed u s v then Dist s ! u + Graph s ! u ! v else Dist s ! v)
      \<and> Prev (relax u k t) ! v = (if v < Suc k \<and> relaxed u s v then of_nat u else Prev s ! v)"
    if v: "v < length (Dist s)" for v
  proof (cases "relaxed u s k")
    case True
    then have e: "relax u k t = t\<lparr>Dist := (Dist t)[k := Dist s ! u + Graph s ! u ! k], Prev := (Prev t)[k := of_nat u]\<rparr>"
      using r by (simp add: relax_def relaxed_def du IH(2))
    show ?thesis using True IH(6,7) [OF v] IH(4,5) k v assms(2) by (auto simp: e nth_list_update less_Suc_eq)
  next
    case False
    then have e: "relax u k t = t" using r by (auto simp: relax_def relaxed_def)
    show ?thesis using False IH(6,7) [OF v] by (auto simp: e less_Suc_eq)
  qed
  then show ?case unfolding f using IH by (simp add: Let_def)
qed (simp add: Let_def)

lemma arrays_index:
  "spf_arrays s \<Longrightarrow> n \<le> 15 \<Longrightarrow> n \<le> length (Dist s) \<and> length (Prev s) = length (Dist s) \<and> length (Visited s) = length (Dist s)"
  by (simp add: spf_arrays_def MAX_NUM_def)

lemma unat_MAX_INT [simp]: "unat MAX_INT = 255"
  by (simp add: MAX_INT_def)

text \<open>One round: the distances after it in terms of those before.\<close>

lemma round_dist:
  assumes inv: "dij_inv s0 n s" and g: "graph_ok s0 n" and n: "n \<le> 15" and u: "Min_dist n s = Some u"
    and t: "dijkstra_round n s = Some t"
  shows "spf_arrays t" "Graph t = Graph s0" "Node t = Node s0" "Visited t = (Visited s)[u := True]"
    and "\<And>v. v < n \<Longrightarrow> Visited t ! v = (v = u \<or> Visited s ! v)"
    and "\<And>v. v < n \<Longrightarrow> Visited t ! v \<Longrightarrow> Dist t ! v = Dist s ! v"
    and "\<And>v. v < n \<Longrightarrow> \<not> Visited t ! v \<Longrightarrow>
           unat (Dist t ! v) = min (unat (Dist s ! v)) (unat (Dist s ! u) + wt s0 u v)"
    and "\<And>v. v < n \<Longrightarrow> Dist t ! v = Dist s ! v \<and> Prev t ! v = Prev s ! v \<or>
           \<not> Visited t ! v \<and> Prev t ! v = of_nat u \<and> unat (Dist t ! v) = unat (Dist s ! u) + wt s0 u v"
proof -
  note min = Min_dist_Some [OF u]
  define s1 where "s1 = s\<lparr>Visited := (Visited s)[u := True]\<rparr>"
  have arr: "spf_arrays s" and gs: "Graph s = Graph s0" and nd: "Node s = Node s0" using inv by (auto simp: dij_inv_def)
  have len: "length (Dist s) = 15" "length (Prev s) = 15" "length (Visited s) = 15"
    using arr by (simp_all add: spf_arrays_def MAX_NUM_def)
  have tf: "t = fold (relax u) [0..<n] s1" using t u by (simp add: dijkstra_round_def s1_def)
  have r: "Visited t = Visited s1" "Graph t = Graph s1" "Node t = Node s1" "length (Dist t) = 15"
     "length (Prev t) = 15"
     "\<And>v. v < 15 \<Longrightarrow> Dist t ! v = (if v < n \<and> relaxed u s1 v then Dist s1 ! u + Graph s1 ! u ! v else Dist s1 ! v)"
     "\<And>v. v < 15 \<Longrightarrow> Prev t ! v = (if v < n \<and> relaxed u s1 v then of_nat u else Prev s1 ! v)"
    using relax_fold [of n s1 u] min(1) n len by (simp_all add: tf s1_def Let_def)
  show "spf_arrays t" "Graph t = Graph s0" "Node t = Node s0" "Visited t = (Visited s)[u := True]"
    using r arr gs nd by (auto simp: spf_arrays_def s1_def MAX_NUM_def)
  show vis: "Visited t ! v = (v = u \<or> Visited s ! v)" if "v < n" for v
    using that n len min(1) by (auto simp: r s1_def nth_list_update)
  have du: "unat (Dist s ! u) < 255" using min(3) by (simp add: word_less_nat_alt)
  have nowrap: "unat (Dist s ! u + Graph s ! u ! v) = unat (Dist s ! u) + wt s0 u v" if "v < n" for v
  proof -
    have "wt s0 u v \<le> 255" using g that min(1) by (cases "u = v") (auto simp: graph_ok_def)
    then show ?thesis using du by (subst unat_add_no_wrap) (auto simp: gs)
  qed
  have rel: "relaxed u s1 v \<longleftrightarrow> \<not> Visited t ! v \<and> unat (Dist s ! u) + wt s0 u v < unat (Dist s ! v)" if "v < n" for v
  proof -
    have "0 < wt s0 u v" if "v \<noteq> u" using g \<open>v < n\<close> min(1) that by (fastforce simp: graph_ok_def)
    then have "Graph s ! u ! v > 0" if "\<not> Visited t ! v"
      using that vis [OF \<open>v < n\<close>] by (auto simp: gs word_less_nat_alt)
    then show ?thesis
      using nowrap [OF \<open>v < n\<close>] du r(1) by (auto simp: relaxed_def s1_def word_less_nat_alt)
  qed
  show "Dist t ! v = Dist s ! v" if "v < n" "Visited t ! v" for v
    using that n r(6) [of v] rel [of v] by (simp add: s1_def)
  show "unat (Dist t ! v) = min (unat (Dist s ! v)) (unat (Dist s ! u) + wt s0 u v)" if "v < n" "\<not> Visited t ! v" for v
    using that n r(6) [of v] rel [of v] nowrap [of v] by (auto simp: s1_def min_def)
  show "Dist t ! v = Dist s ! v \<and> Prev t ! v = Prev s ! v \<or>
           \<not> Visited t ! v \<and> Prev t ! v = of_nat u \<and> unat (Dist t ! v) = unat (Dist s ! u) + wt s0 u v" if "v < n" for v
    using that n r(6) [of v] r(7) [of v] rel [of v] nowrap [of v] by (auto simp: s1_def)
qed

lemma round_inv:
  assumes inv: "dij_inv s0 n s" and g: "graph_ok s0 n" and n: "n \<le> 15" and u: "Min_dist n s = Some u"
    and t: "dijkstra_round n s = Some t"
  shows "dij_inv s0 n t"
proof -
  note r = round_dist [OF inv g n u t]
  note min = Min_dist_Some [OF u]
  have I: "\<And>v. v < n \<Longrightarrow> unat (Dist s ! v) \<le> 255" "\<And>v. v < n \<Longrightarrow> walk s0 n v (unat (Dist s ! v))"
    "\<And>a v. a < n \<Longrightarrow> v < n \<Longrightarrow> Visited s ! a \<Longrightarrow> a \<noteq> v \<Longrightarrow> unat (Dist s ! v) \<le> unat (Dist s ! a) + wt s0 a v"
    "\<And>a v. a < n \<Longrightarrow> v < n \<Longrightarrow> Visited s ! a \<Longrightarrow> \<not> Visited s ! v \<Longrightarrow> unat (Dist s ! a) \<le> unat (Dist s ! v)"
    using inv by (simp_all add: dij_inv_def word_le_nat_alt)
  have low: "unat (Dist s ! u) \<le> unat (Dist s ! v)" if "v < n" "\<not> Visited t ! v" for v
    using min(4) that r(5) by (auto simp: word_le_nat_alt)
  have n0: "0 < n" using min(1) by simp
  have "Visited t ! 0 \<and> Dist t ! 0 = 0"
    using r(5,6) [OF n0] inv by (simp add: dij_inv_def)
  moreover have "unat (Dist t ! v) \<le> 255 \<and> walk s0 n v (unat (Dist t ! v))" if v: "v < n" for v
  proof (cases "Dist t ! v = Dist s ! v")
    case True
    then show ?thesis using I v by simp
  next
    case False
    then have "\<not> Visited t ! v" and e: "unat (Dist t ! v) = unat (Dist s ! u) + wt s0 u v"
      using r(8) [OF v] by auto
    then have "u \<noteq> v" "unat (Dist t ! v) \<le> 255" using r(5,7) [OF v] I(1) [OF v] by auto
    then show ?thesis using walk.step [OF I(2) [OF min(1)] v] e by simp
  qed
  moreover have "unat (Dist t ! v) \<le> unat (Dist t ! a) + wt s0 a v"
    if A: "a < n" "v < n" "Visited t ! a" "a \<noteq> v" for a v
  proof -
    have a: "Dist t ! a = Dist s ! a" by (rule r(6) [OF A(1,3)])
    show ?thesis
    proof (cases "Visited t ! v")
      case True
      have v: "Dist t ! v = Dist s ! v" by (rule r(6) [OF A(2) True])
      consider "Visited s ! a" | "a = u" using A(3) r(5) [OF A(1)] by auto
      then show ?thesis
      proof cases
        case 1
        then show ?thesis using I(3) [OF A(1,2) 1 A(4)] a v by simp
      next
        case 2
        then have "Visited s ! v" using True r(5) [OF A(2)] A(4) by simp
        then show ?thesis using I(4) [OF A(2) min(1) _ min(2)] a v 2 by simp
      qed
    next
      case False
      then have le: "unat (Dist t ! v) \<le> unat (Dist s ! v)" "unat (Dist t ! v) \<le> unat (Dist s ! u) + wt s0 u v"
        using r(7) [OF A(2) False] by simp_all
      consider "Visited s ! a" | "a = u" using A(3) r(5) [OF A(1)] by auto
      then show ?thesis
      proof cases
        case 1
        then show ?thesis using I(3) [OF A(1,2) 1 A(4)] le(1) a by simp
      next
        case 2
        then show ?thesis using le(2) a by simp
      qed
    qed
  qed
  moreover have "Dist t ! a \<le> Dist t ! v" if "a < n" "v < n" "Visited t ! a" "\<not> Visited t ! v" for a v
  proof -
    have nv: "\<not> Visited s ! v" using that(4) r(5) [OF that(2)] by simp
    have "unat (Dist s ! a) \<le> unat (Dist s ! u)"
      using that(3) r(5) [OF that(1)] I(4) [OF that(1) min(1) _ min(2)] by auto
    moreover have "unat (Dist s ! u) \<le> unat (Dist t ! v)"
      using r(7) [OF that(2,4)] low [OF that(2,4)] by simp
    ultimately show ?thesis using r(6) [OF that(1,3)] by (simp add: word_le_nat_alt)
  qed
  moreover have "\<exists>p < n. p \<noteq> v \<and> Prev t ! v = of_nat p \<and> Visited t ! p \<and> unat (Dist t ! v) = unat (Dist t ! p) + wt s0 p v"
    if v: "v < n" "v \<noteq> 0" "unat (Dist t ! v) < 255" for v
    using r(8) [OF v(1)]
  proof
    assume same: "Dist t ! v = Dist s ! v \<and> Prev t ! v = Prev s ! v"
    then obtain p where "p < n" "p \<noteq> v" "Prev s ! v = of_nat p" "Visited s ! p" "unat (Dist s ! v) = unat (Dist s ! p) + wt s0 p v"
      using inv v by (auto simp: dij_inv_def)
    then show ?thesis using same r(5,6) [of p] by auto
  next
    assume "\<not> Visited t ! v \<and> Prev t ! v = of_nat u \<and> unat (Dist t ! v) = unat (Dist s ! u) + wt s0 u v"
    then show ?thesis using r(5,6) [OF min(1)] min(1) by auto
  qed
  ultimately show ?thesis
    using r(1-3) unfolding dij_inv_def by blast
qed

text \<open>The state before the first round.\<close>

lemma init_fold:
  assumes "k \<le> length (Dist s)" "length (Prev s) = length (Dist s)" "length (Visited s) = length (Dist s)"
  shows "let t = fold init_node [0..<k] s in
     Graph t = Graph s \<and> Node t = Node s \<and> length (Dist t) = length (Dist s) \<and> length (Prev t) = length (Dist s)
     \<and> length (Visited t) = length (Dist s)
     \<and> (\<forall>v < k. \<not> Visited t ! v \<and> Dist t ! v = Graph s ! 0 ! v
          \<and> Prev t ! v = (if Graph s ! 0 ! v = MAX_INT \<or> Graph s ! 0 ! v = 0 then - 1 else 0))"
  using assms(1)
proof (induction k)
  case (Suc k)
  then show ?case
    using assms(2,3) by (auto simp: Let_def init_node_def nth_list_update less_Suc_eq)
qed (use assms in \<open>simp add: Let_def\<close>)

lemma init_inv:
  assumes "spf_arrays s" "graph_ok s n" "1 \<le> n" "n \<le> 15"
  shows "dij_inv s n (dijkstra_init n s)" "\<And>v. 0 < v \<Longrightarrow> v < n \<Longrightarrow> \<not> Visited (dijkstra_init n s) ! v"
proof -
  define f where "f = fold init_node [0..<n] s"
  define t where "t = dijkstra_init n s"
  have len: "length (Dist s) = 15" "length (Prev s) = 15" "length (Visited s) = 15"
    using assms(1) by (simp_all add: spf_arrays_def MAX_NUM_def)
  have f: "Graph f = Graph s" "Node f = Node s" "length (Dist f) = 15" "length (Prev f) = 15" "length (Visited f) = 15"
    "\<And>v. v < n \<Longrightarrow> \<not> Visited f ! v" "\<And>v. v < n \<Longrightarrow> Dist f ! v = Graph s ! 0 ! v"
    "\<And>v. v < n \<Longrightarrow> Prev f ! v = (if Graph s ! 0 ! v = MAX_INT \<or> Graph s ! 0 ! v = 0 then - 1 else 0)"
    using init_fold [of n s] len assms(4) by (simp_all add: f_def Let_def)
  have t: "t = f\<lparr>Dist := (Dist f)[0 := 0], Visited := (Visited f)[0 := True]\<rparr>"
    by (simp add: t_def dijkstra_init_def f_def Let_def)
  have vis: "Visited t ! v = (v = 0)" if "v < n" for v
    using that f assms(4) by (auto simp: t nth_list_update)
  then show "\<And>v. 0 < v \<Longrightarrow> v < n \<Longrightarrow> \<not> Visited (dijkstra_init n s) ! v" by (simp add: t_def)
  have dist: "unat (Dist t ! v) = (if v = 0 then 0 else wt s 0 v)" if "v < n" for v
    using that f assms(4) by (auto simp: t nth_list_update)
  have w: "1 \<le> wt s 0 v" "wt s 0 v \<le> 255" if "v < n" "v \<noteq> 0" for v
    using that assms(2,3) by (auto simp: graph_ok_def)
  have "walk s n v (unat (Dist t ! v))" if "v < n" for v
    using walk.step [OF walk.start that] walk.start dist [OF that] by (cases "v = 0") auto
  moreover have "\<exists>p < n. p \<noteq> v \<and> Prev t ! v = of_nat p \<and> Visited t ! p \<and> unat (Dist t ! v) = unat (Dist t ! p) + wt s p v"
    if "v < n" "v \<noteq> 0" "unat (Dist t ! v) < 255" for v
  proof -
    have "Graph s ! 0 ! v \<noteq> MAX_INT" "Graph s ! 0 ! v \<noteq> 0"
      using w [OF that(1,2)] dist [OF that(1)] that(2,3) by (auto simp: MAX_INT_def)
    then have "Prev t ! v = of_nat 0" using f(8) [OF that(1)] by (simp add: t)
    then show ?thesis using dist [of 0] dist [OF that(1)] vis [of 0] that(2) assms(3) by (intro exI [of _ 0]) auto
  qed
  moreover have "spf_arrays t"
    using assms(1) f(1-5) by (simp add: spf_arrays_def t MAX_NUM_def)
  moreover have "Graph t = Graph s" "Node t = Node s" "Visited t ! 0" "Dist t ! 0 = 0"
    using f(1,2,3,5) by (simp_all add: t)
  moreover have "unat (Dist t ! v) \<le> 255" if "v < n" for v
    using dist [OF that] w [OF that] by simp
  moreover have "unat (Dist t ! v) \<le> unat (Dist t ! u) + wt s u v" if "u < n" "v < n" "Visited t ! u" for u v
    using that dist [of u] dist [of v] vis [of u] by simp
  moreover have "Dist t ! u \<le> Dist t ! v" if "u < n" "v < n" "Visited t ! u" for u v
    using that dist [of u] vis [of u] by (simp add: word_le_nat_alt)
  ultimately have "dij_inv s n t"
    unfolding dij_inv_def by blast
  then show "dij_inv s n (dijkstra_init n s)" by (simp add: t_def)
qed

text \<open>While a node that can be reached for less than 255 is unvisited, a round succeeds.\<close>

lemma walk_frontier:
  assumes "dij_inv s0 n s" "walk s0 n v c" "0 < n"
  shows "v < n \<and> (Visited s ! v \<and> unat (Dist s ! v) \<le> c \<or> (\<exists>x < n. \<not> Visited s ! x \<and> unat (Dist s ! x) \<le> c))"
  using assms(2)
proof induction
  case start
  then show ?case using assms by (simp add: dij_inv_def)
next
  case (step u c v)
  then show ?case
  proof (elim conjE disjE)
    assume "u < n" "Visited s ! u" "unat (Dist s ! u) \<le> c"
    then have "unat (Dist s ! v) \<le> c + wt s0 u v"
      using assms(1) step(2,3) by (fastforce simp: dij_inv_def)
    then show ?thesis using step(2) by blast
  qed (use step(2) in \<open>auto intro: le_trans\<close>)
qed

lemma round_succeeds:
  assumes "dij_inv s0 n s" "v < n" "\<not> Visited s ! v" "walk s0 n v c" "c < 255"
  shows "\<exists>u. Min_dist n s = Some u"
proof (rule ccontr)
  assume "\<nexists>u. Min_dist n s = Some u"
  then have none: "Min_dist n s = None" by simp
  obtain x where "x < n" "\<not> Visited s ! x" "unat (Dist s ! x) < 255"
    using walk_frontier [OF assms(1,4)] assms by fastforce
  then show False using Min_dist_None [OF none] by (fastforce simp: word_le_nat_alt)
qed

definition unvisited :: "nat \<Rightarrow> spf \<Rightarrow> nat" where
  "unvisited n s = card {v. v < n \<and> \<not> Visited s ! v}"

lemma unvisited_round:
  assumes "dij_inv s0 n s" "graph_ok s0 n" "n \<le> 15" "Min_dist n s = Some u" "dijkstra_round n s = Some t"
  shows "unvisited n s = Suc (unvisited n t)"
proof -
  have "{v. v < n \<and> \<not> Visited s ! v} = insert u {v. v < n \<and> \<not> Visited t ! v}"
    using round_dist(5) [OF assms] Min_dist_Some [OF assms(4)] by auto
  moreover have "u \<notin> {v. v < n \<and> \<not> Visited t ! v}" using round_dist(5) [OF assms] by auto
  ultimately show ?thesis by (simp add: unvisited_def)
qed

lemma rounds_run:
  assumes "dij_inv s0 n s" "graph_ok s0 n" "n \<le> 15" "\<And>v. v < n \<Longrightarrow> \<exists>c < 255. walk s0 n v c"
    and "length xs = unvisited n s"
  shows "\<exists>t. fold_opt (\<lambda>i. dijkstra_round n) xs s = Some t \<and> dij_inv s0 n t \<and> unvisited n t = 0"
  using assms(1,5)
proof (induction xs arbitrary: s)
  case (Cons x xs)
  have "0 < card {v. v < n \<and> \<not> Visited s ! v}" using Cons.prems(2) unfolding unvisited_def by simp
  then have "{v. v < n \<and> \<not> Visited s ! v} \<noteq> {}" by (metis card_gt_0_iff)
  then obtain v where v: "v < n" "\<not> Visited s ! v" by blast
  then obtain u where u: "Min_dist n s = Some u"
    using round_succeeds [OF Cons.prems(1) v] assms(4) by blast
  then obtain t where t: "dijkstra_round n s = Some t" by (simp add: dijkstra_round_def)
  have "unvisited n t = length xs"
    using unvisited_round [OF Cons.prems(1) assms(2,3) u t] Cons.prems(2) by simp
  then show ?case
    using Cons.IH [OF round_inv [OF Cons.prems(1) assms(2,3) u t]] t by simp
qed simp

lemma unvisited_init:
  assumes "spf_arrays s" "graph_ok s n" "1 \<le> n" "n \<le> 15"
  shows "unvisited n (dijkstra_init n s) = n - 1"
proof -
  have "{v. v < n \<and> \<not> Visited (dijkstra_init n s) ! v} = {1..<n}"
    using init_inv [OF assms] by (auto simp: dij_inv_def Suc_le_eq intro: gr0I)
  then show ?thesis by (simp add: unvisited_def)
qed

text \<open>With every node visited the distances are lower bounds of all walks.\<close>

lemma visited_lower_bound:
  assumes "dij_inv s0 n t" "unvisited n t = 0" "walk s0 n v c" "0 < n"
  shows "v < n \<and> unat (Dist t ! v) \<le> c"
proof -
  have "{v. v < n \<and> \<not> Visited t ! v} = {}" using assms(2) by (simp add: unvisited_def)
  then show ?thesis using walk_frontier [OF assms(1,3,4)] by blast
qed

section \<open>Properties\<close>

lemma Dijkstra_result:
  assumes "spf_arrays s" "graph_ok s n" "1 \<le> n" "n \<le> 15" "\<And>v. v < n \<Longrightarrow> \<exists>c < 255. walk s n v c"
  shows "\<exists>t. Dijkstra n s = Some t \<and> dij_inv s n t \<and> unvisited n t = 0"
  using rounds_run [OF init_inv(1) [OF assms(1-4)] assms(2,4,5), of "[0..<n - 1]"] unvisited_init [OF assms(1-4)] assms(3,4)
  by (simp add: Dijkstra_def MAX_NUM_def)

text \<open>C15. \<^verbatim>\<open>Dijkstra\<close> is correct: on at most 15 nodes that can all be reached from node 0 over edges of total
  weight less than 255 (the code's infinity), it passes all its assertions and returns, and the
  distance of every node is the smallest weight of a walk from node 0: a walk of that weight exists
  and none is lighter.\<close>

theorem Dijkstra_shortest:
  assumes "spf_arrays s" "graph_ok s n" "1 \<le> n" "n \<le> 15" "\<And>v. v < n \<Longrightarrow> \<exists>c < 255. walk s n v c"
  shows "\<exists>t. Dijkstra n s = Some t \<and>
     (\<forall>v < n. walk s n v (unat (Dist t ! v)) \<and> (\<forall>c. walk s n v c \<longrightarrow> unat (Dist t ! v) \<le> c))"
proof -
  obtain t where t: "Dijkstra n s = Some t" "dij_inv s n t" "unvisited n t = 0"
    using Dijkstra_result [OF assms] by blast
  have "walk s n v (unat (Dist t ! v))" if "v < n" for v
    using t(2) that by (simp add: dij_inv_def)
  moreover have "unat (Dist t ! v) \<le> c" if "walk s n v c" for v c
    using visited_lower_bound [OF t(2,3) that] assms(3) by simp
  ultimately show ?thesis using t(1) by blast
qed

text \<open>Three routers in a row.\<close>

definition row_graph :: spf where
  "row_graph = \<lparr>Dist = replicate 15 0, Prev = replicate 15 0, Node = replicate 15 0, Visited = replicate 15 False,
     Graph = [[0, 1, 255] @ replicate 12 255, [1, 0, 1] @ replicate 12 255, [255, 1, 0] @ replicate 12 255]
             @ replicate 12 (replicate 15 255)\<rparr>"

lemma row_graph_ok: "spf_arrays row_graph" "graph_ok row_graph 3"
proof -
  show "spf_arrays row_graph" by (simp add: spf_arrays_def row_graph_def MAX_NUM_def)
  show "graph_ok row_graph 3"
    by (simp add: graph_ok_def row_graph_def numeral_3_eq_3 All_less_Suc)
qed

lemma row_graph_walks: "v < 3 \<Longrightarrow> \<exists>c < 255. walk row_graph 3 v c"
proof -
  have w1: "walk row_graph 3 1 1" using walk.step [OF walk.start, of 1 3 row_graph] by (simp add: row_graph_def)
  have w2: "walk row_graph 3 2 2" using walk.step [OF w1, of 2] by (simp add: row_graph_def numeral_2_eq_2)
  assume "v < 3"
  then consider "v = 0" | "v = 1" | "v = 2" by linarith
  then show ?thesis
  proof cases
    case 1
    then show ?thesis using walk.start [of row_graph 3] by (intro exI [of _ 0]) simp
  next
    case 2
    then show ?thesis using w1 by (intro exI [of _ 1]) simp
  next
    case 3
    then show ?thesis using w2 by (intro exI [of _ 2]) simp
  qed
qed

theorem Dijkstra_shortest_witness:
  "\<exists>t. Dijkstra 3 row_graph = Some t \<and> walk row_graph 3 2 (unat (Dist t ! 2))"
  using Dijkstra_shortest [OF row_graph_ok _ _ row_graph_walks] by fastforce

text \<open>A walk that starts at node \<open>h\<close>.\<close>

inductive walk_from :: "spf \<Rightarrow> nat \<Rightarrow> nat \<Rightarrow> nat \<Rightarrow> nat \<Rightarrow> bool" for s n h where
  here: "walk_from s n h h 0"
| further: "walk_from s n h u c \<Longrightarrow> v < n \<Longrightarrow> u \<noteq> v \<Longrightarrow> walk_from s n h v (c + wt s u v)"

lemma first_hop_tree:
  assumes inv: "dij_inv s n t" and g: "graph_ok s n" and n: "n \<le> 15"
    and v: "0 < v" "v < n" "unat (Dist t ! v) < 255"
  shows "\<exists>h c. first_hop t v = Some h \<and> 0 < h \<and> h < n \<and> walk_from s n h v c \<and> unat (Dist t ! v) = wt s 0 h + c"
  using v
proof (induction "unat (Dist t ! v)" arbitrary: v rule: less_induct)
  case less
  obtain p where p: "p < n" "p \<noteq> v" "Prev t ! v = of_nat p" "unat (Dist t ! v) = unat (Dist t ! p) + wt s p v"
    using inv less.prems by (auto simp: dij_inv_def)
  have up: "unat (Prev t ! v) = p"
    using p(1,3) n by (simp add: unat_of_nat)
  have v15: "v < MAX_NUM" using less.prems n by (simp add: MAX_NUM_def)
  show ?case
  proof (cases "p = 0")
    case True
    then have "Prev t ! v = 0" using p(3) by simp
    then have "first_hop t v = Some v" using v15 by (subst first_hop.simps) simp
    moreover have "unat (Dist t ! v) = wt s 0 v" using p(4) True inv by (simp add: dij_inv_def)
    ultimately show ?thesis
      using less.prems walk_from.here [of s n v] by (intro exI [of _ v] exI [of _ 0]) simp
  next
    case False
    have "1 \<le> wt s p v" using g p(1,2) less.prems by (simp add: graph_ok_def)
    then obtain h c where h: "first_hop t p = Some h" "0 < h" "h < n" "walk_from s n h p c" "unat (Dist t ! p) = wt s 0 h + c"
      using less.hyps [of p] p less.prems False by auto
    have "Prev t ! v \<noteq> 0" using up False by auto
    then have "first_hop t v = first_hop t p" using v15 up by (subst first_hop.simps) simp
    then show ?thesis
      using h p walk_from.further [OF h(4), of v] less.prems by (intro exI [of _ h] exI [of _ "c + wt s p v"]) simp
  qed
qed

text \<open>C30. After \<^verbatim>\<open>Dijkstra\<close> the loop over \<^verbatim>\<open>Prev\<close> ends for every node other than the router itself: it
  returns a neighbour \<open>h\<close> of node 0 that starts a shortest path, the distance of the node being
  the weight of the edge to \<open>h\<close> plus the weight of a walk from there to the node.\<close>

theorem first_hop_on_shortest_path:
  assumes "spf_arrays s" "graph_ok s n" "1 \<le> n" "n \<le> 15" "\<And>v. v < n \<Longrightarrow> \<exists>c < 255. walk s n v c"
    and "0 < v" "v < n"
  shows "\<exists>t h c. Dijkstra n s = Some t \<and> first_hop t v = Some h \<and> 0 < h \<and> h < n
     \<and> walk_from s n h v c \<and> unat (Dist t ! v) = wt s 0 h + c"
proof -
  obtain t where t: "Dijkstra n s = Some t" "dij_inv s n t" "unvisited n t = 0"
    using Dijkstra_result [OF assms(1-5)] by blast
  obtain c where "c < 255" "walk s n v c" using assms(5,7) by blast
  then have "unat (Dist t ! v) < 255" using visited_lower_bound [OF t(2,3)] assms(3) by fastforce
  then show ?thesis using first_hop_tree [OF t(2) assms(2,4,6,7)] t(1) by blast
qed

theorem first_hop_on_shortest_path_witness:
  "\<exists>t h c. Dijkstra 3 row_graph = Some t \<and> first_hop t 2 = Some h \<and> walk_from row_graph 3 h 2 c"
  using first_hop_on_shortest_path [OF row_graph_ok _ _ row_graph_walks, of 2] by fastforce

lemma rounds_visit:
  assumes "fold_opt (\<lambda>i. dijkstra_round n) xs s = Some t" "dij_inv s0 n s" "graph_ok s0 n" "n \<le> 15"
  shows "dij_inv s0 n t \<and> unvisited n s = length xs + unvisited n t
     \<and> (\<forall>v < n. Visited t ! v \<longrightarrow> \<not> Visited s ! v \<longrightarrow> unat (Dist t ! v) < 255)
     \<and> (\<forall>v < n. Visited s ! v \<longrightarrow> Visited t ! v \<and> Dist t ! v = Dist s ! v)"
  using assms(1,2)
proof (induction xs arbitrary: s)
  case (Cons x xs)
  obtain s1 where s1: "dijkstra_round n s = Some s1" "fold_opt (\<lambda>i. dijkstra_round n) xs s1 = Some t"
    using Cons.prems(1) by (auto simp: bind_eq_Some_conv)
  obtain u where u: "Min_dist n s = Some u" using s1(1) by (auto simp: dijkstra_round_def bind_eq_Some_conv)
  note r = round_dist [OF Cons.prems(2) assms(3,4) u s1(1)]
  note IH = Cons.IH [OF s1(2) round_inv [OF Cons.prems(2) assms(3,4) u s1(1)]]
  have "unat (Dist s ! u) < 255" using Min_dist_Some(3) [OF u] by (simp add: word_less_nat_alt)
  then have "unat (Dist t ! v) < 255" if "v < n" "Visited t ! v" "\<not> Visited s ! v" for v
    using that IH r(5,6) [OF that(1)] by (cases "v = u") auto
  moreover have "Visited t ! v \<and> Dist t ! v = Dist s ! v" if "v < n" "Visited s ! v" for v
    using that IH r(5,6) [OF that(1)] by auto
  ultimately show ?case
    using IH unvisited_round [OF Cons.prems(2) assms(3,4) u s1(1)] by simp
qed simp

text \<open>One unreachable node stops the routing computation: when some node has no walk of weight less
  than 255, an assertion of \<^verbatim>\<open>Min_dist\<close> fails and \<^verbatim>\<open>Dijkstra\<close> does not return.\<close>

theorem Dijkstra_unreachable_aborts:
  assumes "spf_arrays s" "graph_ok s n" "1 \<le> n" "n \<le> 15" "v < n" "\<And>c. walk s n v c \<Longrightarrow> 255 \<le> c"
  shows "Dijkstra n s = None"
proof (rule ccontr)
  assume "Dijkstra n s \<noteq> None"
  then obtain t where t: "fold_opt (\<lambda>i. dijkstra_round n) [0..<n - 1] (dijkstra_init n s) = Some t"
    using assms(3,4) by (auto simp: Dijkstra_def MAX_NUM_def)
  note r = rounds_visit [OF t init_inv(1) [OF assms(1-4)] assms(2,4)]
  have "unvisited n t = 0" using r unvisited_init [OF assms(1-4)] by simp
  then have "Visited t ! v" using assms(5) by (simp add: unvisited_def)
  have w: "walk s n v (unat (Dist t ! v))" using r assms(5) by (simp add: dij_inv_def)
  have "unat (Dist t ! v) < 255"
  proof (cases "v = 0")
    case True
    then show ?thesis using r by (simp add: dij_inv_def)
  next
    case False
    then show ?thesis using r init_inv(2) [OF assms(1-4), of v] assms(5) \<open>Visited t ! v\<close> by simp
  qed
  then show False using assms(6) [OF w] by simp
qed

definition split_graph :: spf where
  "split_graph = row_graph\<lparr>Graph := [0 # replicate 14 255, [255, 0] @ replicate 13 255] @ replicate 13 (replicate 15 255)\<rparr>"

lemma split_graph_walks: "walk split_graph 2 v c \<Longrightarrow> v < 2 \<and> (v = 0 \<or> 255 \<le> c)"
proof (induction rule: walk.induct)
  case (step u c v)
  then show ?case by (auto simp: split_graph_def less_2_cases_iff)
qed simp

theorem Dijkstra_unreachable_aborts_witness: "Dijkstra 2 split_graph = None"
proof (rule Dijkstra_unreachable_aborts [of _ _ 1])
  show "spf_arrays split_graph"
    by (simp add: spf_arrays_def split_graph_def row_graph_def MAX_NUM_def)
  show "graph_ok split_graph 2"
    by (auto simp: graph_ok_def split_graph_def less_2_cases_iff)
  show "walk split_graph 2 1 c \<Longrightarrow> 255 \<le> c" for c
    using split_graph_walks [of 1 c] by simp
qed simp_all

end
