(* ===== verification/Mospf.thy ===== *)
theory Mospf
  imports Ip12 Dijkstra
begin

text \<open>
  The routing daemon of \<^verbatim>\<open>12-mospf\<close> (the hello and LSU parts are also those of \<^verbatim>\<open>11-mospf\<close>): message
  formats, neighbour lists, the link state database and the computation of routes. Each thread
  body is one step of the model; the mutex is a flag, and taking it while it is held blocks for
  ever, which is \<open>None\<close> like a crash. Neighbour lists are kept per interface index.
\<close>

section \<open>Messages\<close>

record mospf_hdr =
  mo_version :: u8
  mo_type :: u8
  mo_len :: u16
  mo_rid :: u32
  mo_aid :: u32
  mo_checksum :: u16
  mo_padding :: u16

record mospf_hello =
  he_mask :: u32
  he_helloint :: u16
  he_padding :: u16

record mospf_lsu =
  lsu_seq :: u16
  lsu_ttl :: u8
  lsu_unused :: u8
  lsu_nadv :: u32

record mospf_lsa =
  lsa_subnet :: u32
  lsa_mask :: u32
  lsa_rid :: u32

definition MOSPF_HDR_SIZE :: nat where "MOSPF_HDR_SIZE = 16"
definition MOSPF_HELLO_SIZE :: nat where "MOSPF_HELLO_SIZE = 8"
definition MOSPF_LSU_SIZE :: nat where "MOSPF_LSU_SIZE = 8"
definition MOSPF_LSA_SIZE :: nat where "MOSPF_LSA_SIZE = 12"
definition MOSPF_VERSION :: u8 where "MOSPF_VERSION = 2"
definition MOSPF_TYPE_HELLO :: u8 where "MOSPF_TYPE_HELLO = 1"
definition MOSPF_TYPE_LSU :: u8 where "MOSPF_TYPE_LSU = 4"
definition MOSPF_DEFAULT_HELLOINT :: nat where "MOSPF_DEFAULT_HELLOINT = 5"
definition MOSPF_DEFAULT_LSUINT :: int where "MOSPF_DEFAULT_LSUINT = 30"
definition MOSPF_MAX_LSU_TTL :: u8 where "MOSPF_MAX_LSU_TTL = 255"

lemmas mospf_sizes [simp] = MOSPF_HDR_SIZE_def MOSPF_HELLO_SIZE_def MOSPF_LSU_SIZE_def MOSPF_LSA_SIZE_def

definition enc_mhdr :: "mospf_hdr \<Rightarrow> bytes" where
  "enc_mhdr h = [mo_version h, mo_type h] @ put16 (mo_len h) @ put32 (mo_rid h) @ put32 (mo_aid h)
     @ put16 (mo_checksum h) @ put16 (mo_padding h)"

definition dec_mhdr :: "bytes \<Rightarrow> mospf_hdr" where
  "dec_mhdr bs = \<lparr>mo_version = bs ! 0, mo_type = bs ! 1, mo_len = get16 bs 2, mo_rid = get32 bs 4,
     mo_aid = get32 bs 8, mo_checksum = get16 bs 12, mo_padding = get16 bs 14\<rparr>"

interpretation mh: layout enc_mhdr dec_mhdr 16
proof
  fix x bs
  show "length (enc_mhdr x) = 16" by (simp add: enc_mhdr_def)
  show "dec_mhdr (enc_mhdr x) = x"
    by (cases x) (simp add: enc_mhdr_def dec_mhdr_def struct_defs byte_simps)
  assume "length (bs :: bytes) = 16"
  then show "enc_mhdr (dec_mhdr bs) = bs"
    by (rule list_by_length[rotated]) (simp add: enc_mhdr_def dec_mhdr_def struct_defs byte_simps upt_unfold)
qed

definition enc_hello :: "mospf_hello \<Rightarrow> bytes" where
  "enc_hello h = put32 (he_mask h) @ put16 (he_helloint h) @ put16 (he_padding h)"

definition dec_hello :: "bytes \<Rightarrow> mospf_hello" where
  "dec_hello bs = \<lparr>he_mask = get32 bs 0, he_helloint = get16 bs 4, he_padding = get16 bs 6\<rparr>"

interpretation mhello: layout enc_hello dec_hello 8
proof
  fix x bs
  show "length (enc_hello x) = 8" by (simp add: enc_hello_def)
  show "dec_hello (enc_hello x) = x"
    by (cases x) (simp add: enc_hello_def dec_hello_def struct_defs byte_simps)
  assume "length (bs :: bytes) = 8"
  then show "enc_hello (dec_hello bs) = bs"
    by (rule list_by_length[rotated]) (simp add: enc_hello_def dec_hello_def struct_defs byte_simps upt_unfold)
qed

definition enc_lsu :: "mospf_lsu \<Rightarrow> bytes" where
  "enc_lsu h = put16 (lsu_seq h) @ [lsu_ttl h, lsu_unused h] @ put32 (lsu_nadv h)"

definition dec_lsu :: "bytes \<Rightarrow> mospf_lsu" where
  "dec_lsu bs = \<lparr>lsu_seq = get16 bs 0, lsu_ttl = bs ! 2, lsu_unused = bs ! 3, lsu_nadv = get32 bs 4\<rparr>"

interpretation mlsu: layout enc_lsu dec_lsu 8
proof
  fix x bs
  show "length (enc_lsu x) = 8" by (simp add: enc_lsu_def)
  show "dec_lsu (enc_lsu x) = x"
    by (cases x) (simp add: enc_lsu_def dec_lsu_def struct_defs byte_simps)
  assume "length (bs :: bytes) = 8"
  then show "enc_lsu (dec_lsu bs) = bs"
    by (rule list_by_length[rotated]) (simp add: enc_lsu_def dec_lsu_def struct_defs byte_simps upt_unfold)
qed

definition enc_lsa :: "mospf_lsa \<Rightarrow> bytes" where
  "enc_lsa h = put32 (lsa_subnet h) @ put32 (lsa_mask h) @ put32 (lsa_rid h)"

definition dec_lsa :: "bytes \<Rightarrow> mospf_lsa" where
  "dec_lsa bs = \<lparr>lsa_subnet = get32 bs 0, lsa_mask = get32 bs 4, lsa_rid = get32 bs 8\<rparr>"

interpretation mlsa: layout enc_lsa dec_lsa 12
proof
  fix x bs
  show "length (enc_lsa x) = 12" by (simp add: enc_lsa_def)
  show "dec_lsa (enc_lsa x) = x"
    by (cases x) (simp add: enc_lsa_def dec_lsa_def struct_defs byte_simps)
  assume "length (bs :: bytes) = 12"
  then show "enc_lsa (dec_lsa bs) = bs"
    by (rule list_by_length[rotated]) (simp add: enc_lsa_def dec_lsa_def struct_defs byte_simps upt_unfold)
qed

abbreviation get_mhdr :: "bytes \<Rightarrow> nat \<Rightarrow> mospf_hdr option" where "get_mhdr \<equiv> load_struct dec_mhdr 16"
abbreviation put_mhdr :: "bytes \<Rightarrow> nat \<Rightarrow> mospf_hdr \<Rightarrow> bytes option" where "put_mhdr \<equiv> store_struct enc_mhdr"
abbreviation get_lsu :: "bytes \<Rightarrow> nat \<Rightarrow> mospf_lsu option" where "get_lsu \<equiv> load_struct dec_lsu 8"
abbreviation put_lsu :: "bytes \<Rightarrow> nat \<Rightarrow> mospf_lsu \<Rightarrow> bytes option" where "put_lsu \<equiv> store_struct enc_lsu"
abbreviation get_lsa :: "bytes \<Rightarrow> nat \<Rightarrow> mospf_lsa option" where "get_lsa \<equiv> load_struct dec_lsa 12"
abbreviation put_lsa :: "bytes \<Rightarrow> nat \<Rightarrow> mospf_lsa \<Rightarrow> bytes option" where "put_lsa \<equiv> store_struct enc_lsa"

section \<open>State\<close>

record mospf_nbr =
  nbr_id :: u32
  nbr_ip :: u32
  nbr_mask :: u32
  nbr_alive :: u8

record mospf_db_entry =
  db_add_time :: int
  db_rid :: u32
  db_seq :: u16
  db_nadv :: int
  db_array :: "mospf_lsa list"

record mospf_sys = ustack +
  area_id :: u32
  router_id :: u32
  sequence_num :: u16
  lsuint :: int
  nbr_list :: "int \<Rightarrow> mospf_nbr list"
  num_nbr :: "int \<Rightarrow> int"
  mospf_db :: "mospf_db_entry list"
  mospf_locked :: bool
  spf_state :: spf

definition lock :: "'a mospf_sys_scheme \<Rightarrow> 'a mospf_sys_scheme option" where
  "lock s = (if mospf_locked s then None else Some (s\<lparr>mospf_locked := True\<rparr>))"

definition unlock :: "'a mospf_sys_scheme \<Rightarrow> 'a mospf_sys_scheme" where
  "unlock s = s\<lparr>mospf_locked := False\<rparr>"

definition mospf_init :: "'a mospf_sys_scheme \<Rightarrow> 'a mospf_sys_scheme option" where
  "mospf_init s = do {
     ensure (iface_list s \<noteq> []);
     Some (s\<lparr>mospf_locked := False, area_id := 0, router_id := if_ip (hd (iface_list s)), sequence_num := 0,
             lsuint := MOSPF_DEFAULT_LSUINT, nbr_list := (\<lambda>i. []), mospf_db := []\<rparr>) }"

section \<open>Building headers\<close>

definition mospf_init_hdr :: "bytes \<Rightarrow> nat \<Rightarrow> u8 \<Rightarrow> u16 \<Rightarrow> u32 \<Rightarrow> u32 \<Rightarrow> bytes option" where
  "mospf_init_hdr m off type len rid aid = do {
     old \<leftarrow> get_mhdr m off;
     put_mhdr m off \<lparr>mo_version = MOSPF_VERSION, mo_type = type, mo_len = htons len, mo_rid = htonl rid,
        mo_aid = htonl aid, mo_checksum = mo_checksum old, mo_padding = 0\<rparr> }"

definition mospf_init_hello :: "bytes \<Rightarrow> nat \<Rightarrow> u32 \<Rightarrow> bytes option" where
  "mospf_init_hello m off msk = store_struct enc_hello m off
     \<lparr>he_mask = htonl msk, he_helloint = htons (of_nat MOSPF_DEFAULT_HELLOINT), he_padding = 0\<rparr>"

definition mospf_init_lsu :: "bytes \<Rightarrow> nat \<Rightarrow> u32 \<Rightarrow> 'a mospf_sys_scheme \<Rightarrow> bytes option" where
  "mospf_init_lsu m off nadv s = put_lsu m off
     \<lparr>lsu_seq = htons (sequence_num s), lsu_ttl = MOSPF_MAX_LSU_TTL, lsu_unused = 0, lsu_nadv = htonl nadv\<rparr>"

definition mospf_checksum :: "bytes \<Rightarrow> nat \<Rightarrow> u16 option" where
  "mospf_checksum m off = do {
     h \<leftarrow> get_mhdr m off;
     m' \<leftarrow> put_mhdr m off (h\<lparr>mo_checksum := 0\<rparr>);
     checksum m' off (int (unat (ntohs (mo_len h)))) 0 }"

definition set_mospf_checksum :: "bytes \<Rightarrow> nat \<Rightarrow> bytes option" where
  "set_mospf_checksum m off = do {
     c \<leftarrow> mospf_checksum m off;
     h \<leftarrow> get_mhdr m off;
     put_mhdr m off (h\<lparr>mo_checksum := c\<rparr>) }"

section \<open>Hello\<close>

definition hello_dhost :: mac where "hello_dhost = Mac 0x01 0x00 0x5e 0x00 0x00 0x05"

text \<open>One hello message on one interface; every byte of the allocated packet is written.\<close>

definition send_hello :: "iface_info \<Rightarrow> 'a mospf_sys_scheme \<Rightarrow> 'a mospf_sys_scheme option" where
  "send_hello iface s = do {
     let len = ETHER_HDR_SIZE + IP_BASE_HDR_SIZE + MOSPF_HDR_SIZE + MOSPF_HELLO_SIZE;
     let pkt = replicate len 0;
     pkt \<leftarrow> put_eth pkt \<lparr>ether_dhost = hello_dhost, ether_shost = if_mac iface, ether_type = htons ETH_P_IP\<rparr>;
     (pkt, s) \<leftarrow> ip_init_hdr pkt ETHER_HDR_SIZE (if_ip iface) 0xe0000005 (of_nat (len - ETHER_HDR_SIZE)) 90 s;
     let mo = ETHER_HDR_SIZE + IP_BASE_HDR_SIZE;
     pkt \<leftarrow> mospf_init_hdr pkt mo 1 (of_nat (MOSPF_HDR_SIZE + MOSPF_HELLO_SIZE)) (router_id s) 0;
     pkt \<leftarrow> mospf_init_hello pkt (mo + MOSPF_HDR_SIZE) (if_mask iface);
     pkt \<leftarrow> set_mospf_checksum pkt mo;
     iface_send_packet iface pkt (int len) s }"

definition sending_mospf_hello :: "'a mospf_sys_scheme \<Rightarrow> 'a mospf_sys_scheme option" where
  "sending_mospf_hello s = do {
     s \<leftarrow> lock s;
     s \<leftarrow> fold_opt send_hello (iface_list s) s;
     Some (unlock s) }"

text \<open>The neighbour check of one list: each element is dropped or aged.\<close>

fun check_nbrs :: "mospf_nbr list \<Rightarrow> int \<Rightarrow> mospf_nbr list \<times> int" where
  "check_nbrs [] k = ([], k)"
| "check_nbrs (x # xs) k =
     (if unat (nbr_alive x) > 3 * MOSPF_DEFAULT_HELLOINT then check_nbrs xs (k - 1)
      else let (ys, k') = check_nbrs xs k in (x\<lparr>nbr_alive := nbr_alive x + 1\<rparr> # ys, k'))"

definition check_iface :: "iface_info \<Rightarrow> 'a mospf_sys_scheme \<Rightarrow> 'a mospf_sys_scheme" where
  "check_iface iface s =
     (let i = if_index iface; (ns, k) = check_nbrs (nbr_list s i) (num_nbr s i)
      in s\<lparr>nbr_list := (nbr_list s)(i := ns), num_nbr := (num_nbr s)(i := k)\<rparr>)"

definition checking_nbr :: "'a mospf_sys_scheme \<Rightarrow> 'a mospf_sys_scheme option" where
  "checking_nbr s = do {
     s \<leftarrow> lock s;
     Some (unlock (fold check_iface (iface_list s) s)) }"

definition handle_mospf_hello :: "iface_info \<Rightarrow> bytes \<Rightarrow> int \<Rightarrow> 'a mospf_sys_scheme \<Rightarrow> 'a mospf_sys_scheme option" where
  "handle_mospf_hello iface packet len s = do {
     s \<leftarrow> lock s;
     iph \<leftarrow> get_ip packet ETHER_HDR_SIZE;
     moph \<leftarrow> get_mhdr packet (ETHER_HDR_SIZE + IP_BASE_HDR_SIZE);
     hello \<leftarrow> load_struct dec_hello 8 packet (ETHER_HDR_SIZE + IP_BASE_HDR_SIZE + MOSPF_HDR_SIZE);
     let hello_ip = ntohl (ip_saddr iph);
     let i = if_index iface;
     let ns = nbr_list s i;
     if \<exists>x \<in> set ns. nbr_ip x = hello_ip then
       Some (unlock (s\<lparr>nbr_list := (nbr_list s)(i :=
          map (\<lambda>x. if nbr_ip x = hello_ip then x\<lparr>nbr_alive := 0\<rparr> else x) ns)\<rparr>))
     else
       Some (unlock (s\<lparr>nbr_list := (nbr_list s)(i := ns @ [\<lparr>nbr_id = ntohl (mo_rid moph), nbr_ip = hello_ip,
                          nbr_mask = ntohl (he_mask hello), nbr_alive = 0\<rparr>]),
                       num_nbr := (num_nbr s)(i := num_nbr s i + 1)\<rparr>)) }"

section \<open>Link state updates\<close>

definition lsu_num_adv :: "'a mospf_sys_scheme \<Rightarrow> int" where
  "lsu_num_adv s = sum_list (map (\<lambda>iface. if num_nbr s (if_index iface) = 0 then 1 else num_nbr s (if_index iface))
     (iface_list s))"

text \<open>The advertisements in the order the two nested loops write them.\<close>

definition iface_lsas :: "'a mospf_sys_scheme \<Rightarrow> iface_info \<Rightarrow> mospf_lsa list" where
  "iface_lsas s iface =
     (if num_nbr s (if_index iface) = 0
      then [\<lparr>lsa_subnet = htonl (if_ip iface AND if_mask iface), lsa_mask = htonl (if_mask iface), lsa_rid = 0\<rparr>]
      else map (\<lambda>x. \<lparr>lsa_subnet = ntohl (nbr_ip x AND nbr_mask x), lsa_mask = ntohl (nbr_mask x), lsa_rid = ntohl (nbr_id x)\<rparr>)
             (nbr_list s (if_index iface)))"

text \<open>Each advertisement is stored at \<^verbatim>\<open>packet + pac_len - (num_adv - i) * MOSPF_LSA_SIZE\<close>.\<close>

fun write_lsas :: "int \<Rightarrow> int \<Rightarrow> mospf_lsa list \<Rightarrow> int \<Rightarrow> bytes \<Rightarrow> bytes option" where
  "write_lsas pac_len num_adv [] i packet = Some packet"
| "write_lsas pac_len num_adv (l # ls) i packet = do {
     let off = pac_len - (num_adv - i) * int MOSPF_LSA_SIZE;
     ensure (0 \<le> off);
     packet \<leftarrow> put_lsa packet (nat off) l;
     write_lsas pac_len num_adv ls (i + 1) packet }"

definition send_lsu_to :: "bytes \<Rightarrow> int \<Rightarrow> int \<Rightarrow> iface_info \<Rightarrow> mospf_nbr \<Rightarrow> 'a mospf_sys_scheme \<Rightarrow> 'a mospf_sys_scheme option" where
  "send_lsu_to packet pac_len num_adv iface nbr s = do {
     eh \<leftarrow> get_eth packet;
     pkt \<leftarrow> put_eth packet (eh\<lparr>ether_type := htons ETH_P_IP, ether_shost := if_mac iface\<rparr>);
     (pkt, s) \<leftarrow> ip_init_hdr pkt ETHER_HDR_SIZE (if_ip iface) (nbr_ip nbr) (of_int (pac_len - int ETHER_HDR_SIZE)) 90 s;
     let mo = ETHER_HDR_SIZE + IP_BASE_HDR_SIZE;
     pkt \<leftarrow> mospf_init_hdr pkt mo MOSPF_TYPE_LSU (of_int (pac_len - int ETHER_HDR_SIZE - int IP_BASE_HDR_SIZE))
              (router_id s) (area_id s);
     pkt \<leftarrow> mospf_init_lsu pkt (mo + MOSPF_HDR_SIZE) (of_int num_adv) s;
     pkt \<leftarrow> set_mospf_checksum pkt mo;
     ip_send_packet_12 pkt pac_len s }"

text \<open>\<open>junk\<close> is the content of the fresh block, whose Ethernet destination is not written here.\<close>

definition sending_mospf_lsu :: "u8 \<Rightarrow> 'a mospf_sys_scheme \<Rightarrow> 'a mospf_sys_scheme option" where
  "sending_mospf_lsu junk s = do {
     s \<leftarrow> lock s;
     let num_adv = lsu_num_adv s;
     let pac_len = int (ETHER_HDR_SIZE + IP_BASE_HDR_SIZE + MOSPF_HDR_SIZE + MOSPF_LSU_SIZE) + num_adv * int MOSPF_LSA_SIZE;
     packet \<leftarrow> write_lsas pac_len num_adv (concat (map (iface_lsas s) (iface_list s))) 0 (replicate (nat pac_len) junk);
     s \<leftarrow> fold_opt (\<lambda>iface s. fold_opt (send_lsu_to packet pac_len num_adv iface) (nbr_list s (if_index iface)) s)
            (iface_list s) s;
     Some (unlock (s\<lparr>sequence_num := sequence_num s + 1\<rparr>)) }"

text \<open>Reading \<open>n\<close> advertisements, converted to host byte order.\<close>

fun read_lsas :: "bytes \<Rightarrow> nat \<Rightarrow> nat \<Rightarrow> mospf_lsa list option" where
  "read_lsas m off 0 = Some []"
| "read_lsas m off (Suc n) = do {
     l \<leftarrow> get_lsa m off;
     ls \<leftarrow> read_lsas m (off + MOSPF_LSA_SIZE) n;
     Some (\<lparr>lsa_subnet = ntohl (lsa_subnet l), lsa_mask = ntohl (lsa_mask l), lsa_rid = ntohl (lsa_rid l)\<rparr> # ls) }"

text \<open>The loop over the database: an entry of the same router with a smaller sequence number gets the
  new advertisements and time; its sequence number and count are left as they were.\<close>

fun update_db :: "int \<Rightarrow> u32 \<Rightarrow> int \<Rightarrow> mospf_lsa list option \<Rightarrow> mospf_db_entry list \<Rightarrow>
    (mospf_db_entry list \<times> bool) option" where
  "update_db t rid seq lsas [] = Some ([], False)"
| "update_db t rid seq lsas (e # es) = do {
     (es', flag) \<leftarrow> update_db t rid seq lsas es;
     if rid = db_rid e \<and> int (unat (db_seq e)) \<ge> seq then Some (e # es', True)
     else if rid = db_rid e \<and> int (unat (db_seq e)) < seq then do {
       ls \<leftarrow> lsas;
       Some (e\<lparr>db_array := ls, db_add_time := t\<rparr> # es', True) }
     else Some (e # es', flag) }"

definition forward_lsu :: "bytes \<Rightarrow> int \<Rightarrow> iface_info \<Rightarrow> mospf_nbr \<Rightarrow> 'a mospf_sys_scheme \<Rightarrow> 'a mospf_sys_scheme option" where
  "forward_lsu packet len iface nbr s = do {
     pkt \<leftarrow> memcpy (replicate (nat len) 0) 0 packet 0 len;
     eh \<leftarrow> get_eth pkt;
     pkt \<leftarrow> put_eth pkt (eh\<lparr>ether_shost := if_mac iface\<rparr>);
     pkt \<leftarrow> set_mospf_checksum pkt (ETHER_HDR_SIZE + IP_BASE_HDR_SIZE);
     (pkt, s) \<leftarrow> ip_init_hdr pkt ETHER_HDR_SIZE (if_ip iface) (nbr_ip nbr) (of_int (len - int ETHER_HDR_SIZE)) 90 s;
     ip_send_packet_12 pkt len s }"

text \<open>The handler of an update. Its debug output is left out: the loop that prints the database before the update is passed on has no effect
  on the state, but reads as many advertisements of an entry as the entry announces (see \<open>mospf_lsu_stale_count\<close> below).\<close>

definition handle_mospf_lsu :: "iface_info \<Rightarrow> bytes \<Rightarrow> int \<Rightarrow> 'a mospf_sys_scheme \<Rightarrow> 'a mospf_sys_scheme option" where
  "handle_mospf_lsu iface packet len s = do {
     s \<leftarrow> lock s;
     let mo = ETHER_HDR_SIZE + IP_BASE_HDR_SIZE;
     mospf \<leftarrow> get_mhdr packet mo;
     let rid = ntohl (mo_rid mospf);
     if router_id s = rid then Some s
     else do {
       lsu \<leftarrow> get_lsu packet (mo + MOSPF_HDR_SIZE);
       let seq = ntohs (lsu_seq lsu);
       let nadv = sint (ntohl (lsu_nadv lsu));
       let lsas = read_lsas packet (mo + MOSPF_HDR_SIZE + MOSPF_LSU_SIZE) (nat nadv);
       (es, flag) \<leftarrow> update_db (now s) rid (int (unat seq)) lsas (mospf_db s);
       es \<leftarrow> (if flag then Some es
              else do { ls \<leftarrow> lsas;
                        Some (es @ [\<lparr>db_add_time = now s, db_rid = rid, db_seq = seq, db_nadv = nadv, db_array = ls\<rparr>]) });
       let s = s\<lparr>mospf_db := es\<rparr>;
       let lsu = lsu\<lparr>lsu_ttl := lsu_ttl lsu - 1\<rparr>;
       packet \<leftarrow> put_lsu packet (mo + MOSPF_HDR_SIZE) lsu;
       s \<leftarrow> (if lsu_ttl lsu > 0 then
                fold_opt (\<lambda>i s. if if_index i = if_index iface then Some s
                                else fold_opt (forward_lsu packet len i) (nbr_list s (if_index i)) s) (iface_list s) s
             else Some s);
       Some (unlock s) } }"

definition handle_mospf_packet :: "iface_info \<Rightarrow> bytes \<Rightarrow> int \<Rightarrow> 'a mospf_sys_scheme \<Rightarrow> 'a mospf_sys_scheme option" where
  "handle_mospf_packet iface packet len s = do {
     ip \<leftarrow> get_ip packet ETHER_HDR_SIZE;
     let mo = ETHER_HDR_SIZE + IP_HDR_SIZE ip;
     mospf \<leftarrow> get_mhdr packet mo;
     if mo_version mospf \<noteq> MOSPF_VERSION then Some s
     else do {
       c \<leftarrow> mospf_checksum packet mo;
       if mo_checksum mospf \<noteq> c then Some s
       else if ntohl (mo_aid mospf) \<noteq> area_id s then Some s
       else if mo_type mospf = MOSPF_TYPE_HELLO then handle_mospf_hello iface packet len s
       else if mo_type mospf = MOSPF_TYPE_LSU then handle_mospf_lsu iface packet len s
       else Some s } }"

text \<open>The aging of the database: one stale entry also removes every route through a gateway.\<close>

definition checking_database :: "'a mospf_sys_scheme \<Rightarrow> 'a mospf_sys_scheme option" where
  "checking_database s = do {
     s \<leftarrow> lock s;
     let stale = (\<lambda>e. now s - db_add_time e \<ge> 35);
     Some (unlock (s\<lparr>rtable := (if \<exists>e \<in> set (mospf_db s). stale e then filter (\<lambda>r. rt_gw r = 0) (rtable s) else rtable s),
                     mospf_db := filter (\<lambda>e. \<not> stale e) (mospf_db s)\<rparr>)) }"

section \<open>Routes\<close>

fun fill_nodes :: "mospf_db_entry list \<Rightarrow> nat \<Rightarrow> spf \<Rightarrow> (nat \<times> spf) option" where
  "fill_nodes [] n g = Some (n, g)"
| "fill_nodes (e # es) n g = do {
     ensure (n < MAX_NUM);
     fill_nodes es (Suc n) (g\<lparr>Node := (Node g)[n := db_rid e]\<rparr>) }"

definition set_edge :: "nat \<Rightarrow> mospf_db_entry \<Rightarrow> mospf_lsa \<Rightarrow> spf \<Rightarrow> spf option" where
  "set_edge n e l g =
     (if lsa_rid l = 0 then Some g
      else do {
        x \<leftarrow> get_Node g (lsa_rid l) n;
        y \<leftarrow> get_Node g (db_rid e) n;
        let G = (Graph g)[y := (Graph g ! y)[x := 1]];
        Some (g\<lparr>Graph := G[x := (G ! x)[y := 1]]\<rparr>) })"

definition caculate_graph :: "u32 \<Rightarrow> mospf_db_entry list \<Rightarrow> spf \<Rightarrow> (nat \<times> spf) option" where
  "caculate_graph rid db g = do {
     let g = init_Graph g;
     let g = g\<lparr>Node := (Node g)[0 := rid]\<rparr>;
     if db = [] then Some (1, g)
     else do {
       (n, g) \<leftarrow> fill_nodes db 1 g;
       g \<leftarrow> fold_opt (\<lambda>e g. do {
              ensure (0 \<le> db_nadv e \<and> db_nadv e \<le> int (length (db_array e)));
              fold_opt (set_edge n e) (take (nat (db_nadv e)) (db_array e)) g }) db g;
       Some (n, g) } }"

definition is_in_rtable :: "u32 \<Rightarrow> 'a ustack_scheme \<Rightarrow> bool" where
  "is_in_rtable subnet s \<longleftrightarrow> (\<exists>r \<in> set (rtable s). (rt_dest r AND rt_mask r) = subnet)"

text \<open>The inner sorting loop as written, \<^verbatim>\<open>for (int j = 0; i != Node_num - i - 1; ++j)\<close>: the condition
  does not mention \<^verbatim>\<open>j\<close>, so once entered the loop only ends by running out of an array.\<close>

function bubble_inner :: "nat \<Rightarrow> nat \<Rightarrow> nat \<Rightarrow> u32 list \<times> nat list \<Rightarrow> (u32 list \<times> nat list) option" where
  "bubble_inner i n j (dist, rank) =
     (if int i = int n - int i - 1 then Some (dist, rank)
      else if j + 1 \<ge> MAX_NUM then None
      else if dist ! j > dist ! (j + 1) then
        (if j + 1 \<ge> n then None
         else bubble_inner i n (j + 1) (dist[j := dist ! (j + 1), j + 1 := dist ! j], rank[j := rank ! (j + 1), j + 1 := rank ! j]))
      else bubble_inner i n (j + 1) (dist, rank))"
  by pat_completeness auto
termination
  by (relation "measure (\<lambda>(i, n, j, x). MAX_NUM - j)") auto

definition bubble_sort :: "nat \<Rightarrow> u32 list \<Rightarrow> (u32 list \<times> nat list) option" where
  "bubble_sort n dist = fold_opt (\<lambda>i. bubble_inner i n 0) [0..<n - 1] (dist, [0..<n])"

text \<open>\<^verbatim>\<open>get_iface_and_gw\<close> writes through \<^verbatim>\<open>iface_addr\<close>, which the caller passes as a null pointer, so
  it crashes when it finds the neighbour; when it does not, the caller dereferences the null
  pointer itself.\<close>

definition get_iface_and_gw :: "u32 \<Rightarrow> 'a mospf_sys_scheme \<Rightarrow> iface_info option option \<Rightarrow> (iface_info \<times> u32) option option" where
  "get_iface_and_gw rid s iface_addr =
     (case find (\<lambda>(i, x). nbr_id x = rid) (concat (map (\<lambda>i. map (Pair i) (nbr_list s (if_index i))) (iface_list s))) of
        Some (i, x) \<Rightarrow> (case iface_addr of None \<Rightarrow> None | Some _ \<Rightarrow> Some (Some (i, nbr_ip x)))
      | None \<Rightarrow> Some None)"

definition add_route :: "nat \<Rightarrow> mospf_db_entry \<Rightarrow> mospf_lsa \<Rightarrow> 'a mospf_sys_scheme \<Rightarrow> 'a mospf_sys_scheme option" where
  "add_route n e l s =
     (if is_in_rtable (lsa_subnet l) s then Some s
      else do {
        hop \<leftarrow> get_Node (spf_state s) (db_rid e) n;
        hop \<leftarrow> first_hop (spf_state s) hop;
        r \<leftarrow> get_iface_and_gw (Node (spf_state s) ! hop) s None;
        (i, gw) \<leftarrow> r;
        Some (add_rt_entry (new_rt_entry (lsa_subnet l) (if_mask i) gw i) s) })"

definition caculate_rtable :: "'a mospf_sys_scheme \<Rightarrow> 'a mospf_sys_scheme option" where
  "caculate_rtable s = do {
     s \<leftarrow> lock s;
     (n, g) \<leftarrow> caculate_graph (router_id s) (mospf_db s) (spf_state s);
     g \<leftarrow> Dijkstra n g;
     (dist, rank) \<leftarrow> bubble_sort n (Dist g);
     let s = s\<lparr>spf_state := g\<lparr>Dist := dist\<rparr>\<rparr>;
     s \<leftarrow> fold_opt (\<lambda>i s.
            if Prev g ! (rank ! i) \<noteq> - 1 \<and> mospf_db s \<noteq> [] then
              fold_opt (\<lambda>e s. do {
                 ensure (0 \<le> db_nadv e \<and> db_nadv e \<le> int (length (db_array e)));
                 fold_opt (add_route n e) (take (nat (db_nadv e)) (db_array e)) s }) (mospf_db s) s
            else Some s) [0..<n] s;
     Some (unlock s) }"

section \<open>The route computation\<close>

lemma bubble_inner_stuck: "int i \<noteq> int n - int i - 1 \<Longrightarrow> bubble_inner i n j x = None"
  by (induction i n j x rule: bubble_inner.induct) auto

lemma fill_nodes_count: "fill_nodes es n g = Some (m, g') \<Longrightarrow> m = n + length es"
  by (induction es n g rule: fill_nodes.induct) (auto split: if_splits)

lemma caculate_graph_count: "caculate_graph rid db g = Some (n, g') \<Longrightarrow> n = 1 + length db"
  by (auto simp: caculate_graph_def Let_def bind_eq_Some_conv split: if_splits dest: fill_nodes_count)

text \<open>The thread that computes routes never gets past its sorting loop once the database is not empty:
  the inner loop tests \<^verbatim>\<open>i\<close> instead of \<^verbatim>\<open>j\<close>, so with at least two nodes it runs off the end of
  \<^verbatim>\<open>Dist\<close> (unless the computation has already failed before). No route is ever added.\<close>

theorem caculate_rtable_never_returns:
  assumes "mospf_db s \<noteq> []"
  shows "caculate_rtable s = None"
proof -
  have "bubble_sort n dist = None" if "2 \<le> n" for n dist
  proof -
    have "[0..<n - 1] = 0 # [1..<n - 1]" using that by (simp add: upt_conv_Cons)
    moreover have "bubble_inner 0 n 0 (dist, [0..<n]) = None"
      using that by (intro bubble_inner_stuck) simp
    ultimately show ?thesis by (simp add: bubble_sort_def)
  qed
  moreover have "2 \<le> n" if "caculate_graph rid (mospf_db s) g = Some (n, g')" for rid g n g'
    using caculate_graph_count [OF that] assms by (cases "mospf_db s") auto
  ultimately show ?thesis
    by (fastforce simp: caculate_rtable_def lock_def split: bind_splits)
qed

definition mospf0 :: mospf_sys where
  "mospf0 = ustack.extend ustack0 \<lparr>area_id = 0, router_id = 0x0A000001, sequence_num = 0, lsuint = 30,
     nbr_list = (\<lambda>i. []), num_nbr = (\<lambda>i. 0), mospf_db = [], mospf_locked = False, spf_state = row_graph\<rparr>"

theorem caculate_rtable_never_returns_witness:
  "caculate_rtable (mospf0\<lparr>mospf_db := [\<lparr>db_add_time = 0, db_rid = 7, db_seq = 0, db_nadv = 1,
     db_array = [\<lparr>lsa_subnet = 1, lsa_mask = 2, lsa_rid = 0x0A000001\<rparr>]\<rparr>]\<rparr>) = None"
  by (rule caculate_rtable_never_returns) simp

section \<open>The lock\<close>

text \<open>A router that receives its own link state update (over any loop in the topology) blocks for
  ever: the handler returns early without releasing the mutex, after which neither the
  periodic threads nor the handlers can run again.\<close>

theorem own_lsu_deadlock:
  assumes "get_mhdr packet 34 = Some h" "ntohl (mo_rid h) = router_id s" "\<not> mospf_locked s"
  shows "\<exists>s'. handle_mospf_lsu iface packet len s = Some s' \<and>
     sending_mospf_hello s' = None \<and> sending_mospf_lsu junk s' = None \<and> checking_nbr s' = None \<and>
     checking_database s' = None \<and> caculate_rtable s' = None \<and>
     handle_mospf_hello i p l s' = None \<and> handle_mospf_lsu i p l s' = None"
  using assms
  by (simp add: handle_mospf_lsu_def lock_def sending_mospf_hello_def sending_mospf_lsu_def checking_nbr_def
      checking_database_def caculate_rtable_def handle_mospf_hello_def)

definition own_lsu :: bytes where
  "own_lsu = replicate 34 0 @ enc_mhdr \<lparr>mo_version = 2, mo_type = 4, mo_len = htons 24, mo_rid = htonl 0x0A000001,
     mo_aid = 0, mo_checksum = 0, mo_padding = 0\<rparr> @ replicate 8 0"

theorem own_lsu_deadlock_witness:
  "\<exists>s'. handle_mospf_lsu iface0 own_lsu 58 mospf0 = Some s' \<and> sending_mospf_hello s' = None
     \<and> handle_mospf_lsu iface0 own_lsu 58 s' = None"
  using own_lsu_deadlock [of own_lsu _ mospf0 iface0 58 0 iface0 own_lsu 58]
  by (auto simp: own_lsu_def load_struct_def load_bytes_def mh.length_enc mh.dec_enc mospf0_def ustack.defs)

section \<open>Neighbours\<close>

definition nbr_inv :: "'a mospf_sys_scheme \<Rightarrow> bool" where
  "nbr_inv s \<longleftrightarrow> (\<forall>i. num_nbr s i = int (length (nbr_list s i)) \<and> distinct (map nbr_ip (nbr_list s i))
     \<and> (\<forall>x \<in> set (nbr_list s i). unat (nbr_alive x) \<le> 16))"

lemma nbr_inv_locked [simp]: "nbr_inv (s\<lparr>mospf_locked := b\<rparr>) = nbr_inv s"
  by (simp add: nbr_inv_def)

lemma check_nbrs_spec:
  "check_nbrs xs k = (ys, k') \<Longrightarrow>
     ys = map (\<lambda>x. x\<lparr>nbr_alive := nbr_alive x + 1\<rparr>) (filter (\<lambda>x. unat (nbr_alive x) \<le> 15) xs)
     \<and> k' = k - int (length xs) + int (length ys)"
  by (induction xs k arbitrary: ys k' rule: check_nbrs.induct)
     (auto simp: MOSPF_DEFAULT_HELLOINT_def Let_def split: if_splits prod.splits)

lemma alive_step: "unat (a :: u8) \<le> 15 \<Longrightarrow> unat (a + 1) = unat a + 1"
  by (subst unat_add_no_wrap) simp_all

lemma check_iface_inv: "nbr_inv s \<Longrightarrow> nbr_inv (check_iface iface s)"
proof -
  assume inv: "nbr_inv s"
  let ?i = "if_index iface"
  obtain ys k where c: "check_nbrs (nbr_list s ?i) (num_nbr s ?i) = (ys, k)" by fastforce
  note spec = check_nbrs_spec [OF c]
  have "map nbr_ip ys = map nbr_ip (filter (\<lambda>x. unat (nbr_alive x) \<le> 15) (nbr_list s ?i))"
    using spec by simp
  then have "distinct (map nbr_ip ys)"
    using inv by (simp add: nbr_inv_def distinct_map_filter)
  moreover have "\<forall>x \<in> set ys. unat (nbr_alive x) \<le> 16"
    using spec by (auto simp: alive_step)
  moreover have "k = int (length ys)" using spec inv by (simp add: nbr_inv_def)
  ultimately show ?thesis
    using inv c by (simp add: nbr_inv_def check_iface_def Let_def)
qed

lemma checking_nbr_inv: "checking_nbr s = Some s' \<Longrightarrow> nbr_inv s \<Longrightarrow> nbr_inv s'"
proof -
  have "nbr_inv t \<Longrightarrow> nbr_inv (fold check_iface is t)" for "is" and t :: "'a mospf_sys_scheme"
    by (induction "is" arbitrary: t) (simp_all add: check_iface_inv)
  moreover assume "checking_nbr s = Some s'" "nbr_inv s"
  ultimately show ?thesis
    by (auto simp: checking_nbr_def lock_def unlock_def split: if_splits)
qed

text \<open>C36. A valid hello registers its sender: the handler returns, the sender's address is in the
  neighbour list of the receiving interface exactly once with its life counter reset, other
  neighbours and other interfaces are unchanged, and the counter \<^verbatim>\<open>num_nbr\<close> stays the length of the
  list.\<close>

theorem mospf_hello_registers:
  assumes "nbr_inv s" "\<not> mospf_locked s" "get_ip p 14 = Some iph" "get_mhdr p 34 = Some moph"
    and "load_struct dec_hello 8 p 50 = Some hello"
  shows "\<exists>s'. handle_mospf_hello iface p len s = Some s' \<and> nbr_inv s' \<and> \<not> mospf_locked s'
     \<and> (\<exists>x \<in> set (nbr_list s' (if_index iface)). nbr_ip x = ntohl (ip_saddr iph) \<and> nbr_alive x = 0)
     \<and> filter (\<lambda>x. nbr_ip x \<noteq> ntohl (ip_saddr iph)) (nbr_list s' (if_index iface))
       = filter (\<lambda>x. nbr_ip x \<noteq> ntohl (ip_saddr iph)) (nbr_list s (if_index iface))
     \<and> (\<forall>i. i \<noteq> if_index iface \<longrightarrow> nbr_list s' i = nbr_list s i)"
proof (cases "\<exists>x \<in> set (nbr_list s (if_index iface)). nbr_ip x = ntohl (ip_saddr iph)")
  case True
  let ?f = "\<lambda>x. if nbr_ip x = ntohl (ip_saddr iph) then x\<lparr>nbr_alive := 0\<rparr> else x"
  have ips: "map nbr_ip (map ?f xs) = map nbr_ip xs" for xs by (simp add: comp_def if_distrib cong: if_cong)
  have flt: "filter (\<lambda>x. nbr_ip x \<noteq> ntohl (ip_saddr iph)) (map ?f xs) = filter (\<lambda>x. nbr_ip x \<noteq> ntohl (ip_saddr iph)) xs" for xs
    by (induction xs) auto
  have old: "\<forall>i. num_nbr s i = int (length (nbr_list s i)) \<and> distinct (map nbr_ip (nbr_list s i))
     \<and> (\<forall>x \<in> set (nbr_list s i). unat (nbr_alive x) \<le> 16)" using assms(1) by (simp add: nbr_inv_def)
  define s' where "s' = unlock (s\<lparr>mospf_locked := True, nbr_list := (nbr_list s)(if_index iface := map ?f (nbr_list s (if_index iface)))\<rparr>)"
  have "handle_mospf_hello iface p len s = Some s'"
    using True assms(2-5) by (simp add: handle_mospf_hello_def lock_def s'_def Let_def)
  moreover have "nbr_inv s'"
    using old ips [of "nbr_list s (if_index iface)"] by (auto simp: nbr_inv_def s'_def unlock_def simp del: map_map)
  moreover obtain x where x: "x \<in> set (nbr_list s (if_index iface))" "nbr_ip x = ntohl (ip_saddr iph)"
    using True by blast
  then have "?f x \<in> set (nbr_list s' (if_index iface))" "nbr_ip (?f x) = ntohl (ip_saddr iph)" "nbr_alive (?f x) = 0"
    by (simp_all add: s'_def unlock_def rev_image_eqI)
  then have "\<exists>y \<in> set (nbr_list s' (if_index iface)). nbr_ip y = ntohl (ip_saddr iph) \<and> nbr_alive y = 0" by blast
  moreover have "filter (\<lambda>x. nbr_ip x \<noteq> ntohl (ip_saddr iph)) (nbr_list s' (if_index iface))
       = filter (\<lambda>x. nbr_ip x \<noteq> ntohl (ip_saddr iph)) (nbr_list s (if_index iface))"
    using flt by (simp add: s'_def unlock_def)
  moreover have "\<not> mospf_locked s'" "\<forall>i. i \<noteq> if_index iface \<longrightarrow> nbr_list s' i = nbr_list s i"
    by (simp_all add: s'_def unlock_def)
  ultimately show ?thesis by blast
next
  case False
  define s' where "s' = unlock (s\<lparr>mospf_locked := True, nbr_list := (nbr_list s)(if_index iface := nbr_list s (if_index iface)
      @ [\<lparr>nbr_id = ntohl (mo_rid moph), nbr_ip = ntohl (ip_saddr iph), nbr_mask = ntohl (he_mask hello), nbr_alive = 0\<rparr>]),
      num_nbr := (num_nbr s)(if_index iface := num_nbr s (if_index iface) + 1)\<rparr>)"
  have "handle_mospf_hello iface p len s = Some s'"
    using False assms(2-5) by (auto simp: handle_mospf_hello_def lock_def s'_def Let_def)
  moreover have "nbr_inv s'"
    using assms(1) False by (auto simp: nbr_inv_def s'_def unlock_def)
  ultimately show ?thesis
    by (auto simp: s'_def unlock_def)
qed

definition hello_packet :: bytes where
  "hello_packet = replicate 14 0 @ enc_ip (own_hdr 0x0A000002 0xe0000005 44 90 0 0) @ replicate 24 0"

theorem mospf_hello_registers_witness:
  "\<exists>s'. handle_mospf_hello iface0 hello_packet 58 mospf0 = Some s' \<and> nbr_inv s'
     \<and> (\<exists>x \<in> set (nbr_list s' 1). nbr_ip x = 0x0A000002 \<and> nbr_alive x = 0)"
proof -
  let ?h = "own_hdr 0x0A000002 0xe0000005 44 90 0 0"
  have "get_ip hello_packet 14 = Some ?h"
    by (simp add: hello_packet_def load_struct_def load_bytes_def iph.length_enc iph.dec_enc)
  moreover obtain m x where "get_mhdr hello_packet 34 = Some m" "load_struct dec_hello 8 hello_packet 50 = Some x"
    by (auto simp: hello_packet_def load_struct_def load_bytes_def iph.length_enc)
  moreover have "nbr_inv mospf0" "\<not> mospf_locked mospf0"
    by (simp_all add: nbr_inv_def mospf0_def ustack.defs)
  moreover have "if_index iface0 = 1" "ntohl (ip_saddr ?h) = 0x0A000002"
    by (simp_all add: iface0_def own_hdr_def)
  ultimately show ?thesis
    using mospf_hello_registers [of mospf0 hello_packet ?h m x iface0 58] by auto
qed

section \<open>Learning the topology\<close>

text \<open>An advertisement in host byte order, as the database keeps it.\<close>

definition host_lsa :: "mospf_lsa \<Rightarrow> mospf_lsa" where
  "host_lsa l = \<lparr>lsa_subnet = ntohl (lsa_subnet l), lsa_mask = ntohl (lsa_mask l), lsa_rid = ntohl (lsa_rid l)\<rparr>"

lemma read_lsas_encoded:
  "read_lsas (pre @ concat (map enc_lsa ls) @ post) (length pre) (length ls) = Some (map host_lsa ls)"
proof (induction ls arbitrary: pre)
  case (Cons l ls)
  have "get_lsa (pre @ enc_lsa l @ rest) (length pre) = Some l" for rest
    by (simp add: load_struct_def load_bytes_def mlsa.length_enc mlsa.dec_enc)
  moreover have "read_lsas ((pre @ enc_lsa l) @ concat (map enc_lsa ls) @ post) (length pre + 12) (length ls)
      = Some (map host_lsa ls)"
    using Cons [of "pre @ enc_lsa l"] by (simp add: mlsa.length_enc)
  ultimately show ?case by (simp add: host_lsa_def)
qed simp

lemma update_db_other:
  "\<forall>e \<in> set es. db_rid e \<noteq> rid \<Longrightarrow> update_db t rid seq lsas es = Some (es, False)"
  by (induction es) auto

text \<open>A link state update of a router not yet known is learned exactly: the message carries
  advertisements \<open>ls\<close> behind its 58 bytes of headers; if no interface other than the receiving one
  has neighbours to forward to, the handler returns, releases the lock, and the database gains one
  entry with the sender, the sequence number, the count and the advertisements in host byte order,
  behind the entries it had.\<close>

theorem mospf_lsu_learned:
  assumes "p = pre @ concat (map enc_lsa ls) @ post" "length pre = 58"
    and "get_mhdr p 34 = Some h" "ntohl (mo_rid h) \<noteq> router_id s"
    and "get_lsu p 50 = Some u" "sint (ntohl (lsu_nadv u)) = int (length ls)"
    and "\<not> mospf_locked s" "\<forall>e \<in> set (mospf_db s). db_rid e \<noteq> ntohl (mo_rid h)"
    and "\<forall>i \<in> set (iface_list s). if_index i \<noteq> if_index iface \<longrightarrow> nbr_list s (if_index i) = []"
  shows "handle_mospf_lsu iface p len s = Some (s\<lparr>mospf_db := mospf_db s @
     [\<lparr>db_add_time = now s, db_rid = ntohl (mo_rid h), db_seq = ntohs (lsu_seq u), db_nadv = int (length ls),
       db_array = map host_lsa ls\<rparr>], mospf_locked := False\<rparr>)"
proof -
  have lsas: "read_lsas p 58 (length ls) = Some (map host_lsa ls)"
    using read_lsas_encoded [of pre ls post] assms(1,2) by simp
  obtain p' where p': "put_lsu p 50 (u\<lparr>lsu_ttl := lsu_ttl u - 1\<rparr>) = Some p'"
    using mlsu.store_defined [OF mlsu.load_bounds [OF assms(5)]] by blast
  define e where "e = \<lparr>db_add_time = now s, db_rid = ntohl (mo_rid h), db_seq = ntohs (lsu_seq u),
    db_nadv = int (length ls), db_array = map host_lsa ls\<rparr>"
  define t where "t = s\<lparr>mospf_locked := True, mospf_db := mospf_db s @ [e]\<rparr>"
  have quiet: "fold_opt (\<lambda>i s. if if_index i = if_index iface then Some s
      else fold_opt (forward_lsu p' len i) (nbr_list s (if_index i)) s) is t = Some t"
    if "\<forall>i \<in> set is. if_index i \<noteq> if_index iface \<longrightarrow> nbr_list s (if_index i) = []" for "is"
    using that by (induction "is") (auto simp: t_def)
  have "handle_mospf_lsu iface p len s = Some (unlock t)"
    using assms(3-8) p' lsas quiet [OF assms(9)]
    by (simp add: handle_mospf_lsu_def lock_def update_db_other t_def e_def Let_def)
  then show ?thesis by (simp add: unlock_def t_def e_def)
qed

definition lsa_example :: mospf_lsa where
  "lsa_example = \<lparr>lsa_subnet = htonl 0x0A000100, lsa_mask = htonl 0xFFFFFF00, lsa_rid = 0\<rparr>"

definition lsu_head :: bytes where
  "lsu_head = replicate 34 0 @ enc_mhdr \<lparr>mo_version = 2, mo_type = 4, mo_len = htons 36, mo_rid = htonl 7, mo_aid = 0,
     mo_checksum = 0, mo_padding = 0\<rparr> @ enc_lsu \<lparr>lsu_seq = htons 3, lsu_ttl = 255, lsu_unused = 0, lsu_nadv = htonl 1\<rparr>"

theorem mospf_lsu_learned_witness:
  "\<exists>s'. handle_mospf_lsu iface0 (lsu_head @ enc_lsa lsa_example) 70 mospf0 = Some s' \<and>
     mospf_db s' = [\<lparr>db_add_time = 0, db_rid = 7, db_seq = 3, db_nadv = 1, db_array = [host_lsa lsa_example]\<rparr>]"
proof -
  let ?p = "lsu_head @ enc_lsa lsa_example"
  have "get_mhdr ?p 34 = Some \<lparr>mo_version = 2, mo_type = 4, mo_len = htons 36, mo_rid = htonl 7, mo_aid = 0,
     mo_checksum = 0, mo_padding = 0\<rparr>"
    by (simp add: lsu_head_def load_struct_def load_bytes_def mh.length_enc mh.dec_enc)
  moreover have "get_lsu ?p 50 = Some \<lparr>lsu_seq = htons 3, lsu_ttl = 255, lsu_unused = 0, lsu_nadv = htonl 1\<rparr>"
    by (simp add: lsu_head_def load_struct_def load_bytes_def mh.length_enc mlsu.length_enc mlsu.dec_enc)
  moreover have "length lsu_head = 58" by (simp add: lsu_head_def mh.length_enc mlsu.length_enc)
  moreover have "router_id mospf0 = 0x0A000001" "\<not> mospf_locked mospf0" "mospf_db mospf0 = []" "nbr_list mospf0 = (\<lambda>i. [])"
    "now mospf0 = 0"
    by (simp_all add: mospf0_def ustack.defs ustack0_def)
  ultimately show ?thesis
    using mospf_lsu_learned [of ?p lsu_head "[lsa_example]" "[]" _ mospf0 _ iface0 70]
    by simp
qed

text \<open>An update with a newer sequence number from a router that is in the database replaces the
  advertisements of its entry, but neither the sequence number nor the count: with fewer advertisements than before
  the entry announces more than it holds, and the next loop that prints or uses the database reads behind the array.\<close>

lemma update_db_newer:
  assumes "\<forall>e \<in> set es. db_rid e = rid \<longrightarrow> int (unat (db_seq e)) < seq"
  shows "update_db t rid seq (Some ls) es
    = Some (map (\<lambda>e. if db_rid e = rid then e\<lparr>db_array := ls, db_add_time := t\<rparr> else e) es, \<exists>e \<in> set es. db_rid e = rid)"
  using assms by (induction es) auto

theorem mospf_lsu_stale_count:
  assumes "p = pre @ concat (map enc_lsa ls) @ post" "length pre = 58"
    and "get_mhdr p 34 = Some h" "ntohl (mo_rid h) \<noteq> router_id s"
    and "get_lsu p 50 = Some u" "sint (ntohl (lsu_nadv u)) = int (length ls)"
    and "\<not> mospf_locked s" "\<forall>e \<in> set (mospf_db s). db_rid e = ntohl (mo_rid h) \<longrightarrow> unat (db_seq e) < unat (ntohs (lsu_seq u))"
    and "\<forall>i \<in> set (iface_list s). if_index i \<noteq> if_index iface \<longrightarrow> nbr_list s (if_index i) = []"
    and e: "e \<in> set (mospf_db s)" "db_rid e = ntohl (mo_rid h)" "int (length ls) < db_nadv e"
  shows "\<exists>s' e'. handle_mospf_lsu iface p len s = Some s' \<and> e' \<in> set (mospf_db s') \<and> db_rid e' = db_rid e
     \<and> db_seq e' = db_seq e \<and> int (length (db_array e')) < db_nadv e'"
proof -
  have lsas: "read_lsas p 58 (length ls) = Some (map host_lsa ls)"
    using read_lsas_encoded [of pre ls post] assms(1,2) by simp
  obtain p' where p': "put_lsu p 50 (u\<lparr>lsu_ttl := lsu_ttl u - 1\<rparr>) = Some p'"
    using mlsu.store_defined [OF mlsu.load_bounds [OF assms(5)]] by blast
  let ?rid = "ntohl (mo_rid h)"
  let ?r = "\<lambda>e. if db_rid e = ?rid then e\<lparr>db_array := map host_lsa ls, db_add_time := now s\<rparr> else e"
  define t where "t = s\<lparr>mospf_locked := True, mospf_db := map ?r (mospf_db s)\<rparr>"
  have quiet: "fold_opt (\<lambda>i s. if if_index i = if_index iface then Some s
      else fold_opt (forward_lsu p' len i) (nbr_list s (if_index i)) s) is t = Some t"
    if "\<forall>i \<in> set is. if_index i \<noteq> if_index iface \<longrightarrow> nbr_list s (if_index i) = []" for "is"
    using that by (induction "is") (auto simp: t_def)
  have "\<forall>e \<in> set (mospf_db s). db_rid e = ?rid \<longrightarrow> int (unat (db_seq e)) < int (unat (ntohs (lsu_seq u)))"
    unfolding of_nat_less_iff by (rule assms(8))
  from update_db_newer [OF this] have upd: "update_db (now s) ?rid (int (unat (ntohs (lsu_seq u)))) (Some (map host_lsa ls)) (mospf_db s)
      = Some (map ?r (mospf_db s), True)" using e by auto
  have "handle_mospf_lsu iface p len s = Some (unlock t)"
    using assms(3-7) p' lsas quiet [OF assms(9)] upd
    by (simp add: handle_mospf_lsu_def lock_def t_def Let_def del: uint_nat)
  moreover have "?r e \<in> set (mospf_db (unlock t))" using e(1) by (simp add: unlock_def t_def)
  ultimately show ?thesis using e by (intro exI [of _ "unlock t"] exI [of _ "?r e"]) simp
qed

end
