(* ===== verification/Mospf11.thy ===== *)
theory Mospf11
  imports Mospf
begin

text \<open>
  The first link state lab, \<^verbatim>\<open>11-mospf\<close>. Hello messages, the neighbour check and the sending of updates are those of
  lab 12 (theory Mospf). The handler of updates is not: it takes no lock, and the entries of its database have
  no time (\<open>db_add_time\<close> is left as it is). Apart from that the two handlers agree on the updates of other
  routers, and only lab 12 blocks on its own.
\<close>

section \<open>The handler of lab 11\<close>

fun update_db_11 :: "u32 \<Rightarrow> int \<Rightarrow> mospf_lsa list option \<Rightarrow> mospf_db_entry list \<Rightarrow> (mospf_db_entry list \<times> bool) option" where
  "update_db_11 rid seq lsas [] = Some ([], False)"
| "update_db_11 rid seq lsas (e # es) = do {
     (es', flag) \<leftarrow> update_db_11 rid seq lsas es;
     if rid = db_rid e \<and> int (unat (db_seq e)) \<ge> seq then Some (e # es', True)
     else if rid = db_rid e \<and> int (unat (db_seq e)) < seq then do {
       ls \<leftarrow> lsas;
       Some (e\<lparr>db_array := ls\<rparr> # es', True) }
     else Some (e # es', flag) }"

definition handle_mospf_lsu_11 :: "iface_info \<Rightarrow> bytes \<Rightarrow> int \<Rightarrow> 'a mospf_sys_scheme \<Rightarrow> 'a mospf_sys_scheme option" where
  "handle_mospf_lsu_11 iface packet len s = do {
     let mo = ETHER_HDR_SIZE + IP_BASE_HDR_SIZE;
     mospf \<leftarrow> get_mhdr packet mo;
     let rid = ntohl (mo_rid mospf);
     if router_id s = rid then Some s
     else do {
       lsu \<leftarrow> get_lsu packet (mo + MOSPF_HDR_SIZE);
       let seq = ntohs (lsu_seq lsu);
       let nadv = sint (ntohl (lsu_nadv lsu));
       let lsas = read_lsas packet (mo + MOSPF_HDR_SIZE + MOSPF_LSU_SIZE) (nat nadv);
       (es, flag) \<leftarrow> update_db_11 rid (int (unat seq)) lsas (mospf_db s);
       es \<leftarrow> (if flag then Some es
              else do { ls \<leftarrow> lsas;
                        Some (es @ [\<lparr>db_add_time = 0, db_rid = rid, db_seq = seq, db_nadv = nadv, db_array = ls\<rparr>]) });
       let s = s\<lparr>mospf_db := es\<rparr>;
       let lsu = lsu\<lparr>lsu_ttl := lsu_ttl lsu - 1\<rparr>;
       packet \<leftarrow> put_lsu packet (mo + MOSPF_HDR_SIZE) lsu;
       (if lsu_ttl lsu > 0 then
          fold_opt (\<lambda>i s. if if_index i = if_index iface then Some s
                          else fold_opt (forward_lsu packet len i) (nbr_list s (if_index i)) s) (iface_list s) s
        else Some s) } }"

definition handle_mospf_packet_11 :: "iface_info \<Rightarrow> bytes \<Rightarrow> int \<Rightarrow> 'a mospf_sys_scheme \<Rightarrow> 'a mospf_sys_scheme option" where
  "handle_mospf_packet_11 iface packet len s = do {
     ip \<leftarrow> get_ip packet ETHER_HDR_SIZE;
     let mo = ETHER_HDR_SIZE + IP_HDR_SIZE ip;
     mospf \<leftarrow> get_mhdr packet mo;
     if mo_version mospf \<noteq> MOSPF_VERSION then Some s
     else do {
       c \<leftarrow> mospf_checksum packet mo;
       if mo_checksum mospf \<noteq> c then Some s
       else if ntohl (mo_aid mospf) \<noteq> area_id s then Some s
       else if mo_type mospf = MOSPF_TYPE_HELLO then handle_mospf_hello iface packet len s
       else if mo_type mospf = MOSPF_TYPE_LSU then handle_mospf_lsu_11 iface packet len s
       else Some s } }"

section \<open>Sending does not look at the daemon's state\<close>

definition with_db :: "mospf_db_entry list \<Rightarrow> bool \<Rightarrow> 'a mospf_sys_scheme \<Rightarrow> 'a mospf_sys_scheme" where
  "with_db es b s = s\<lparr>mospf_locked := b, mospf_db := es\<rparr>"

lemma with_db_fields [simp]:
  "rtable (with_db es b s) = rtable s" "arpcache (with_db es b s) = arpcache s" "now (with_db es b s) = now s"
  "iface_list (with_db es b s) = iface_list s" "wire (with_db es b s) = wire s" "rand_fn (with_db es b s) = rand_fn s"
  "rand_pos (with_db es b s) = rand_pos s" "nbr_list (with_db es b s) = nbr_list s" "router_id (with_db es b s) = router_id s"
  "mospf_db (with_db es b s) = es" "mospf_locked (with_db es b s) = b" "with_db es b (with_db es' b' s) = with_db es b s"
  "longest_prefix_match (with_db es b s) = longest_prefix_match s" "arpcache_lookup (with_db es b s) = arpcache_lookup s"
  by (simp_all add: with_db_def longest_prefix_match_def arpcache_lookup_def fun_eq_iff)

named_theorems db_blind

lemma iface_send_blind [db_blind]:
  "iface_send_packet iface p len (with_db es b s) = map_option (with_db es b) (iface_send_packet iface p len s)"
  by (cases "load_bytes p 0 ETH_ALEN"; cases "load_bytes p 0 (nat len)")
    (simp_all add: iface_send_packet_def iface_send_frame_def Let_def, simp add: with_db_def)

lemma append_packet_blind [db_blind]:
  "arpcache_append_packet iface ip p len (with_db es b s) = map_option (with_db es b) (arpcache_append_packet iface ip p len s)"
proof (cases "append_to_req iface ip \<lparr>cp_packet = p, cp_len = len\<rparr> (req_list (arpcache s))")
  case None
  have e: "(with_db es b s)\<lparr>arpcache := c\<rparr> = with_db es b (s\<lparr>arpcache := c\<rparr>)" for c by (simp add: with_db_def)
  show ?thesis using None by (simp add: arpcache_append_packet_def arp_send_request_def Let_def e db_blind)
next
  case (Some rs)
  then show ?thesis by (simp add: arpcache_append_packet_def Let_def) (simp add: with_db_def)
qed

lemma ip_send_blind [db_blind]:
  "ip_send_packet_12 p len (with_db es b s) = map_option (with_db es b) (ip_send_packet_12 p len s)"
  by (auto simp: ip_send_packet_12_def iface_send_packet_by_arp_12_def Let_def db_blind map_option_bind split: option.split bind_splits)

lemma ip_init_blind [db_blind]:
  "ip_init_hdr p off a d len proto (with_db es b s) = map_option (map_prod id (with_db es b)) (ip_init_hdr p off a d len proto s)"
proof -
  have "rand (with_db es b s) = map_prod id (with_db es b) (rand s)" by (simp add: rand_def) (simp add: with_db_def)
  then show ?thesis by (simp add: ip_init_hdr_def map_option_bind split_beta Let_def comp_def)
qed

lemma forward_blind [db_blind]:
  "forward_lsu p len i n (with_db es b s) = map_option (with_db es b) (forward_lsu p len i n s)"
  by (simp add: forward_lsu_def db_blind map_option_bind split_beta comp_def bind_map_option cong: bind_option_cong)

lemma fold_blind:
  assumes "\<And>x s. f x (with_db es b s) = map_option (with_db es b) (f x s)"
  shows "fold_opt f xs (with_db es b s) = map_option (with_db es b) (fold_opt f xs s)"
  using assms by (induction xs arbitrary: s) (simp_all add: bind_map_option map_option_bind comp_def)

definition flood_lsu :: "iface_info \<Rightarrow> bytes \<Rightarrow> int \<Rightarrow> 'a mospf_sys_scheme \<Rightarrow> 'a mospf_sys_scheme option" where
  "flood_lsu iface packet len s =
     fold_opt (\<lambda>i s. if if_index i = if_index iface then Some s
                     else fold_opt (forward_lsu packet len i) (nbr_list s (if_index i)) s) (iface_list s) s"

lemma flood_blind [db_blind]:
  "flood_lsu iface p len (with_db es b s) = map_option (with_db es b) (flood_lsu iface p len s)"
  unfolding flood_lsu_def with_db_fields by (rule fold_blind) (simp add: fold_blind db_blind)

section \<open>The two handlers agree\<close>

definition untimed :: "mospf_db_entry \<Rightarrow> mospf_db_entry" where
  "untimed e = e\<lparr>db_add_time := 0\<rparr>"

lemma untimed_simps [simp]:
  "db_rid (untimed e) = db_rid e" "db_seq (untimed e) = db_seq e" "db_nadv (untimed e) = db_nadv e" "db_array (untimed e) = db_array e"
  by (simp_all add: untimed_def)

lemma untimed_update [simp]: "untimed (e\<lparr>db_array := ls, db_add_time := t\<rparr>) = untimed (e\<lparr>db_array := ls\<rparr>)"
  by (simp add: untimed_def)

lemma update_db_agree:
  "rel_option (\<lambda>(es, f) (es', f'). map untimed es = map untimed es' \<and> f = f') (update_db t rid seq lsas es) (update_db_11 rid seq lsas es)"
proof (induction es)
  case (Cons e es)
  then show ?case
    by (cases "update_db t rid seq lsas es"; cases "update_db_11 rid seq lsas es"; cases lsas) auto
qed simp

text \<open>The two parts the handlers share once the update has been compared with the database: the new entry, and
  what follows, with the mutex held or not.\<close>

definition lsu_add :: "int \<Rightarrow> u32 \<Rightarrow> mospf_lsu \<Rightarrow> mospf_lsa list option \<Rightarrow> mospf_db_entry list \<Rightarrow> bool \<Rightarrow> mospf_db_entry list option" where
  "lsu_add t rid u lsas es f =
     (if f then Some es
      else do { ls \<leftarrow> lsas;
                Some (es @ [\<lparr>db_add_time = t, db_rid = rid, db_seq = ntohs (lsu_seq u), db_nadv = sint (ntohl (lsu_nadv u)), db_array = ls\<rparr>]) })"

definition lsu_tail :: "iface_info \<Rightarrow> bytes \<Rightarrow> int \<Rightarrow> mospf_lsu \<Rightarrow> 'a mospf_sys_scheme \<Rightarrow> mospf_db_entry list \<Rightarrow> bool \<Rightarrow> 'a mospf_sys_scheme option" where
  "lsu_tail iface packet len u s es b = do {
     packet \<leftarrow> put_lsu packet 50 (u\<lparr>lsu_ttl := lsu_ttl u - 1\<rparr>);
     t \<leftarrow> (if lsu_ttl u - 1 > 0 then flood_lsu iface packet len (with_db es b s) else Some (with_db es b s));
     Some (unlock t) }"

abbreviation update_lsas :: "bytes \<Rightarrow> mospf_lsu \<Rightarrow> mospf_lsa list option" where
  "update_lsas packet u \<equiv> read_lsas packet 58 (nat (sint (ntohl (lsu_nadv u))))"

lemma lsu_tail_False:
  "lsu_tail iface packet len u s es False = do {
     packet \<leftarrow> put_lsu packet 50 (u\<lparr>lsu_ttl := lsu_ttl u - 1\<rparr>);
     (if lsu_ttl u - 1 > 0 then flood_lsu iface packet len (with_db es False s) else Some (with_db es False s)) }"
proof -
  have unlocked: "unlock (with_db es False t) = with_db es False t" for t :: "'a mospf_sys_scheme"
    by (simp add: unlock_def with_db_def)
  show ?thesis
    unfolding lsu_tail_def flood_blind
    by (auto simp: bind_map_option unlocked map_conv_bind_option comp_def intro!: bind_option_cong)
qed

lemma handle_lsu_split:
  assumes "get_mhdr packet 34 = Some h" "\<not> mospf_locked s" "ntohl (mo_rid h) \<noteq> router_id s" "get_lsu packet 50 = Some u"
  shows "handle_mospf_lsu iface packet len s = do {
      (es, f) \<leftarrow> update_db (now s) (ntohl (mo_rid h)) (int (unat (ntohs (lsu_seq u)))) (update_lsas packet u) (mospf_db s);
      es \<leftarrow> lsu_add (now s) (ntohl (mo_rid h)) u (update_lsas packet u) es f;
      lsu_tail iface packet len u s es True }"
    and "handle_mospf_lsu_11 iface packet len s = do {
      (es, f) \<leftarrow> update_db_11 (ntohl (mo_rid h)) (int (unat (ntohs (lsu_seq u)))) (update_lsas packet u) (mospf_db s);
      es \<leftarrow> lsu_add 0 (ntohl (mo_rid h)) u (update_lsas packet u) es f;
      lsu_tail iface packet len u s es False }"
proof -
  have lk: "lock s = Some (s\<lparr>mospf_locked := True\<rparr>)" using assms(2) by (simp add: lock_def)
  have unl: "s\<lparr>mospf_db := es\<rparr> = with_db es False s" for es using assms(2) by (cases s) (simp add: with_db_def)
  show "handle_mospf_lsu iface packet len s = do {
      (es, f) \<leftarrow> update_db (now s) (ntohl (mo_rid h)) (int (unat (ntohs (lsu_seq u)))) (update_lsas packet u) (mospf_db s);
      es \<leftarrow> lsu_add (now s) (ntohl (mo_rid h)) u (update_lsas packet u) es f;
      lsu_tail iface packet len u s es True }"
    using assms
    by (simp add: handle_mospf_lsu_def lk Let_def lsu_add_def lsu_tail_def flood_lsu_def with_db_def cong: if_cong)
  show "handle_mospf_lsu_11 iface packet len s = do {
      (es, f) \<leftarrow> update_db_11 (ntohl (mo_rid h)) (int (unat (ntohs (lsu_seq u)))) (update_lsas packet u) (mospf_db s);
      es \<leftarrow> lsu_add 0 (ntohl (mo_rid h)) u (update_lsas packet u) es f;
      lsu_tail iface packet len u s es False }"
    using assms
    by (simp add: handle_mospf_lsu_11_def Let_def lsu_add_def lsu_tail_False flood_lsu_def unl cong: if_cong)
qed

abbreviation timeless :: "'a mospf_sys_scheme option \<Rightarrow> 'a mospf_sys_scheme option" where
  "timeless \<equiv> map_option (\<lambda>t. t\<lparr>mospf_db := map untimed (mospf_db t)\<rparr>)"

lemma lsu_tails:
  assumes "map untimed es = map untimed es'"
  shows "timeless (lsu_tail iface packet len u s es True) = timeless (lsu_tail iface packet len u s es' False)"
proof -
  have "timeless (map_option unlock (map_option (with_db es True) x)) = timeless (map_option (with_db es' False) x)" for x
    using assms by (cases x) (simp_all add: with_db_def unlock_def)
  note this [of "flood_lsu iface _ len s"] this [of "Some s", simplified]
  then show ?thesis
    using assms unfolding lsu_tail_False unfolding lsu_tail_def flood_blind
    by (cases "put_lsu packet 50 (u\<lparr>lsu_ttl := lsu_ttl u - 1\<rparr>)"; cases "lsu_ttl u - 1 > 0")
      (auto simp: map_conv_bind_option comp_def)
qed

lemma lsu_adds:
  "map untimed es = map untimed es' \<Longrightarrow>
   rel_option (\<lambda>es es'. map untimed es = map untimed es') (lsu_add t rid u lsas es f) (lsu_add t' rid u lsas es' f)"
  by (cases f; cases lsas) (auto simp: lsu_add_def untimed_def)

text \<open>C34. On an update of another router the handlers of labs 11 and 12 do the same, up to the times of the entries,
  whatever they know already and whoever the update has to be passed on to. On an update of its own, lab 11
  does nothing, and lab 12 keeps the mutex (theorem \<open>own_lsu_deadlock\<close> of theory Mospf).\<close>

theorem handle_mospf_lsu_11_agrees:
  assumes h: "get_mhdr packet 34 = Some h" and l: "\<not> mospf_locked s"
  shows "if ntohl (mo_rid h) = router_id s
    then handle_mospf_lsu_11 iface packet len s = Some s \<and> map_option mospf_locked (handle_mospf_lsu iface packet len s) = Some True
    else map_option (\<lambda>t. t\<lparr>mospf_db := map untimed (mospf_db t)\<rparr>) (handle_mospf_lsu iface packet len s)
       = map_option (\<lambda>t. t\<lparr>mospf_db := map untimed (mospf_db t)\<rparr>) (handle_mospf_lsu_11 iface packet len s)"
proof (cases "ntohl (mo_rid h) = router_id s")
  case True
  then show ?thesis using h l by (simp add: handle_mospf_lsu_def handle_mospf_lsu_11_def lock_def)
next
  case False
  have "timeless (handle_mospf_lsu iface packet len s) = timeless (handle_mospf_lsu_11 iface packet len s)"
  proof (cases "get_lsu packet 50")
    case None
    then show ?thesis using h l False by (simp add: handle_mospf_lsu_def handle_mospf_lsu_11_def lock_def)
  next
    case (Some u)
    let ?rid = "ntohl (mo_rid h)" and ?seq = "int (unat (ntohs (lsu_seq u)))" and ?lsas = "update_lsas packet u"
    note split = handle_lsu_split [OF h l False Some]
    have "rel_option (\<lambda>(es, f) (es', f'). map untimed es = map untimed es' \<and> f = f')
        (update_db (now s) ?rid ?seq ?lsas (mospf_db s)) (update_db_11 ?rid ?seq ?lsas (mospf_db s))"
      by (rule update_db_agree)
    then show ?thesis
    proof (cases rule: option.rel_cases)
      case None
      then show ?thesis unfolding split by simp
    next
      case (Some x y)
      obtain es f es' where xy: "x = (es, f)" "y = (es', f)" and eq: "map untimed es = map untimed es'"
        using Some(3) by (cases x; cases y) auto
      show ?thesis
        unfolding split Some(1,2) xy using lsu_adds [OF eq, of "now s" ?rid u ?lsas f 0] lsu_tails
        by (auto elim!: option.rel_cases)
    qed
  qed
  with False show ?thesis by simp
qed

theorem handle_mospf_lsu_11_agrees_witness:
  "map_option (\<lambda>t. t\<lparr>mospf_db := map untimed (mospf_db t)\<rparr>) (handle_mospf_lsu iface0 (lsu_head @ enc_lsa lsa_example) 70 mospf0)
     = map_option (\<lambda>t. t\<lparr>mospf_db := map untimed (mospf_db t)\<rparr>) (handle_mospf_lsu_11 iface0 (lsu_head @ enc_lsa lsa_example) 70 mospf0)
   \<and> handle_mospf_lsu_11 iface0 own_lsu 58 mospf0 = Some mospf0"
proof -
  have "get_mhdr (lsu_head @ enc_lsa lsa_example) 34 = Some \<lparr>mo_version = 2, mo_type = 4, mo_len = htons 36, mo_rid = htonl 7, mo_aid = 0,
     mo_checksum = 0, mo_padding = 0\<rparr>"
    by (simp add: lsu_head_def load_struct_def load_bytes_def mh.length_enc mh.dec_enc)
  moreover have "get_mhdr own_lsu 34 = Some \<lparr>mo_version = 2, mo_type = 4, mo_len = htons 24, mo_rid = htonl 0x0A000001,
     mo_aid = 0, mo_checksum = 0, mo_padding = 0\<rparr>"
    by (simp add: own_lsu_def load_struct_def load_bytes_def mh.length_enc mh.dec_enc)
  moreover have "router_id mospf0 = 0x0A000001" "\<not> mospf_locked mospf0" by (simp_all add: mospf0_def ustack.defs)
  ultimately show ?thesis
    using handle_mospf_lsu_11_agrees [of "lsu_head @ enc_lsa lsa_example" _ mospf0 iface0 70] handle_mospf_lsu_11_agrees [of own_lsu _ mospf0 iface0 58]
    by auto
qed

end
