(* ===== verification/MospfFlood.thy ===== *)
theory MospfFlood
  imports Mospf11
begin

text \<open>
  Two routers of the link state lab together: what the thread \<^verbatim>\<open>sending_mospf_lsu\<close> of one puts on the wire, and what
  the handler of the other makes of it. Frames are written as concatenations: \<open>X\<close> stands for the 34 bytes of
  Ethernet and IP header.
\<close>

section \<open>The message header in a frame\<close>

lemma get_mhdr_at [simp]: "length X = n \<Longrightarrow> get_mhdr (X @ enc_mhdr h @ R) n = Some h"
  by (simp add: load_struct_def load_bytes_def mh.length_enc mh.dec_enc)

lemma put_mhdr_at [simp]: "length X = n \<Longrightarrow> length Y = 16 \<Longrightarrow> put_mhdr (X @ Y @ R) n h = Some (X @ enc_mhdr h @ R)"
  by (simp add: store_struct_def store_bytes_def mh.length_enc)

lemma put_mhdr_over [simp]: "length X = n \<Longrightarrow> put_mhdr (X @ enc_mhdr h' @ R) n h = Some (X @ enc_mhdr h @ R)"
  by (simp add: store_struct_def store_bytes_def mh.length_enc)

lemma get_mhdr_any: "length X = n \<Longrightarrow> length Y = 16 \<Longrightarrow> \<exists>h. get_mhdr (X @ Y @ R) n = Some h"
  by (simp add: load_struct_def load_bytes_def)

lemma checksum_at: "checksum (X @ R) (length X) n a = checksum R 0 n a"
  by (simp add: checksum_def load_bytes_def)

definition body_checksum :: "mospf_hdr \<Rightarrow> bytes \<Rightarrow> u16 option" where
  "body_checksum h R = checksum (enc_mhdr (h\<lparr>mo_checksum := 0\<rparr>) @ R) 0 (int (unat (ntohs (mo_len h)))) 0"

lemma mospf_checksum_at: "length X = n \<Longrightarrow> mospf_checksum (X @ enc_mhdr h @ R) n = body_checksum h R"
  using checksum_at [of X "enc_mhdr (h\<lparr>mo_checksum := 0\<rparr>) @ R"] by (simp add: mospf_checksum_def body_checksum_def)

lemma body_checksum_field [simp]: "body_checksum (h\<lparr>mo_checksum := c\<rparr>) R = body_checksum h R"
  by (simp add: body_checksum_def)

lemma body_checksum_total:
  assumes "unat (ntohs (mo_len h)) = 16 + length R"
  obtains c where "body_checksum h R = Some c"
proof -
  have "load_bytes (enc_mhdr (h\<lparr>mo_checksum := 0\<rparr>) @ R) 0 (16 + length R) = Some (enc_mhdr (h\<lparr>mo_checksum := 0\<rparr>) @ R)"
    by (simp add: load_bytes_def mh.length_enc)
  then show ?thesis using that unfolding body_checksum_def checksum_def assms nat_int by (simp add: Let_def)
qed

lemma set_checksum_at:
  assumes "length X = n" "body_checksum h R = Some c"
  shows "set_mospf_checksum (X @ enc_mhdr h @ R) n = Some (X @ enc_mhdr (h\<lparr>mo_checksum := c\<rparr>) @ R)"
  using assms by (simp add: set_mospf_checksum_def mospf_checksum_at)

section \<open>The advertisements\<close>

lemma write_lsas_at:
  assumes "pac_len - (num_adv - i) * 12 = int (length X)" "length Y = 12 * length ls"
  shows "write_lsas pac_len num_adv ls i (X @ Y @ Z) = Some (X @ concat (map enc_lsa ls) @ Z)"
  using assms
proof (induction ls arbitrary: i X Y)
  case (Cons l ls)
  obtain Y1 Y2 where Y: "Y = Y1 @ Y2" "length Y1 = 12" "length Y2 = 12 * length ls"
    using Cons.prems(2) by (intro that [of "take 12 Y" "drop 12 Y"]) simp_all
  have "put_lsa (X @ Y @ Z) (length X) l = Some ((X @ enc_lsa l) @ Y2 @ Z)"
    by (simp add: store_struct_def store_bytes_def mlsa.length_enc Y)
  moreover have "pac_len - (num_adv - (i + 1)) * 12 = int (length (X @ enc_lsa l))"
    using Cons.prems(1) by (simp add: mlsa.length_enc algebra_simps)
  ultimately show ?case
    using Cons.prems(1) Cons.IH [of "i + 1" "X @ enc_lsa l" Y2] Y(3) by simp
qed simp

definition all_lsas :: "'a mospf_sys_scheme \<Rightarrow> mospf_lsa list" where
  "all_lsas s = concat (map (iface_lsas s) (iface_list s))"

lemma all_lsas_count: "nbr_inv s \<Longrightarrow> int (length (all_lsas s)) = lsu_num_adv s"
proof -
  assume inv: "nbr_inv s"
  have one: "int (length (iface_lsas s i)) = (if num_nbr s (if_index i) = 0 then 1 else num_nbr s (if_index i))" for i
    using inv by (simp add: iface_lsas_def nbr_inv_def)
  have "int (length (concat (map (iface_lsas s) is))) = sum_list (map (\<lambda>i. if num_nbr s (if_index i) = 0 then 1 else num_nbr s (if_index i)) is)" for "is"
    by (induction "is") (simp_all add: one)
  then show ?thesis by (simp add: all_lsas_def lsu_num_adv_def)
qed

lemma length_enc_lsas [simp]: "length (concat (map enc_lsa ls)) = 12 * length ls"
  by (induction ls) (simp_all add: mlsa.length_enc)

section \<open>One frame\<close>

text \<open>What is sent for the advertisements \<open>ls\<close>, as the receiver's checks see it.\<close>

definition lsu_frame :: "u32 \<Rightarrow> u32 \<Rightarrow> u16 \<Rightarrow> mospf_lsa list \<Rightarrow> bytes \<Rightarrow> bool" where
  "lsu_frame rid aid seq ls f \<longleftrightarrow> (\<exists>X c iph.
     let h = \<lparr>mo_version = MOSPF_VERSION, mo_type = MOSPF_TYPE_LSU, mo_len = htons (of_nat (24 + 12 * length ls)), mo_rid = htonl rid,
              mo_aid = htonl aid, mo_checksum = c, mo_padding = 0\<rparr>;
         u = \<lparr>lsu_seq = htons seq, lsu_ttl = 255, lsu_unused = 0, lsu_nadv = htonl (of_nat (length ls))\<rparr>;
         R = enc_lsu u @ concat (map enc_lsa ls)
     in length X = 34 \<and> f = X @ enc_mhdr h @ R \<and> body_checksum h R = Some c
        \<and> get_ip f 14 = Some iph \<and> IP_HDR_SIZE iph = 20)"

lemma fill_eth_tail: "fill_eth mac i p = enc_ether \<lparr>ether_dhost = mac, ether_shost = if_mac i, ether_type = htons ETH_P_IP\<rparr> @ drop 14 p"
  by (simp add: fill_eth_def)

text \<open>A neighbour is reachable when the routing table and the ARP cache lead to it.\<close>

definition reachable :: "'a mospf_sys_scheme \<Rightarrow> mospf_nbr \<Rightarrow> bool" where
  "reachable s x \<longleftrightarrow> (\<exists>e mac. longest_prefix_match s (nbr_ip x) = Some e \<and> arpcache_lookup s (get_next_hop e (nbr_ip x)) = Some mac)"

text \<open>A frame for the neighbour \<open>x\<close> of the interface \<open>i\<close>: it leaves through the interface of the route to the
  neighbour, for the hardware address of the next hop, as an IP packet of protocol 90 from the interface to the neighbour,
  with a header that verifies.\<close>

definition addressed :: "'a mospf_sys_scheme \<Rightarrow> iface_info \<Rightarrow> mospf_nbr \<Rightarrow> iface_info \<times> bytes \<Rightarrow> bool" where
  "addressed s i x p \<longleftrightarrow> (\<exists>e mac iph. longest_prefix_match s (nbr_ip x) = Some e \<and> arpcache_lookup s (get_next_hop e (nbr_ip x)) = Some mac
     \<and> fst p = rt_iface e \<and> get_eth (snd p) = Some \<lparr>ether_dhost = mac, ether_shost = if_mac (rt_iface e), ether_type = htons ETH_P_IP\<rparr>
     \<and> get_ip (snd p) 14 = Some iph \<and> ip_saddr iph = htonl (if_ip i) \<and> ip_daddr iph = htonl (nbr_ip x) \<and> ip_protocol iph = 90
     \<and> ip_header_ok (snd p) 14)"

lemma ip_header_same:
  assumes "ip_header_ok m 14" "get_ip m 14 = Some h" "IP_HDR_SIZE h = 20" "get_ip f 14 = Some h" "load_bytes f 14 20 = load_bytes m 14 20"
  shows "ip_header_ok f 14"
  using assms by (auto simp: ip_header_ok_def load_bytes_def split: if_splits)

lemma send_lsu_to_ok:
  fixes junk :: u8
  assumes r: "reachable s x" and n: "length ls < 5400"
  defines "m \<equiv> replicate 58 junk @ concat (map enc_lsa ls)"
  shows "\<exists>out f. send_lsu_to m (int (length m)) (int (length ls)) iface x s
      = Some (s\<lparr>rand_pos := Suc (rand_pos s), wire := wire s @ [(out, f)]\<rparr>)
    \<and> length f = length m \<and> lsu_frame (router_id s) (area_id s) (sequence_num s) ls f \<and> addressed s iface x (out, f)"
proof -
  let ?body = "concat (map enc_lsa ls)"
  obtain e mac where r: "longest_prefix_match s (nbr_ip x) = Some e" "arpcache_lookup s (get_next_hop e (nbr_ip x)) = Some mac"
    using r by (auto simp: reachable_def)
  have lm: "length m = 58 + 12 * length ls" by (simp add: m_def)
  obtain eh where eh: "get_eth m = Some eh" using eth.load_defined [of 0 m] lm by auto
  define m1 where "m1 = enc_ether (eh\<lparr>ether_type := htons ETH_P_IP, ether_shost := if_mac iface\<rparr>) @ replicate 44 junk @ ?body"
  have m1: "put_eth m (eh\<lparr>ether_type := htons ETH_P_IP, ether_shost := if_mac iface\<rparr>) = Some m1" "length m1 = length m"
    by (simp_all add: m_def m1_def put_eth_whole eth.length_enc)
  let ?len = "of_int (int (length m) - int ETHER_HDR_SIZE) :: u16"
  obtain m2 c0 where m2: "ip_init_hdr m1 14 (if_ip iface) (nbr_ip x) ?len 90 s = Some (m2, s\<lparr>rand_pos := Suc (rand_pos s)\<rparr>)"
    "get_ip m2 14 = Some (own_hdr (if_ip iface) (nbr_ip x) ?len 90 (of_nat (rand_fn s (rand_pos s))) c0)" "length m2 = length m1"
    "\<forall>j n. j + n \<le> 14 \<or> 34 \<le> j \<longrightarrow> load_bytes m2 j n = load_bytes m1 j n" "ip_header_ok m2 14"
    using ip_init_hdr_valid [of 14 m1 "if_ip iface" "nbr_ip x" ?len 90 s] m1(2) lm by auto
  define A where "A = take 34 m2"
  have A: "length A = 34" using m2(3) m1(2) lm by (simp add: A_def)
  have "load_bytes m2 34 (length m1 - 34) = load_bytes m1 34 (length m1 - 34)" using m2(4) by simp
  then have "drop 34 m2 = drop 34 m1" using m2(3) m1(2) lm by (simp add: load_bytes_def)
  also have "\<dots> = replicate 24 junk @ ?body" by (simp add: m1_def eth.length_enc)
  also have "replicate 24 junk = replicate 16 junk @ replicate 8 junk" by (simp flip: replicate_add)
  finally have "drop 34 m2 = replicate 16 junk @ replicate 8 junk @ ?body" by simp
  then have m2A: "m2 = A @ replicate 16 junk @ replicate 8 junk @ ?body"
    using append_take_drop_id [of 34 m2] by (simp add: A_def)
  obtain old where old: "get_mhdr (A @ replicate 16 junk @ replicate 8 junk @ ?body) 34 = Some old"
    using get_mhdr_any [OF A, of "replicate 16 junk"] by auto
  define n where "n = length ls"
  define u where "u = \<lparr>lsu_seq = htons (sequence_num s), lsu_ttl = 255, lsu_unused = 0, lsu_nadv = htonl (of_nat n)\<rparr>"
  define R where "R = enc_lsu u @ ?body"
  define h where "h = (\<lambda>c. \<lparr>mo_version = MOSPF_VERSION, mo_type = MOSPF_TYPE_LSU, mo_len = htons (of_nat (24 + 12 * n)),
    mo_rid = htonl (router_id s), mo_aid = htonl (area_id s), mo_checksum = c, mo_padding = 0\<rparr>)"
  have len34: "(of_int (int (length m) - int ETHER_HDR_SIZE - int IP_BASE_HDR_SIZE) :: u16) = of_nat (24 + 12 * n)"
    by (simp add: lm n_def)
  have hdr: "mospf_init_hdr m2 34 MOSPF_TYPE_LSU (of_nat (24 + 12 * n)) (router_id s) (area_id s)
      = Some (A @ enc_mhdr (h (mo_checksum old)) @ replicate 8 junk @ ?body)"
    unfolding m2A mospf_init_hdr_def old h_def bind.simps by (rule put_mhdr_at [OF A]) simp
  have lsu: "mospf_init_lsu (A @ enc_mhdr (h c) @ replicate 8 junk @ ?body) 50 (of_int (int n)) t = Some (A @ enc_mhdr (h c) @ R)"
    if "sequence_num t = sequence_num s" for c and t :: "'a mospf_sys_scheme"
    using that A by (simp add: mospf_init_lsu_def store_struct_def store_bytes_def mh.length_enc mlsu.length_enc R_def u_def
        MOSPF_MAX_LSU_TTL_def)
  have unat_len: "unat (ntohs (mo_len (h c))) = 16 + length R" for c
  proof -
    have "unat (of_nat (24 + 12 * n) :: u16) = 24 + 12 * n" using n by (simp only: n_def unat_of_nat) simp
    then show ?thesis by (simp add: h_def R_def mlsu.length_enc n_def)
  qed
  obtain c where c: "body_checksum (h (mo_checksum old)) R = Some c" by (rule body_checksum_total [OF unat_len])
  have hc: "(h k)\<lparr>mo_checksum := c\<rparr> = h c" for k by (simp add: h_def)
  have c': "body_checksum (h c) R = Some c" using c body_checksum_field [where h = "h (mo_checksum old)" and c = c and R = R] by (simp add: hc)
  define m3 where "m3 = A @ enc_mhdr (h c) @ R"
  have cs: "set_mospf_checksum (A @ enc_mhdr (h (mo_checksum old)) @ R) 34 = Some m3"
    unfolding m3_def hc [of "mo_checksum old", symmetric] by (rule set_checksum_at [OF A c])
  have l3: "length m3 = length m" by (simp add: m3_def R_def A mh.length_enc mlsu.length_enc lm)
  have ip3: "get_ip (A @ Z) 14 = get_ip m2 14" for Z
    using A m2(3) m1(2) lm by (simp add: load_struct_def load_bytes_def A_def drop_take)
  define t where "t = s\<lparr>rand_pos := Suc (rand_pos s)\<rparr>"
  define f where "f = fill_eth mac (rt_iface e) m3"
  have "whole m3 (int (length m))" using l3 lm by (simp add: whole_def)
  moreover have "longest_prefix_match t (nbr_ip x) = Some e" "arpcache_lookup t (get_next_hop e (nbr_ip x)) = Some mac"
    using r by (simp_all add: t_def longest_prefix_match_def arpcache_lookup_def)
  ultimately have "ip_send_packet_12 m3 (int (length m)) t = Some (t\<lparr>wire := wire t @ [(rt_iface e, f)]\<rparr>)"
    using ip3 [of "enc_mhdr (h c) @ R"] m2(2)
    by (simp add: ip_send_packet_12_def m3_def [symmetric] own_hdr_def send_by_arp_12_known send_by_arp_known f_def)
  then have send: "send_lsu_to m (int (length m)) (int (length ls)) iface x s
      = Some (s\<lparr>rand_pos := Suc (rand_pos s), wire := wire s @ [(rt_iface e, f)]\<rparr>)"
    using eh m1(1) m2(1) hdr lsu cs unfolding send_lsu_to_def Let_def n_def [symmetric] len34
    by (simp add: t_def)
  have f: "f = (enc_ether \<lparr>ether_dhost = mac, ether_shost = if_mac (rt_iface e), ether_type = htons ETH_P_IP\<rparr> @ drop 14 A) @ enc_mhdr (h c) @ R"
    using A by (simp add: f_def fill_eth_tail m3_def)
  have "get_ip f 14 = get_ip m2 14"
    unfolding ip3 [of "enc_mhdr (h c) @ R", symmetric] f using A by (simp add: load_struct_def load_bytes_def eth.length_enc)
  note ipf = this
  have "load_bytes f 14 20 = load_bytes m2 14 20"
    unfolding f using A m2(3) m1(2) lm by (simp add: load_bytes_def eth.length_enc A_def drop_take)
  with ip_header_same [OF m2(5,2) _ ipf [unfolded m2(2)]] have "ip_header_ok f 14"
    by (simp add: own_hdr_def IP_HDR_SIZE_def)
  moreover have "get_eth f = Some \<lparr>ether_dhost = mac, ether_shost = if_mac (rt_iface e), ether_type = htons ETH_P_IP\<rparr>"
    unfolding f by (simp add: load_struct_def load_bytes_def eth.length_enc eth.dec_enc)
  ultimately have addr: "addressed s iface x (rt_iface e, f)"
    using r ipf m2(2) by (simp add: addressed_def own_hdr_def)
  from ipf have "lsu_frame (router_id s) (area_id s) (sequence_num s) ls f"
    unfolding lsu_frame_def Let_def n_def [symmetric] u_def [symmetric] R_def [symmetric]
    using f A c' m2(2)
    by (intro exI [of _ "enc_ether \<lparr>ether_dhost = mac, ether_shost = if_mac (rt_iface e), ether_type = htons ETH_P_IP\<rparr> @ drop 14 A"]
        exI [of _ c] exI [of _ "own_hdr (if_ip iface) (nbr_ip x) ?len 90 (of_nat (rand_fn s (rand_pos s))) c0"])
      (simp add: h_def eth.length_enc own_hdr_def IP_HDR_SIZE_def)
  then show ?thesis
    using send l3 lm addr by (intro exI [of _ "rt_iface e"] exI [of _ f]) (simp add: f_def fill_eth_def eth.length_enc)
qed

section \<open>All frames\<close>

text \<open>The thread in its one round: a frame for every neighbour, in the order of the lists.\<close>

definition sends :: "'a mospf_sys_scheme \<Rightarrow> (iface_info \<times> bytes) list \<Rightarrow> 'a mospf_sys_scheme" where
  "sends s fs = s\<lparr>rand_pos := rand_pos s + length fs, wire := wire s @ fs\<rparr>"

lemma sends_simps [simp]:
  "reachable (sends s fs) = reachable s" "router_id (sends s fs) = router_id s" "area_id (sends s fs) = area_id s"
  "addressed (sends s fs) = addressed s" "sequence_num (sends s fs) = sequence_num s" "nbr_list (sends s fs) = nbr_list s" "sends (sends s fs) gs = sends s (fs @ gs)"
  by (simp_all add: sends_def reachable_def addressed_def longest_prefix_match_def arpcache_lookup_def fun_eq_iff)

lemma sends_Nil [simp]: "sends s [] = s"
  by (simp add: sends_def)

lemma fold_sends:
  assumes "\<And>x t. x \<in> set xs \<Longrightarrow> t \<in> T \<Longrightarrow> \<exists>fs. g x t = Some (sends t fs) \<and> sends t fs \<in> T \<and> R x fs"
    and "t \<in> T"
  shows "\<exists>fss. fold_opt g xs t = Some (sends t (concat fss)) \<and> sends t (concat fss) \<in> T \<and> list_all2 R xs fss"
  using assms
proof (induction xs arbitrary: t)
  case (Cons x xs)
  obtain fs where fs: "g x t = Some (sends t fs)" "sends t fs \<in> T" "R x fs"
    using Cons.prems by (meson list.set_intros(1))
  obtain gss where gss: "fold_opt g xs (sends t fs) = Some (sends t (fs @ concat gss))" "sends t (fs @ concat gss) \<in> T" "list_all2 R xs gss"
    using Cons.IH [of "sends t fs"] Cons.prems(1) fs(2) by auto
  show ?case using fs gss by (intro exI [of _ "fs # gss"]) simp
qed simp

lemma concat_singles: "list_all2 (\<lambda>x fs. \<exists>p. fs = [p] \<and> Q x p) xs fss \<Longrightarrow> list_all2 Q xs (concat fss)"
  by (induction xs arbitrary: fss) (auto simp: list_all2_Cons1)

text \<open>The state stays one in which the same frames would be sent.\<close>

definition like :: "'a mospf_sys_scheme \<Rightarrow> 'a mospf_sys_scheme set" where
  "like s = {t. \<exists>fs. t = sends s fs}"

lemma sending_mospf_lsu_ok:
  assumes inv: "nbr_inv s" and l: "\<not> mospf_locked s" and n: "length (all_lsas s) < 5400"
    and r: "\<forall>i \<in> set (iface_list s). \<forall>x \<in> set (nbr_list s (if_index i)). reachable s x"
  shows "\<exists>fss. sending_mospf_lsu junk s = Some ((sends s (concat fss))\<lparr>sequence_num := sequence_num s + 1, mospf_locked := False\<rparr>)
    \<and> list_all2 (\<lambda>i. list_all2 (\<lambda>x p. addressed s i x p \<and> lsu_frame (router_id s) (area_id s) (sequence_num s) (all_lsas s) (snd p))
        (nbr_list s (if_index i))) (iface_list s) fss"
proof -
  define s1 where "s1 = s\<lparr>mospf_locked := True\<rparr>"
  define ls where "ls = all_lsas s"
  define m where "m = replicate 58 junk @ concat (map enc_lsa ls)"
  have N: "lsu_num_adv s1 = int (length ls)" "all_lsas s1 = ls"
    using all_lsas_count [OF inv] by (simp_all add: ls_def s1_def lsu_num_adv_def all_lsas_def iface_lsas_def cong: map_cong if_cong)
  have lm: "int (length m) = 58 + int (length ls) * 12" by (simp add: m_def)
  have "replicate (nat (58 + int (length ls) * 12)) junk = replicate 58 junk @ replicate (12 * length ls) junk"
    by (simp flip: replicate_add add: nat_add_distrib nat_mult_distrib mult.commute)
  then have w: "write_lsas (58 + int (length ls) * 12) (int (length ls)) ls 0 (replicate (nat (58 + int (length ls) * 12)) junk) = Some m"
    using write_lsas_at [of "58 + int (length ls) * 12" "int (length ls)" 0 "replicate 58 junk" "replicate (12 * length ls) junk" ls "[]"]
    by (simp add: m_def)
  let ?P = "\<lambda>i x p. addressed s i x p \<and> lsu_frame (router_id s) (area_id s) (sequence_num s) ls (snd p)"
  have rest: "x \<in> set (nbr_list s (if_index i)) \<Longrightarrow> reachable s1 x" if "i \<in> set (iface_list s)" for i x
    using r that by (auto simp: s1_def reachable_def longest_prefix_match_def arpcache_lookup_def)
  have one: "\<exists>fs. send_lsu_to m (int (length m)) (int (length ls)) i x t = Some (sends t fs) \<and> sends t fs \<in> like s1
      \<and> (\<exists>p. fs = [p] \<and> ?P i x p)"
    if i: "i \<in> set (iface_list s)" and x: "x \<in> set (nbr_list s (if_index i))" and t0: "t \<in> like s1" for i x t
  proof -
    obtain gs where t: "t = sends s1 gs" using t0 by (auto simp: like_def)
    have "reachable t x" using rest [OF i x] by (simp add: t)
    from send_lsu_to_ok [OF this, of ls junk i] n obtain out f where
      "send_lsu_to m (int (length m)) (int (length ls)) i x t = Some (t\<lparr>rand_pos := Suc (rand_pos t), wire := wire t @ [(out, f)]\<rparr>)"
      "lsu_frame (router_id t) (area_id t) (sequence_num t) ls f" "addressed t i x (out, f)"
      unfolding m_def [symmetric] ls_def [symmetric] by blast
    moreover have "router_id t = router_id s" "area_id t = area_id s" "sequence_num t = sequence_num s" "addressed t = addressed s"
      by (simp_all add: t s1_def addressed_def longest_prefix_match_def arpcache_lookup_def fun_eq_iff)
    moreover have "t\<lparr>rand_pos := Suc (rand_pos t), wire := wire t @ [(out, f)]\<rparr> = sends t [(out, f)]" by (simp add: sends_def)
    moreover have "sends t [(out, f)] \<in> like s1" by (auto simp: like_def t)
    ultimately show ?thesis by (intro exI [of _ "[(out, f)]"] conjI exI [of _ "(out, f)"]) simp_all
  qed
  have "\<exists>fss. fold_opt (\<lambda>i s. fold_opt (send_lsu_to m (int (length m)) (int (length ls)) i) (nbr_list s (if_index i)) s) (iface_list s) s1
      = Some (sends s1 (concat fss)) \<and> sends s1 (concat fss) \<in> like s1
    \<and> list_all2 (\<lambda>i. list_all2 (?P i) (nbr_list s (if_index i))) (iface_list s) fss"
  proof (rule fold_sends)
    fix i t assume i: "i \<in> set (iface_list s)" and t: "t \<in> like s1"
    have nl: "nbr_list t = nbr_list s" using t by (auto simp: like_def s1_def)
    obtain fss where fss: "fold_opt (send_lsu_to m (int (length m)) (int (length ls)) i) (nbr_list s (if_index i)) t = Some (sends t (concat fss))"
       "sends t (concat fss) \<in> like s1" "list_all2 (\<lambda>x fs. \<exists>p. fs = [p] \<and> ?P i x p) (nbr_list s (if_index i)) fss"
      using fold_sends [where g = "send_lsu_to m (int (length m)) (int (length ls)) i" and T = "like s1"
          and R = "\<lambda>x fs. \<exists>p. fs = [p] \<and> ?P i x p", OF one [OF i] t] by blast
    from fss(1,2) concat_singles [OF fss(3)] show "\<exists>fs. fold_opt (send_lsu_to m (int (length m)) (int (length ls)) i) (nbr_list t (if_index i)) t = Some (sends t fs)
       \<and> sends t fs \<in> like s1 \<and> list_all2 (?P i) (nbr_list s (if_index i)) fs"
      unfolding nl by (intro exI [of _ "concat fss"]) simp
  next
    show "s1 \<in> like s1" unfolding like_def by (rule CollectI, rule exI [of _ "[]"]) simp
  qed
  then obtain fss where fss: "fold_opt (\<lambda>i s. fold_opt (send_lsu_to m (int (length m)) (int (length ls)) i) (nbr_list s (if_index i)) s) (iface_list s) s1
      = Some (sends s1 (concat fss))" "list_all2 (\<lambda>i. list_all2 (?P i) (nbr_list s (if_index i))) (iface_list s) fss" by blast
  have "sending_mospf_lsu junk s = Some (unlock ((sends s1 (concat fss))\<lparr>sequence_num := sequence_num (sends s1 (concat fss)) + 1\<rparr>))"
  proof -
    have lk: "lock s = Some s1" using l by (simp add: lock_def s1_def)
    have len: "int (ETHER_HDR_SIZE + IP_BASE_HDR_SIZE + MOSPF_HDR_SIZE + MOSPF_LSU_SIZE) + int (length ls) * int MOSPF_LSA_SIZE = int (length m)"
      by (simp add: lm)
    have ls: "concat (map (iface_lsas s1) (iface_list s1)) = ls" using N(2) by (simp add: all_lsas_def)
    have same: "nbr_list s1 = nbr_list s" "iface_list s1 = iface_list s" by (simp_all add: s1_def)
    have fs1: "fold_opt (\<lambda>i s. fold_opt (send_lsu_to m (int (length m)) (int (length ls)) i) (nbr_list s (if_index i)) s) (iface_list s1) s1
      = Some (sends s1 (concat fss))" using fss(1) unfolding same .
    show ?thesis
      unfolding sending_mospf_lsu_def Let_def lk bind.simps N(1) len ls w [folded lm] fs1 ..
  qed
  then show ?thesis using fss(2) by (intro exI [of _ fss]) (simp add: ls_def unlock_def sends_def s1_def)
qed

section \<open>From one router to the next\<close>

text \<open>What a router advertises, in host byte order: the subnet of every interface without neighbours, and every
  neighbour of the others.\<close>

definition advertised :: "'a mospf_sys_scheme \<Rightarrow> mospf_lsa list" where
  "advertised s = concat (map (\<lambda>i. if nbr_list s (if_index i) = []
     then [\<lparr>lsa_subnet = if_ip i AND if_mask i, lsa_mask = if_mask i, lsa_rid = 0\<rparr>]
     else map (\<lambda>x. \<lparr>lsa_subnet = nbr_ip x AND nbr_mask x, lsa_mask = nbr_mask x, lsa_rid = nbr_id x\<rparr>) (nbr_list s (if_index i)))
   (iface_list s))"

lemma host_iface_lsas:
  assumes "nbr_inv s"
  shows "map host_lsa (iface_lsas s i) = (if nbr_list s (if_index i) = []
     then [\<lparr>lsa_subnet = if_ip i AND if_mask i, lsa_mask = if_mask i, lsa_rid = 0\<rparr>]
     else map (\<lambda>x. \<lparr>lsa_subnet = nbr_ip x AND nbr_mask x, lsa_mask = nbr_mask x, lsa_rid = nbr_id x\<rparr>) (nbr_list s (if_index i)))"
  using assms by (cases "nbr_list s (if_index i) = []") (simp_all add: iface_lsas_def host_lsa_def nbr_inv_def comp_def)

lemma host_all_lsas: "nbr_inv s \<Longrightarrow> map host_lsa (all_lsas s) = advertised s"
  unfolding all_lsas_def advertised_def map_concat map_map comp_def by (simp only: host_iface_lsas)

text \<open>A router of the same area that does not know the sender yet and has nobody to pass the update on to.\<close>

definition listens_to :: "u32 \<Rightarrow> u32 \<Rightarrow> iface_info \<Rightarrow> 'a mospf_sys_scheme \<Rightarrow> bool" where
  "listens_to rid aid iface r \<longleftrightarrow> \<not> mospf_locked r \<and> router_id r \<noteq> rid \<and> area_id r = aid
     \<and> (\<forall>e \<in> set (mospf_db r). db_rid e \<noteq> rid)
     \<and> (\<forall>i \<in> set (iface_list r). if_index i \<noteq> if_index iface \<longrightarrow> nbr_list r (if_index i) = [])"

lemma lsu_frame_received:
  assumes f: "lsu_frame rid aid seq ls f" and r: "listens_to rid aid iface r" and n: "length ls < 5400"
  shows "handle_mospf_packet iface f len r = Some (r\<lparr>mospf_db := mospf_db r @
     [\<lparr>db_add_time = now r, db_rid = rid, db_seq = seq, db_nadv = int (length ls), db_array = map host_lsa ls\<rparr>], mospf_locked := False\<rparr>)"
proof -
  let ?h = "\<lambda>c. \<lparr>mo_version = MOSPF_VERSION, mo_type = MOSPF_TYPE_LSU, mo_len = htons (of_nat (24 + 12 * length ls)), mo_rid = htonl rid,
              mo_aid = htonl aid, mo_checksum = c, mo_padding = 0\<rparr>"
  let ?u = "\<lparr>lsu_seq = htons seq, lsu_ttl = 255, lsu_unused = 0, lsu_nadv = htonl (of_nat (length ls))\<rparr>"
  let ?R = "enc_lsu ?u @ concat (map enc_lsa ls)"
  obtain X c iph where X: "length X = 34" "f = X @ enc_mhdr (?h c) @ ?R" "body_checksum (?h c) ?R = Some c"
    "get_ip f 14 = Some iph" "IP_HDR_SIZE iph = 20"
    using f unfolding lsu_frame_def Let_def by blast
  have h: "get_mhdr f 34 = Some (?h c)" "mospf_checksum f 34 = Some c"
    using X(1,3) unfolding X(2) by (simp_all add: mospf_checksum_at)
  have u: "get_lsu f 50 = Some ?u"
    unfolding X(2) using X(1) by (simp add: load_struct_def load_bytes_def mh.length_enc mlsu.length_enc mlsu.dec_enc)
  have nadv: "sint (ntohl (lsu_nadv ?u)) = int (length ls)"
    using n by (simp add: signed_of_nat signed_take_bit_int_eq_self)
  have fp: "f = (X @ enc_mhdr (?h c) @ enc_lsu ?u) @ concat (map enc_lsa ls) @ []" "length (X @ enc_mhdr (?h c) @ enc_lsu ?u) = 58"
    using X(1,2) by (simp_all add: mh.length_enc mlsu.length_enc)
  have r': "ntohl (mo_rid (?h c)) \<noteq> router_id r" "\<not> mospf_locked r" "\<forall>e \<in> set (mospf_db r). db_rid e \<noteq> ntohl (mo_rid (?h c))"
    "\<forall>i \<in> set (iface_list r). if_index i \<noteq> if_index iface \<longrightarrow> nbr_list r (if_index i) = []"
    using r by (auto simp: listens_to_def)
  have "handle_mospf_packet iface f len r = handle_mospf_lsu iface f len r"
    using X(4,5) h r by (simp add: handle_mospf_packet_def listens_to_def MOSPF_TYPE_LSU_def MOSPF_TYPE_HELLO_def)
  then show ?thesis
    using mospf_lsu_learned [OF fp h(1) r'(1) u nadv r'(2-4), of len] by simp
qed

text \<open>C35. A router's link state reaches its neighbours: when every neighbour is reachable through the routing table
  and the ARP cache, one round of \<^verbatim>\<open>sending_mospf_lsu\<close> returns, releases the lock, counts the sequence number up and
  sends exactly one frame for every neighbour of every interface, in the order of the lists. The frame leaves through the
  interface of the route to that neighbour for the hardware address of the next hop and is an IP packet of protocol 90 from the
  interface's address to the neighbour's, with a valid header checksum. Whichever router of the area receives such a frame and does not know the
  sender yet (and has nobody to pass it on to) accepts its version, checksum and area and ends with one more entry in its
  database: the sender's identifier and sequence number and exactly the subnets and neighbours that the sender has.\<close>

theorem mospf_lsu_exchange:
  assumes "nbr_inv s" "\<not> mospf_locked s" "length (all_lsas s) < 5400"
    and "\<forall>i \<in> set (iface_list s). \<forall>x \<in> set (nbr_list s (if_index i)). reachable s x"
  shows "\<exists>fss. sending_mospf_lsu junk s = Some (s\<lparr>rand_pos := rand_pos s + length (concat fss), wire := wire s @ concat fss,
        sequence_num := sequence_num s + 1, mospf_locked := False\<rparr>)
    \<and> list_all2 (\<lambda>i. list_all2 (addressed s i) (nbr_list s (if_index i))) (iface_list s) fss
    \<and> (\<forall>(out, f) \<in> set (concat fss). \<forall>iface len (r :: 'b mospf_sys_scheme). listens_to (router_id s) (area_id s) iface r \<longrightarrow>
         handle_mospf_packet iface f len r = Some (r\<lparr>mospf_db := mospf_db r @ [\<lparr>db_add_time = now r, db_rid = router_id s,
           db_seq = sequence_num s, db_nadv = int (length (advertised s)), db_array = advertised s\<rparr>], mospf_locked := False\<rparr>))"
proof -
  let ?L = "lsu_frame (router_id s) (area_id s) (sequence_num s) (all_lsas s)"
  obtain fss where fss: "sending_mospf_lsu junk s = Some ((sends s (concat fss))\<lparr>sequence_num := sequence_num s + 1, mospf_locked := False\<rparr>)"
    "list_all2 (\<lambda>i. list_all2 (\<lambda>x p. addressed s i x p \<and> ?L (snd p)) (nbr_list s (if_index i))) (iface_list s) fss"
    using sending_mospf_lsu_ok [OF assms] by blast
  have to: "list_all2 (\<lambda>i. list_all2 (addressed s i) (nbr_list s (if_index i))) (iface_list s) fss"
    by (rule list_all2_mono [OF fss(2)]) (auto elim: list_all2_mono)
  have each: "?L (snd p)" if p: "p \<in> set (concat fss)" for p
  proof -
    from p obtain fs where fs: "fs \<in> set fss" "p \<in> set fs" by auto
    have "\<exists>i. list_all2 (\<lambda>x p. addressed s i x p \<and> ?L (snd p)) (nbr_list s (if_index i)) fs"
      using fss(2) fs(1) by (auto simp: list_all2_conv_all_nth in_set_conv_nth)
    then show ?thesis using fs(2) by (auto simp: list_all2_conv_all_nth in_set_conv_nth)
  qed
  have l: "int (length (all_lsas s)) = int (length (advertised s))" using host_all_lsas [OF assms(1)] by (metis length_map)
  have "handle_mospf_packet iface f len r = Some (r\<lparr>mospf_db := mospf_db r @ [\<lparr>db_add_time = now r, db_rid = router_id s,
           db_seq = sequence_num s, db_nadv = int (length (advertised s)), db_array = advertised s\<rparr>], mospf_locked := False\<rparr>)"
    if "(out, f) \<in> set (concat fss)" "listens_to (router_id s) (area_id s) iface r" for out f iface len and r :: "'b mospf_sys_scheme"
    using lsu_frame_received [OF _ that(2) assms(3), of "sequence_num s" f len] each [OF that(1)] host_all_lsas [OF assms(1)]
    unfolding l by simp
  then have "\<forall>(out, f) \<in> set (concat fss). \<forall>iface len (r :: 'b mospf_sys_scheme). listens_to (router_id s) (area_id s) iface r \<longrightarrow>
         handle_mospf_packet iface f len r = Some (r\<lparr>mospf_db := mospf_db r @ [\<lparr>db_add_time = now r, db_rid = router_id s,
           db_seq = sequence_num s, db_nadv = int (length (advertised s)), db_array = advertised s\<rparr>], mospf_locked := False\<rparr>)" by blast
  then show ?thesis using fss(1) to unfolding sends_def by (intro exI [of _ fss] conjI) simp_all
qed

text \<open>Two routers: \<open>mospf_a\<close> with three interfaces and one neighbour, and that neighbour, which has not heard of it.\<close>

definition mospf_a :: mospf_sys where
  "mospf_a = mospf0\<lparr>rtable := [route24],
     arpcache := \<lparr>entries = \<lparr>ent_ip4 = 0x0A000002, ent_mac = Mac 2 0 0 0 0 7, ent_added = 0, ent_valid = True\<rparr> # tl (entries (arpcache mospf0)),
       req_list = []\<rparr>,
     nbr_list := (\<lambda>i. if i = 1 then [\<lparr>nbr_id = 0x0A000002, nbr_ip = 0x0A000002, nbr_mask = 0xFFFFFF00, nbr_alive = 0\<rparr>] else []),
     num_nbr := (\<lambda>i. if i = 1 then 1 else 0), sequence_num := 7\<rparr>"

definition mospf_b :: mospf_sys where
  "mospf_b = mospf0\<lparr>router_id := 0x0A000002\<rparr>"

lemma mospf_a_facts:
  "nbr_inv mospf_a" "\<not> mospf_locked mospf_a" "length (all_lsas mospf_a) < 5400"
  "\<forall>i \<in> set (iface_list mospf_a). \<forall>x \<in> set (nbr_list mospf_a (if_index i)). reachable mospf_a x"
  "(\<Sum>i \<leftarrow> iface_list mospf_a. length (nbr_list mospf_a (if_index i))) = 1"
  "router_id mospf_a = 0x0A000001" "area_id mospf_a = 0" "sequence_num mospf_a = 7"
  "advertised mospf_a = [\<lparr>lsa_subnet = 0x0A000000, lsa_mask = 0xFFFFFF00, lsa_rid = 0x0A000002\<rparr>,
     \<lparr>lsa_subnet = 0x0A000100, lsa_mask = 0xFFFFFF00, lsa_rid = 0\<rparr>, \<lparr>lsa_subnet = 0x0A000200, lsa_mask = 0xFFFFFF00, lsa_rid = 0\<rparr>]"
  by (simp_all add: mospf_a_def mospf0_def ustack.defs ustack0_def nbr_inv_def all_lsas_def iface_lsas_def advertised_def
      iface0_def iface1_def iface2_def reachable_def longest_prefix_match_def arpcache_lookup_def route_examples get_next_hop_def prefix_mask_def ent_hit_def)

theorem mospf_lsu_exchange_witness:
  "\<exists>s f. sending_mospf_lsu 0 mospf_a = Some s \<and> sequence_num s = 8 \<and> wire s = [(iface0, f)]
     \<and> map_option ip_daddr (get_ip f 14) = Some (htonl 0x0A000002) \<and> map_option ip_protocol (get_ip f 14) = Some 90
     \<and> map_option mospf_db (handle_mospf_packet iface0 f 94 mospf_b) = Some [\<lparr>db_add_time = 0, db_rid = 0x0A000001, db_seq = 7, db_nadv = 3,
          db_array = advertised mospf_a\<rparr>]"
proof -
  let ?x = "\<lparr>nbr_id = 0x0A000002, nbr_ip = 0x0A000002, nbr_mask = 0xFFFFFF00, nbr_alive = 0\<rparr> :: mospf_nbr"
  obtain fss where fss: "sending_mospf_lsu 0 mospf_a = Some (mospf_a\<lparr>rand_pos := rand_pos mospf_a + length (concat fss), wire := wire mospf_a @ concat fss,
        sequence_num := sequence_num mospf_a + 1, mospf_locked := False\<rparr>)"
    "list_all2 (\<lambda>i. list_all2 (addressed mospf_a i) (nbr_list mospf_a (if_index i))) (iface_list mospf_a) fss"
    "\<forall>(out, f) \<in> set (concat fss). \<forall>iface len (r :: mospf_sys). listens_to (router_id mospf_a) (area_id mospf_a) iface r \<longrightarrow>
         handle_mospf_packet iface f len r = Some (r\<lparr>mospf_db := mospf_db r @ [\<lparr>db_add_time = now r, db_rid = router_id mospf_a,
           db_seq = sequence_num mospf_a, db_nadv = int (length (advertised mospf_a)), db_array = advertised mospf_a\<rparr>], mospf_locked := False\<rparr>)"
    using mospf_lsu_exchange [OF mospf_a_facts(1-4), of 0, where 'b = unit] by blast
  have i: "iface_list mospf_a = [iface0, iface1, iface2]" "nbr_list mospf_a (if_index iface0) = [?x]"
    "nbr_list mospf_a (if_index iface1) = []" "nbr_list mospf_a (if_index iface2) = []"
    by (simp_all add: mospf_a_def mospf0_def ustack.defs ustack0_def iface0_def iface1_def iface2_def)
  obtain p where p: "addressed mospf_a iface0 ?x p" "concat fss = [p]"
    using fss(2) unfolding i(1) by (auto simp: list_all2_Cons1 i(2-4))
  obtain out f where f: "p = (out, f)" by (cases p)
  have "longest_prefix_match mospf_a 0x0A000002 = Some route24" "rt_iface route24 = iface0"
    by (simp_all add: mospf_a_def longest_prefix_match_def route_examples prefix_mask_def)
  then have a: "out = iface0" "map_option ip_daddr (get_ip f 14) = Some (htonl 0x0A000002)" "map_option ip_protocol (get_ip f 14) = Some 90"
    using p(1) unfolding f addressed_def by auto
  have b: "listens_to (router_id mospf_a) (area_id mospf_a) iface0 mospf_b" "mospf_db mospf_b = []" "now mospf_b = 0"
    unfolding mospf_a_facts by (simp_all add: listens_to_def mospf_b_def mospf0_def ustack.defs ustack0_def)
  have w: "wire mospf_a = []" by (simp add: mospf_a_def mospf0_def ustack.defs ustack0_def)
  show ?thesis
    using fss(1,3) b mospf_a_facts(6,8) w a p(2) f by (auto simp: mospf_a_facts(9))
qed

end
