(* ===== verification/NetInv.thy ===== *)
theory NetInv
  imports Ip12
begin

text \<open>
  An invariant of the network layer of the routing labs: the cache has no two entries for an address, and routes,
  waiting packets and the frames sent belong to interfaces of the stack. Every operation keeps it, and
  changes nothing but the cache, the frames sent and the position in the stream of random numbers
  (\<open>net_step\<close>).
\<close>

definition net_inv :: "'a ustack_scheme \<Rightarrow> bool" where
  "net_inv s \<longleftrightarrow> arp_inv s
     \<and> (\<forall>e \<in> set (rtable s). rt_iface e \<in> set (iface_list s))
     \<and> (\<forall>r \<in> set (req_list (arpcache s)). req_iface r \<in> set (iface_list s))
     \<and> (\<forall>f \<in> set (wire s). fst f \<in> set (iface_list s))"

definition net_step :: "'a ustack_scheme \<Rightarrow> 'a ustack_scheme \<Rightarrow> bool" where
  "net_step s s' \<longleftrightarrow> net_inv s' \<and> (\<exists>c w r. s' = s\<lparr>arpcache := c, wire := w, rand_pos := r\<rparr>)"

named_theorems net_steps

lemma arp_inv_cong: "entries (arpcache s') = entries (arpcache s) \<Longrightarrow> arp_inv s' = arp_inv s"
  by (simp add: arp_inv_def)

lemma net_step_refl [simp]: "net_inv s \<Longrightarrow> net_step s s"
  unfolding net_step_def by (intro conjI exI [of _ "arpcache s"] exI [of _ "wire s"] exI [of _ "rand_pos s"]) auto

lemma net_step_trans: "net_step s t \<Longrightarrow> net_step t u \<Longrightarrow> net_step s u"
  unfolding net_step_def by clarsimp blast

lemma net_step_inv: "net_step s s' \<Longrightarrow> net_inv s'"
  by (simp add: net_step_def)

lemma net_step_same: "net_step s s' \<Longrightarrow> iface_list s' = iface_list s \<and> rtable s' = rtable s \<and> now s' = now s"
  by (auto simp: net_step_def)

lemma net_step_fold:
  assumes "\<And>x s s'. x \<in> set xs \<Longrightarrow> net_inv s \<Longrightarrow> iface_list s = ifs \<Longrightarrow> f x s = Some s' \<Longrightarrow> net_step s s'"
    and "net_inv s" "iface_list s = ifs" "fold_opt f xs s = Some s'"
  shows "net_step s s'"
  using assms
proof (induction xs arbitrary: s)
  case (Cons x xs)
  then obtain t where t: "f x s = Some t" "fold_opt f xs t = Some s'" by (auto simp: bind_eq_Some_conv)
  have st: "net_step s t" by (rule Cons.prems(1) [OF _ Cons.prems(2,3) t(1)]) simp
  have "net_step t s'"
  proof (rule Cons.IH [OF _ net_step_inv [OF st] _ t(2)])
    show "iface_list t = ifs" using net_step_same [OF st] Cons.prems(3) by simp
    show "net_step u u'" if "y \<in> set xs" "net_inv u" "iface_list u = ifs" "f y u = Some u'" for y u u'
      by (rule Cons.prems(1) [OF _ that(2-4)]) (simp add: that(1))
  qed
  with st show ?case by (rule net_step_trans)
qed simp

section \<open>Sending\<close>

lemma net_wire:
  assumes "net_inv s" "i \<in> set (iface_list s)"
  shows "net_step s (s\<lparr>wire := wire s @ [(i, p)]\<rparr>)"
  using assms unfolding net_step_def net_inv_def
  by (auto simp: arp_inv_def intro!: exI [of _ "arpcache s"] exI [of _ "rand_pos s"])

lemma net_rand:
  assumes "net_inv s"
  shows "net_step s (s\<lparr>rand_pos := r\<rparr>)"
  using assms unfolding net_step_def net_inv_def
  by (auto simp: arp_inv_def intro!: exI [of _ "arpcache s"] exI [of _ "wire s"])

lemma net_reqs:
  assumes "net_inv s" "\<forall>r \<in> set rs. req_iface r \<in> set (iface_list s)"
  shows "net_step s (s\<lparr>arpcache := (arpcache s)\<lparr>req_list := rs\<rparr>\<rparr>)"
  using assms unfolding net_step_def net_inv_def
  by (auto simp: arp_inv_def intro!: exI [of _ "(arpcache s)\<lparr>req_list := rs\<rparr>"] exI [of _ "wire s"] exI [of _ "rand_pos s"])

lemma net_send [net_steps]:
  "iface_send_packet i p len s = Some s' \<Longrightarrow> net_inv s \<Longrightarrow> i \<in> set (iface_list s) \<Longrightarrow> net_step s s'"
  by (auto simp: iface_send_packet_def iface_send_frame_def bind_eq_Some_conv net_wire split: if_splits)

lemma append_to_req_ifaces:
  "append_to_req i ip4 pkt rs = Some rs' \<Longrightarrow> req_iface ` set rs' = req_iface ` set rs"
proof (induction rs arbitrary: rs')
  case (Cons r rs)
  show ?case
  proof (cases "if_index (req_iface r) = if_index i \<and> req_ip4 r = ip4")
    case True
    then have "rs' = r\<lparr>req_pkts := req_pkts r @ [pkt]\<rparr> # rs" using Cons.prems by simp
    then show ?thesis by simp
  next
    case False
    then obtain q where "rs' = r # q" "append_to_req i ip4 pkt rs = Some q" using Cons.prems by auto
    then show ?thesis using Cons.IH by simp
  qed
qed simp

lemma net_append [net_steps]:
  assumes "arpcache_append_packet i ip4 p len s = Some s'" "net_inv s" "i \<in> set (iface_list s)"
  shows "net_step s s'"
proof (cases "append_to_req i ip4 \<lparr>cp_packet = p, cp_len = len\<rparr> (req_list (arpcache s))")
  case (Some rs)
  then have s': "s' = s\<lparr>arpcache := (arpcache s)\<lparr>req_list := rs\<rparr>\<rparr>"
    using assms(1) by (simp add: arpcache_append_packet_def Let_def)
  have "req_iface ` set rs \<subseteq> set (iface_list s)"
    using append_to_req_ifaces [OF Some] assms(2) by (auto simp: net_inv_def)
  then show ?thesis unfolding s' by (intro net_reqs [OF assms(2)]) auto
next
  case None
  let ?r = "\<lparr>req_iface = i, req_ip4 = ip4, req_sent = now s, req_retries = 1, req_pkts = [\<lparr>cp_packet = p, cp_len = len\<rparr>]\<rparr>"
  let ?t = "s\<lparr>arpcache := (arpcache s)\<lparr>req_list := ?r # req_list (arpcache s)\<rparr>\<rparr>"
  have st: "net_step s ?t" using assms(2,3) by (intro net_reqs) (auto simp: net_inv_def)
  have "arp_send_request i ip4 ?t = Some s'"
    using None assms(1) by (simp add: arpcache_append_packet_def Let_def)
  then have "net_step ?t s'"
    unfolding arp_send_request_def using net_step_inv [OF st] assms(3) by (intro net_send) auto
  with st show ?thesis by (rule net_step_trans)
qed

lemma net_by_arp [net_steps]:
  "iface_send_packet_by_arp_12 i d p len s = Some s' \<Longrightarrow> net_inv s \<Longrightarrow> i \<in> set (iface_list s) \<Longrightarrow> net_step s s'"
  by (auto simp: iface_send_packet_by_arp_12_def bind_eq_Some_conv Let_def net_steps split: option.splits)

section \<open>Learning addresses\<close>

lemma flush_loop_wired:
  assumes "fold_opt (flush_packet i m) ps s = Some s'" "net_inv s" "i \<in> set (iface_list s)"
  shows "net_step s s'"
proof (rule net_step_fold [OF _ assms(2) refl assms(1)])
  show "net_step t t'" if "net_inv t" "iface_list t = iface_list s" "flush_packet i m pkt t = Some t'" for pkt t t'
    using that assms(3) by (auto simp: flush_packet_def bind_eq_Some_conv net_steps)
qed

lemma flush_reqs_step:
  "flush_reqs ip4 m rs s = Some (rs', s') \<Longrightarrow> net_inv s \<Longrightarrow> \<forall>r \<in> set rs. req_iface r \<in> set (iface_list s) \<Longrightarrow>
   net_step s s' \<and> set rs' \<subseteq> set rs"
  by (induction rs arbitrary: rs') (auto simp: bind_eq_Some_conv flush_loop_wired split: if_splits)

lemma insert_entry_form:
  "insert_entry ip4 m s = Some s' \<Longrightarrow> \<exists>es r. s' = s\<lparr>arpcache := (arpcache s)\<lparr>entries := es\<rparr>, rand_pos := r\<rparr>"
proof -
  assume ins: "insert_entry ip4 m s = Some s'"
  obtain es pos found where e: "insert_scan (now s) ip4 m (entries (arpcache s)) 0 (-1, False) = (es, pos, found)"
    using prod_cases3 by blast
  consider "found" | "\<not> found" "pos = -1" | "\<not> found" "pos \<noteq> -1" by blast
  then show ?thesis
  proof cases
    case 1
    then have "s' = s\<lparr>arpcache := (arpcache s)\<lparr>entries := es\<rparr>, rand_pos := rand_pos s\<rparr>"
      using ins e by (cases s) (auto simp: insert_entry_def)
    then show ?thesis by blast
  next
    case 2
    then show ?thesis using ins e by (simp add: insert_entry_def)
  next
    case 3
    then have "s' = s\<lparr>arpcache := (arpcache s)\<lparr>entries := es[rand_fn s (rand_pos s) mod MAX_ARP_SIZE :=
        \<lparr>ent_ip4 = ip4, ent_mac = m, ent_added = now s, ent_valid = True\<rparr>]\<rparr>, rand_pos := Suc (rand_pos s)\<rparr>"
      using ins e by (auto simp: insert_entry_def rand_def split: if_splits)
    then show ?thesis by blast
  qed
qed

lemma net_insert [net_steps]:
  assumes "arpcache_insert ip4 m s = Some s'" "net_inv s"
  shows "net_step s s'"
proof -
  obtain s1 rs s2 where s1: "insert_entry ip4 m s = Some s1" and s2: "flush_reqs ip4 m (req_list (arpcache s1)) s1 = Some (rs, s2)"
    and s': "s' = s2\<lparr>arpcache := (arpcache s2)\<lparr>req_list := rs\<rparr>\<rparr>"
    using assms(1) by (auto simp: arpcache_insert_def bind_eq_Some_conv)
  obtain w where w: "s2 = s1\<lparr>wire := w\<rparr>" using flush_reqs_wire [OF s2] by blast
  have "arp_inv s'" using arp_insert_step(1) [OF _ assms(1)] assms(2) by (simp add: net_inv_def)
  then have "arp_inv s1" using arp_inv_cong [of s' s1] by (simp add: s' w)
  moreover obtain es r where f: "s1 = s\<lparr>arpcache := (arpcache s)\<lparr>entries := es\<rparr>, rand_pos := r\<rparr>"
    using insert_entry_form [OF s1] by blast
  ultimately have inv1: "net_inv s1" using assms(2) by (auto simp: net_inv_def)
  then have st1: "net_step s s1"
    unfolding net_step_def f by (intro conjI exI [of _ "(arpcache s)\<lparr>entries := es\<rparr>"] exI [of _ "wire s"] exI [of _ r]) auto
  have "\<forall>r \<in> set (req_list (arpcache s1)). req_iface r \<in> set (iface_list s1)" using inv1 by (simp add: net_inv_def)
  from flush_reqs_step [OF s2 inv1 this] have st2: "net_step s1 s2" and rs: "set rs \<subseteq> set (req_list (arpcache s1))" by auto
  have "net_step s2 s'"
    unfolding s' using net_step_inv [OF st2] rs inv1 by (intro net_reqs) (auto simp: net_inv_def w)
  with st1 st2 show ?thesis by (blast intro: net_step_trans)
qed

lemma net_arp [net_steps]:
  assumes "handle_arp_packet_12 i p len s = Some s'" "net_inv s" "i \<in> set (iface_list s)"
  shows "net_step s s'"
proof -
  have reply: "net_step s t'" if "arp_send_reply i a s = Some t" "arpcache_insert ip4 m t = Some t'" for a t t' ip4 m
  proof -
    have "net_step s t" using that(1) assms(2,3) unfolding arp_send_reply_def by (rule net_send)
    then show ?thesis using net_insert [OF that(2)] net_step_inv net_step_trans by blast
  qed
  show ?thesis
    using assms reply by (auto simp: handle_arp_packet_12_def bind_eq_Some_conv Let_def net_steps split: if_splits)
qed

section \<open>IP and ICMP\<close>

lemma lookup_local:
  "longest_prefix_match s d = Some e \<Longrightarrow> net_inv s \<Longrightarrow> rt_iface e \<in> set (iface_list s)"
  using lpm.sound [where t = "rtable s" and d = d and e = e] by (auto simp: net_inv_def longest_prefix_match_def)

lemma ip_init_step:
  "ip_init_hdr m off a d len proto s = Some (m', s') \<Longrightarrow> net_inv s \<Longrightarrow> net_step s s'"
  by (auto simp: ip_init_hdr_def rand_def bind_eq_Some_conv net_rand)

lemma net_ip_send [net_steps]:
  "ip_send_packet_12 p len s = Some s' \<Longrightarrow> net_inv s \<Longrightarrow> net_step s s'"
  by (auto simp: ip_send_packet_12_def bind_eq_Some_conv Let_def lookup_local net_steps split: option.splits)

lemma ip_init_then:
  assumes "ip_init_hdr m off a d len proto s = Some (m', t)" "net_inv s" "net_inv t \<Longrightarrow> net_step t s'"
  shows "net_step s s'"
  using ip_init_step [OF assms(1,2)] assms(3) net_step_inv net_step_trans by blast

lemma net_icmp [net_steps]:
  assumes "icmp_send_packet_12 p len ty c s = Some s'" "net_inv s"
  shows "net_step s s'"
proof -
  have by_arp: "net_step s t'"
    if "ip_init_hdr m off a d l proto s = Some (q, t)" "longest_prefix_match s daddr = Some e"
      "iface_send_packet_by_arp_12 (rt_iface e) nh q n t = Some t'" for m off a d l proto q t daddr e nh n t'
  proof (rule ip_init_then [OF that(1) assms(2)])
    have "iface_list t = iface_list s" using net_step_same [OF ip_init_step [OF that(1) assms(2)]] by simp
    then show "net_inv t \<Longrightarrow> net_step t t'" using net_by_arp [OF that(3)] lookup_local [OF that(2) assms(2)] by simp
  qed
  obtain ih where ih0: "get_ip p ETHER_HDR_SIZE = Some ih"
    using assms(1) unfolding icmp_send_packet_12_def bind_eq_Some_conv by blast
  obtain out n where "icmp_lens ih len ty = (out, n)" by fastforce
  note ih = ih0 this
  have echo: "net_step s s'" if "ip_init_hdr m off a d l proto s = Some (v, t)" "ip_send_packet_12 v k t = Some s'" for m off a d l proto v t k
    by (rule ip_init_then [OF that(1) assms(2)]) (rule net_ip_send [OF that(2)])
  show ?thesis
  proof (cases "out < 0")
    case True
    then show ?thesis using assms ih by (simp add: icmp_send_packet_12_def)
  next
    case False
    then obtain q where q: "icmp_fill p ih out n ty c = Some q"
      using assms(1) ih by (auto simp: icmp_send_packet_12_def bind_eq_Some_conv)
    show ?thesis
    proof (cases "ty = ICMP_ECHOREPLY")
      case True
      then show ?thesis
        using assms(1) ih q False by (auto simp: icmp_send_packet_12_def bind_eq_Some_conv Let_def intro: echo)
    next
      case ty: False
      show ?thesis
      proof (cases "longest_prefix_match s (ntohl (ip_saddr ih))")
        case None
        then show ?thesis using assms ih q False ty by (simp add: icmp_send_packet_12_def Let_def)
      next
        case (Some e)
        then show ?thesis
          using assms(1) ih q False ty by (auto simp: icmp_send_packet_12_def bind_eq_Some_conv Let_def dest: by_arp)
      qed
    qed
  qed
qed

lemma net_forward [net_steps]:
  "ip_forward_packet_12 d p len s = Some s' \<Longrightarrow> net_inv s \<Longrightarrow> net_step s s'"
  by (auto simp: ip_forward_packet_12_def bind_eq_Some_conv Let_def lookup_local net_steps split: if_splits option.splits)

section \<open>Sweeping\<close>

lemma net_age: "net_inv s \<Longrightarrow> net_step s (arp_age t s)"
  using arp_age_step(1) [of s t] unfolding net_step_def net_inv_def
  by (auto simp: arp_age_def intro!: exI [of _ "wire s"] exI [of _ "rand_pos s"])

lemma sweep_reqs_local:
  "sweep_reqs t rs s = Some (rs', ps, s') \<Longrightarrow> net_inv s \<Longrightarrow> \<forall>r \<in> set rs. req_iface r \<in> set (iface_list s) \<Longrightarrow>
   net_step s s' \<and> (\<forall>r \<in> set rs'. req_iface r \<in> set (iface_list s))"
proof (induction rs arbitrary: rs' ps s s')
  case (Cons r rs)
  note ifs = Cons.prems(3)
  have rest: "net_step s u \<and> (\<forall>r \<in> set rs''. req_iface r \<in> set (iface_list s))"
    if "net_step s t1" "sweep_reqs t rs t1 = Some (rs'', ps', u)" for t1 rs'' ps' u
    using Cons.IH [OF that(2) net_step_inv [OF that(1)]] ifs net_step_same [OF that(1)] net_step_trans [OF that(1)]
    by simp
  have self: "net_step s s" using Cons.prems(2) by simp
  consider "t - req_sent r < 1" | "\<not> t - req_sent r < 1" "req_retries r < ARP_REQUEST_MAX_RETRIES"
    | "\<not> t - req_sent r < 1" "\<not> req_retries r < ARP_REQUEST_MAX_RETRIES" by blast
  then show ?case
  proof cases
    case 1
    then obtain rs'' ps' where "sweep_reqs t rs s = Some (rs'', ps', s')" "rs' = r # rs''"
      using Cons.prems(1) by (auto simp: bind_eq_Some_conv)
    then show ?thesis using rest [OF self] ifs by simp
  next
    case 2
    then obtain t1 rs'' ps' where t1: "arp_send_request (req_iface r) (req_ip4 r) s = Some t1"
      "sweep_reqs t rs t1 = Some (rs'', ps', s')" "rs' = r\<lparr>req_retries := req_retries r + 1\<rparr> # rs''"
      using Cons.prems(1) by (auto simp: bind_eq_Some_conv)
    have "net_step s t1"
      using t1(1) Cons.prems(2) ifs unfolding arp_send_request_def by (intro net_send) auto
    then show ?thesis using rest [OF _ t1(2)] t1(3) ifs by simp
  next
    case 3
    then obtain rs'' ps' where "sweep_reqs t rs s = Some (rs'', ps', s')" "rs' = rs''"
      using Cons.prems(1) by (auto simp: bind_eq_Some_conv)
    then show ?thesis using rest [OF self] by simp
  qed
qed simp

lemma net_sweep [net_steps]:
  assumes "arpcache_sweep_12 s = Some s'" "net_inv s"
  shows "net_step s s'"
proof -
  let ?a = "arp_age (now s) s"
  obtain rs ps t where t: "sweep_reqs (now s) (req_list (arpcache ?a)) ?a = Some (rs, ps, t)"
    "fold_opt (\<lambda>p s. icmp_send_packet_12 (cp_packet p) (cp_len p) ICMP_DEST_UNREACH ICMP_HOST_UNREACH s) ps
       (t\<lparr>arpcache := (arpcache t)\<lparr>req_list := rs\<rparr>\<rparr>) = Some s'"
    using assms(1) by (auto simp: arpcache_sweep_12_def bind_eq_Some_conv Let_def)
  have a: "net_step s ?a" by (rule net_age [OF assms(2)])
  have "\<forall>r \<in> set (req_list (arpcache ?a)). req_iface r \<in> set (iface_list ?a)"
    using net_step_inv [OF a] by (simp add: net_inv_def)
  from sweep_reqs_local [OF t(1) net_step_inv [OF a] this] have b: "net_step ?a t" "\<forall>r \<in> set rs. req_iface r \<in> set (iface_list ?a)"
    by auto
  have c: "net_step t (t\<lparr>arpcache := (arpcache t)\<lparr>req_list := rs\<rparr>\<rparr>)"
    using b(2) net_step_same [OF b(1)] by (intro net_reqs net_step_inv [OF b(1)]) auto
  have "net_step (t\<lparr>arpcache := (arpcache t)\<lparr>req_list := rs\<rparr>\<rparr>) s'"
    by (rule net_step_fold [OF net_icmp net_step_inv [OF c] refl t(2)])
  with a b(1) c show ?thesis by (blast intro: net_step_trans)
qed

end
