(* ===== verification/Tcp.thy ===== *)
theory Tcp
  imports Ip
begin

text \<open>
  TCP segments (\<^verbatim>\<open>include/tcp.h\<close>, \<^verbatim>\<open>tcp.c\<close> and the packet building of \<^verbatim>\<open>tcp_out.c\<close>, labs 15 to 17): the
  control block that a received packet is parsed into, the construction of headers, the sequence
  number comparisons, the hash of a connection and the printing of flags. The theorems show that
  a built segment is parsed back to what it was built from, also after it has been forwarded by
  routers, and passes the receiver's checksum test.
\<close>

section \<open>Definitions\<close>

datatype tcp_state = TCP_CLOSED | TCP_LISTEN | TCP_SYN_RECV | TCP_SYN_SENT | TCP_ESTABLISHED
  | TCP_CLOSE_WAIT | TCP_LAST_ACK | TCP_FIN_WAIT_1 | TCP_FIN_WAIT_2 | TCP_CLOSING | TCP_TIME_WAIT

text \<open>The control block of a received packet. The pointer \<^verbatim>\<open>payload\<close> is an offset into the packet.\<close>

record tcp_cb =
  cb_saddr :: u32
  cb_daddr :: u32
  cb_sport :: u16
  cb_dport :: u16
  cb_seq :: u32
  cb_seq_end :: u32
  cb_ack :: u32
  cb_payload :: nat
  cb_pl_len :: int
  cb_rwnd :: u32
  cb_flags :: u8

definition TCP_DEFAULT_WINDOW :: u16 where "TCP_DEFAULT_WINDOW = 65535"

lemmas tcp_flag_defs = TCP_FIN_def TCP_SYN_def TCP_RST_def TCP_PSH_def TCP_ACK_def TCP_URG_def

text \<open>\<^verbatim>\<open>flags & f\<close> as a condition.\<close>

definition has_flag :: "u8 \<Rightarrow> u8 \<Rightarrow> bool" where
  "has_flag flags f \<longleftrightarrow> flags AND f \<noteq> 0"

definition tcp_cb_init :: "bytes \<Rightarrow> nat \<Rightarrow> nat \<Rightarrow> tcp_cb option" where
  "tcp_cb_init m ip_off tcp_off = do {
     ip \<leftarrow> get_ip m ip_off;
     tcp \<leftarrow> get_tcp m tcp_off;
     let len = int (unat (ntohs (ip_tot_len ip))) - int (IP_HDR_SIZE ip) - int (TCP_HDR_SIZE tcp);
     let seq = ntohl (th_seq tcp);
     Some \<lparr>cb_saddr = ntohl (ip_saddr ip), cb_daddr = ntohl (ip_daddr ip),
           cb_sport = ntohs (th_sport tcp), cb_dport = ntohs (th_dport tcp),
           cb_seq = seq,
           cb_seq_end = seq + of_int len + (if has_flag (th_flags tcp) (TCP_SYN OR TCP_FIN) then 1 else 0),
           cb_ack = ntohl (th_ack tcp),
           cb_payload = tcp_off + unat (th_off tcp) * 4,
           cb_pl_len = len,
           cb_rwnd = ucast (ntohs (th_rwnd tcp)),
           cb_flags = th_flags tcp\<rparr> }"

text \<open>The comparison macros: \<^verbatim>\<open>(int32_t)(a) - (int32_t)(b)\<close> is signed arithmetic, where an overflow is
  undefined.\<close>

definition seq_diff :: "u32 \<Rightarrow> u32 \<Rightarrow> int option" where
  "seq_diff a b = (let d = sint a - sint b in if - (2 ^ 31) \<le> d \<and> d < 2 ^ 31 then Some d else None)"

definition less_or_equal_32b :: "u32 \<Rightarrow> u32 \<Rightarrow> bool option" where
  "less_or_equal_32b a b = map_option (\<lambda>d. d \<le> 0) (seq_diff a b)"

definition less_than_32b :: "u32 \<Rightarrow> u32 \<Rightarrow> bool option" where
  "less_than_32b a b = map_option (\<lambda>d. d < 0) (seq_diff a b)"

text \<open>\<^verbatim>\<open>tcp_hash_function\<close>: the index into a table of \<^verbatim>\<open>TCP_HASH_SIZE\<close> lists.\<close>

definition TCP_HASH_SIZE :: nat where "TCP_HASH_SIZE = 256"

definition tcp_hash_function :: "u32 \<Rightarrow> u32 \<Rightarrow> u16 \<Rightarrow> u16 \<Rightarrow> nat" where
  "tcp_hash_function saddr daddr sport dport =
     unat ((hash8 (put32 saddr) XOR hash8 (put32 daddr) XOR hash8 (put16 sport) XOR hash8 (put16 dport)) AND 255)"

text \<open>\<^verbatim>\<open>tcp_copy_flags_to_str\<close> with its helper; the buffer is a character array, \<^verbatim>\<open>strcpy\<close> also writes the
  terminating zero.\<close>

definition copy_flag_str :: "u8 \<Rightarrow> u8 \<Rightarrow> string \<Rightarrow> nat \<Rightarrow> string \<Rightarrow> nat \<Rightarrow> (nat \<times> string) option" where
  "copy_flag_str flags flag buf start str len =
     (if has_flag flags flag then do {
        let str0 = str @ [CHR 0x00];
        ensure (start + length str0 \<le> length buf);
        Some (len, take start buf @ str0 @ drop (start + length str0) buf) }
      else Some (0, buf))"

definition tcp_copy_flags_to_str :: "u8 \<Rightarrow> string option" where
  "tcp_copy_flags_to_str flags = do {
     let buf = replicate 32 (CHR 0x00);
     let len = 0;
     (l, buf) \<leftarrow> copy_flag_str flags TCP_FIN buf len ''FIN|'' 4; let len = len + l;
     (l, buf) \<leftarrow> copy_flag_str flags TCP_SYN buf len ''SYN|'' 4; let len = len + l;
     (l, buf) \<leftarrow> copy_flag_str flags TCP_RST buf len ''RST|'' 4; let len = len + l;
     (l, buf) \<leftarrow> copy_flag_str flags TCP_PSH buf len ''PSH|'' 4; let len = len + l;
     (l, buf) \<leftarrow> copy_flag_str flags TCP_ACK buf len ''ACK|'' 4; let len = len + l;
     (l, buf) \<leftarrow> copy_flag_str flags TCP_URG buf len ''URG|'' 4; let len = len + l;
     Some (if len \<noteq> 0 then buf[len - 1 := CHR 0x00] else buf) }"

section \<open>Building segments\<close>

definition tcp_init_hdr :: "bytes \<Rightarrow> nat \<Rightarrow> u16 \<Rightarrow> u16 \<Rightarrow> u32 \<Rightarrow> u32 \<Rightarrow> u8 \<Rightarrow> u16 \<Rightarrow> bytes option" where
  "tcp_init_hdr m off sport dport seq ack flags rwnd =
     put_tcp m off
       \<lparr>th_sport = htons sport, th_dport = htons dport, th_seq = htonl seq, th_ack = htonl ack,
        th_x2 = 0, th_off = 5, th_flags = flags, th_rwnd = htons rwnd, th_checksum = 0, th_urp = 0\<rparr>"

text \<open>The assignment \<^verbatim>\<open>tcp->checksum = tcp_checksum(ip, tcp)\<close>.\<close>

definition tcp_set_checksum :: "bytes \<Rightarrow> nat \<Rightarrow> nat \<Rightarrow> bytes option" where
  "tcp_set_checksum m ip_off tcp_off = do {
     c \<leftarrow> tcp_checksum m ip_off tcp_off;
     h \<leftarrow> get_tcp m tcp_off;
     put_tcp m tcp_off (h\<lparr>th_checksum := c\<rparr>) }"

text \<open>The packet that \<^verbatim>\<open>tcp_send_control_packet\<close> and \<^verbatim>\<open>tcp_send_reset\<close> fill into their fresh buffer \<open>m\<close>.\<close>

definition tcp_control_segment ::
  "bytes \<Rightarrow> u32 \<Rightarrow> u32 \<Rightarrow> u16 \<Rightarrow> u16 \<Rightarrow> u32 \<Rightarrow> u32 \<Rightarrow> u8 \<Rightarrow> u16 \<Rightarrow> 'a ustack_scheme \<Rightarrow>
   (bytes \<times> 'a ustack_scheme) option" where
  "tcp_control_segment m saddr daddr sport dport seq ack flags rwnd s = do {
     let tot_len = of_nat (IP_BASE_HDR_SIZE + TCP_BASE_HDR_SIZE);
     (m, s) \<leftarrow> ip_init_hdr m ETHER_HDR_SIZE saddr daddr tot_len IPPROTO_TCP s;
     m \<leftarrow> tcp_init_hdr m (ETHER_HDR_SIZE + IP_BASE_HDR_SIZE) sport dport seq ack flags rwnd;
     m \<leftarrow> tcp_set_checksum m ETHER_HDR_SIZE (ETHER_HDR_SIZE + IP_BASE_HDR_SIZE);
     Some (m, s) }"

text \<open>The packet that \<^verbatim>\<open>tcp_send_packet\<close> makes of a buffer \<open>m\<close> of \<open>len\<close> bytes whose payload is in
  place.\<close>

definition tcp_data_segment ::
  "bytes \<Rightarrow> int \<Rightarrow> u32 \<Rightarrow> u32 \<Rightarrow> u16 \<Rightarrow> u16 \<Rightarrow> u32 \<Rightarrow> u32 \<Rightarrow> u16 \<Rightarrow> 'a ustack_scheme \<Rightarrow>
   (bytes \<times> 'a ustack_scheme) option" where
  "tcp_data_segment m len saddr daddr sport dport seq ack rwnd s = do {
     let ip_tot_len = len - int ETHER_HDR_SIZE;
     m \<leftarrow> tcp_init_hdr m (ETHER_HDR_SIZE + IP_BASE_HDR_SIZE) sport dport seq ack (TCP_PSH OR TCP_ACK) rwnd;
     (m, s) \<leftarrow> ip_init_hdr m ETHER_HDR_SIZE saddr daddr (of_int ip_tot_len) IPPROTO_TCP s;
     m \<leftarrow> tcp_set_checksum m ETHER_HDR_SIZE (ETHER_HDR_SIZE + IP_BASE_HDR_SIZE);
     ip \<leftarrow> get_ip m ETHER_HDR_SIZE;
     c \<leftarrow> ip_checksum m ETHER_HDR_SIZE;
     m \<leftarrow> put_ip m ETHER_HDR_SIZE (ip\<lparr>ip_checksum_fld := c\<rparr>);
     Some (m, s) }"

section \<open>What a receiver sees\<close>

text \<open>A forwarded copy of a packet, as the router theorem describes it: the IP header differs in
  the time to live and the checksum, the rest behind the Ethernet header is the same.\<close>

definition forwarded_copy :: "bytes \<Rightarrow> bytes \<Rightarrow> bool" where
  "forwarded_copy p q \<longleftrightarrow> length q = length p \<and> drop 34 q = drop 34 p
     \<and> (\<exists>h ttl c. get_ip p 14 = Some h \<and> get_ip q 14 = Some (h\<lparr>ip_ttl := ttl, ip_checksum_fld := c\<rparr>))"

text \<open>What the receiver must find: the checksum test of \<^verbatim>\<open>handle_tcp_packet\<close> passes and the control
  block is \<open>cb\<close>.\<close>

definition tcp_received_as :: "bytes \<Rightarrow> tcp_cb \<Rightarrow> bool" where
  "tcp_received_as q cb \<longleftrightarrow>
     (\<exists>tcp. get_tcp q 34 = Some tcp \<and> tcp_checksum q 14 34 = Some (th_checksum tcp))
     \<and> tcp_cb_init q 14 34 = Some cb"

lemma checksum_drop: "off \<le> length m \<Longrightarrow> checksum m off n s = checksum (drop off m) 0 n s"
  by (auto simp: checksum_def load_bytes_def)

lemma put_tcp_34: "54 \<le> length m \<Longrightarrow> put_tcp m 34 h = Some (take 34 m @ enc_tcp h @ drop 54 m)"
  by (simp add: store_struct_def store_bytes_def tcph.length_enc)

lemma get_tcp_34: "54 \<le> length m \<Longrightarrow> get_tcp m 34 = Some (dec_tcp (take 20 (drop 34 m)))"
  by (simp add: load_struct_def load_bytes_def)

text \<open>The checksum as a function of the pseudo header fields and the bytes behind the IP header.\<close>

definition segment_checksum :: "iphdr \<Rightarrow> bytes \<Rightarrow> u16 option" where
  "segment_checksum ip seg =
     (let tcp_len = (ntohs (ip_tot_len ip) - of_nat (IP_HDR_SIZE ip) :: u16);
          ps = ip_saddr ip + ip_daddr ip + ucast (htons (ucast (ip_protocol ip))) + ucast (htons tcp_len)
      in checksum (enc_tcp ((dec_tcp (take 20 seg))\<lparr>th_checksum := 0\<rparr>) @ drop 20 seg) 0 (int (unat tcp_len)) ps)"

lemma tcp_checksum_segment:
  assumes "54 \<le> length m" "get_ip m 14 = Some ip"
  shows "tcp_checksum m 14 34 = segment_checksum ip (drop 34 m)"
  using assms
  by (simp add: tcp_checksum_def get_tcp_34 put_tcp_34 checksum_drop [of 34] segment_checksum_def Let_def)

lemma segment_checksum_cong:
  "segment_checksum (h\<lparr>ip_ttl := ttl, ip_checksum_fld := c\<rparr>) seg = segment_checksum h seg"
  by (simp add: segment_checksum_def IP_HDR_SIZE_def)

lemma IP_HDR_SIZE_cong: "IP_HDR_SIZE (h\<lparr>ip_ttl := ttl, ip_checksum_fld := c\<rparr>) = IP_HDR_SIZE h"
  by (simp add: IP_HDR_SIZE_def)

lemma forwarded_received:
  assumes "tcp_received_as p cb" "forwarded_copy p q"
  shows "tcp_received_as q cb"
proof -
  obtain h ttl c where h: "get_ip p 14 = Some h" "get_ip q 14 = Some (h\<lparr>ip_ttl := ttl, ip_checksum_fld := c\<rparr>)"
    and same: "length q = length p" "drop 34 q = drop 34 p"
    using assms(2) by (auto simp: forwarded_copy_def)
  have "54 \<le> length p"
    using assms(1) tcph.load_bounds by (fastforce simp: tcp_received_as_def)
  then have "tcp_checksum q 14 34 = tcp_checksum p 14 34" "get_tcp q 34 = get_tcp p 34"
    using h same by (simp_all add: tcp_checksum_segment segment_checksum_cong get_tcp_34)
  moreover from this have "tcp_cb_init q 14 34 = tcp_cb_init p 14 34"
    using h by (simp add: tcp_cb_init_def IP_HDR_SIZE_cong)
  ultimately show ?thesis
    using assms(1) by (simp add: tcp_received_as_def)
qed

text \<open>Storing the computed checksum makes the receiver's test pass, whatever the length of the
  segment: the receiver zeroes the field again.\<close>

lemma segment_checksum_stored:
  "segment_checksum ip (enc_tcp (h\<lparr>th_checksum := c\<rparr>) @ rest) = segment_checksum ip (enc_tcp h @ rest)"
  by (simp add: segment_checksum_def tcph.length_enc tcph.dec_enc)

lemma tcp_set_checksum_ok:
  assumes len: "54 \<le> length m" and ip: "get_ip m 14 = Some ip" "IP_HDR_SIZE ip = 20"
    and tot: "unat (ntohs (ip_tot_len ip)) + 14 = length m" and tcp: "get_tcp m 34 = Some h"
  shows "\<exists>c m'. tcp_set_checksum m 14 34 = Some m' \<and> length m' = length m
     \<and> get_ip m' 14 = Some ip \<and> drop 54 m' = drop 54 m \<and> take 34 m' = take 34 m
     \<and> get_tcp m' 34 = Some (h\<lparr>th_checksum := c\<rparr>) \<and> tcp_checksum m' 14 34 = Some c"
proof -
  have n: "unat (ntohs (ip_tot_len ip) - of_nat (IP_HDR_SIZE ip) :: u16) + 34 = length m"
    using tot len unat_sub [of "20 :: u16" "ntohs (ip_tot_len ip)"]
    by (simp add: ip(2) word_le_nat_alt)
  have seg: "drop 34 m = enc_tcp h @ drop 54 m"
  proof -
    have "take 20 (drop 34 m) = enc_tcp h"
      using tcph.raw_bytes [OF tcp] by (simp add: load_bytes_Some)
    moreover have "drop 20 (drop 34 m) = drop 54 m"
      by simp
    ultimately show ?thesis
      by (metis append_take_drop_id)
  qed
  obtain c where c: "segment_checksum ip (enc_tcp h @ drop 54 m) = Some c"
    using checksum_defined [of 0 "unat (ntohs (ip_tot_len ip) - of_nat (IP_HDR_SIZE ip) :: u16)"
        "enc_tcp (h\<lparr>th_checksum := 0\<rparr>) @ drop 54 m"] n len
    by (fastforce simp: segment_checksum_def Let_def tcph.length_enc tcph.dec_enc)
  define m' where "m' = take 34 m @ enc_tcp (h\<lparr>th_checksum := c\<rparr>) @ drop 54 m"
  have put: "put_tcp m 34 (h\<lparr>th_checksum := c\<rparr>) = Some m'"
    by (simp add: put_tcp_34 [OF len] m'_def)
  have ip': "get_ip m' 14 = Some ip"
    using ip(1) by (simp add: tcph.load_struct_frame [OF put, of 14 20])
  have "tcp_set_checksum m 14 34 = Some m'"
    using put tcp c by (simp add: tcp_set_checksum_def tcp_checksum_segment [OF len ip(1)] seg)
  moreover have len': "length m' = length m" by (rule tcph.store_length [OF put])
  moreover have "drop 34 m' = enc_tcp (h\<lparr>th_checksum := c\<rparr>) @ drop 54 m"
    using len by (simp add: m'_def)
  then have "tcp_checksum m' 14 34 = Some c"
    using len len' c by (simp add: tcp_checksum_segment [OF _ ip'] segment_checksum_stored)
  ultimately show ?thesis
    using ip' tcph.load_after_store [OF put] len
    by (intro exI [of _ c] exI [of _ m']) (simp add: m'_def tcph.length_enc)
qed

text \<open>The control block of a segment without options and payload length \<open>n\<close>.\<close>

definition segment_cb :: "u32 \<Rightarrow> u32 \<Rightarrow> u16 \<Rightarrow> u16 \<Rightarrow> u32 \<Rightarrow> u32 \<Rightarrow> u8 \<Rightarrow> u16 \<Rightarrow> nat \<Rightarrow> tcp_cb" where
  "segment_cb saddr daddr sport dport seq ack flags rwnd n =
     \<lparr>cb_saddr = saddr, cb_daddr = daddr, cb_sport = sport, cb_dport = dport, cb_seq = seq,
      cb_seq_end = seq + of_nat n + (if has_flag flags (TCP_SYN OR TCP_FIN) then 1 else 0),
      cb_ack = ack, cb_payload = 54, cb_pl_len = int n, cb_rwnd = ucast rwnd, cb_flags = flags\<rparr>"

lemma built_segment_received:
  assumes "get_ip m 14 = Some (own_hdr saddr daddr len proto i c)" "unat len = 40 + n"
    and "get_tcp m 34 = Some
       \<lparr>th_sport = htons sport, th_dport = htons dport, th_seq = htonl seq, th_ack = htonl ack,
        th_x2 = 0, th_off = 5, th_flags = flags, th_rwnd = htons rwnd, th_checksum = k, th_urp = 0\<rparr>"
    and "tcp_checksum m 14 34 = Some k"
  shows "tcp_received_as m (segment_cb saddr daddr sport dport seq ack flags rwnd n)"
proof -
  have u: "uint len = 40 + int n"
    using assms(2) by (metis of_nat_add of_nat_numeral of_nat_unat ucast_id)
  have "ucast len = (of_int (uint len) :: u32)"
    by simp
  then have "ucast len - (40 :: u32) = of_nat n"
    by (simp only: u of_int_add of_int_of_nat_eq) simp
  then show ?thesis using assms u
    by (simp add: tcp_received_as_def tcp_cb_init_def segment_cb_def own_hdr_def IP_HDR_SIZE_def TCP_HDR_SIZE_def)
qed

lemma tcp_init_hdr_eval:
  assumes "54 \<le> length m"
  shows "\<exists>m' h. tcp_init_hdr m 34 sport dport seq ack flags rwnd = Some m' \<and> length m' = length m
     \<and> drop 54 m' = drop 54 m \<and> take 34 m' = take 34 m
     \<and> h = \<lparr>th_sport = htons sport, th_dport = htons dport, th_seq = htonl seq, th_ack = htonl ack,
        th_x2 = 0, th_off = 5, th_flags = flags, th_rwnd = htons rwnd, th_checksum = 0, th_urp = 0\<rparr>
     \<and> get_tcp m' 34 = Some h"
  using assms put_tcp_34 [OF assms] tcph.load_after_store [OF put_tcp_34 [OF assms]]
  by (simp add: tcp_init_hdr_def tcph.length_enc)

lemma get_ip_take_34: "take 34 m' = take 34 m \<Longrightarrow> 34 \<le> length m \<Longrightarrow> 34 \<le> length m' \<Longrightarrow> get_ip m' 14 = get_ip m 14"
proof -
  assume a: "take 34 m' = take 34 m" "34 \<le> length m" "34 \<le> length m'"
  have "take 20 (drop 14 x) = drop 14 (take 34 x)" for x :: bytes
    by (simp add: drop_take)
  with a show ?thesis by (simp add: load_struct_def load_bytes_def)
qed

lemma ip_header_ok_take_34:
  assumes "take 34 m' = take 34 m" "34 \<le> length m" "34 \<le> length m'"
    and "get_ip m 14 = Some (own_hdr saddr daddr len proto i c)"
  shows "ip_header_ok m' 14 = ip_header_ok m 14"
proof -
  have "take 20 (drop 14 x) = drop 14 (take 34 x)" for x :: bytes
    by (simp add: drop_take)
  with assms get_ip_take_34 [OF assms(1-3)] show ?thesis
    by (simp add: ip_header_ok_def own_hdr_def IP_HDR_SIZE_def)
qed

lemma tcp_control_segment_ok:
  assumes "length m = 54"
  shows "\<exists>m'. tcp_control_segment m saddr daddr sport dport seq ack flags rwnd s
           = Some (m', s\<lparr>rand_pos := Suc (rand_pos s)\<rparr>)
     \<and> length m' = 54 \<and> ip_header_ok m' 14
     \<and> (\<forall>q. forwarded_copy m' q \<longrightarrow>
           tcp_received_as q (segment_cb saddr daddr sport dport seq ack flags rwnd 0))"
proof -
  obtain m1 c where m1: "ip_init_hdr m 14 saddr daddr 40 IPPROTO_TCP s = Some (m1, s\<lparr>rand_pos := Suc (rand_pos s)\<rparr>)"
    "get_ip m1 14 = Some (own_hdr saddr daddr 40 IPPROTO_TCP (of_nat (rand_fn s (rand_pos s))) c)"
    "ip_header_ok m1 14" "length m1 = 54"
    using ip_init_hdr_valid [of 14 m saddr daddr 40 IPPROTO_TCP s] assms by auto
  obtain m2 h where m2: "tcp_init_hdr m1 34 sport dport seq ack flags rwnd = Some m2" "length m2 = 54"
    "take 34 m2 = take 34 m1" "get_tcp m2 34 = Some h"
    and h: "h = \<lparr>th_sport = htons sport, th_dport = htons dport, th_seq = htonl seq, th_ack = htonl ack,
        th_x2 = 0, th_off = 5, th_flags = flags, th_rwnd = htons rwnd, th_checksum = 0, th_urp = 0\<rparr>"
    using tcp_init_hdr_eval [of m1 sport dport seq ack flags rwnd] m1(4) by auto
  have ip2: "get_ip m2 14 = Some (own_hdr saddr daddr 40 IPPROTO_TCP (of_nat (rand_fn s (rand_pos s))) c)"
    using get_ip_take_34 [OF m2(3)] m1(2,4) m2(2) by simp
  obtain k m3 where m3: "tcp_set_checksum m2 14 34 = Some m3" "length m3 = 54" "get_ip m3 14 = get_ip m2 14"
    "take 34 m3 = take 34 m2" "get_tcp m3 34 = Some (h\<lparr>th_checksum := k\<rparr>)" "tcp_checksum m3 14 34 = Some k"
    using tcp_set_checksum_ok [OF _ ip2 _ _ m2(4)] m2(2) ip2 by (auto simp: own_hdr_def IP_HDR_SIZE_def)
  have "tcp_received_as m3 (segment_cb saddr daddr sport dport seq ack flags rwnd 0)"
    using m3(3) ip2 m3(5,6) h by (intro built_segment_received) auto
  moreover have "ip_header_ok m3 14"
    using ip_header_ok_take_34 [of m3 m1] m1 m2 m3 by simp
  ultimately show ?thesis
    using m1(1) m2(1) m3(1,2) forwarded_received by (fastforce simp: tcp_control_segment_def)
qed

text \<open>A control segment (also a reset) that the stack builds in any 54-byte buffer reaches the peer as
  it was meant: whatever time to live and header checksum routers leave in it, it passes the
  receiver's TCP checksum test and is parsed to exactly the addresses, ports, sequence and
  acknowledgement numbers, flags and window it was built from, with a sequence end one higher for
  SYN and FIN; its IP header verifies.\<close>

theorem tcp_control_roundtrip:
  assumes "length m = 54"
  shows "\<exists>m'. tcp_control_segment m saddr daddr sport dport seq ack flags rwnd s
           = Some (m', s\<lparr>rand_pos := Suc (rand_pos s)\<rparr>)
     \<and> length m' = 54 \<and> ip_header_ok m' 14
     \<and> (\<forall>q. forwarded_copy m' q \<longrightarrow>
           tcp_received_as q (segment_cb saddr daddr sport dport seq ack flags rwnd 0))"
  by (rule tcp_control_segment_ok [OF assms])

lemma forwarded_copy_refl: "ip_header_ok p 14 \<Longrightarrow> forwarded_copy p p"
proof -
  assume "ip_header_ok p 14"
  then obtain h where "get_ip p 14 = Some h"
    by (auto simp: ip_header_ok_def split: option.splits)
  moreover have "h = h\<lparr>ip_ttl := ip_ttl h, ip_checksum_fld := ip_checksum_fld h\<rparr>"
    by simp
  ultimately show ?thesis
    unfolding forwarded_copy_def by metis
qed

theorem tcp_control_roundtrip_witness:
  "\<exists>m'. tcp_control_segment (replicate 54 0xAB) 0x0A000001 0x0A000102 12345 80 1000 0 TCP_SYN 65535 ustack0
          = Some (m', ustack0\<lparr>rand_pos := Suc (rand_pos ustack0)\<rparr>)
     \<and> tcp_received_as m' (segment_cb 0x0A000001 0x0A000102 12345 80 1000 0 TCP_SYN 65535 0)"
  using tcp_control_roundtrip [of "replicate 54 0xAB" "0x0A000001" "0x0A000102" 12345 80 1000 0 TCP_SYN 65535 ustack0]
    forwarded_copy_refl by auto

lemma tcp_data_segment_hdr:
  assumes "54 \<le> length m" "length m < 65536 + 14"
  shows "\<exists>m'. tcp_data_segment m (int (length m)) saddr daddr sport dport seq ack rwnd s
           = Some (m', s\<lparr>rand_pos := Suc (rand_pos s)\<rparr>)
     \<and> length m' = length m \<and> drop 54 m' = drop 54 m \<and> ip_header_ok m' 14
     \<and> (\<forall>q. forwarded_copy m' q \<longrightarrow> drop 54 q = drop 54 m \<and>
           tcp_received_as q (segment_cb saddr daddr sport dport seq ack (TCP_PSH OR TCP_ACK) rwnd (length m - 54)))
     \<and> (\<exists>i c. get_ip m' 14 = Some (own_hdr saddr daddr (of_nat (length m - 14)) IPPROTO_TCP i c))"
proof -
  define len :: u16 where "len = of_nat (length m - 14)"
  have len: "of_int (int (length m) - 14) = len" "unat len = length m - 14"
    using assms by (simp add: len_def of_nat_diff, simp only: len_def unat_of_nat, simp)
  obtain m1 h where m1: "tcp_init_hdr m 34 sport dport seq ack (TCP_PSH OR TCP_ACK) rwnd = Some m1"
    "length m1 = length m" "drop 54 m1 = drop 54 m" "get_tcp m1 34 = Some h"
    and h: "h = \<lparr>th_sport = htons sport, th_dport = htons dport, th_seq = htonl seq, th_ack = htonl ack,
        th_x2 = 0, th_off = 5, th_flags = TCP_PSH OR TCP_ACK, th_rwnd = htons rwnd, th_checksum = 0, th_urp = 0\<rparr>"
    using tcp_init_hdr_eval [OF assms(1), of sport dport seq ack "TCP_PSH OR TCP_ACK" rwnd] by auto
  obtain m2 c where m2: "ip_init_hdr m1 14 saddr daddr len IPPROTO_TCP s = Some (m2, s\<lparr>rand_pos := Suc (rand_pos s)\<rparr>)"
    "get_ip m2 14 = Some (own_hdr saddr daddr len IPPROTO_TCP (of_nat (rand_fn s (rand_pos s))) c)"
    "length m2 = length m" and fr: "\<And>j n. 34 \<le> j \<Longrightarrow> load_bytes m2 j n = load_bytes m1 j n"
    using ip_init_hdr_valid [of 14 m1 saddr daddr len IPPROTO_TCP s] m1(2) assms by auto
  have m2': "get_tcp m2 34 = Some h" "drop 54 m2 = drop 54 m"
    using m1 fr [of 34 20] fr [of 54 "length m - 54"] m2(3) assms by (simp_all add: load_struct_def load_bytes_def)
  obtain k m3 where m3: "tcp_set_checksum m2 14 34 = Some m3" "length m3 = length m" "get_ip m3 14 = get_ip m2 14"
    "drop 54 m3 = drop 54 m" "get_tcp m3 34 = Some (h\<lparr>th_checksum := k\<rparr>)" "tcp_checksum m3 14 34 = Some k"
    using tcp_set_checksum_ok [OF _ m2(2) _ _ m2'(1)] m2 m2' len assms by (auto simp: own_hdr_def IP_HDR_SIZE_def)
  define ip where "ip = own_hdr saddr daddr len IPPROTO_TCP (of_nat (rand_fn s (rand_pos s))) c"
  have ip: "get_ip m3 14 = Some ip" "IP_HDR_SIZE ip = 20" "unat (ip_ihl ip) = 5"
    using m3(3) m2(2) by (simp_all add: ip_def own_hdr_def IP_HDR_SIZE_def)
  obtain c' m4 where m4: "ip_checksum m3 14 = Some c'" "put_ip m3 14 (ip\<lparr>ip_checksum_fld := c'\<rparr>) = Some m4"
    "ip_header_ok m4 14"
    using ip_checksum_store_ok [OF ip(1)] ip(2,3) m3(2) assms by auto
  have shape: "drop 34 m4 = drop 34 m3" "length m4 = length m"
    using m4(2) m3(2) assms by (auto simp: store_struct_def store_bytes_Some iph.length_enc)
  have "forwarded_copy m3 m4"
    unfolding forwarded_copy_def
    using shape m3(2) ip(1) iph.load_after_store [OF m4(2)]
    by (intro conjI exI [of _ ip] exI [of _ "ip_ttl ip"] exI [of _ c']) simp_all
  moreover have "tcp_received_as m3 (segment_cb saddr daddr sport dport seq ack (TCP_PSH OR TCP_ACK) rwnd (length m - 54))"
    using m3(3,5,6) m2(2) h len(2) assms by (intro built_segment_received) auto
  ultimately have rec: "tcp_received_as m4 (segment_cb saddr daddr sport dport seq ack (TCP_PSH OR TCP_ACK) rwnd (length m - 54))"
    by (rule forwarded_received [rotated])
  have tail: "drop 54 q = drop 54 m" if "drop 34 q = drop 34 m3" for q
    using arg_cong [OF that, of "drop 20"] m3(4) by simp
  have "tcp_data_segment m (int (length m)) saddr daddr sport dport seq ack rwnd s
           = Some (m4, s\<lparr>rand_pos := Suc (rand_pos s)\<rparr>)"
    using m1(1) m2(1) m3(1) ip(1) m4(1,2) len(1) by (simp add: tcp_data_segment_def)
  moreover have "drop 54 q = drop 54 m" if "forwarded_copy m4 q" for q
    using that shape tail by (simp add: forwarded_copy_def)
  moreover have "ip\<lparr>ip_checksum_fld := c'\<rparr> = own_hdr saddr daddr (of_nat (length m - 14)) IPPROTO_TCP (of_nat (rand_fn s (rand_pos s))) c'"
    by (simp add: ip_def own_hdr_def len_def)
  ultimately show ?thesis
    using shape tail m4(3) forwarded_received [OF rec] iph.load_after_store [OF m4(2)] by (intro exI [of _ m4]) auto
qed

lemma tcp_data_segment_ok:
  assumes "54 \<le> length m" "length m < 65536 + 14"
  shows "\<exists>m'. tcp_data_segment m (int (length m)) saddr daddr sport dport seq ack rwnd s
           = Some (m', s\<lparr>rand_pos := Suc (rand_pos s)\<rparr>)
     \<and> length m' = length m \<and> drop 54 m' = drop 54 m \<and> ip_header_ok m' 14
     \<and> (\<forall>q. forwarded_copy m' q \<longrightarrow> drop 54 q = drop 54 m \<and>
           tcp_received_as q (segment_cb saddr daddr sport dport seq ack (TCP_PSH OR TCP_ACK) rwnd (length m - 54)))"
  using tcp_data_segment_hdr [OF assms] by blast

text \<open>C12. A data segment that \<^verbatim>\<open>tcp_send_packet\<close> builds around a payload of any length that fits an IP
  packet is received, possibly forwarded, with that payload unchanged, the sequence end advanced by
  the payload's length, and a checksum that the receiver accepts (for odd lengths too, as both ends
  compute the same function of the bytes).\<close>

theorem tcp_data_roundtrip:
  assumes "54 \<le> length m" "length m < 65536 + 14"
  shows "\<exists>m'. tcp_data_segment m (int (length m)) saddr daddr sport dport seq ack rwnd s
           = Some (m', s\<lparr>rand_pos := Suc (rand_pos s)\<rparr>)
     \<and> length m' = length m \<and> drop 54 m' = drop 54 m \<and> ip_header_ok m' 14
     \<and> (\<forall>q. forwarded_copy m' q \<longrightarrow> drop 54 q = drop 54 m \<and>
           tcp_received_as q (segment_cb saddr daddr sport dport seq ack (TCP_PSH OR TCP_ACK) rwnd (length m - 54)))"
  by (rule tcp_data_segment_ok [OF assms])

theorem tcp_data_roundtrip_witness:
  "\<exists>m'. tcp_data_segment (replicate 54 0 @ [1, 2, 3]) 57 0x0A000001 0x0A000102 12345 80 1000 7 65535 ustack0
          = Some (m', ustack0\<lparr>rand_pos := Suc (rand_pos ustack0)\<rparr>)
     \<and> drop 54 m' = [1, 2, 3]
     \<and> tcp_received_as m' (segment_cb 0x0A000001 0x0A000102 12345 80 1000 7 (TCP_PSH OR TCP_ACK) 65535 3)"
  using tcp_data_roundtrip [of "replicate 54 0 @ [1, 2, 3]" "0x0A000001" "0x0A000102" 12345 80 1000 7 65535 ustack0]
    forwarded_copy_refl by auto

section \<open>Flags as text\<close>

text \<open>The names of the set flags, separated by bars; the buffer of 32 characters is long enough for
  every combination.\<close>

definition flag_names :: "u8 \<Rightarrow> string list" where
  "flag_names flags = map snd (filter (\<lambda>(f, n). has_flag flags f)
     [(TCP_FIN, ''FIN''), (TCP_SYN, ''SYN''), (TCP_RST, ''RST''), (TCP_PSH, ''PSH''), (TCP_ACK, ''ACK''), (TCP_URG, ''URG'')])"

fun join_bar :: "string list \<Rightarrow> string" where
  "join_bar [] = []"
| "join_bar [s] = s"
| "join_bar (s # ss) = s @ ''|'' @ join_bar ss"

lemma tcp_copy_flags_to_str_names:
  "\<exists>buf. tcp_copy_flags_to_str flags = Some buf \<and> length buf = 32
     \<and> takeWhile (\<lambda>c. c \<noteq> CHR 0x00) buf = join_bar (flag_names flags)"
  by (cases "has_flag flags TCP_FIN"; cases "has_flag flags TCP_SYN"; cases "has_flag flags TCP_RST";
      cases "has_flag flags TCP_PSH"; cases "has_flag flags TCP_ACK"; cases "has_flag flags TCP_URG")
     (simp_all add: tcp_copy_flags_to_str_def copy_flag_str_def flag_names_def numeral_nat)

end
