(* ===== verification/SynchWait.thy ===== *)
theory SynchWait
  imports Prelude
begin

text \<open>
  The one-shot notification of \<^verbatim>\<open>include/synch_wait.h\<close>, by which the socket calls of an application
  thread wait for the packet thread. The mutex \<^verbatim>\<open>lock\<close> is held through every operation except
  while \<^verbatim>\<open>pthread_cond_wait\<close> blocks, so an operation is one step, and \<^verbatim>\<open>sleep_on\<close> is one step up to
  the wait and one after it. \<open>cond\<close> says that a waiting thread has
  been released by \<^verbatim>\<open>pthread_cond_signal\<close> or \<^verbatim>\<open>pthread_cond_broadcast\<close>: one thread waits on each of
  these structures, so a broadcast releases what a signal does.
\<close>

record synch_wait =
  notified :: bool
  dead :: bool
  sleep :: bool
  cond :: bool

definition wait_init :: synch_wait where
  "wait_init = \<lparr>notified = False, dead = False, sleep = False, cond = False\<rparr>"

definition alloc_wait_struct :: synch_wait where
  "alloc_wait_struct = wait_init"

definition wait_exit :: "synch_wait \<Rightarrow> synch_wait" where
  "wait_exit w =
     (if dead w then w
      else let w = w\<lparr>dead := True\<rparr> in if sleep w then w\<lparr>cond := True\<rparr> else w)"

definition wake_up :: "synch_wait \<Rightarrow> int \<times> synch_wait" where
  "wake_up w =
     (let w' = (if dead w then w
                else if notified w then w
                else let w = w\<lparr>notified := True\<rparr> in if sleep w then w\<lparr>cond := True\<rparr> else w)
      in (if dead w' then - 1 else 0, w'))"

text \<open>\<^verbatim>\<open>sleep_on\<close>: \<open>sleep_enter\<close> returns whether the thread has to wait, \<open>sleep_leave\<close> is the part after
  the wait. Both end in \<^verbatim>\<open>return -(wait->dead)\<close>.\<close>

definition sleep_leave :: "synch_wait \<Rightarrow> synch_wait" where
  "sleep_leave w = w\<lparr>notified := False, sleep := False\<rparr>"

definition sleep_enter :: "synch_wait \<Rightarrow> bool \<times> synch_wait" where
  "sleep_enter w =
     (if dead w then (False, w)
      else if notified w then (False, sleep_leave w)
      else (True, w\<lparr>sleep := True\<rparr>))"

text \<open>The waiting protocol as a transition system: one thread calls \<^verbatim>\<open>sleep_on\<close> again and again, and
  other threads call \<^verbatim>\<open>wake_up\<close> and \<^verbatim>\<open>wait_exit\<close> at any time. \<open>blocked\<close> is the sleeper's control state;
  it may continue once a signal has released it.\<close>

record wait_sys =
  wt :: synch_wait
  blocked :: bool
  wakes :: nat
  returns :: nat

inductive wait_step :: "wait_sys \<Rightarrow> wait_sys \<Rightarrow> bool" where
  enter: "\<not> blocked c \<Longrightarrow> sleep_enter (wt c) = (True, w) \<Longrightarrow>
    wait_step c (c\<lparr>wt := w, blocked := True\<rparr>)"
| pass: "\<not> blocked c \<Longrightarrow> sleep_enter (wt c) = (False, w) \<Longrightarrow>
    wait_step c (c\<lparr>wt := w, returns := Suc (returns c)\<rparr>)"
| leave: "blocked c \<Longrightarrow> cond (wt c) \<Longrightarrow>
    wait_step c (c\<lparr>wt := (sleep_leave (wt c))\<lparr>cond := False\<rparr>, blocked := False, returns := Suc (returns c)\<rparr>)"
| wake: "wait_step c (c\<lparr>wt := snd (wake_up (wt c)), wakes := Suc (wakes c)\<rparr>)"
| exit: "wait_step c (c\<lparr>wt := wait_exit (wt c)\<rparr>)"

inductive wait_reach :: "wait_sys \<Rightarrow> bool" where
  init: "wait_reach \<lparr>wt = wait_init, blocked = False, wakes = 0, returns = 0\<rparr>"
| step: "wait_reach c \<Longrightarrow> wait_step c c' \<Longrightarrow> wait_reach c'"

inductive_cases wait_stepE: "wait_step c c'"

text \<open>The invariant: the sleeper is blocked exactly when the flag \<^verbatim>\<open>sleep\<close> is set, a signal is pending
  only for a blocked sleeper, and a blocked sleeper that has been notified or whose structure is
  dead has been released.\<close>

definition wait_inv :: "wait_sys \<Rightarrow> bool" where
  "wait_inv c \<longleftrightarrow> sleep (wt c) = blocked c
     \<and> (cond (wt c) \<longrightarrow> blocked c)
     \<and> (blocked c \<and> (notified (wt c) \<or> dead (wt c)) \<longrightarrow> cond (wt c))"

lemma wait_inv_step: "wait_inv c \<Longrightarrow> wait_step c c' \<Longrightarrow> wait_inv c'"
  by (erule wait_stepE)
     (auto simp: wait_inv_def sleep_enter_def sleep_leave_def wake_up_def wait_exit_def Let_def split: if_splits)

lemma wait_reach_inv: "wait_reach c \<Longrightarrow> wait_inv c"
proof (induction rule: wait_reach.induct)
  case init
  then show ?case by (simp add: wait_inv_def wait_init_def)
qed (rule wait_inv_step)

text \<open>C37. No wake-up is lost: in every reachable state in which a notification is pending or the structure
  is dead, the thread that calls or waits in \<^verbatim>\<open>sleep_on\<close> can return from it in its next step, whether
  the wake-up came before, while or after it went to sleep.\<close>

theorem no_lost_wakeup:
  assumes "wait_reach c" and "notified (wt c) \<or> dead (wt c)"
  shows "\<exists>c'. wait_step c c' \<and> \<not> blocked c' \<and> returns c' = Suc (returns c)"
proof (cases "blocked c")
  case True
  then have "cond (wt c)"
    using wait_reach_inv [OF assms(1)] assms(2) by (simp add: wait_inv_def)
  from wait_step.leave [OF True this] show ?thesis
    by (intro exI conjI) (assumption, simp_all)
next
  case False
  obtain w where "sleep_enter (wt c) = (False, w)"
    using assms(2) by (cases "dead (wt c)") (auto simp: sleep_enter_def)
  from wait_step.pass [OF False this] False show ?thesis
    by (intro exI conjI) (assumption, simp_all)
qed

theorem no_lost_wakeup_witness:
  defines "c \<equiv> \<lparr>wt = \<lparr>notified = True, dead = False, sleep = True, cond = True\<rparr>, blocked = True,
                wakes = 1, returns = 0\<rparr>"
  shows "\<exists>c'. wait_step c c' \<and> \<not> blocked c' \<and> returns c' = 1"
proof -
  let ?c0 = "\<lparr>wt = wait_init, blocked = False, wakes = 0, returns = 0\<rparr>"
  have "wait_step ?c0 (?c0\<lparr>wt := wait_init\<lparr>sleep := True\<rparr>, blocked := True\<rparr>)"
    by (rule wait_step.enter) (simp_all add: sleep_enter_def wait_init_def)
  from wait_reach.step [OF wait_reach.init this] have "wait_reach c"
    using wait_step.wake
    by (rule wait_reach.step [THEN back_subst [of wait_reach]])
       (simp add: c_def wake_up_def wait_init_def)
  then show ?thesis
    using no_lost_wakeup [of c] by (simp add: c_def)
qed

end
