(* ===== verification/TcpSock.thy ===== *)
theory TcpSock
  imports Tcp Clist RingBuffer SynchWait
begin

text \<open>
  The sockets of the TCP labs (\<^verbatim>\<open>tcp_sock.h\<close>, \<^verbatim>\<open>tcp_sock.c\<close>, \<^verbatim>\<open>tcp_timer.c\<close>, \<^verbatim>\<open>tcp_out.c\<close> and the buffer
  functions of \<^verbatim>\<open>tcp_apps.c\<close>), labs 16 and 17. Sockets refer to each other, sit in several intrusive
  lists at once and are freed by reference counts, so their memory is explicit: \<open>socks\<close>, \<open>spkts\<close>
  and \<open>opkts\<close> map the addresses of allocated sockets, unacknowledged packets and out-of-order packets
  to their fields, and \<open>lists\<close> is one heap (theory Clist) with all list nodes of the three structs, of
  the three hash tables and of \<^verbatim>\<open>timer_list\<close>. A node that was never initialised is zeroed memory and
  points to \<open>Null\<close>, which is not in the heap. Freeing a socket removes its nodes.

  \<open>fresh\<close> gives the contents of freshly allocated memory, \<open>addr_of\<close> the numeric address of a socket.
  What other threads do while a call sleeps is the argument \<open>env\<close> of the calls that may sleep.
\<close>

section \<open>State\<close>

datatype lptr = Null | TimerList | EstablishedTable nat | ListenTable nat | BindTable nat
  | HashList nat | BindHashList nat | ListenQueue nat | AcceptQueue nat | SkList nat
  | Timewait nat | RetransTimer nat | SendBuf nat | OfoBuf nat | SendPkt nat | OfoPkt nat

record tcp_timer =
  tm_type :: int
  tm_timeout :: int
  retrans_number :: int

record tcp_sock =
  sk_sip :: u32
  sk_sport :: u16
  sk_dip :: u32
  sk_dport :: u16
  parent :: "nat option"
  ref_cnt :: int
  accept_backlog :: int
  backlog :: int
  timewait :: tcp_timer
  retrans_timer :: tcp_timer
  wait_connect :: synch_wait
  wait_accept :: synch_wait
  wait_recv :: synch_wait
  wait_send :: synch_wait
  rcv_buf :: ring_buffer
  state :: tcp_state
  iss :: u32
  snd_una :: u32
  snd_nxt :: u32
  rcv_nxt :: u32
  snd_wnd :: u16
  rcv_wnd :: u16

text \<open>The data of a \<^verbatim>\<open>send_packet\<close> is \<open>None\<close> once it has been freed.\<close>

record send_packet =
  sp_packet :: "bytes option"
  sp_len :: int

record ofo_packet =
  op_packet :: bytes
  op_len :: int
  op_seq_num :: int

record tstack = ustack +
  lists :: "lptr lheap"
  socks :: "nat \<Rightarrow> tcp_sock option"
  spkts :: "nat \<Rightarrow> send_packet option"
  opkts :: "nat \<Rightarrow> ofo_packet option"
  brk :: nat
  addr_of :: "nat \<Rightarrow> u64"
  fresh :: "nat \<Rightarrow> u8"

definition on_lists :: "(lptr lheap \<Rightarrow> lptr lheap option) \<Rightarrow> tstack \<Rightarrow> tstack option" where
  "on_lists f s = map_option (\<lambda>h. s\<lparr>lists := h\<rparr>) (f (lists s))"

definition on_sock :: "nat \<Rightarrow> (tcp_sock \<Rightarrow> tcp_sock) \<Rightarrow> tstack \<Rightarrow> tstack option" where
  "on_sock p f s = map_option (\<lambda>k. s\<lparr>socks := (socks s)(p \<mapsto> f k)\<rparr>) (socks s p)"

definition malloc_bytes :: "nat \<Rightarrow> tstack \<Rightarrow> bytes" where
  "malloc_bytes n s = map (fresh s) [0..<n]"

definition zero_node :: "lptr list_head" where
  "zero_node = \<lparr>lh_next = Null, lh_prev = Null\<rparr>"

text \<open>The list nodes inside a \<^verbatim>\<open>struct tcp_sock\<close>.\<close>

definition sock_nodes :: "nat \<Rightarrow> lptr list" where
  "sock_nodes p = [HashList p, BindHashList p, ListenQueue p, AcceptQueue p, SkList p,
     Timewait p, RetransTimer p, SendBuf p, OfoBuf p]"

section \<open>Allocation\<close>

text \<open>\<^verbatim>\<open>init_tcp_stack\<close> initialises the tables; the timer thread it starts initialises \<^verbatim>\<open>timer_list\<close> when it
  runs.\<close>

definition init_tcp_stack :: "tstack \<Rightarrow> tstack option" where
  "init_tcp_stack s = do {
     s \<leftarrow> fold_opt (\<lambda>i. on_lists (\<lambda>h. init_list_head h (EstablishedTable i))) [0..<TCP_HASH_SIZE] s;
     s \<leftarrow> fold_opt (\<lambda>i. on_lists (\<lambda>h. init_list_head h (ListenTable i))) [0..<TCP_HASH_SIZE] s;
     fold_opt (\<lambda>i. on_lists (\<lambda>h. init_list_head h (BindTable i))) [0..<TCP_HASH_SIZE] s }"

definition tcp_timer_thread_init :: "tstack \<Rightarrow> tstack option" where
  "tcp_timer_thread_init s = on_lists (\<lambda>h. init_list_head h TimerList) s"

definition timer0 :: tcp_timer where
  "timer0 = \<lparr>tm_type = 0, tm_timeout = 0, retrans_number = 0\<rparr>"

definition alloc_tcp_sock :: "tstack \<Rightarrow> (nat \<times> tstack) option" where
  "alloc_tcp_sock s = do {
     let p = brk s;
     let h = fold (\<lambda>n h. h(n \<mapsto> zero_node)) (sock_nodes p) (lists s);
     h \<leftarrow> init_list_head h (SkList p);
     h \<leftarrow> init_list_head h (ListenQueue p);
     h \<leftarrow> init_list_head h (AcceptQueue p);
     rb \<leftarrow> alloc_ring_buffer (int (unat TCP_DEFAULT_WINDOW));
     let k = \<lparr>sk_sip = 0, sk_sport = 0, sk_dip = 0, sk_dport = 0, parent = None, ref_cnt = 0,
       accept_backlog = 0, backlog = 0, timewait = timer0, retrans_timer = timer0,
       wait_connect = alloc_wait_struct, wait_accept = alloc_wait_struct,
       wait_recv = alloc_wait_struct, wait_send = alloc_wait_struct, rcv_buf = rb,
       state = TCP_CLOSED, iss = 0, snd_una = 0, snd_nxt = 0, rcv_nxt = 0, snd_wnd = 0,
       rcv_wnd = TCP_DEFAULT_WINDOW\<rparr>;
     Some (p, s\<lparr>brk := Suc p, lists := h, socks := (socks s)(p \<mapsto> k)\<rparr>) }"

definition tcp_sock_inc_ref_cnt :: "nat \<Rightarrow> tstack \<Rightarrow> tstack option" where
  "tcp_sock_inc_ref_cnt p = on_sock p (\<lambda>k. k\<lparr>ref_cnt := ref_cnt k + 1\<rparr>)"

definition free_tcp_sock :: "nat \<Rightarrow> tstack \<Rightarrow> tstack option" where
  "free_tcp_sock p s = do {
     s \<leftarrow> on_sock p (\<lambda>k. k\<lparr>ref_cnt := ref_cnt k - 1\<rparr>) s;
     k \<leftarrow> socks s p;
     if ref_cnt k \<le> 0
     then Some (s\<lparr>socks := (socks s)(p := None),
                  lists := fold (\<lambda>n h. h(n := None)) (sock_nodes p) (lists s)\<rparr>)
     else Some s }"

definition tcp_set_state :: "nat \<Rightarrow> tcp_state \<Rightarrow> tstack \<Rightarrow> tstack option" where
  "tcp_set_state p st = on_sock p (\<lambda>k. k\<lparr>state := st\<rparr>)"

section \<open>Hash tables\<close>

text \<open>The container of a \<^verbatim>\<open>hash_list\<close> node; another kind of node would be the start of no socket.\<close>

definition hash_owner :: "lptr \<Rightarrow> tstack \<Rightarrow> (nat \<times> tcp_sock) option" where
  "hash_owner n s = (case n of HashList p \<Rightarrow> map_option (Pair p) (socks s p) | _ \<Rightarrow> None)"

definition owner_opt :: "lptr option \<Rightarrow> tstack \<Rightarrow> nat option option" where
  "owner_opt r s = (case r of None \<Rightarrow> Some None | Some n \<Rightarrow> map_option (Some \<circ> fst) (hash_owner n s))"

definition tcp_sock_lookup_established :: "u32 \<Rightarrow> u32 \<Rightarrow> u16 \<Rightarrow> u16 \<Rightarrow> tstack \<Rightarrow> nat option option" where
  "tcp_sock_lookup_established saddr daddr sport dport s = do {
     r \<leftarrow> list_find_entry_safe (lists s) (EstablishedTable (tcp_hash_function saddr daddr sport dport))
       (\<lambda>n. map_option (\<lambda>(p, k). saddr = sk_sip k \<and> daddr = sk_dip k \<and> sport = sk_sport k \<and> dport = sk_dport k)
              (hash_owner n s));
     owner_opt r s }"

definition tcp_sock_lookup_listen :: "u32 \<Rightarrow> u16 \<Rightarrow> tstack \<Rightarrow> nat option option" where
  "tcp_sock_lookup_listen saddr sport s = do {
     r \<leftarrow> list_find_entry_safe (lists s) (ListenTable (tcp_hash_function 0 0 sport 0))
       (\<lambda>n. map_option (\<lambda>(p, k). sk_sport k = sport) (hash_owner n s));
     owner_opt r s }"

definition tcp_sock_lookup :: "tcp_cb \<Rightarrow> tstack \<Rightarrow> nat option option" where
  "tcp_sock_lookup cb s = do {
     let saddr = cb_daddr cb; let daddr = cb_saddr cb;
     let sport = cb_dport cb; let dport = cb_sport cb;
     tsk \<leftarrow> tcp_sock_lookup_established saddr daddr sport dport s;
     (case tsk of Some p \<Rightarrow> Some (Some p) | None \<Rightarrow> tcp_sock_lookup_listen saddr sport s) }"

definition tcp_bind_hash :: "nat \<Rightarrow> tstack \<Rightarrow> tstack option" where
  "tcp_bind_hash p s = do {
     k \<leftarrow> socks s p;
     s \<leftarrow> on_lists (\<lambda>h. list_add_head h (BindHashList p) (BindTable (tcp_hash_function 0 0 (sk_sport k) 0))) s;
     tcp_sock_inc_ref_cnt p s }"

definition tcp_bind_unhash :: "nat \<Rightarrow> tstack \<Rightarrow> tstack option" where
  "tcp_bind_unhash p s = do {
     e \<leftarrow> list_empty (lists s) (BindHashList p);
     if e then Some s
     else do { s \<leftarrow> on_lists (\<lambda>h. list_delete_entry h (BindHashList p)) s; free_tcp_sock p s } }"

text \<open>\<^verbatim>\<open>tcp_port_in_use\<close> walks the bind table, which links the sockets by \<^verbatim>\<open>bind_hash_list\<close>, with the member
  \<^verbatim>\<open>hash_list\<close>. The pointer it computes is therefore 16 bytes behind the start of the socket, and what
  it reads as \<^verbatim>\<open>sk_sport\<close> (offset 4) is at offset 20 of the socket: bits 32 to 47 of the pointer
  \<^verbatim>\<open>parent\<close>, which occupies the offsets 16 to 23 on a 64-bit little-endian machine.\<close>

definition misread_sport :: "tcp_sock \<Rightarrow> tstack \<Rightarrow> u16" where
  "misread_sport k s = (case parent k of None \<Rightarrow> 0 | Some q \<Rightarrow> ucast (drop_bit 32 (addr_of s q)))"

definition tcp_port_in_use :: "u16 \<Rightarrow> tstack \<Rightarrow> bool option" where
  "tcp_port_in_use sport s = do {
     r \<leftarrow> list_find_entry (lists s) (BindTable (tcp_hash_function 0 0 sport 0))
       (\<lambda>n. case n of BindHashList p \<Rightarrow> map_option (\<lambda>k. misread_sport k s = sport) (socks s p) | _ \<Rightarrow> None);
     Some (r \<noteq> None) }"

definition PORT_MIN :: nat where "PORT_MIN = 12345"
definition PORT_MAX :: nat where "PORT_MAX = 23456"

function get_port_from :: "nat \<Rightarrow> tstack \<Rightarrow> u16 option" where
  "get_port_from port s =
     (if port < PORT_MAX then do {
        b \<leftarrow> tcp_port_in_use (of_nat port) s;
        if b then get_port_from (Suc port) s else Some (of_nat port) }
      else Some 0)"
  by pat_completeness auto
termination by (relation "measure (\<lambda>(port, s). PORT_MAX - port)") (auto simp: PORT_MAX_def)

declare get_port_from.simps [simp del]

definition tcp_get_port :: "tstack \<Rightarrow> u16 option" where
  "tcp_get_port s = get_port_from PORT_MIN s"

definition tcp_sock_set_sport :: "nat \<Rightarrow> u16 \<Rightarrow> tstack \<Rightarrow> (int \<times> tstack) option" where
  "tcp_sock_set_sport p port s = do {
     choice \<leftarrow> (if port \<noteq> 0 then do { b \<leftarrow> tcp_port_in_use port s; Some (if b then None else Some port) }
               else do { q \<leftarrow> tcp_get_port s; Some (if q = 0 then None else Some q) });
     (case choice of
        None \<Rightarrow> Some (- 1, s)
      | Some port \<Rightarrow> do {
          s \<leftarrow> on_sock p (\<lambda>k. k\<lparr>sk_sport := port\<rparr>) s;
          s \<leftarrow> tcp_bind_hash p s;
          Some (0, s) }) }"

definition tcp_hash :: "nat \<Rightarrow> tstack \<Rightarrow> (int \<times> tstack) option" where
  "tcp_hash p s = do {
     k \<leftarrow> socks s p;
     if state k = TCP_CLOSED then Some (- 1, s)
     else if state k = TCP_LISTEN then do {
       s \<leftarrow> on_lists (\<lambda>h. list_add_head h (HashList p) (ListenTable (tcp_hash_function 0 0 (sk_sport k) 0))) s;
       s \<leftarrow> tcp_sock_inc_ref_cnt p s;
       Some (0, s) }
     else do {
       let l = EstablishedTable (tcp_hash_function (sk_sip k) (sk_dip k) (sk_sport k) (sk_dport k));
       r \<leftarrow> list_find_entry (lists s) l
         (\<lambda>n. map_option (\<lambda>(q, t). sk_sip k = sk_sip t \<and> sk_dip k = sk_dip t \<and> sk_sport k = sk_sport t
                                   \<and> sk_dport k = sk_dport t) (hash_owner n s));
       if r \<noteq> None then Some (- 1, s)
       else do {
         s \<leftarrow> on_lists (\<lambda>h. list_add_head h (HashList p) l) s;
         s \<leftarrow> tcp_sock_inc_ref_cnt p s;
         Some (0, s) } } }"

definition tcp_unhash :: "nat \<Rightarrow> tstack \<Rightarrow> tstack option" where
  "tcp_unhash p s = do {
     e \<leftarrow> list_empty (lists s) (HashList p);
     if e then Some s
     else do { s \<leftarrow> on_lists (\<lambda>h. list_delete_entry h (HashList p)) s; free_tcp_sock p s } }"

text \<open>The address in \<^verbatim>\<open>skaddr\<close> is in network order and ignored.\<close>

definition tcp_sock_bind :: "nat \<Rightarrow> u16 \<Rightarrow> tstack \<Rightarrow> (int \<times> tstack) option" where
  "tcp_sock_bind p skport s = tcp_sock_set_sport p (ntohs skport) s"

definition tcp_sock_listen :: "nat \<Rightarrow> int \<Rightarrow> tstack \<Rightarrow> (int \<times> tstack) option" where
  "tcp_sock_listen p n s = do {
     s \<leftarrow> on_sock p (\<lambda>k. k\<lparr>backlog := n\<rparr>) s;
     s \<leftarrow> tcp_set_state p TCP_LISTEN s;
     (r, s) \<leftarrow> tcp_hash p s;
     Some (0, s) }"

section \<open>Timers\<close>

definition TCP_TIMER_SCAN_INTERVAL :: int where "TCP_TIMER_SCAN_INTERVAL = 100000"
definition TCP_TIMEWAIT_TIMEOUT :: int where "TCP_TIMEWAIT_TIMEOUT = 2 * 1000000"
definition TCP_RETRANS_INTERVAL :: int where "TCP_RETRANS_INTERVAL = 400000"

definition tcp_set_timewait_timer :: "nat \<Rightarrow> tstack \<Rightarrow> tstack option" where
  "tcp_set_timewait_timer p s = do {
     s \<leftarrow> on_sock p (\<lambda>k. k\<lparr>timewait := (timewait k)\<lparr>tm_type := 0, tm_timeout := TCP_TIMEWAIT_TIMEOUT\<rparr>\<rparr>) s;
     s \<leftarrow> on_lists (\<lambda>h. list_add_tail h (Timewait p) TimerList) s;
     tcp_sock_inc_ref_cnt p s }"

definition tcp_set_retrans_timer :: "nat \<Rightarrow> tstack \<Rightarrow> tstack option" where
  "tcp_set_retrans_timer p s = do {
     s \<leftarrow> on_sock p (\<lambda>k. k\<lparr>retrans_timer :=
            \<lparr>tm_type = 1, tm_timeout = TCP_RETRANS_INTERVAL, retrans_number = 0\<rparr>\<rparr>) s;
     on_lists (\<lambda>h. list_add_tail h (RetransTimer p) TimerList) s }"

definition tcp_remove_retrans_timer :: "nat \<Rightarrow> tstack \<Rightarrow> tstack option" where
  "tcp_remove_retrans_timer p s = on_lists (\<lambda>h. list_delete_entry h (RetransTimer p)) s"

section \<open>Output\<close>

text \<open>Appending a copy of a packet to the list of unacknowledged packets.\<close>

definition append_send_buf :: "nat \<Rightarrow> bytes \<Rightarrow> int \<Rightarrow> tstack \<Rightarrow> tstack option" where
  "append_send_buf p packet len s = do {
     copy \<leftarrow> (if len < 0 then None else load_bytes packet 0 (nat len));
     let n = brk s;
     let s = s\<lparr>brk := Suc n, spkts := (spkts s)(n \<mapsto> \<lparr>sp_packet = Some copy, sp_len = len\<rparr>),
               lists := (lists s)(SendPkt n \<mapsto> zero_node)\<rparr>;
     on_lists (\<lambda>h. list_add_tail h (SendPkt n) (SendBuf p)) s }"

abbreviation CTL_SIZE :: nat where "CTL_SIZE \<equiv> 54"

text \<open>The packet of both versions of \<^verbatim>\<open>tcp_send_control_packet\<close>.\<close>

definition control_packet :: "nat \<Rightarrow> u8 \<Rightarrow> tstack \<Rightarrow> (bytes \<times> tstack) option" where
  "control_packet p flags s = do {
     k \<leftarrow> socks s p;
     tcp_control_segment (malloc_bytes CTL_SIZE s) (sk_sip k) (sk_dip k) (sk_sport k) (sk_dport k)
       (snd_nxt k) (rcv_nxt k) flags (rcv_wnd k) s }"

definition tcp_send_control_packet :: "nat \<Rightarrow> u8 \<Rightarrow> tstack \<Rightarrow> tstack option" where
  "tcp_send_control_packet p flags s = do {
     (packet, s) \<leftarrow> control_packet p flags s;
     s \<leftarrow> (if has_flag flags (TCP_SYN OR TCP_FIN) then do {
             s \<leftarrow> on_sock p (\<lambda>k. k\<lparr>snd_nxt := snd_nxt k + 1\<rparr>) s;
             s \<leftarrow> append_send_buf p packet (int CTL_SIZE) s;
             tcp_set_retrans_timer p s }
           else Some s);
     ip_send_packet packet (int CTL_SIZE) s }"

text \<open>Lab 16 has no retransmission.\<close>

definition tcp_send_control_packet_16 :: "nat \<Rightarrow> u8 \<Rightarrow> tstack \<Rightarrow> tstack option" where
  "tcp_send_control_packet_16 p flags s = do {
     (packet, s) \<leftarrow> control_packet p flags s;
     s \<leftarrow> (if has_flag flags (TCP_SYN OR TCP_FIN) then on_sock p (\<lambda>k. k\<lparr>snd_nxt := snd_nxt k + 1\<rparr>) s
           else Some s);
     ip_send_packet packet (int CTL_SIZE) s }"

definition tcp_send_reset :: "tcp_cb \<Rightarrow> tstack \<Rightarrow> tstack option" where
  "tcp_send_reset cb s = do {
     (packet, s) \<leftarrow> tcp_control_segment (malloc_bytes CTL_SIZE s) (cb_daddr cb) (cb_saddr cb)
        (cb_dport cb) (cb_sport cb) 0 (cb_seq_end cb) (TCP_RST OR TCP_ACK) 0 s;
     ip_send_packet packet (int CTL_SIZE) s }"

definition data_packet :: "nat \<Rightarrow> bytes \<Rightarrow> int \<Rightarrow> tstack \<Rightarrow> (bytes \<times> tstack) option" where
  "data_packet p packet len s = do {
     k \<leftarrow> socks s p;
     (packet, s) \<leftarrow> tcp_data_segment packet len (sk_sip k) (sk_dip k) (sk_sport k) (sk_dport k)
       (snd_nxt k) (rcv_nxt k) (rcv_wnd k) s;
     let tcp_data_len = len - int ETHER_HDR_SIZE - int IP_BASE_HDR_SIZE - int TCP_BASE_HDR_SIZE;
     s \<leftarrow> on_sock p (\<lambda>k. k\<lparr>snd_nxt := snd_nxt k + of_int tcp_data_len, snd_wnd := snd_wnd k - of_int tcp_data_len\<rparr>) s;
     Some (packet, s) }"

definition tcp_send_packet :: "nat \<Rightarrow> bytes \<Rightarrow> int \<Rightarrow> tstack \<Rightarrow> tstack option" where
  "tcp_send_packet p packet len s = do {
     (packet, s) \<leftarrow> data_packet p packet len s;
     s \<leftarrow> append_send_buf p packet len s;
     s \<leftarrow> tcp_set_retrans_timer p s;
     ip_send_packet packet len s }"

definition tcp_send_packet_16 :: "nat \<Rightarrow> bytes \<Rightarrow> int \<Rightarrow> tstack \<Rightarrow> tstack option" where
  "tcp_send_packet_16 p packet len s = do {
     (packet, s) \<leftarrow> data_packet p packet len s;
     ip_send_packet packet len s }"

text \<open>\<^verbatim>\<open>remove_ack_data\<close>: one entry of the loop over \<^verbatim>\<open>send_buf\<close>, then the loop. The comparison
  \<^verbatim>\<open>ack_num >= ntohl(tcp->seq)\<close> converts \<^verbatim>\<open>ack_num\<close> back to an unsigned number.\<close>

definition remove_ack_body :: "nat \<Rightarrow> u32 \<Rightarrow> lptr \<Rightarrow> tstack \<Rightarrow> tstack option" where
  "remove_ack_body p ack_num pos s = (case pos of
     SendPkt n \<Rightarrow> do {
       e \<leftarrow> spkts s n;
       packet \<leftarrow> sp_packet e;
       ip \<leftarrow> get_ip packet ETHER_HDR_SIZE;
       tcp \<leftarrow> get_tcp packet (ETHER_HDR_SIZE + IP_HDR_SIZE ip);
       if ack_num \<ge> ntohl (th_seq tcp) then do {
         let dlen = int (unat (ntohs (ip_tot_len ip))) - int (IP_HDR_SIZE ip) - int (TCP_HDR_SIZE tcp);
         s \<leftarrow> on_sock p (\<lambda>k. k\<lparr>snd_wnd := snd_wnd k + of_int dlen\<rparr>) s;
         let s = s\<lparr>spkts := (spkts s)(n \<mapsto> e\<lparr>sp_packet := None\<rparr>)\<rparr>;
         on_lists (\<lambda>h. list_delete_entry h (SendPkt n)) s }
       else Some s }
   | _ \<Rightarrow> None)"

text \<open>\<^verbatim>\<open>list_for_each_entry_safe\<close> over a list of the state.\<close>

definition for_each_list :: "lptr \<Rightarrow> (lptr \<Rightarrow> tstack \<Rightarrow> tstack option) \<Rightarrow> tstack \<Rightarrow> tstack option" where
  "for_each_list head body s =
     map_option snd (list_for_each_entry_safe head
       (\<lambda>a (h, s). map_option (\<lambda>s'. (lists s', s')) (body a s)) (lists s, s))"

definition remove_ack_data :: "nat \<Rightarrow> u32 \<Rightarrow> tstack \<Rightarrow> tstack option" where
  "remove_ack_data p ack_num s = do {
     s \<leftarrow> tcp_remove_retrans_timer p s;
     s \<leftarrow> for_each_list (SendBuf p) (remove_ack_body p ack_num) s;
     e \<leftarrow> list_empty (lists s) (SendBuf p);
     if e then Some s else tcp_set_retrans_timer p s }"

definition tcp_trans_finish :: "nat \<Rightarrow> tstack \<Rightarrow> bool option" where
  "tcp_trans_finish p s = list_empty (lists s) (SendBuf p)"

section \<open>Socket calls\<close>

text \<open>\<^verbatim>\<open>wake_up\<close> and \<^verbatim>\<open>sleep_on\<close> on one of the four wait structures of a socket, given by its selector and
  update function. While the caller waits, \<open>env\<close> is what the other threads do.\<close>

type_synonym wait_field = "(tcp_sock \<Rightarrow> synch_wait) \<times> ((synch_wait \<Rightarrow> synch_wait) \<Rightarrow> tcp_sock \<Rightarrow> tcp_sock)"

definition wake :: "wait_field \<Rightarrow> nat \<Rightarrow> tstack \<Rightarrow> tstack option" where
  "wake f p = on_sock p (snd f (\<lambda>w. snd (wake_up w)))"

definition sleep_on :: "wait_field \<Rightarrow> (tstack \<Rightarrow> tstack option) \<Rightarrow> nat \<Rightarrow> tstack \<Rightarrow> tstack option" where
  "sleep_on f env p s = do {
     k \<leftarrow> socks s p;
     let (wait, w) = sleep_enter (fst f k);
     s \<leftarrow> on_sock p (snd f (\<lambda>_. w)) s;
     if wait then do {
       s \<leftarrow> env s;
       on_sock p (snd f (\<lambda>w. (sleep_leave w)\<lparr>cond := False\<rparr>)) s }
     else Some s }"

definition f_connect :: wait_field where "f_connect = (wait_connect, wait_connect_update)"
definition f_accept :: wait_field where "f_accept = (wait_accept, wait_accept_update)"
definition f_recv :: wait_field where "f_recv = (wait_recv, wait_recv_update)"
definition f_send :: wait_field where "f_send = (wait_send, wait_send_update)"

text \<open>\<^verbatim>\<open>tcp_new_iss\<close>; \<open>send_ctl\<close> is the lab's version of \<^verbatim>\<open>tcp_send_control_packet\<close>.\<close>

definition tcp_new_iss :: "tstack \<Rightarrow> u32 \<times> tstack" where
  "tcp_new_iss s = (let (r, s) = rand s in (of_nat r, s))"

definition tcp_sock_connect_with ::
  "(nat \<Rightarrow> u8 \<Rightarrow> tstack \<Rightarrow> tstack option) \<Rightarrow> (tstack \<Rightarrow> tstack option) \<Rightarrow> nat \<Rightarrow> u32 \<Rightarrow> u16 \<Rightarrow> tstack \<Rightarrow>
   (int \<times> tstack) option" where
  "tcp_sock_connect_with send_ctl env p skip skport s = do {
     s \<leftarrow> on_sock p (\<lambda>k. k\<lparr>sk_dip := ntohl skip, sk_dport := ntohs skport\<rparr>) s;
     lip \<leftarrow> (case iface_list s of [] \<Rightarrow> None | i # _ \<Rightarrow> Some (if_ip i));
     s \<leftarrow> on_sock p (\<lambda>k. k\<lparr>sk_sip := lip\<rparr>) s;
     port \<leftarrow> tcp_get_port s;
     (r, s) \<leftarrow> tcp_sock_set_sport p port s;
     if r < 0 then Some (- 1, s)
     else do {
       let (x, s) = tcp_new_iss s;
       s \<leftarrow> on_sock p (\<lambda>k. k\<lparr>iss := x, snd_nxt := x\<rparr>) s;
       s \<leftarrow> tcp_set_state p TCP_SYN_SENT s;
       (r, s) \<leftarrow> tcp_hash p s;
       s \<leftarrow> send_ctl p TCP_SYN s;
       s \<leftarrow> sleep_on f_connect env p s;
       Some (1, s) } }"

definition tcp_sock_connect where
  "tcp_sock_connect = tcp_sock_connect_with tcp_send_control_packet"

definition tcp_sock_connect_16 where
  "tcp_sock_connect_16 = tcp_sock_connect_with tcp_send_control_packet_16"

definition tcp_sock_accept_queue_full :: "nat \<Rightarrow> tstack \<Rightarrow> bool option" where
  "tcp_sock_accept_queue_full p s = map_option (\<lambda>k. accept_backlog k \<ge> backlog k) (socks s p)"

definition tcp_sock_accept_enqueue :: "nat \<Rightarrow> tstack \<Rightarrow> tstack option" where
  "tcp_sock_accept_enqueue p s = do {
     e \<leftarrow> list_empty (lists s) (SkList p);
     s \<leftarrow> (if e then Some s else on_lists (\<lambda>h. list_delete_entry h (SkList p)) s);
     k \<leftarrow> socks s p;
     q \<leftarrow> parent k;
     s \<leftarrow> on_lists (\<lambda>h. list_add_tail h (SkList p) (AcceptQueue q)) s;
     on_sock q (\<lambda>k. k\<lparr>accept_backlog := accept_backlog k + 1\<rparr>) s }"

definition sk_entry :: "lptr \<Rightarrow> nat option" where
  "sk_entry n = (case n of SkList p \<Rightarrow> Some p | _ \<Rightarrow> None)"

definition tcp_sock_accept_dequeue :: "nat \<Rightarrow> tstack \<Rightarrow> (nat \<times> tstack) option" where
  "tcp_sock_accept_dequeue p s = do {
     n \<leftarrow> nxt (lists s) (AcceptQueue p);
     c \<leftarrow> sk_entry n;
     s \<leftarrow> on_lists (\<lambda>h. list_delete_entry h (SkList c)) s;
     s \<leftarrow> on_lists (\<lambda>h. init_list_head h (SkList c)) s;
     s \<leftarrow> on_sock p (\<lambda>k. k\<lparr>accept_backlog := accept_backlog k - 1\<rparr>) s;
     Some (c, s) }"

definition tcp_sock_accept :: "(tstack \<Rightarrow> tstack option) \<Rightarrow> nat \<Rightarrow> tstack \<Rightarrow> (nat option \<times> tstack) option" where
  "tcp_sock_accept env p s = do {
     k \<leftarrow> socks s p;
     s \<leftarrow> (if accept_backlog k = 0 then sleep_on f_accept env p s else Some s);
     k \<leftarrow> socks s p;
     if accept_backlog k \<noteq> 0 then do {
       (c, s) \<leftarrow> tcp_sock_accept_dequeue p s;
       s \<leftarrow> tcp_set_state c TCP_ESTABLISHED s;
       Some (Some c, s) }
     else Some (None, s) }"

partial_function (option) tcp_sock_clear_listen_queue :: "nat \<Rightarrow> tstack \<Rightarrow> tstack option" where
  "tcp_sock_clear_listen_queue p s =
     Option.bind (list_empty (lists s) (ListenQueue p)) (\<lambda>e.
     if e then Some s
     else Option.bind (nxt (lists s) (ListenQueue p)) (\<lambda>n.
          Option.bind (sk_entry n) (\<lambda>c.
          Option.bind (on_lists (\<lambda>h. list_delete_entry h (SkList c)) s) (\<lambda>s.
          Option.bind (socks s c) (\<lambda>k.
          Option.bind (if state k = TCP_SYN_RECV
            then Option.bind (on_sock c (\<lambda>k. k\<lparr>parent := None\<rparr>) s) (\<lambda>s.
                 Option.bind (tcp_unhash c s) (free_tcp_sock c))
            else Some s) (tcp_sock_clear_listen_queue p))))))"

definition tcp_sock_close_with :: "(nat \<Rightarrow> u8 \<Rightarrow> tstack \<Rightarrow> tstack option) \<Rightarrow> nat \<Rightarrow> tstack \<Rightarrow> tstack option" where
  "tcp_sock_close_with send_ctl p s = do {
     k \<leftarrow> socks s p;
     (case state k of
        TCP_LISTEN \<Rightarrow> do {
          s \<leftarrow> tcp_sock_clear_listen_queue p s;
          s \<leftarrow> tcp_unhash p s;
          tcp_set_state p TCP_CLOSED s }
      | TCP_ESTABLISHED \<Rightarrow> do {
          s \<leftarrow> send_ctl p (TCP_FIN OR TCP_ACK) s;
          tcp_set_state p TCP_FIN_WAIT_1 s }
      | TCP_CLOSE_WAIT \<Rightarrow> do {
          s \<leftarrow> send_ctl p (TCP_FIN OR TCP_ACK) s;
          tcp_set_state p TCP_LAST_ACK s }
      | _ \<Rightarrow> Some s) }"

definition tcp_sock_close where
  "tcp_sock_close = tcp_sock_close_with tcp_send_control_packet"

definition tcp_sock_close_16 where
  "tcp_sock_close_16 = tcp_sock_close_with tcp_send_control_packet_16"

section \<open>Basic facts\<close>

lemma on_sock_simp [simp]: "socks s p = Some k \<Longrightarrow> on_sock p f s = Some (s\<lparr>socks := (socks s)(p \<mapsto> f k)\<rparr>)"
  by (simp add: on_sock_def)

lemma on_sock_Some:
  "on_sock p f s = Some s' \<longleftrightarrow> (\<exists>k. socks s p = Some k \<and> s' = s\<lparr>socks := (socks s)(p \<mapsto> f k)\<rparr>)"
  by (auto simp: on_sock_def)

lemma on_lists_simp [simp]: "f (lists s) = Some h \<Longrightarrow> on_lists f s = Some (s\<lparr>lists := h\<rparr>)"
  by (simp add: on_lists_def)

lemma on_lists_Some: "on_lists f s = Some s' \<longleftrightarrow> (\<exists>h. f (lists s) = Some h \<and> s' = s\<lparr>lists := h\<rparr>)"
  by (auto simp: on_lists_def)

lemma length_malloc_bytes [simp]: "length (malloc_bytes n s) = n"
  by (simp add: malloc_bytes_def)

text \<open>A control packet can always be built; what the receiver will see of it.\<close>

lemma control_packet_ok:
  assumes "socks s p = Some k"
  shows "\<exists>m. control_packet p flags s = Some (m, s\<lparr>rand_pos := Suc (rand_pos s)\<rparr>) \<and> whole m 54 \<and> length m = 54
     \<and> ip_header_ok m 14
     \<and> (\<forall>q. forwarded_copy m q \<longrightarrow> tcp_received_as q
           (segment_cb (sk_sip k) (sk_dip k) (sk_sport k) (sk_dport k) (snd_nxt k) (rcv_nxt k) flags (rcv_wnd k) 0))"
  using tcp_control_segment_ok [of "malloc_bytes CTL_SIZE s" "sk_sip k" "sk_dip k" "sk_sport k" "sk_dport k"
      "snd_nxt k" "rcv_nxt k" flags "rcv_wnd k" s] assms
  by (auto simp: control_packet_def whole_def)

lemma send_control_total:
  assumes "socks s p = Some k" "\<not> has_flag flags (TCP_SYN OR TCP_FIN)"
  shows "\<exists>A w. tcp_send_control_packet p flags s = Some (s\<lparr>rand_pos := Suc (rand_pos s), arpcache := A, wire := w\<rparr>)"
proof -
  obtain m where m: "control_packet p flags s = Some (m, s\<lparr>rand_pos := Suc (rand_pos s)\<rparr>)" "whole m 54" "length m = 54"
    using control_packet_ok [OF assms(1), of flags] by blast
  obtain A w where "ip_send_packet m 54 (s\<lparr>rand_pos := Suc (rand_pos s)\<rparr>)
      = Some (s\<lparr>rand_pos := Suc (rand_pos s), arpcache := A, wire := w\<rparr>)"
    using ip_send_packet_total [OF m(2), of "s\<lparr>rand_pos := Suc (rand_pos s)\<rparr>"] m(3) by auto
  then show ?thesis
    using m assms(2) by (intro exI [of _ A] exI [of _ w]) (simp add: tcp_send_control_packet_def)
qed

end
