(* ===== verification/TcpIn.thy ===== *)
theory TcpIn
  imports TcpSock
begin

text \<open>
  TCP input and timers of labs 16 and 17: \<^verbatim>\<open>tcp_in.c\<close> with its state machine, \<^verbatim>\<open>handle_tcp_packet\<close> of
  \<^verbatim>\<open>tcp.c\<close>, the timer scan of \<^verbatim>\<open>tcp_timer.c\<close>, and reading and writing of \<^verbatim>\<open>tcp_apps.c\<close>. Names without a
  suffix are lab 17 (with retransmission and reassembly), names ending in \<open>_16\<close> the versions of lab 16
  that differ.
\<close>

section \<open>Reading and writing\<close>

partial_function (option) tcp_write_loop ::
  "(tstack \<Rightarrow> tstack option) \<Rightarrow> nat \<Rightarrow> bytes \<Rightarrow> int \<Rightarrow> int \<Rightarrow> tstack \<Rightarrow> (int \<times> tstack) option" where
  "tcp_write_loop env p buf len sent_len s =
     (if sent_len < len then
        Option.bind (socks s p) (\<lambda>k.
        Option.bind (if snd_wnd k = 0 then sleep_on f_send env p s else Some s) (\<lambda>s.
        Option.bind (socks s p) (\<lambda>k.
        let data_len = min (int (unat (snd_wnd k))) (min len (1500 - int CTL_SIZE)) in
        Option.bind (load_bytes buf (nat sent_len) (nat data_len)) (\<lambda>data.
        Option.bind (tcp_send_packet p (replicate CTL_SIZE 0 @ data) (int CTL_SIZE + data_len) s)
          (tcp_write_loop env p buf len (sent_len + data_len))))))
      else Some (1, s))"

definition tcp_sock_write :: "(tstack \<Rightarrow> tstack option) \<Rightarrow> nat \<Rightarrow> bytes \<Rightarrow> int \<Rightarrow> tstack \<Rightarrow> (int \<times> tstack) option" where
  "tcp_sock_write env p buf len s = tcp_write_loop env p buf len 0 s"

definition tcp_sock_write_16 :: "(tstack \<Rightarrow> tstack option) \<Rightarrow> nat \<Rightarrow> bytes \<Rightarrow> int \<Rightarrow> tstack \<Rightarrow> (int \<times> tstack) option" where
  "tcp_sock_write_16 env p buf len s = do {
     let data_len = min len (1500 - int CTL_SIZE);
     data \<leftarrow> (if data_len < 0 then None else load_bytes buf 0 (nat data_len));
     s \<leftarrow> tcp_send_packet_16 p (replicate CTL_SIZE 0 @ data) (int CTL_SIZE + data_len) s;
     s \<leftarrow> sleep_on f_send env p s;
     Some (data_len, s) }"

text \<open>Reading returns the C result and the bytes copied to the caller. In both labs the emptiness test
  is outside the critical section of the wait, and the buffer is read after at most one wait.\<close>

definition tcp_sock_read :: "(tstack \<Rightarrow> tstack option) \<Rightarrow> nat \<Rightarrow> int \<Rightarrow> tstack \<Rightarrow> (int \<times> bytes \<times> tstack) option" where
  "tcp_sock_read env p len s = do {
     k \<leftarrow> socks s p;
     e \<leftarrow> ring_buffer_empty (rcv_buf k);
     s \<leftarrow> (if e then sleep_on f_recv env p s else Some s);
     k \<leftarrow> socks s p;
     (n, out, rb) \<leftarrow> read_ring_buffer (rcv_buf k) len;
     s \<leftarrow> on_sock p (\<lambda>k. k\<lparr>rcv_buf := rb\<rparr>) s;
     Some (n, out, s) }"

section \<open>Receiving data\<close>

definition cb_data :: "tcp_cb \<Rightarrow> bytes \<Rightarrow> bytes option" where
  "cb_data cb packet = (if cb_pl_len cb < 0 then None else load_bytes packet (cb_payload cb) (nat (cb_pl_len cb)))"

definition deliver :: "nat \<Rightarrow> bytes \<Rightarrow> tstack \<Rightarrow> tstack option" where
  "deliver p data s = do {
     k \<leftarrow> socks s p;
     rb \<leftarrow> write_ring_buffer (rcv_buf k) data;
     on_sock p (\<lambda>k. k\<lparr>rcv_buf := rb\<rparr>) s }"

text \<open>Lab 16: \<^verbatim>\<open>tcp_rcv_data_packet\<close> also shrinks the advertised window, which is never opened again.\<close>

definition tcp_rcv_data_packet :: "nat \<Rightarrow> tcp_cb \<Rightarrow> bytes \<Rightarrow> tstack \<Rightarrow> tstack option" where
  "tcp_rcv_data_packet p cb packet s = do {
     data \<leftarrow> cb_data cb packet;
     s \<leftarrow> deliver p data s;
     s \<leftarrow> on_sock p (\<lambda>k. k\<lparr>rcv_wnd := rcv_wnd k - of_int (cb_pl_len cb)\<rparr>) s;
     wake f_recv p s }"

text \<open>Lab 17: one entry of the pass over the out-of-order buffer, with the flag of the pass. The sum
  \<^verbatim>\<open>t->seq_num + t->len\<close> is signed.\<close>

definition ofo_body :: "nat \<Rightarrow> lptr \<Rightarrow> bool \<Rightarrow> tstack \<Rightarrow> (bool \<times> tstack) option" where
  "ofo_body p a flag s = (case a of
     OfoPkt n \<Rightarrow> do {
       t \<leftarrow> opkts s n;
       k \<leftarrow> socks s p;
       if of_int (op_seq_num t) = rcv_nxt k then do {
         s \<leftarrow> deliver p (op_packet t) s;
         s \<leftarrow> on_lists (\<lambda>h. list_delete_entry h (OfoPkt n)) s;
         ensure (op_seq_num t + op_len t < 2 ^ 31);
         s \<leftarrow> on_sock p (\<lambda>k. k\<lparr>rcv_nxt := of_int (op_seq_num t + op_len t)\<rparr>) s;
         Some (True, s) }
       else Some (flag, s) }
   | _ \<Rightarrow> None)"

definition ofo_pass :: "nat \<Rightarrow> tstack \<Rightarrow> (bool \<times> tstack) option" where
  "ofo_pass p s =
     map_option snd (list_for_each_entry_safe (OfoBuf p)
       (\<lambda>a (h, flag, s). map_option (\<lambda>(flag', s'). (lists s', flag', s')) (ofo_body p a flag s))
       (lists s, False, s))"

partial_function (option) ofo_drain :: "nat \<Rightarrow> tstack \<Rightarrow> tstack option" where
  "ofo_drain p s = Option.bind (ofo_pass p s) (\<lambda>(flag, s). if flag then ofo_drain p s else Some s)"

definition ofo_append :: "nat \<Rightarrow> tcp_cb \<Rightarrow> bytes \<Rightarrow> tstack \<Rightarrow> tstack option" where
  "ofo_append p cb packet s = do {
     data \<leftarrow> cb_data cb packet;
     let n = brk s;
     let s = s\<lparr>brk := Suc n,
       opkts := (opkts s)(n \<mapsto> \<lparr>op_packet = data, op_len = cb_pl_len cb, op_seq_num = sint (cb_seq cb)\<rparr>),
       lists := (lists s)(OfoPkt n \<mapsto> zero_node)\<rparr>;
     on_lists (\<lambda>h. list_add_tail h (OfoPkt n) (OfoBuf p)) s }"

definition tcp_process_data :: "nat \<Rightarrow> tcp_cb \<Rightarrow> bytes \<Rightarrow> tstack \<Rightarrow> tstack option" where
  "tcp_process_data p cb packet s = do {
     k \<leftarrow> socks s p;
     if cb_seq cb = rcv_nxt k then do {
       data \<leftarrow> cb_data cb packet;
       s \<leftarrow> deliver p data s;
       s \<leftarrow> on_sock p (\<lambda>k. k\<lparr>rcv_nxt := cb_seq_end cb\<rparr>) s;
       s \<leftarrow> wake f_recv p s;
       s \<leftarrow> ofo_drain p s;
       tcp_send_control_packet p TCP_ACK s }
     else if cb_seq cb < rcv_nxt k then do {
       s \<leftarrow> tcp_send_control_packet p TCP_ACK s;
       remove_ack_data p (cb_ack cb) s }
     else ofo_append p cb packet s }"

section \<open>The state machine\<close>

definition tcp_state_listen_with ::
  "(nat \<Rightarrow> u8 \<Rightarrow> tstack \<Rightarrow> tstack option) \<Rightarrow> nat \<Rightarrow> tcp_cb \<Rightarrow> tstack \<Rightarrow> tstack option" where
  "tcp_state_listen_with send_ctl p cb s =
     (if has_flag (cb_flags cb) TCP_SYN then do {
        (c, s) \<leftarrow> alloc_tcp_sock s;
        s \<leftarrow> on_sock c (\<lambda>k. k\<lparr>sk_sip := cb_daddr cb, sk_sport := cb_dport cb, sk_dip := cb_saddr cb,
               sk_dport := cb_sport cb, parent := Some p, rcv_nxt := cb_seq_end cb\<rparr>) s;
        let (x, s) = tcp_new_iss s;
        s \<leftarrow> on_sock c (\<lambda>k. k\<lparr>iss := x, snd_nxt := x\<rparr>) s;
        (r, s) \<leftarrow> tcp_sock_bind c (htons (cb_dport cb)) s;
        s \<leftarrow> tcp_set_state c TCP_SYN_RECV s;
        s \<leftarrow> on_lists (\<lambda>h. list_add_tail h (SkList c) (ListenQueue p)) s;
        s \<leftarrow> send_ctl c (TCP_SYN OR TCP_ACK) s;
        (r, s) \<leftarrow> tcp_hash c s;
        Some s }
      else tcp_send_reset cb s)"

definition tcp_state_listen where
  "tcp_state_listen = tcp_state_listen_with tcp_send_control_packet"

definition tcp_state_listen_16 where
  "tcp_state_listen_16 = tcp_state_listen_with tcp_send_control_packet_16"

definition tcp_state_closed :: "nat \<Rightarrow> tcp_cb \<Rightarrow> tstack \<Rightarrow> tstack option" where
  "tcp_state_closed p cb s = tcp_send_reset cb s"

definition tcp_state_syn_sent :: "nat \<Rightarrow> tcp_cb \<Rightarrow> tstack \<Rightarrow> tstack option" where
  "tcp_state_syn_sent p cb s =
     (if has_flag (cb_flags cb) (TCP_SYN OR TCP_ACK) then do {
        s \<leftarrow> remove_ack_data p (cb_ack cb) s;
        s \<leftarrow> on_sock p (\<lambda>k. k\<lparr>rcv_nxt := cb_seq_end cb, snd_una := cb_ack cb\<rparr>) s;
        s \<leftarrow> tcp_send_control_packet p TCP_ACK s;
        s \<leftarrow> tcp_set_state p TCP_ESTABLISHED s;
        wake f_connect p s }
      else tcp_send_reset cb s)"

definition tcp_state_syn_sent_16 :: "nat \<Rightarrow> tcp_cb \<Rightarrow> tstack \<Rightarrow> tstack option" where
  "tcp_state_syn_sent_16 p cb s =
     (if has_flag (cb_flags cb) (TCP_SYN OR TCP_ACK) then do {
        s \<leftarrow> on_sock p (\<lambda>k. k\<lparr>rcv_nxt := cb_seq_end cb, snd_una := cb_ack cb\<rparr>) s;
        s \<leftarrow> tcp_send_control_packet_16 p TCP_ACK s;
        s \<leftarrow> tcp_set_state p TCP_ESTABLISHED s;
        wake f_connect p s }
      else tcp_send_reset cb s)"

definition tcp_state_syn_recv_16 :: "nat \<Rightarrow> tcp_cb \<Rightarrow> tstack \<Rightarrow> tstack option" where
  "tcp_state_syn_recv_16 p cb s =
     (if has_flag (cb_flags cb) TCP_ACK then do {
        s \<leftarrow> tcp_sock_accept_enqueue p s;
        k \<leftarrow> socks s p;
        q \<leftarrow> parent k;
        wake f_accept q s }
      else tcp_send_reset cb s)"

definition tcp_state_syn_recv :: "nat \<Rightarrow> tcp_cb \<Rightarrow> tstack \<Rightarrow> tstack option" where
  "tcp_state_syn_recv p cb s =
     (if has_flag (cb_flags cb) TCP_ACK then do {
        s \<leftarrow> remove_ack_data p (cb_ack cb) s;
        tcp_state_syn_recv_16 p cb s }
      else tcp_send_reset cb s)"

definition is_tcp_seq_valid :: "nat \<Rightarrow> tcp_cb \<Rightarrow> tstack \<Rightarrow> bool option" where
  "is_tcp_seq_valid p cb s = do {
     k \<leftarrow> socks s p;
     let rcv_end = rcv_nxt k + ucast (if rcv_wnd k > 1 then rcv_wnd k else 1);
     a \<leftarrow> less_than_32b (cb_seq cb) rcv_end;
     if a then less_or_equal_32b (rcv_nxt k) (cb_seq_end cb) else Some False }"

definition tcp_update_window :: "nat \<Rightarrow> tcp_cb \<Rightarrow> tstack \<Rightarrow> tstack option" where
  "tcp_update_window p cb s = do {
     k \<leftarrow> socks s p;
     let old_snd_wnd = snd_wnd k;
     s \<leftarrow> on_sock p (\<lambda>k. k\<lparr>snd_wnd := ucast (cb_rwnd cb)\<rparr>) s;
     if old_snd_wnd = 0 then wake f_send p s else Some s }"

definition tcp_update_window_safe :: "nat \<Rightarrow> tcp_cb \<Rightarrow> tstack \<Rightarrow> tstack option" where
  "tcp_update_window_safe p cb s = do {
     k \<leftarrow> socks s p;
     a \<leftarrow> less_or_equal_32b (snd_una k) (cb_ack cb);
     b \<leftarrow> (if a then less_or_equal_32b (cb_ack cb) (snd_nxt k) else Some False);
     if b then tcp_update_window p cb s else Some s }"

text \<open>\<^verbatim>\<open>tcp_process\<close> of lab 17: first the states that ignore the flags, then the flags, then the states of
  an open connection.\<close>

definition tcp_process_fin :: "nat \<Rightarrow> tcp_cb \<Rightarrow> tstack \<Rightarrow> tstack option" where
  "tcp_process_fin p cb s = do {
     s \<leftarrow> tcp_set_state p TCP_CLOSE_WAIT s;
     s \<leftarrow> (if has_flag (cb_flags cb) TCP_ACK then remove_ack_data p (cb_ack cb) s else Some s);
     s \<leftarrow> on_sock p (\<lambda>k. k\<lparr>rcv_nxt := cb_seq_end cb\<rparr>) s;
     s \<leftarrow> tcp_send_control_packet p TCP_ACK s;
     tcp_sock_close p s }"

definition tcp_process_open :: "nat \<Rightarrow> tcp_cb \<Rightarrow> bytes \<Rightarrow> tstack \<Rightarrow> tstack option" where
  "tcp_process_open p cb packet s =
     (if cb_pl_len cb \<noteq> 0 then tcp_process_data p cb packet s
      else if has_flag (cb_flags cb) TCP_FIN then tcp_process_fin p cb s
      else do {
        s \<leftarrow> (if has_flag (cb_flags cb) TCP_ACK then remove_ack_data p (cb_ack cb) s else Some s);
        if cb_flags cb \<noteq> TCP_ACK then do {
          s \<leftarrow> on_sock p (\<lambda>k. k\<lparr>rcv_nxt := cb_seq_end cb\<rparr>) s;
          tcp_send_control_packet p TCP_ACK s }
        else Some s })"

definition tcp_process_sync :: "nat \<Rightarrow> tcp_cb \<Rightarrow> bytes \<Rightarrow> tcp_state \<Rightarrow> tstack \<Rightarrow> tstack option" where
  "tcp_process_sync p cb packet st s =
     (if has_flag (cb_flags cb) TCP_RST then do { s \<leftarrow> tcp_sock_close p s; free_tcp_sock p s }
      else if has_flag (cb_flags cb) TCP_SYN then do { s \<leftarrow> tcp_send_reset cb s; tcp_sock_close p s }
      else if \<not> has_flag (cb_flags cb) TCP_ACK \<and> \<not> has_flag (cb_flags cb) TCP_FIN then Some s
      else if st = TCP_SYN_RECV then tcp_state_syn_recv p cb s
      else if st = TCP_FIN_WAIT_1 then do {
        s \<leftarrow> remove_ack_data p (cb_ack cb) s; tcp_set_state p TCP_FIN_WAIT_2 s }
      else if st = TCP_FIN_WAIT_2 then
        (if cb_flags cb = TCP_ACK OR TCP_FIN then do {
           s \<leftarrow> on_sock p (\<lambda>k. k\<lparr>rcv_nxt := cb_seq_end cb\<rparr>) s;
           s \<leftarrow> tcp_send_control_packet p TCP_ACK s;
           tcp_set_timewait_timer p s }
         else Some s)
      else if st = TCP_LAST_ACK then do {
        s \<leftarrow> tcp_set_state p TCP_CLOSED s;
        s \<leftarrow> remove_ack_data p (cb_ack cb) s;
        tcp_unhash p s }
      else tcp_process_open p cb packet s)"

definition tcp_process :: "nat \<Rightarrow> tcp_cb \<Rightarrow> bytes \<Rightarrow> tstack \<Rightarrow> tstack option" where
  "tcp_process p cb packet s = do {
     k \<leftarrow> socks s p;
     if state k = TCP_CLOSED then tcp_state_closed p cb s
     else if state k = TCP_LISTEN then tcp_state_listen p cb s
     else if state k = TCP_SYN_SENT then tcp_state_syn_sent p cb s
     else tcp_process_sync p cb packet (state k) s }"

text \<open>\<^verbatim>\<open>tcp_process\<close> of lab 16. The state is read once; the conditional steps at the end run one after the
  other. \<^verbatim>\<open>cb->flags | (TCP_ACK|TCP_FIN)\<close> is never zero.\<close>

definition tcp_process_acked_16 :: "nat \<Rightarrow> tcp_cb \<Rightarrow> tcp_state \<Rightarrow> tstack \<Rightarrow> tstack option" where
  "tcp_process_acked_16 p cb st s = do {
     s \<leftarrow> on_sock p (\<lambda>k. k\<lparr>snd_una := cb_ack cb, rcv_nxt := cb_seq_end cb\<rparr>) s;
     k \<leftarrow> socks s p;
     s \<leftarrow> (if st = TCP_SYN_RECV \<and> cb_ack cb = snd_nxt k then tcp_state_syn_recv_16 p cb s else Some s);
     k \<leftarrow> socks s p;
     s \<leftarrow> (if st = TCP_FIN_WAIT_1 \<and> cb_ack cb = snd_nxt k then do {
             s \<leftarrow> tcp_set_state p TCP_FIN_WAIT_2 s; tcp_send_control_packet_16 p TCP_ACK s } else Some s);
     s \<leftarrow> (if st = TCP_FIN_WAIT_2 \<and> has_flag (cb_flags cb) (TCP_ACK OR TCP_FIN) then do {
             s \<leftarrow> tcp_set_state p TCP_TIME_WAIT s;
             s \<leftarrow> tcp_set_timewait_timer p s;
             tcp_send_control_packet_16 p (TCP_ACK OR TCP_FIN) s } else Some s);
     s \<leftarrow> (if st = TCP_ESTABLISHED \<and> has_flag (cb_flags cb) TCP_FIN then do {
             s \<leftarrow> tcp_set_state p TCP_CLOSE_WAIT s; tcp_send_control_packet_16 p TCP_ACK s } else Some s);
     s \<leftarrow> (if st = TCP_CLOSE_WAIT \<and> cb_flags cb OR (TCP_ACK OR TCP_FIN) \<noteq> 0 then do {
             s \<leftarrow> tcp_set_state p TCP_LAST_ACK s; tcp_send_control_packet_16 p (TCP_ACK OR TCP_FIN) s } else Some s);
     k \<leftarrow> socks s p;
     s \<leftarrow> (if st = TCP_LAST_ACK \<and> cb_ack cb = snd_nxt k then tcp_set_state p TCP_CLOSED s else Some s);
     if st = TCP_ESTABLISHED \<and> cb_flags cb = TCP_ACK then wake f_send p s else Some s }"

definition tcp_process_16 :: "nat \<Rightarrow> tcp_cb \<Rightarrow> bytes \<Rightarrow> tstack \<Rightarrow> tstack option" where
  "tcp_process_16 p cb packet s = do {
     k \<leftarrow> socks s p;
     let st = state k;
     if st = TCP_CLOSED then tcp_state_closed p cb s
     else if st = TCP_LISTEN then tcp_state_listen_16 p cb s
     else if st = TCP_SYN_SENT then tcp_state_syn_sent_16 p cb s
     else do {
       ok \<leftarrow> is_tcp_seq_valid p cb s;
       if \<not> ok then Some s
       else if has_flag (cb_flags cb) TCP_RST then do { s \<leftarrow> tcp_set_state p TCP_CLOSED s; tcp_unhash p s }
       else if has_flag (cb_flags cb) TCP_SYN then do { s \<leftarrow> tcp_send_reset cb s; tcp_set_state p TCP_CLOSED s }
       else if \<not> has_flag (cb_flags cb) TCP_ACK then tcp_send_reset cb s
       else if st = TCP_ESTABLISHED \<and> cb_flags cb = TCP_PSH OR TCP_ACK then do {
         s \<leftarrow> tcp_rcv_data_packet p cb packet s;
         tcp_send_control_packet_16 p TCP_ACK s }
       else tcp_process_acked_16 p cb st s } }"

text \<open>\<^verbatim>\<open>handle_tcp_packet\<close>; a packet for which no socket is found makes \<^verbatim>\<open>tcp_process\<close> dereference a null
  pointer.\<close>

definition handle_tcp_packet_with ::
  "(nat \<Rightarrow> tcp_cb \<Rightarrow> bytes \<Rightarrow> tstack \<Rightarrow> tstack option) \<Rightarrow> bytes \<Rightarrow> nat \<Rightarrow> nat \<Rightarrow> tstack \<Rightarrow> tstack option" where
  "handle_tcp_packet_with process packet ip_off tcp_off s = do {
     c \<leftarrow> tcp_checksum packet ip_off tcp_off;
     tcp \<leftarrow> get_tcp packet tcp_off;
     if c \<noteq> th_checksum tcp then Some s
     else do {
       cb \<leftarrow> tcp_cb_init packet ip_off tcp_off;
       tsk \<leftarrow> tcp_sock_lookup cb s;
       p \<leftarrow> tsk;
       process p cb packet s } }"

definition handle_tcp_packet where
  "handle_tcp_packet = handle_tcp_packet_with tcp_process"

definition handle_tcp_packet_16 where
  "handle_tcp_packet_16 = handle_tcp_packet_with tcp_process_16"

section \<open>The timer scan\<close>

definition timer_at :: "lptr \<Rightarrow> tstack \<Rightarrow> tcp_timer option" where
  "timer_at n s = (case n of
     Timewait p \<Rightarrow> map_option timewait (socks s p)
   | RetransTimer p \<Rightarrow> map_option retrans_timer (socks s p)
   | _ \<Rightarrow> None)"

definition on_timer :: "lptr \<Rightarrow> (tcp_timer \<Rightarrow> tcp_timer) \<Rightarrow> tstack \<Rightarrow> tstack option" where
  "on_timer n f s = (case n of
     Timewait p \<Rightarrow> on_sock p (\<lambda>k. k\<lparr>timewait := f (timewait k)\<rparr>) s
   | RetransTimer p \<Rightarrow> on_sock p (\<lambda>k. k\<lparr>retrans_timer := f (retrans_timer k)\<rparr>) s
   | _ \<Rightarrow> None)"

text \<open>\<^verbatim>\<open>timewait_to_tcp_sock\<close> and \<^verbatim>\<open>retranstimer_to_tcp_sock\<close>.\<close>

definition timewait_to_tcp_sock :: "lptr \<Rightarrow> nat option" where
  "timewait_to_tcp_sock n = (case n of Timewait p \<Rightarrow> Some p | _ \<Rightarrow> None)"

definition retranstimer_to_tcp_sock :: "lptr \<Rightarrow> nat option" where
  "retranstimer_to_tcp_sock n = (case n of RetransTimer p \<Rightarrow> Some p | _ \<Rightarrow> None)"

definition timewait_expired :: "lptr \<Rightarrow> tstack \<Rightarrow> tstack option" where
  "timewait_expired t s = do {
     s \<leftarrow> on_lists (\<lambda>h. list_delete_entry h t) s;
     p \<leftarrow> timewait_to_tcp_sock t;
     k \<leftarrow> socks s p;
     s \<leftarrow> (if parent k = None then tcp_bind_unhash p s else Some s);
     s \<leftarrow> tcp_set_state p TCP_CLOSED s;
     free_tcp_sock p s }"

text \<open>The retransmission branch; the flag says that the scan returns early. The loop doubles the timeout
  \<^verbatim>\<open>retrans_number + 1\<close> times.\<close>

definition retrans_expired :: "lptr \<Rightarrow> tstack \<Rightarrow> (bool \<times> tstack) option" where
  "retrans_expired t s = do {
     p \<leftarrow> retranstimer_to_tcp_sock t;
     k \<leftarrow> socks s p;
     if retrans_number (retrans_timer k) = 3 then do { s \<leftarrow> tcp_sock_close p s; Some (True, s) }
     else do {
       e \<leftarrow> list_empty (lists s) (SendBuf p);
       if e then Some (False, s)
       else do {
         a \<leftarrow> nxt (lists s) (SendBuf p);
         n \<leftarrow> (case a of SendPkt n \<Rightarrow> Some n | _ \<Rightarrow> None);
         buf_pac \<leftarrow> spkts s n;
         packet \<leftarrow> sp_packet buf_pac;
         s \<leftarrow> ip_send_packet packet (sp_len buf_pac) s;
         s \<leftarrow> on_timer t (\<lambda>t. t\<lparr>tm_timeout := TCP_RETRANS_INTERVAL * 2 ^ nat (retrans_number t + 1),
                               retrans_number := retrans_number t + 1\<rparr>) s;
         Some (False, s) } } }"

definition timer_body :: "lptr \<Rightarrow> tstack \<Rightarrow> (bool \<times> tstack) option" where
  "timer_body n s = do {
     s \<leftarrow> on_timer n (\<lambda>t. t\<lparr>tm_timeout := tm_timeout t - TCP_TIMER_SCAN_INTERVAL\<rparr>) s;
     t \<leftarrow> timer_at n s;
     if tm_timeout t \<le> 0 \<and> tm_type t = 0 then do { s \<leftarrow> timewait_expired n s; Some (False, s) }
     else if tm_timeout t \<le> 0 \<and> tm_type t = 1 then retrans_expired n s
     else Some (False, s) }"

definition timer_body_16 :: "lptr \<Rightarrow> tstack \<Rightarrow> (bool \<times> tstack) option" where
  "timer_body_16 n s = do {
     s \<leftarrow> on_timer n (\<lambda>t. t\<lparr>tm_timeout := tm_timeout t - TCP_TIMER_SCAN_INTERVAL\<rparr>) s;
     t \<leftarrow> timer_at n s;
     if tm_timeout t \<le> 0 then do { s \<leftarrow> timewait_expired n s; Some (False, s) }
     else Some (False, s) }"

partial_function (option) timer_loop ::
  "(lptr \<Rightarrow> tstack \<Rightarrow> (bool \<times> tstack) option) \<Rightarrow> lptr \<Rightarrow> lptr \<Rightarrow> tstack \<Rightarrow> tstack option" where
  "timer_loop body pos q s =
     (if pos = TimerList then Some s
      else Option.bind (body pos s) (\<lambda>(stop, s).
           if stop then Some s
           else Option.bind (nxt (lists s) q) (\<lambda>q'. timer_loop body q q' s)))"

definition scan_with :: "(lptr \<Rightarrow> tstack \<Rightarrow> (bool \<times> tstack) option) \<Rightarrow> tstack \<Rightarrow> tstack option" where
  "scan_with body s = do {
     pos \<leftarrow> nxt (lists s) TimerList;
     q \<leftarrow> nxt (lists s) pos;
     timer_loop body pos q s }"

definition tcp_scan_timer_list where "tcp_scan_timer_list = scan_with timer_body"
definition tcp_scan_timer_list_16 where "tcp_scan_timer_list_16 = scan_with timer_body_16"

end
