(* ===== verification/TcpStream.thy ===== *)
theory TcpStream
  imports TcpIn "HOL-Library.Multiset"
begin

text \<open>
  The receiving side of lab 17 delivers the peer's byte stream: the stream is a function \<open>S\<close> from
  offsets to bytes, offset 0 has the sequence number \<open>r0\<close>, and \<open>N\<close> bounds the offsets in play; the
  sequence numbers do not reach the sign bit (the code computes with \<^verbatim>\<open>int\<close>). \<open>rcv_inv\<close> says that the
  bytes already handed to the application (\<open>rd\<close>) and those in the receive buffer are the first \<open>n\<close>
  bytes of the stream, that \<^verbatim>\<open>rcv_nxt\<close> points behind them, and that every segment in the out-of-order
  buffer is a piece of the stream.
\<close>

section \<open>The invariant\<close>

definition piece :: "(nat \<Rightarrow> u8) \<Rightarrow> nat \<Rightarrow> nat \<Rightarrow> bytes" where
  "piece S off l = map S [off..<off + l]"

definition seg_ok :: "u32 \<Rightarrow> (nat \<Rightarrow> u8) \<Rightarrow> nat \<Rightarrow> nat \<Rightarrow> nat \<Rightarrow> ofo_packet \<Rightarrow> bool" where
  "seg_ok r0 S N off l e \<longleftrightarrow> op_seq_num e = int (unat r0 + off) \<and> op_len e = int l
     \<and> op_packet e = piece S off l \<and> 0 < l \<and> off + l \<le> N"

definition rcv_core :: "u32 \<Rightarrow> (nat \<Rightarrow> u8) \<Rightarrow> nat \<Rightarrow> bytes \<Rightarrow> nat \<Rightarrow> tcp_sock \<Rightarrow> bool" where
  "rcv_core r0 S N rd n k \<longleftrightarrow> state k = TCP_ESTABLISHED \<and> rcv_nxt k = r0 + of_nat n \<and> n \<le> N \<and> rb_inv (rcv_buf k)
     \<and> rd @ rb_data (rcv_buf k) = piece S 0 n \<and> int N < int (length rd) + rb_size (rcv_buf k)"

definition ofo_ok :: "u32 \<Rightarrow> (nat \<Rightarrow> u8) \<Rightarrow> nat \<Rightarrow> nat \<Rightarrow> nat list \<Rightarrow> tstack \<Rightarrow> bool" where
  "ofo_ok r0 S N p ns s \<longleftrightarrow> dlist (lists s) (OfoBuf p) (map OfoPkt ns)
     \<and> (\<forall>m \<in> set ns. m < brk s \<and> (\<exists>e off l. opkts s m = Some e \<and> seg_ok r0 S N off l e))"

definition rcv_inv :: "u32 \<Rightarrow> (nat \<Rightarrow> u8) \<Rightarrow> nat \<Rightarrow> bytes \<Rightarrow> nat \<Rightarrow> nat \<Rightarrow> nat list \<Rightarrow> tstack \<Rightarrow> bool" where
  "rcv_inv r0 S N rd n p ns s \<longleftrightarrow>
     (\<exists>k. socks s p = Some k \<and> rcv_core r0 S N rd n k) \<and> ofo_ok r0 S N p ns s"

text \<open>No buffered segment starts where the stream is to be continued.\<close>

definition no_next :: "u32 \<Rightarrow> nat \<Rightarrow> nat list \<Rightarrow> tstack \<Rightarrow> bool" where
  "no_next r0 n ns s \<longleftrightarrow> (\<forall>m \<in> set ns. \<forall>e. opkts s m = Some e \<longrightarrow> of_int (op_seq_num e) \<noteq> r0 + of_nat n)"

text \<open>The buffered segments \<open>ms\<close>, one after the other, are the stream from offset \<open>n\<close> to offset \<open>n'\<close>.\<close>

fun delivered :: "u32 \<Rightarrow> (nat \<Rightarrow> u8) \<Rightarrow> nat \<Rightarrow> tstack \<Rightarrow> nat \<Rightarrow> nat list \<Rightarrow> nat \<Rightarrow> bool" where
  "delivered r0 S N s n [] n' \<longleftrightarrow> n' = n"
| "delivered r0 S N s n (m # ms) n' \<longleftrightarrow>
     (\<exists>e l. opkts s m = Some e \<and> seg_ok r0 S N n l e \<and> delivered r0 S N s (n + l) ms n')"

lemma delivered_append: "delivered r0 S N s n (ms @ ds) n' \<longleftrightarrow> (\<exists>i. delivered r0 S N s n ms i \<and> delivered r0 S N s i ds n')"
  by (induction ms arbitrary: n) auto

lemma delivered_cong: "opkts s' = opkts s \<Longrightarrow> delivered r0 S N s' n ms n' = delivered r0 S N s n ms n'"
  by (induction ms arbitrary: n) auto

lemma delivered_le: "delivered r0 S N s n ms n' \<Longrightarrow> n \<le> n'"
  by (induction ms arbitrary: n) fastforce+

text \<open>What receiving leaves alone.\<close>

definition ofo_frame :: "nat \<Rightarrow> lptr lheap \<Rightarrow> lptr lheap \<Rightarrow> bool" where
  "ofo_frame p h h' \<longleftrightarrow> (\<forall>a. a \<noteq> OfoBuf p \<longrightarrow> a \<notin> range OfoPkt \<longrightarrow> h' a = h a)"

definition rcv_frame :: "nat \<Rightarrow> tstack \<Rightarrow> tstack \<Rightarrow> bool" where
  "rcv_frame p s s' \<longleftrightarrow> (\<forall>q. q \<noteq> p \<longrightarrow> socks s' q = socks s q) \<and> wire s' = wire s \<and> opkts s' = opkts s \<and> brk s' = brk s
     \<and> ofo_frame p (lists s) (lists s')"

lemma rcv_frame_trans: "rcv_frame p s s1 \<Longrightarrow> rcv_frame p s1 s2 \<Longrightarrow> rcv_frame p s s2"
  by (simp add: rcv_frame_def ofo_frame_def)

lemma rcv_frame_refl [simp]: "rcv_frame p s s"
  by (simp add: rcv_frame_def ofo_frame_def)

section \<open>One segment\<close>

lemma piece_append: "piece S 0 n @ piece S n l = piece S 0 (n + l)"
  by (simp add: piece_def flip: map_append upt_add_eq_append)

lemma length_piece [simp]: "length (piece S off l) = l"
  by (simp add: piece_def)

lemma seq_inject:
  assumes "unat r0 + N < 2 ^ 31" "a \<le> N" "b \<le> N" "(r0 :: u32) + of_nat a = r0 + of_nat b"
  shows "a = b"
proof -
  have "(of_nat a :: u32) = of_nat b" using assms(4) by simp
  then have "unat (of_nat a :: u32) = unat (of_nat b :: u32)" by simp
  then show ?thesis using assms(1-3) by (simp add: unat_of_nat)
qed

lemma of_int_seq: "(of_int (int (unat r0 + off)) :: u32) = r0 + of_nat off"
  by simp

lemma deliver_piece:
  assumes "rcv_core r0 S N rd n k" "0 < l" "n + l \<le> N"
  shows "\<exists>rb. write_ring_buffer (rcv_buf k) (piece S n l) = Some rb
     \<and> rcv_core r0 S N rd (n + l) (k\<lparr>rcv_buf := rb, rcv_nxt := r0 + of_nat (n + l)\<rparr>)"
proof -
  have "length (rd @ rb_data (rcv_buf k)) = n"
    using assms(1) by (simp only: rcv_core_def length_piece)
  then have "int (length (rb_data (rcv_buf k)) + length (piece S n l)) < rb_size (rcv_buf k)"
    using assms by (simp add: rcv_core_def)
  moreover have "piece S n l \<noteq> []" using assms(2) by (simp add: piece_def)
  ultimately obtain rb where "write_ring_buffer (rcv_buf k) (piece S n l) = Some rb" "rb_inv rb"
    "rb_data rb = rb_data (rcv_buf k) @ piece S n l" "rb_size rb = rb_size (rcv_buf k)"
    using write_data [of "rcv_buf k" "piece S n l"] assms(1) by (auto simp: rcv_core_def)
  then show ?thesis
    using assms by (auto simp: rcv_core_def piece_append simp flip: append_assoc)
qed

lemma ofo_ok_delete:
  assumes "ofo_ok r0 S N p (as @ m # xs) s"
  shows "\<exists>h. list_delete_entry (lists s) (OfoPkt m) = Some h
     \<and> ofo_frame p (lists s) h
     \<and> (\<forall>s'. lists s' = h \<and> opkts s' = opkts s \<and> brk s' = brk s \<longrightarrow> ofo_ok r0 S N p (as @ xs) s')"
proof -
  have "dlist (lists s) (OfoBuf p) (map OfoPkt as @ OfoPkt m # map OfoPkt xs)"
    using assms by (simp add: ofo_ok_def)
  from dlist_delete [OF this] obtain h where h: "list_delete_entry (lists s) (OfoPkt m) = Some h"
    "dlist h (OfoBuf p) (map OfoPkt as @ map OfoPkt xs)"
    "\<forall>a. a \<notin> set (OfoBuf p # map OfoPkt as @ map OfoPkt xs) \<longrightarrow> h a = lists s a" by blast
  then have "ofo_frame p (lists s) h" by (auto simp: ofo_frame_def)
  with h(1,2) assms show ?thesis
    by (auto simp: ofo_ok_def)
qed

lemma ofo_body_step:
  assumes small: "unat r0 + N < 2 ^ 31" and inv: "rcv_inv r0 S N rd n p (as @ m # xs) s"
  shows "(\<exists>s' n'. ofo_body p (OfoPkt m) flag s = Some (True, s') \<and> rcv_inv r0 S N rd n' p (as @ xs) s'
            \<and> delivered r0 S N s n [m] n' \<and> rcv_frame p s s')
       \<or> (ofo_body p (OfoPkt m) flag s = Some (flag, s) \<and> no_next r0 n [m] s)"
proof -
  obtain k where k: "socks s p = Some k" and core: "rcv_core r0 S N rd n k"
    and ofo: "ofo_ok r0 S N p (as @ m # xs) s"
    using inv by (auto simp: rcv_inv_def)
  obtain e off l where e: "opkts s m = Some e" and seg: "seg_ok r0 S N off l e"
    using ofo by (auto simp: ofo_ok_def)
  have nxt: "rcv_nxt k = r0 + of_nat n" "n \<le> N" using core by (auto simp: rcv_core_def)
  have "seg_ok r0 S N off l e \<Longrightarrow> of_int (op_seq_num e) = r0 + of_nat off"
    by (simp add: seg_ok_def)
  then have num: "of_int (op_seq_num e) = r0 + of_nat off" using seg by blast
  show ?thesis
  proof (cases "off = n")
    case True
    obtain rb where rb: "write_ring_buffer (rcv_buf k) (piece S n l) = Some rb"
      and core': "rcv_core r0 S N rd (n + l) (k\<lparr>rcv_buf := rb, rcv_nxt := r0 + of_nat (n + l)\<rparr>)"
      using deliver_piece [OF core, of l] seg True by (auto simp: seg_ok_def)
    obtain h where h: "list_delete_entry (lists s) (OfoPkt m) = Some h" and fr: "ofo_frame p (lists s) h"
      and ofo': "\<And>s'. lists s' = h \<Longrightarrow> opkts s' = opkts s \<Longrightarrow> brk s' = brk s \<Longrightarrow> ofo_ok r0 S N p (as @ xs) s'"
      using ofo_ok_delete [OF ofo] by blast
    define s' where "s' = s\<lparr>lists := h, socks := (socks s)(p \<mapsto> k\<lparr>rcv_buf := rb, rcv_nxt := of_int (op_seq_num e + op_len e)\<rparr>)\<rparr>"
    have "unat r0 + (n + l) < 2 ^ 31"
      using seg small True by (simp add: seg_ok_def)
    then have "int (unat r0 + (n + l)) < 2 ^ 31"
      by (metis of_nat_less_iff of_nat_numeral of_nat_power)
    then have sum': "op_seq_num e + op_len e < 2 ^ 31" "op_seq_num e + op_len e = int (unat r0 + (n + l))"
      using seg True by (simp_all add: seg_ok_def)
    have next': "(of_int (op_seq_num e + op_len e) :: u32) = r0 + of_nat (n + l)"
      unfolding sum'(2) by (rule of_int_seq)
    have "op_packet e = piece S n l"
      using seg True by (simp add: seg_ok_def)
    then have "ofo_body p (OfoPkt m) flag s = Some (True, s')"
      using e k num nxt True rb h sum'(1) by (simp add: ofo_body_def deliver_def s'_def)
    moreover have "rcv_inv r0 S N rd (n + l) p (as @ xs) s'"
      using core' ofo' [of s'] unfolding s'_def next' by (simp add: rcv_inv_def)
    moreover have "rcv_frame p s s'" using fr by (simp add: rcv_frame_def s'_def)
    moreover have "delivered r0 S N s n [m] (n + l)" using e seg True by auto
    ultimately show ?thesis by blast
  next
    case False
    then have "r0 + of_nat off \<noteq> r0 + of_nat n"
      using seq_inject [OF small, of off n] seg nxt(2) by (auto simp: seg_ok_def)
    then show ?thesis
      using e k num nxt by (simp add: ofo_body_def no_next_def)
  qed
qed

section \<open>The passes\<close>

text \<open>The loop invariant of one pass over the buffer: of the segments buffered at its start some (\<open>ds\<close>)
  have been delivered in stream order and all others are still there.\<close>

definition pass_inv :: "u32 \<Rightarrow> (nat \<Rightarrow> u8) \<Rightarrow> nat \<Rightarrow> bytes \<Rightarrow> nat \<Rightarrow> nat \<Rightarrow> nat list \<Rightarrow> tstack \<Rightarrow>
    lptr list \<Rightarrow> lptr list \<Rightarrow> lptr lheap \<Rightarrow> bool \<times> tstack \<Rightarrow> bool" where
  "pass_inv r0 S N rd p n ns s0 as xs h st \<longleftrightarrow>
     (\<exists>as' xs' ds n'. as = map OfoPkt as' \<and> xs = map OfoPkt xs' \<and> h = lists (snd st)
        \<and> rcv_inv r0 S N rd n' p (as' @ xs') (snd st) \<and> rcv_frame p s0 (snd st)
        \<and> delivered r0 S N s0 n ds n' \<and> mset ns = mset ds + mset (as' @ xs')
        \<and> fst st = (ds \<noteq> []) \<and> (ds = [] \<longrightarrow> no_next r0 n as' (snd st)))"

lemma pass_inv_dlist: "pass_inv r0 S N rd p n ns s0 as xs h st \<Longrightarrow> dlist h (OfoBuf p) (as @ xs)"
  by (auto simp: pass_inv_def rcv_inv_def ofo_ok_def)

lemma no_next_append: "no_next r0 n (as @ bs) s \<longleftrightarrow> no_next r0 n as s \<and> no_next r0 n bs s"
  by (auto simp: no_next_def)

lemma pass_step:
  assumes small: "unat r0 + N < 2 ^ 31" and J: "pass_inv r0 S N rd p n ns s0 as (x # xs) h st"
  shows "\<exists>h' st' d. (\<lambda>a (h, flag, s). map_option (\<lambda>(flag', s'). (lists s', flag', s')) (ofo_body p a flag s)) x (h, st)
           = Some (h', st') \<and> pass_inv r0 S N rd p n ns s0 (if d then as else as @ [x]) xs h' st'"
proof -
  obtain flag s where st: "st = (flag, s)" by (cases st)
  obtain as' ys' ds n' where as: "as = map OfoPkt as'" and ys: "x # xs = map OfoPkt ys'"
    and h: "h = lists s" and inv': "rcv_inv r0 S N rd n' p (as' @ ys') s" and fr: "rcv_frame p s0 s"
    and ds: "delivered r0 S N s0 n ds n'" and ns': "mset ns = mset ds + mset (as' @ ys')"
    and flag: "flag = (ds \<noteq> [])" and no: "ds = [] \<longrightarrow> no_next r0 n as' s"
    using J unfolding pass_inv_def st fst_conv snd_conv by (elim exE conjE) (rule that)
  from ys obtain m xs' where ys': "ys' = m # xs'" and x: "x = OfoPkt m" and xs: "xs = map OfoPkt xs'"
    by (auto simp: Cons_eq_map_conv)
  note inv = inv' [unfolded ys'] and ns = ns' [unfolded ys']
  have op: "opkts s = opkts s0" using fr by (simp add: rcv_frame_def)
  from ofo_body_step [OF small inv, of flag] show ?thesis
  proof
    assume "\<exists>s' n''. ofo_body p (OfoPkt m) flag s = Some (True, s') \<and> rcv_inv r0 S N rd n'' p (as' @ xs') s'
            \<and> delivered r0 S N s n' [m] n'' \<and> rcv_frame p s s'"
    then obtain s' n'' where s': "ofo_body p (OfoPkt m) flag s = Some (True, s')"
      "rcv_inv r0 S N rd n'' p (as' @ xs') s'" "delivered r0 S N s n' [m] n''" "rcv_frame p s s'" by blast
    have "delivered r0 S N s0 n (ds @ [m]) n''"
      unfolding delivered_append using ds s'(3) [unfolded delivered_cong [OF op]] by blast
    moreover have "mset ns = mset (ds @ [m]) + mset (as' @ xs')" using ns by simp
    ultimately have "pass_inv r0 S N rd p n ns s0 as xs (lists s') (True, s')"
      unfolding pass_inv_def as xs using s'(2) rcv_frame_trans [OF fr s'(4)]
      by (intro exI [of _ as'] exI [of _ xs'] exI [of _ "ds @ [m]"] exI [of _ n'']) simp
    then show ?thesis
      using s'(1) by (intro exI [of _ "lists s'"] exI [of _ "(True, s')"] exI [of _ True]) (simp add: st x)
  next
    assume k: "ofo_body p (OfoPkt m) flag s = Some (flag, s) \<and> no_next r0 n' [m] s"
    have "ds = [] \<longrightarrow> no_next r0 n (as' @ [m]) s"
      using no k ds by (auto simp: no_next_append)
    then have "pass_inv r0 S N rd p n ns s0 (as @ [x]) xs (lists s) (flag, s)"
      unfolding pass_inv_def as xs x using inv fr ds ns flag
      by (intro exI [of _ "as' @ [m]"] exI [of _ xs'] exI [of _ ds] exI [of _ n']) simp
    then show ?thesis
      using k by (intro exI [of _ "lists s"] exI [of _ "(flag, s)"] exI [of _ False]) (simp add: st x)
  qed
qed

lemma ofo_pass_ok:
  assumes small: "unat r0 + N < 2 ^ 31" and inv: "rcv_inv r0 S N rd n p ns s"
  shows "\<exists>flag s' n' ds ns'. ofo_pass p s = Some (flag, s') \<and> rcv_inv r0 S N rd n' p ns' s' \<and> rcv_frame p s s'
     \<and> delivered r0 S N s n ds n' \<and> mset ns = mset ds + mset ns' \<and> flag = (ds \<noteq> []) \<and> (ds = [] \<longrightarrow> no_next r0 n ns' s')"
proof -
  let ?B = "\<lambda>a (h, flag, s). map_option (\<lambda>(flag', s'). (lists s', flag', s')) (ofo_body p a flag s)"
  have "\<exists>ks h' st'. list_for_each_entry_safe (OfoBuf p) ?B (lists s, (False, s)) = Some (h', st')
      \<and> pass_inv r0 S N rd p n ns s ks [] h' st'"
  proof (rule list_for_each_entry_safe_rule [where J = "pass_inv r0 S N rd p n ns s"])
    show "pass_inv r0 S N rd p n ns s [] (map OfoPkt ns) (lists s) (False, s)"
      unfolding pass_inv_def using inv
      by (intro exI [of _ "[]"] exI [of _ ns] exI [of _ "[]"] exI [of _ n]) (simp add: no_next_def)
  qed (fact pass_inv_dlist, fact pass_step [OF small])
  then obtain ks h' flag s' where f: "list_for_each_entry_safe (OfoBuf p) ?B (lists s, (False, s)) = Some (h', (flag, s'))"
    "pass_inv r0 S N rd p n ns s ks [] h' (flag, s')" by auto
  moreover have "ofo_pass p s = Some (flag, s')"
    using f(1) by (simp add: ofo_pass_def)
  ultimately show ?thesis
    unfolding pass_inv_def by fastforce
qed

text \<open>The loop \<^verbatim>\<open>while(1)\<close> ends: every buffered segment has then been delivered, in stream order, or is
  still in the buffer, and nothing in the buffer continues the stream.\<close>

lemma ofo_drain_ok:
  assumes small: "unat r0 + N < 2 ^ 31" and inv: "rcv_inv r0 S N rd n p ns s"
  shows "\<exists>s' n' ds ns'. ofo_drain p s = Some s' \<and> rcv_inv r0 S N rd n' p ns' s' \<and> rcv_frame p s s'
     \<and> delivered r0 S N s n ds n' \<and> mset ns = mset ds + mset ns' \<and> no_next r0 n' ns' s'"
  using inv
proof (induction "length ns" arbitrary: ns s n rule: less_induct)
  case less
  obtain flag s1 n1 ds1 ns1 where p1: "ofo_pass p s = Some (flag, s1)" "rcv_inv r0 S N rd n1 p ns1 s1" "rcv_frame p s s1"
    "delivered r0 S N s n ds1 n1" "mset ns = mset ds1 + mset ns1"
    and c: "flag = (ds1 \<noteq> [])" "ds1 = [] \<longrightarrow> no_next r0 n ns1 s1"
    using ofo_pass_ok [OF small less.prems] by blast
  show ?case
  proof (cases "ds1 = []")
    case False
    have "length ns = length ds1 + length ns1"
      using p1(5) by (metis size_mset size_union)
    with False have "length ns1 < length ns" by simp
    from less.hyps [OF this p1(2)] obtain s' n' ds2 ns' where s': "ofo_drain p s1 = Some s'" "rcv_inv r0 S N rd n' p ns' s'"
      "rcv_frame p s1 s'" "delivered r0 S N s1 n1 ds2 n'" "mset ns1 = mset ds2 + mset ns'" "no_next r0 n' ns' s'" by blast
    have "ofo_drain p s = Some s'"
      using p1(1) False c(1) s'(1) by (subst ofo_drain.simps) simp
    moreover have "opkts s1 = opkts s" using p1(3) by (simp add: rcv_frame_def)
    then have "delivered r0 S N s n (ds1 @ ds2) n'"
      unfolding delivered_append using p1(4) s'(4) delivered_cong by blast
    moreover have "mset ns = mset (ds1 @ ds2) + mset ns'"
      using p1(5) s'(5) by simp
    ultimately show ?thesis
      using rcv_frame_trans [OF p1(3) s'(3)] s'(2,6) by blast
  next
    case True
    then have "ofo_drain p s = Some s1"
      using p1(1) c(1) by (subst ofo_drain.simps) simp
    moreover have "n1 = n" using p1(4) True by simp
    ultimately show ?thesis
      using p1(2-5) True c(2) by (intro exI [of _ s1] exI [of _ n] exI [of _ "[]"] exI [of _ ns1]) simp
  qed
qed

section \<open>Receiving and reading\<close>

lemma rcv_inv_cong:
  assumes "rcv_inv r0 S N rd n p ns s" "socks s' p = socks s p" "lists s' = lists s" "opkts s' = opkts s" "brk s' = brk s"
  shows "rcv_inv r0 S N rd n p ns s'"
  using assms by (simp add: rcv_inv_def ofo_ok_def)

lemma no_next_cong: "opkts s' = opkts s \<Longrightarrow> no_next r0 n ns s' = no_next r0 n ns s"
  by (simp add: no_next_def)

lemma seq_not_less:
  assumes "unat r0 + N < 2 ^ 31" "n \<le> off" "off \<le> N"
  shows "\<not> r0 + of_nat off < (r0 :: u32) + of_nat n"
proof -
  have "unat (r0 + of_nat a) = unat r0 + a" if "a \<le> N" for a
    using assms(1) that by (simp add: unat_word_ariths unat_of_nat)
  with assms(2,3) show ?thesis by (simp add: word_less_nat_alt)
qed

lemma sint_small: "unat (w :: u32) < 2 ^ 31 \<Longrightarrow> sint w = int (unat w)"
proof -
  assume "unat w < 2 ^ 31"
  then have "uint w < 2 ^ 31"
    by (metis of_nat_less_iff of_nat_numeral of_nat_power uint_nat)
  moreover have "- (2 ^ 31) \<le> uint w"
    by (rule order_trans [of _ 0]) simp_all
  ultimately show ?thesis
    using signed_take_bit_int_eq_self [of 31 "uint w"] by (simp add: sint_uint)
qed

text \<open>A data segment of the peer: the piece of the stream at offset \<open>off\<close>.\<close>

definition stream_segment :: "u32 \<Rightarrow> (nat \<Rightarrow> u8) \<Rightarrow> nat \<Rightarrow> nat \<Rightarrow> nat \<Rightarrow> tcp_cb \<Rightarrow> bytes \<Rightarrow> bool" where
  "stream_segment r0 S N off l cb packet \<longleftrightarrow> cb_seq cb = r0 + of_nat off \<and> cb_seq_end cb = r0 + of_nat (off + l)
     \<and> cb_flags cb = TCP_PSH OR TCP_ACK \<and> cb_pl_len cb = int l \<and> cb_data cb packet = Some (piece S off l) \<and> 0 < l \<and> off + l \<le> N"

lemma tcp_process_in_order:
  assumes small: "unat r0 + N < 2 ^ 31" and inv: "rcv_inv r0 S N rd n p ns s"
    and seg: "stream_segment r0 S N n l cb packet"
  shows "\<exists>s2 s' n' ds ns'. tcp_process_data p cb packet s = Some s' \<and> rcv_inv r0 S N rd n' p ns' s'
     \<and> delivered r0 S N s (n + l) ds n' \<and> mset ns = mset ds + mset ns' \<and> no_next r0 n' ns' s' \<and> opkts s' = opkts s
     \<and> ofo_frame p (lists s) (lists s')
     \<and> rcv_inv r0 S N rd n' p ns' s2 \<and> tcp_send_control_packet p TCP_ACK s2 = Some s'"
proof -
  obtain k where k: "socks s p = Some k" and core: "rcv_core r0 S N rd n k"
    using inv by (auto simp: rcv_inv_def)
  obtain rb where rb: "write_ring_buffer (rcv_buf k) (piece S n l) = Some rb"
    and core': "rcv_core r0 S N rd (n + l) (k\<lparr>rcv_buf := rb, rcv_nxt := r0 + of_nat (n + l)\<rparr>)"
    using deliver_piece [OF core, of l] seg by (auto simp: stream_segment_def)
  define k1 where "k1 = wait_recv_update (\<lambda>w. snd (wake_up w)) (k\<lparr>rcv_buf := rb, rcv_nxt := cb_seq_end cb\<rparr>)"
  define s1 where "s1 = s\<lparr>socks := (socks s)(p \<mapsto> k1)\<rparr>"
  have "rcv_inv r0 S N rd (n + l) p ns s1"
    using core' inv seg by (auto simp: rcv_inv_def s1_def k1_def rcv_core_def ofo_ok_def stream_segment_def)
  from ofo_drain_ok [OF small this] obtain s2 n' ds ns' where
    s2: "ofo_drain p s1 = Some s2" "rcv_inv r0 S N rd n' p ns' s2" "delivered r0 S N s1 (n + l) ds n'"
      "mset ns = mset ds + mset ns'" "no_next r0 n' ns' s2" and fr: "rcv_frame p s1 s2"
    by blast
  have op: "opkts s2 = opkts s" "ofo_frame p (lists s) (lists s2)" using fr by (simp_all add: rcv_frame_def s1_def)
  have ds: "delivered r0 S N s (n + l) ds n'"
    using s2(3) delivered_cong [of s1 s] by (simp add: s1_def)
  obtain k2 where k2: "socks s2 p = Some k2" using s2(2) by (auto simp: rcv_inv_def)
  have "\<not> has_flag TCP_ACK (TCP_SYN OR TCP_FIN)" by (simp add: has_flag_def tcp_flag_defs)
  from send_control_total [OF k2 this] obtain s' where
    s': "tcp_send_control_packet p TCP_ACK s2 = Some s'" "socks s' = socks s2" "lists s' = lists s2"
    "opkts s' = opkts s2" "brk s' = brk s2"
    by auto
  have "tcp_process_data p cb packet s = tcp_send_control_packet p TCP_ACK s2"
    using k core seg rb s2(1)
    by (simp add: tcp_process_data_def rcv_core_def stream_segment_def deliver_def wake_def f_recv_def s1_def k1_def)
  moreover have "rcv_inv r0 S N rd n' p ns' s'" "no_next r0 n' ns' s'"
    using s' s2 rcv_inv_cong [OF s2(2)] no_next_cong [of s' s2] by simp_all
  ultimately show ?thesis
    using s'(1,3,4) s2 ds op by (intro exI [of _ s2] exI [of _ s'] exI [of _ n'] exI [of _ ds] exI [of _ ns']) simp
qed

lemma tcp_process_early:
  assumes small: "unat r0 + N < 2 ^ 31" and inv: "rcv_inv r0 S N rd n p ns s"
    and seg: "stream_segment r0 S N off l cb packet" and "n < off"
  shows "\<exists>s'. tcp_process_data p cb packet s = Some s' \<and> rcv_inv r0 S N rd n p (ns @ [brk s]) s'
     \<and> ofo_frame p (lists s) (lists s') \<and> (\<exists>e. opkts s' = (opkts s)(brk s \<mapsto> e) \<and> seg_ok r0 S N off l e)"
proof -
  obtain k where k: "socks s p = Some k" and core: "rcv_core r0 S N rd n k" and ofo: "ofo_ok r0 S N p ns s"
    using inv by (auto simp: rcv_inv_def)
  let ?h = "(lists s)(OfoPkt (brk s) \<mapsto> zero_node)"
  have new: "brk s \<notin> set ns" using ofo by (auto simp: ofo_ok_def)
  then have "dlist ?h (OfoBuf p) (map OfoPkt ns)"
    using ofo by (auto simp: ofo_ok_def intro: dlist_frame [of "lists s" "OfoBuf p"])
  from dlist_add_tail [OF this, of "OfoPkt (brk s)"] new obtain h where
    h: "list_add_tail ?h (OfoPkt (brk s)) (OfoBuf p) = Some h" "dlist h (OfoBuf p) (map OfoPkt (ns @ [brk s]))"
      "\<forall>a. a \<notin> insert (OfoPkt (brk s)) (set (OfoBuf p # map OfoPkt ns)) \<longrightarrow> h a = ?h a"
    by (auto simp: image_iff)
  have fr: "ofo_frame p (lists s) h" unfolding ofo_frame_def using h(3) by auto
  have "sint (cb_seq cb) = int (unat r0 + off)"
  proof -
    have "unat (cb_seq cb) = unat r0 + off" "unat (cb_seq cb) < 2 ^ 31"
      using seg small by (auto simp: stream_segment_def unat_word_ariths unat_of_nat)
    then show ?thesis
      by (simp only: sint_small)
  qed
  then have new': "seg_ok r0 S N off l \<lparr>op_packet = piece S off l, op_len = cb_pl_len cb, op_seq_num = sint (cb_seq cb)\<rparr>"
    using seg by (simp add: seg_ok_def stream_segment_def)
  have ofo': "ofo_ok r0 S N p (ns @ [brk s]) (s\<lparr>brk := Suc (brk s), lists := h,
      opkts := (opkts s)(brk s \<mapsto> \<lparr>op_packet = piece S off l, op_len = cb_pl_len cb, op_seq_num = sint (cb_seq cb)\<rparr>)\<rparr>)"
    using new' h(2) ofo new by (fastforce simp: ofo_ok_def less_Suc_eq)
  have "cb_seq cb \<noteq> rcv_nxt k" "\<not> cb_seq cb < rcv_nxt k"
    using seq_inject [OF small, of off n] seq_not_less [OF small, of n off] seg core assms(4)
    by (auto simp: stream_segment_def rcv_core_def)
  then have "tcp_process_data p cb packet s = Some (s\<lparr>brk := Suc (brk s), lists := h,
      opkts := (opkts s)(brk s \<mapsto> \<lparr>op_packet = piece S off l, op_len = cb_pl_len cb, op_seq_num = sint (cb_seq cb)\<rparr>)\<rparr>)"
    using k seg h(1) by (simp add: tcp_process_data_def ofo_append_def stream_segment_def Let_def)
  then show ?thesis
    using k core ofo' new' fr by (auto simp: rcv_inv_def)
qed

text \<open>On an established connection such a segment goes straight to the data branch of \<^verbatim>\<open>tcp_process\<close>.\<close>

lemma tcp_process_established_data:
  assumes "rcv_inv r0 S N rd n p ns s" "stream_segment r0 S N off l cb packet"
  shows "tcp_process p cb packet s = tcp_process_data p cb packet s"
  using assms
  by (auto simp: rcv_inv_def rcv_core_def stream_segment_def tcp_process_def tcp_process_sync_def tcp_process_open_def
      has_flag_def tcp_flag_defs)

lemma tcp_process_stream:
  assumes "unat r0 + N < 2 ^ 31" "rcv_inv r0 S N rd n p ns s"
    and "stream_segment r0 S N off l cb packet" "n \<le> off"
  shows "\<exists>s' n' ds ns'. tcp_process p cb packet s = Some s' \<and> rcv_inv r0 S N rd n' p ns' s' \<and> ofo_frame p (lists s) (lists s')
     \<and> (if off = n
        then n + l \<le> n' \<and> delivered r0 S N s (n + l) ds n' \<and> mset ns = mset ds + mset ns'
          \<and> no_next r0 n' ns' s' \<and> opkts s' = opkts s
        else n' = n \<and> ns' = ns @ [brk s] \<and> (\<exists>e. opkts s' = (opkts s)(brk s \<mapsto> e) \<and> seg_ok r0 S N off l e))"
  unfolding tcp_process_established_data [OF assms(2,3)]
  using tcp_process_in_order [OF assms(1,2), of l cb packet] tcp_process_early [OF assms(1-3)] assms(3,4) delivered_le
  by (cases "off = n") fastforce+

text \<open>C4. The receiver reassembles the peer's byte stream: from a state in which the application's bytes and
  the receive buffer together are the first n bytes of the stream and the out-of-order buffer holds
  pieces of it, a data segment that is not old is processed without a crash and the same holds again.
  A segment that continues the stream is delivered at once, and after it, in stream order, the
  buffered segments that fit behind it: every segment that was in the out-of-order buffer has either
  been delivered at its place in the stream or is still in the buffer, unchanged, and none of those
  continues the stream any more (the inner while loop ends). An early segment is kept in the buffer
  with its place and bytes, and nothing is delivered. The hypotheses bound the
  stream offsets in play: sequence numbers stay below the sign bit and the data fits the receive buffer.\<close>

theorem tcp_receive_stream:
  assumes "unat r0 + N < 2 ^ 31" "rcv_inv r0 S N rd n p ns s"
    and "stream_segment r0 S N off l cb packet" "n \<le> off"
  shows "\<exists>s' n' ds ns'. tcp_process p cb packet s = Some s' \<and> rcv_inv r0 S N rd n' p ns' s'
     \<and> (if off = n
        then n + l \<le> n' \<and> delivered r0 S N s (n + l) ds n' \<and> mset ns = mset ds + mset ns'
          \<and> no_next r0 n' ns' s' \<and> opkts s' = opkts s
        else n' = n \<and> ns' = ns @ [brk s] \<and> (\<exists>e. opkts s' = (opkts s)(brk s \<mapsto> e) \<and> seg_ok r0 S N off l e))"
  using tcp_process_stream [OF assms] by blast

text \<open>A receiving socket of an established connection with an empty buffer of 7 usable bytes.\<close>

definition sock0 :: tcp_sock where
  "sock0 = \<lparr>sk_sip = 0x0A000001, sk_sport = 80, sk_dip = 0x0A000102, sk_dport = 12345, parent = None, ref_cnt = 1,
     accept_backlog = 0, backlog = 0, timewait = timer0, retrans_timer = timer0,
     wait_connect = wait_init, wait_accept = wait_init, wait_recv = wait_init, wait_send = wait_init,
     rcv_buf = \<lparr>rb_size = 8, rb_head = 6, rb_tail = 6, rb_buf = replicate 9 0\<rparr>, state = TCP_ESTABLISHED,
     iss = 1, snd_una = 2, snd_nxt = 2, rcv_nxt = 1000, snd_wnd = 0, rcv_wnd = 8\<rparr>"

definition tstack0 :: tstack where
  "tstack0 = \<lparr>iface_list = [iface0, iface1], rtable = [], arpcache = arpcache ustack0, now = 0,
     rand_fn = (\<lambda>n. 7 * n), rand_pos = 0, wire = [],
     lists = [OfoBuf 0 \<mapsto> \<lparr>lh_next = OfoBuf 0, lh_prev = OfoBuf 0\<rparr>],
     socks = [0 \<mapsto> sock0], spkts = Map.empty, opkts = Map.empty, brk = 1,
     addr_of = (\<lambda>p. 0x7F0000000000 + of_nat p), fresh = (\<lambda>i. 0xAB)\<rparr>"

lemma tstack0_rcv_inv: "rcv_inv 1000 (\<lambda>i. of_nat i) 7 [] 0 0 [] tstack0"
  by (simp add: rcv_inv_def tstack0_def sock0_def rcv_core_def rb_inv_def rb_data_def piece_def ofo_ok_def dlist_def
      nxt_def prv_def)

definition cb0 :: tcp_cb where
  "cb0 = \<lparr>cb_saddr = 0x0A000102, cb_daddr = 0x0A000001, cb_sport = 12345, cb_dport = 80, cb_seq = 1000,
     cb_seq_end = 1003, cb_ack = 2, cb_payload = 54, cb_pl_len = 3, cb_rwnd = 8, cb_flags = TCP_PSH OR TCP_ACK\<rparr>"

lemma cb0_segment: "stream_segment 1000 (\<lambda>i. of_nat i) 7 0 3 cb0 (replicate 54 0 @ [0, 1, 2])"
  by (simp add: stream_segment_def cb0_def cb_data_def load_bytes_def piece_def upt_rec)

text \<open>The same receiver when the segment with bytes 3 and 4 of the stream has come too early.\<close>

definition tstack_early :: tstack where
  "tstack_early = tstack0\<lparr>lists := [OfoBuf 0 \<mapsto> \<lparr>lh_next = OfoPkt 1, lh_prev = OfoPkt 1\<rparr>,
       OfoPkt 1 \<mapsto> \<lparr>lh_next = OfoBuf 0, lh_prev = OfoBuf 0\<rparr>],
     opkts := [1 \<mapsto> \<lparr>op_packet = [3, 4], op_len = 2, op_seq_num = 1003\<rparr>], brk := 2\<rparr>"

lemma early_seg: "seg_ok 1000 (\<lambda>i. of_nat i) 7 3 2 \<lparr>op_packet = [3, 4], op_len = 2, op_seq_num = 1003\<rparr>"
  by (simp add: seg_ok_def piece_def upt_rec)

lemma tstack_early_rcv_inv: "rcv_inv 1000 (\<lambda>i. of_nat i) 7 [] 0 0 [1] tstack_early"
proof -
  have "\<exists>off l. seg_ok 1000 (\<lambda>i. of_nat i) 7 off l \<lparr>op_packet = [3, 4], op_len = 2, op_seq_num = 1003\<rparr>"
    using early_seg by blast
  then show ?thesis
    by (simp add: rcv_inv_def tstack_early_def tstack0_def sock0_def rcv_core_def rb_inv_def rb_data_def piece_def
        ofo_ok_def dlist_def nxt_def prv_def)
qed

theorem tcp_receive_stream_witness:
  "\<exists>s'. tcp_process 0 cb0 (replicate 54 0 @ [0, 1, 2]) tstack_early = Some s'
     \<and> rcv_inv 1000 (\<lambda>i. of_nat i) 7 [] 5 0 [] s'"
proof -
  obtain s' n' ds ns' where s': "tcp_process 0 cb0 (replicate 54 0 @ [0, 1, 2]) tstack_early = Some s'"
    "rcv_inv 1000 (\<lambda>i. of_nat i) 7 [] n' 0 ns' s'" "delivered 1000 (\<lambda>i. of_nat i) 7 tstack_early 3 ds n'"
    "mset [1] = mset ds + mset ns'" "no_next 1000 n' ns' s'" "opkts s' = opkts tstack_early"
    using tcp_receive_stream [OF _ tstack_early_rcv_inv cb0_segment] by auto
  have o: "opkts tstack_early 1 = Some \<lparr>op_packet = [3, 4], op_len = 2, op_seq_num = 1003\<rparr>"
    by (simp add: tstack_early_def)
  have "ds = [1] \<and> ns' = [] \<or> ds = [] \<and> ns' = [1]"
    using s'(4) by (cases ds) (auto simp: add_mset_eq_single)
  moreover have "\<not> (ds = [] \<and> ns' = [1])"
    using s'(3,5,6) o by (auto simp: no_next_def)
  ultimately have "ds = [1]" "ns' = []" by auto
  then have "n' = 5" using s'(3) o by (simp add: seg_ok_def)
  with s'(1,2) \<open>ns' = []\<close> show ?thesis by auto
qed

text \<open>Reading from the buffer hands out the next bytes of the stream.\<close>

lemma read_buffer_stream:
  assumes "rcv_inv r0 S N rd n p ns s" "0 < len" "socks s p = Some k"
  obtains out rb where "read_ring_buffer (rcv_buf k) len = Some (int (length out), out, rb)" "int (length out) \<le> len"
    "out = [] \<longleftrightarrow> length rd = n" "rb_data (rcv_buf k) = [] \<longleftrightarrow> length rd = n" "length rd \<le> n" "ring_buffer_empty (rcv_buf k) = Some (length rd = n)"
    "rd @ out = piece S 0 (length rd + length out)" "length rd + length out \<le> n"
    "rcv_inv r0 S N (rd @ out) n p ns (s\<lparr>socks := (socks s)(p \<mapsto> k\<lparr>rcv_buf := rb\<rparr>)\<rparr>)"
proof -
  have core: "rcv_core r0 S N rd n k" and ofo: "ofo_ok r0 S N p ns s"
    using assms(1,3) by (auto simp: rcv_inv_def)
  have rb: "rb_inv (rcv_buf k)" "rd @ rb_data (rcv_buf k) = piece S 0 n"
    using core by (auto simp: rcv_core_def)
  then have ln: "length rd + length (rb_data (rcv_buf k)) = n" by (metis length_append length_piece)
  then have em: "rb_data (rcv_buf k) = [] \<longleftrightarrow> length rd = n" by auto
  define out where "out = take (nat len) (rb_data (rcv_buf k))"
  have "int (length out) = min (int (length (rb_data (rcv_buf k)))) len"
    using assms(2) unfolding out_def length_take by linarith
  then obtain rb' where rb': "read_ring_buffer (rcv_buf k) len = Some (int (length out), out, rb')"
    "rb_inv rb'" "rb_data rb' = drop (nat len) (rb_data (rcv_buf k))" "rb_size rb' = rb_size (rcv_buf k)"
    using read_data [OF rb(1), of len] assms(2) by (auto simp: out_def)
  have split: "out @ rb_data rb' = rb_data (rcv_buf k)" by (simp add: out_def rb'(3))
  have "take (length (rd @ out)) (piece S 0 n) = rd @ out"
    using rb(2) split by (metis append_assoc append_eq_conv_conj)
  moreover have le: "length rd + length out \<le> n" using ln by (simp add: out_def)
  ultimately have "rd @ out = piece S 0 (length rd + length out)"
    by (simp add: piece_def take_map)
  moreover have "rcv_core r0 S N (rd @ out) n (k\<lparr>rcv_buf := rb'\<rparr>)"
    using core rb' split by (simp add: rcv_core_def)
  then have "rcv_inv r0 S N (rd @ out) n p ns (s\<lparr>socks := (socks s)(p \<mapsto> k\<lparr>rcv_buf := rb'\<rparr>)\<rparr>)"
    using ofo by (simp add: rcv_inv_def ofo_ok_def)
  moreover have "out = [] \<longleftrightarrow> length rd = n" using assms(2) em by (auto simp: out_def)
  moreover have "ring_buffer_empty (rcv_buf k) = Some (length rd = n)"
    using em by (simp add: ring_buffer_empty_def used_eq [OF rb(1)])
  moreover have "int (length out) \<le> len" using assms(2) by (simp add: out_def)
  ultimately show ?thesis using rb'(1) em le ln by (intro that [of out rb']) auto
qed

text \<open>C11. Reading hands out the stream in order: with undelivered data in the buffer,
  \<^verbatim>\<open>tcp_sock_read\<close> for a positive length does not sleep, returns at least one byte, and what the
  application has read before followed by what it reads now is again a prefix of the peer's stream.\<close>

theorem tcp_read_stream:
  assumes "rcv_inv r0 S N rd n p ns s" "length rd < n" "0 < len"
  shows "\<exists>out s'. tcp_sock_read env p len s = Some (int (length out), out, s') \<and> out \<noteq> [] \<and> int (length out) \<le> len
     \<and> rd @ out = piece S 0 (length rd + length out) \<and> rcv_inv r0 S N (rd @ out) n p ns s'"
proof -
  obtain k where k: "socks s p = Some k" using assms(1) by (auto simp: rcv_inv_def)
  obtain out rb where o: "read_ring_buffer (rcv_buf k) len = Some (int (length out), out, rb)" "int (length out) \<le> len"
    "out = [] \<longleftrightarrow> length rd = n" "ring_buffer_empty (rcv_buf k) = Some (length rd = n)"
    "rd @ out = piece S 0 (length rd + length out)"
    "rcv_inv r0 S N (rd @ out) n p ns (s\<lparr>socks := (socks s)(p \<mapsto> k\<lparr>rcv_buf := rb\<rparr>)\<rparr>)"
    by (rule read_buffer_stream [OF assms(1,3) k]) (rule that)
  then show ?thesis
    using k assms(2) by (intro exI [of _ out] exI [of _ "s\<lparr>socks := (socks s)(p \<mapsto> k\<lparr>rcv_buf := rb\<rparr>)\<rparr>"]) (simp add: tcp_sock_read_def)
qed

definition tstack_data :: tstack where
  "tstack_data = tstack0\<lparr>socks := [0 \<mapsto> sock0\<lparr>rcv_nxt := 1003,
     rcv_buf := \<lparr>rb_size = 8, rb_head = 6, rb_tail = 1, rb_buf = [2, 0, 0, 0, 0, 0, 0, 1, 0]\<rparr>\<rparr>]\<rparr>"

lemma tstack_data_buffer: "rb_data \<lparr>rb_size = 8, rb_head = 6, rb_tail = 1, rb_buf = [2, 0, 0, 0, 0, 0, 0, 1, 0]\<rparr> = [0, 1, 2]"
  by code_simp

theorem tcp_read_stream_witness:
  "\<exists>out s'. tcp_sock_read Some 0 2 tstack_data = Some (int (length out), out, s')
     \<and> out = piece (\<lambda>i. of_nat i) 0 (length out)
     \<and> rcv_inv 1000 (\<lambda>i. of_nat i) 7 out 3 0 [] s'"
proof -
  have "rcv_inv 1000 (\<lambda>i. of_nat i) 7 [] 3 0 [] tstack_data"
    by (simp add: rcv_inv_def tstack_data_def tstack0_def sock0_def rcv_core_def rb_inv_def tstack_data_buffer piece_def
        ofo_ok_def dlist_def nxt_def prv_def upt_rec)
  from tcp_read_stream [OF this, of 2 Some] show ?thesis by auto
qed

end
