(* ===== verification/TcpTables.thy ===== *)
theory TcpTables
  imports TcpStream
begin

text \<open>
  The three hash tables of \<^verbatim>\<open>tcp_sock.c\<close> are what they promise. All lists of the sockets live in one heap;
  \<open>L\<close> gives the sequence of every list head (theory Clist, \<open>lrep\<close>), and \<open>tables_ok\<close> adds what the buckets
  hold: allocated sockets under the hash of their connection or port. The locale \<open>conn_table\<close> is the
  contract between the code that registers connections and the code that finds them, interpreted on
  \<^verbatim>\<open>tcp_hash\<close> and \<^verbatim>\<open>tcp_sock_lookup_established\<close>.
\<close>

section \<open>Contents of the tables\<close>

type_synonym conn_key = "u32 \<times> u32 \<times> u16 \<times> u16"
type_synonym lseqs = "lptr \<Rightarrow> lptr list option"

definition key_of :: "tcp_sock \<Rightarrow> conn_key" where
  "key_of k = (sk_sip k, sk_dip k, sk_sport k, sk_dport k)"

definition key_hash :: "conn_key \<Rightarrow> nat" where
  "key_hash = (\<lambda>(a, b, c, d). tcp_hash_function a b c d)"

definition port_hash :: "u16 \<Rightarrow> nat" where
  "port_hash p = tcp_hash_function 0 0 p 0"

fun node_owner :: "lptr \<Rightarrow> nat" where
  "node_owner (HashList p) = p"
| "node_owner (BindHashList p) = p"
| "node_owner (SkList p) = p"
| "node_owner _ = 0"

definition bucket :: "lseqs \<Rightarrow> lptr \<Rightarrow> nat list" where
  "bucket L a = (case L a of None \<Rightarrow> [] | Some ns \<Rightarrow> map node_owner ns)"

definition in_bucket :: "(tcp_sock \<Rightarrow> nat) \<Rightarrow> nat \<Rightarrow> tstack \<Rightarrow> nat \<Rightarrow> bool" where
  "in_bucket f i s p \<longleftrightarrow> (\<exists>k. socks s p = Some k \<and> f k = i)"

definition table_ok :: "lptr \<Rightarrow> (nat \<Rightarrow> lptr) \<Rightarrow> (tcp_sock \<Rightarrow> nat) \<Rightarrow> nat \<Rightarrow> lseqs \<Rightarrow> tstack \<Rightarrow> bool" where
  "table_ok a node f i L s \<longleftrightarrow>
     L a = Some (map node (bucket L a)) \<and> (\<forall>p \<in> set (bucket L a). in_bucket f i s p)"

text \<open>The bucket at a table head: its member node, the hash of its sockets and its index.\<close>

fun slot :: "lptr \<Rightarrow> ((nat \<Rightarrow> lptr) \<times> (tcp_sock \<Rightarrow> nat) \<times> nat) option" where
  "slot (EstablishedTable i) = (if i < TCP_HASH_SIZE then Some (HashList, \<lambda>k. key_hash (key_of k), i) else None)"
| "slot (ListenTable i) = (if i < TCP_HASH_SIZE then Some (HashList, \<lambda>k. port_hash (sk_sport k), i) else None)"
| "slot (BindTable i) = (if i < TCP_HASH_SIZE then Some (BindHashList, \<lambda>k. i, i) else None)"
| "slot _ = None"

definition tables_ok :: "lseqs \<Rightarrow> tstack \<Rightarrow> bool" where
  "tables_ok L s \<longleftrightarrow> lrep (lists s) L \<and> lists s Null = None
     \<and> (\<forall>a node f i. slot a = Some (node, f, i) \<longrightarrow> table_ok a node f i L s)"

lemma hash_bound [simp]: "tcp_hash_function a b c d < TCP_HASH_SIZE"
  using unat_u8 by (simp add: tcp_hash_function_def TCP_HASH_SIZE_def)

lemma key_hash_bound [simp]: "key_hash k < TCP_HASH_SIZE"
  by (cases k) (simp add: key_hash_def)

lemma port_hash_bound [simp]: "port_hash p < TCP_HASH_SIZE"
  by (simp add: port_hash_def)

lemma tables_okD: "tables_ok L s \<Longrightarrow> slot a = Some (node, f, i) \<Longrightarrow> table_ok a node f i L s"
  by (simp add: tables_ok_def)

lemma tables_ok_lrep: "tables_ok L s \<Longrightarrow> lrep (lists s) L"
  by (simp add: tables_ok_def)

lemma table_ok_dlist: "tables_ok L s \<Longrightarrow> table_ok a node f i L s \<Longrightarrow> dlist (lists s) a (map node (bucket L a))"
  using lrep_dlist [OF tables_ok_lrep] by (auto simp: table_ok_def)

lemma table_ok_alloc: "table_ok a node f i L s \<Longrightarrow> p \<in> set (bucket L a) \<Longrightarrow> socks s p \<noteq> None"
  by (auto simp: table_ok_def in_bucket_def)

section \<open>Lookup\<close>

text \<open>The socket of a connection, and the one listening on a port, by the contents of the bucket.\<close>

definition conn_of :: "lseqs \<Rightarrow> conn_key \<Rightarrow> tstack \<Rightarrow> nat option" where
  "conn_of L key s =
     find (\<lambda>p. map_option key_of (socks s p) = Some key) (bucket L (EstablishedTable (key_hash key)))"

definition listener_of :: "lseqs \<Rightarrow> u16 \<Rightarrow> tstack \<Rightarrow> nat option" where
  "listener_of L port s =
     find (\<lambda>p. map_option sk_sport (socks s p) = Some port) (bucket L (ListenTable (port_hash port)))"

lemma find_map_HashList:
  assumes "\<And>p. p \<in> set xs \<Longrightarrow> socks s p \<noteq> None"
  shows "owner_opt (find (\<lambda>n. case n of HashList p \<Rightarrow> Q p | _ \<Rightarrow> False) (map HashList xs)) s = Some (find Q xs)"
  using assms by (induction xs) (auto simp: owner_opt_def hash_owner_def)

lemma find_map_HashList_None:
  "find (\<lambda>n. case n of HashList p \<Rightarrow> Q p | _ \<Rightarrow> False) (map HashList xs) = None \<longleftrightarrow> find Q xs = None"
  by (auto simp: find_None_iff)

lemma bucket_search:
  assumes "tables_ok L s" "table_ok a HashList f i L s"
  shows "list_find_entry (lists s) a (\<lambda>n. map_option (\<lambda>(p, k). Q k) (hash_owner n s))
      = Some (find (\<lambda>n. case n of HashList p \<Rightarrow> (\<exists>k. socks s p = Some k \<and> Q k) | _ \<Rightarrow> False) (map HashList (bucket L a)))"
    and "list_find_entry_safe (lists s) a (\<lambda>n. map_option (\<lambda>(p, k). Q k) (hash_owner n s))
      = Some (find (\<lambda>n. case n of HashList p \<Rightarrow> (\<exists>k. socks s p = Some k \<and> Q k) | _ \<Rightarrow> False) (map HashList (bucket L a)))"
  using table_ok_alloc [OF assms(2)]
  by (intro list_find_entry_dlist [OF table_ok_dlist [OF assms]]; fastforce simp: hash_owner_def)+

lemma key_test: "(\<exists>k. socks s p = Some k \<and> a = sk_sip k \<and> b = sk_dip k \<and> c = sk_sport k \<and> d = sk_dport k)
    \<longleftrightarrow> map_option key_of (socks s p) = Some (a, b, c, d)"
  by (auto simp: key_of_def)

lemma lookup_established_eq:
  assumes "tables_ok L s"
  shows "tcp_sock_lookup_established saddr daddr sport dport s = Some (conn_of L (saddr, daddr, sport, dport) s)"
proof -
  let ?a = "EstablishedTable (tcp_hash_function saddr daddr sport dport)"
  have t: "table_ok ?a HashList (\<lambda>k. key_hash (key_of k)) (tcp_hash_function saddr daddr sport dport) L s"
    using tables_okD [OF assms, of ?a] by simp
  show ?thesis
    unfolding tcp_sock_lookup_established_def bucket_search(2) [OF assms t] key_test
    using find_map_HashList [OF table_ok_alloc [OF t]] by (simp add: conn_of_def key_hash_def)
qed

lemma lookup_listen_eq:
  assumes "tables_ok L s"
  shows "tcp_sock_lookup_listen saddr sport s = Some (listener_of L sport s)"
proof -
  have t: "table_ok (ListenTable (port_hash sport)) HashList (\<lambda>k. port_hash (sk_sport k)) (port_hash sport) L s"
    using tables_okD [OF assms, of "ListenTable (port_hash sport)"] by simp
  have "(\<exists>k. socks s p = Some k \<and> sk_sport k = sport) \<longleftrightarrow> map_option sk_sport (socks s p) = Some sport" for p
    by auto
  then show ?thesis
    unfolding tcp_sock_lookup_listen_def port_hash_def [symmetric] bucket_search(2) [OF assms t]
    using find_map_HashList [OF table_ok_alloc [OF t]] by (simp add: listener_of_def)
qed

lemma tcp_sock_lookup_eq:
  assumes "tables_ok L s"
  shows "tcp_sock_lookup cb s = Some (case conn_of L (cb_daddr cb, cb_saddr cb, cb_dport cb, cb_sport cb) s of
     Some p \<Rightarrow> Some p | None \<Rightarrow> listener_of L (cb_dport cb) s)"
  using assms by (simp add: tcp_sock_lookup_def lookup_established_eq lookup_listen_eq split: option.split)

section \<open>Changes\<close>

definition keeps_keys :: "tstack \<Rightarrow> tstack \<Rightarrow> bool" where
  "keeps_keys s s' \<longleftrightarrow> (\<forall>p k. socks s p = Some k \<longrightarrow> (\<exists>k'. socks s' p = Some k' \<and> key_of k' = key_of k))"

lemma keeps_keys_refl [simp]: "socks s' = socks s \<Longrightarrow> keeps_keys s s'"
  by (simp add: keeps_keys_def)

lemma keeps_keys_trans: "keeps_keys s t \<Longrightarrow> keeps_keys t u \<Longrightarrow> keeps_keys s u"
  unfolding keeps_keys_def by metis

lemma keeps_keys_upd: "socks s p = Some k \<Longrightarrow> key_of k' = key_of k \<Longrightarrow> socks s' = (socks s)(p \<mapsto> k') \<Longrightarrow> keeps_keys s s'"
  by (auto simp: keeps_keys_def)

lemma keeps_keys_new: "socks s p = None \<Longrightarrow> socks s' = (socks s)(p \<mapsto> k') \<Longrightarrow> keeps_keys s s'"
  by (auto simp: keeps_keys_def)

lemma slot_node: "slot a = Some (node, f, i) \<Longrightarrow> node_owner (node p) = p"
  by (cases a) (auto split: if_splits)

lemma slot_key:
  assumes "slot a = Some (node, f, i)" "key_of k' = key_of k"
  shows "f k' = f k"
proof -
  have "sk_sport k' = sk_sport k" using assms(2) by (simp add: key_of_def)
  then show ?thesis using assms by (cases a) (auto split: if_splits)
qed

lemma in_bucket_keeps:
  assumes "slot a = Some (node, f, i)" "keeps_keys s s'" "in_bucket f i s p"
  shows "in_bucket f i s' p"
  using assms(2,3) slot_key [OF assms(1)] unfolding in_bucket_def keeps_keys_def by metis

lemma table_ok_keeps:
  assumes "slot a = Some (node, f, i)" "table_ok a node f i L s" "L' a = L a" "keeps_keys s s'"
  shows "table_ok a node f i L' s'"
proof -
  have b: "bucket L' a = bucket L a" using assms(3) by (simp add: bucket_def)
  show ?thesis unfolding table_ok_def b assms(3)
    using assms(2) in_bucket_keeps [OF assms(1,4)] unfolding table_ok_def by blast
qed

text \<open>A step that leaves the tables alone.\<close>

lemma tables_ok_change:
  assumes "tables_ok L s" "lrep (lists s') L'" "lists s' Null = None" "\<And>a. slot a \<noteq> None \<Longrightarrow> L' a = L a" "keeps_keys s s'"
  shows "tables_ok L' s'"
  unfolding tables_ok_def
proof (intro conjI allI impI)
  fix a node f i assume a: "slot a = Some (node, f, i)"
  show "table_ok a node f i L' s'"
    by (rule table_ok_keeps [OF a tables_okD [OF assms(1) a] _ assms(5)]) (simp add: assms(4) a)
qed (use assms in auto)

text \<open>Entering a socket into a bucket, and taking it out again.\<close>

lemma tables_ok_replace:
  assumes ok: "tables_ok L s" and a: "slot a = Some (node, f, i)" and ps: "\<forall>p \<in> set ps. in_bucket f i s p"
    and r: "lrep (lists s') (L(a \<mapsto> map node ps))" "lists s' Null = None" and kk: "keeps_keys s s'"
  shows "tables_ok (L(a \<mapsto> map node ps)) s'"
  unfolding tables_ok_def
proof (intro conjI allI impI)
  fix b nd g j assume b: "slot b = Some (nd, g, j)"
  show "table_ok b nd g j (L(a \<mapsto> map node ps)) s'"
  proof (cases "b = a")
    case True
    have bk: "bucket (L(a \<mapsto> map node ps)) a = ps"
      using slot_node [OF a] by (simp add: bucket_def o_def)
    have e: "nd = node" "g = f" "j = i" using a b True by auto
    show ?thesis
      unfolding True e table_ok_def bk using ps in_bucket_keeps [OF a kk] by simp
  next
    case False
    then show ?thesis
      by (intro table_ok_keeps [OF b tables_okD [OF ok b] _ kk]) simp
  qed
qed (use r in auto)

lemma tables_ok_enter:
  assumes ok: "tables_ok L s" and a: "slot a = Some (node, f, i)" and k: "in_bucket f i s p"
    and n: "node p \<in> dom (lists s)" "\<not> linked L (node p)"
  shows "\<exists>h. list_add_head (lists s) (node p) a = Some h \<and> dom h = dom (lists s)
     \<and> (\<forall>c. c \<noteq> node p \<longrightarrow> \<not> linked L c \<longrightarrow> h c = lists s c)
     \<and> (\<forall>s'. lists s' = h \<and> keeps_keys s s' \<longrightarrow> tables_ok (L(a \<mapsto> map node (p # bucket L a))) s')"
proof -
  have t: "table_ok a node f i L s" by (rule tables_okD [OF ok a])
  then have "L a = Some (map node (bucket L a))" by (simp add: table_ok_def)
  from lrep_add_head [OF tables_ok_lrep [OF ok] this n] obtain h where
    h: "list_add_head (lists s) (node p) a = Some h" "lrep h (L(a \<mapsto> map node (p # bucket L a)))"
    "dom h = dom (lists s)" "\<forall>c. c \<noteq> node p \<longrightarrow> \<not> linked L c \<longrightarrow> h c = lists s c" by auto
  have "h Null = None" using h(3) ok by (auto simp: tables_ok_def)
  then have "tables_ok (L(a \<mapsto> map node (p # bucket L a))) s'" if "lists s' = h" "keeps_keys s s'" for s'
    using that t k h(2) by (intro tables_ok_replace [OF ok a]) (auto simp: table_ok_def)
  with h show ?thesis by auto
qed

text \<open>A zeroed node is in no list.\<close>

lemma zero_node_unlinked: "tables_ok L s \<Longrightarrow> lists s n = Some zero_node \<Longrightarrow> \<not> linked L n"
  using lrep_linked_next [of "lists s" L n] lrep_linked_dom [of "lists s" L Null]
  by (auto simp: tables_ok_def nxt_def zero_node_def)

section \<open>The established table as a map\<close>

definition unique_keys :: "lseqs \<Rightarrow> tstack \<Rightarrow> bool" where
  "unique_keys L s \<longleftrightarrow> (\<forall>i < TCP_HASH_SIZE. distinct (map (\<lambda>p. map_option key_of (socks s p)) (bucket L (EstablishedTable i))))"

definition conn_rep :: "tstack \<Rightarrow> (conn_key \<Rightarrow> nat option) \<Rightarrow> bool" where
  "conn_rep s M \<longleftrightarrow> (\<exists>L. tables_ok L s \<and> unique_keys L s \<and> M = (\<lambda>key. conn_of L key s))"

text \<open>A socket about to be entered: it has left the closed and listening states and its node is unused.\<close>

definition hashable :: "tstack \<Rightarrow> nat \<Rightarrow> conn_key \<Rightarrow> bool" where
  "hashable s p key \<longleftrightarrow> (\<exists>k. socks s p = Some k \<and> key_of k = key \<and> state k \<noteq> TCP_CLOSED \<and> state k \<noteq> TCP_LISTEN)
     \<and> lists s (HashList p) = Some zero_node"

lemma keeps_keys_at:
  "keeps_keys s s' \<Longrightarrow> socks s p \<noteq> None \<Longrightarrow> map_option key_of (socks s' p) = map_option key_of (socks s p)"
  by (force simp: keeps_keys_def)

lemma est_table_ok:
  "tables_ok L s \<Longrightarrow> i < TCP_HASH_SIZE \<Longrightarrow> table_ok (EstablishedTable i) HashList (\<lambda>k. key_hash (key_of k)) i L s"
  using tables_okD [of L s "EstablishedTable i"] by simp

lemma est_keys:
  assumes "tables_ok L s" "keeps_keys s s'" "i < TCP_HASH_SIZE" "set ps \<subseteq> set (bucket L (EstablishedTable i))"
  shows "map (\<lambda>p. map_option key_of (socks s' p)) ps = map (\<lambda>p. map_option key_of (socks s p)) ps"
    and "find (\<lambda>p. map_option key_of (socks s' p) = Some k) ps = find (\<lambda>p. map_option key_of (socks s p) = Some k) ps"
proof -
  have "map_option key_of (socks s' p) = map_option key_of (socks s p)" if "p \<in> set ps" for p
    using assms(4) that keeps_keys_at [OF assms(2) table_ok_alloc [OF est_table_ok [OF assms(1,3)]]] by blast
  then show "map (\<lambda>p. map_option key_of (socks s' p)) ps = map (\<lambda>p. map_option key_of (socks s p)) ps"
    and "find (\<lambda>p. map_option key_of (socks s' p) = Some k) ps = find (\<lambda>p. map_option key_of (socks s p) = Some k) ps"
    by (simp_all cong: find_cong)
qed

lemma bucket_upd [simp]:
  "bucket (L(EstablishedTable i \<mapsto> map HashList ps)) (EstablishedTable j) = (if j = i then ps else bucket L (EstablishedTable j))"
  by (simp add: bucket_def o_def)

text \<open>Replacing the contents of one bucket, as the map sees it.\<close>

lemma conn_of_replace:
  assumes "tables_ok L s" "keeps_keys s s'" "i < TCP_HASH_SIZE"
  shows "conn_of (L(EstablishedTable i \<mapsto> map HashList ps)) key s' =
     (if key_hash key = i then find (\<lambda>p. map_option key_of (socks s' p) = Some key) ps else conn_of L key s)"
  using est_keys(2) [OF assms(1,2) key_hash_bound subset_refl] by (simp add: conn_of_def)

lemma unique_keys_replace:
  assumes "tables_ok L s" "keeps_keys s s'" "i < TCP_HASH_SIZE" "unique_keys L s"
    and "distinct (map (\<lambda>p. map_option key_of (socks s' p)) ps)"
  shows "unique_keys (L(EstablishedTable i \<mapsto> map HashList ps)) s'"
  unfolding unique_keys_def
proof (intro allI impI)
  fix j assume j: "j < TCP_HASH_SIZE"
  show "distinct (map (\<lambda>p. map_option key_of (socks s' p)) (bucket (L(EstablishedTable i \<mapsto> map HashList ps)) (EstablishedTable j)))"
    using assms(4,5) j unfolding bucket_upd unique_keys_def by (simp add: est_keys(1) [OF assms(1,2) j subset_refl] del: map_eq_conv)
qed

text \<open>A step that leaves the established table alone.\<close>

lemma conn_of_change:
  assumes "tables_ok L s" "keeps_keys s s'" "\<And>i. L' (EstablishedTable i) = L (EstablishedTable i)"
  shows "conn_of L' key s' = conn_of L key s"
  using est_keys(2) [OF assms(1,2) key_hash_bound subset_refl] by (simp add: conn_of_def bucket_def assms(3))

lemma unique_keys_change:
  assumes "tables_ok L s" "keeps_keys s s'" "\<And>i. L' (EstablishedTable i) = L (EstablishedTable i)" "unique_keys L s"
  shows "unique_keys L' s'"
  unfolding unique_keys_def
proof (intro allI impI)
  fix i assume i: "i < TCP_HASH_SIZE"
  have b: "bucket L' (EstablishedTable i) = bucket L (EstablishedTable i)" by (simp add: bucket_def assms(3))
  show "distinct (map (\<lambda>p. map_option key_of (socks s' p)) (bucket L' (EstablishedTable i)))"
    unfolding b est_keys(1) [OF assms(1,2) i subset_refl] using assms(4) i by (simp add: unique_keys_def)
qed

text \<open>\<^verbatim>\<open>tcp_hash\<close> on a connection: refused when the key is present, otherwise entered.\<close>

lemma tcp_hash_conn:
  assumes "tables_ok L s" "socks s p = Some k" "state k \<noteq> TCP_CLOSED" "state k \<noteq> TCP_LISTEN"
  shows "tcp_hash p s = (if conn_of L (key_of k) s \<noteq> None then Some (- 1, s) else do {
     s \<leftarrow> on_lists (\<lambda>h. list_add_head h (HashList p) (EstablishedTable (key_hash (key_of k)))) s;
     s \<leftarrow> tcp_sock_inc_ref_cnt p s;
     Some (0, s) })"
proof -
  have h: "tcp_hash_function (sk_sip k) (sk_dip k) (sk_sport k) (sk_dport k) = key_hash (key_of k)"
    by (simp add: key_hash_def key_of_def)
  let ?a = "EstablishedTable (key_hash (key_of k))"
  obtain r where r: "list_find_entry (lists s) ?a (\<lambda>n. map_option (\<lambda>(q, t). sk_sip k = sk_sip t \<and> sk_dip k = sk_dip t
      \<and> sk_sport k = sk_sport t \<and> sk_dport k = sk_dport t) (hash_owner n s)) = Some r"
    "r = None \<longleftrightarrow> conn_of L (key_of k) s = None"
    unfolding bucket_search(1) [OF assms(1) est_table_ok [OF assms(1) key_hash_bound]] key_test
    using find_map_HashList_None by (simp add: conn_of_def key_of_def)
  then show ?thesis
    using assms(2-4) by (cases r) (simp_all add: tcp_hash_def h)
qed

lemma tcp_hash_enter:
  assumes L: "tables_ok L s" "unique_keys L s" and k: "socks s p = Some k" "state k \<noteq> TCP_CLOSED" "state k \<noteq> TCP_LISTEN"
    and z: "lists s (HashList p) = Some zero_node" and new: "conn_of L (key_of k) s = None"
  shows "\<exists>h L'. (let s' = s\<lparr>lists := h, socks := (socks s)(p \<mapsto> k\<lparr>ref_cnt := ref_cnt k + 1\<rparr>)\<rparr> in
       tcp_hash p s = Some (0, s') \<and> tables_ok L' s' \<and> unique_keys L' s'
     \<and> (\<forall>x. conn_of L' x s' = (if x = key_of k then Some p else conn_of L x s)))
     \<and> (\<forall>a. (\<forall>i. a \<noteq> EstablishedTable i) \<longrightarrow> L' a = L a)"
proof -
  define key where "key = key_of k"
  let ?a = "EstablishedTable (key_hash key)"
  let ?L = "L(?a \<mapsto> map HashList (p # bucket L ?a))"
  have "in_bucket (\<lambda>k. key_hash (key_of k)) (key_hash key) s p" using k by (simp add: in_bucket_def key_def)
  from tables_ok_enter [OF L(1), of ?a HashList, OF _ this] obtain h where
    h: "list_add_head (lists s) (HashList p) ?a = Some h" "\<forall>s'. lists s' = h \<and> keeps_keys s s' \<longrightarrow> tables_ok ?L s'"
    using zero_node_unlinked [OF L(1) z] z by auto
  define s' where "s' = s\<lparr>lists := h, socks := (socks s)(p \<mapsto> k\<lparr>ref_cnt := ref_cnt k + 1\<rparr>)\<rparr>"
  have kk: "keeps_keys s s'" by (rule keeps_keys_upd [OF k(1)]) (auto simp: s'_def key_of_def)
  have key': "map_option key_of (socks s' p) = Some key" using keeps_keys_at [OF kk, of p] k by (simp add: key_def)
  have old: "find (\<lambda>p. map_option key_of (socks s' p) = Some x) (bucket L ?a)
      = find (\<lambda>p. map_option key_of (socks s p) = Some x) (bucket L ?a)" for x
    by (rule est_keys(2) [OF L(1) kk key_hash_bound subset_refl])
  have "conn_of ?L x s' = (if x = key then Some p else conn_of L x s)" for x
    unfolding conn_of_replace [OF L(1) kk key_hash_bound] using key' old by (auto simp: conn_of_def)
  moreover have "unique_keys ?L s'"
  proof (rule unique_keys_replace [OF L(1) kk key_hash_bound L(2)])
    have "Some key \<notin> (\<lambda>p. map_option key_of (socks s p)) ` set (bucket L ?a)"
      using new by (auto simp: conn_of_def find_None_iff key_def dest!: sym [of "Some (key_of k)"])
    moreover have "distinct (map (\<lambda>p. map_option key_of (socks s p)) (bucket L ?a))"
      using L(2) by (simp add: unique_keys_def)
    ultimately show "distinct (map (\<lambda>p. map_option key_of (socks s' p)) (p # bucket L ?a))"
      unfolding list.map key' est_keys(1) [OF L(1) kk key_hash_bound subset_refl] by simp
  qed
  moreover have "tables_ok ?L s'" using h(2) kk by (simp add: s'_def)
  moreover have "tcp_hash p s = Some (0, s')"
    using tcp_hash_conn [OF L(1) k] new k h(1) by (simp add: tcp_sock_inc_ref_cnt_def s'_def key_def)
  ultimately show ?thesis
    unfolding s'_def key_def by (intro exI [of _ h] exI [of _ ?L]) (simp add: Let_def key_def)
qed

lemma tcp_hash_new:
  assumes rep: "conn_rep s M" and p: "hashable s p key" and new: "M key = None"
  shows "\<exists>s'. tcp_hash p s = Some (0, s') \<and> conn_rep s' (M(key \<mapsto> p))"
proof -
  obtain L where L: "tables_ok L s" "unique_keys L s" "M = (\<lambda>key. conn_of L key s)"
    using rep by (auto simp: conn_rep_def)
  obtain k where k: "socks s p = Some k" "key_of k = key" "state k \<noteq> TCP_CLOSED" "state k \<noteq> TCP_LISTEN"
    and z: "lists s (HashList p) = Some zero_node"
    using p by (auto simp: hashable_def)
  from tcp_hash_enter [OF L(1,2) k(1,3,4) z] new L(3) k(2) obtain s' L' where
    s': "tcp_hash p s = Some (0, s')" "tables_ok L' s'" "unique_keys L' s'"
    "\<forall>x. conn_of L' x s' = (if x = key then Some p else conn_of L x s)" by (auto simp: Let_def)
  have "M(key \<mapsto> p) = (\<lambda>x. conn_of L' x s')" using s'(4) L(3) by auto
  with s' show ?thesis unfolding conn_rep_def by blast
qed

lemma tcp_hash_dup:
  assumes "conn_rep s M" "hashable s p key" "M key \<noteq> None"
  shows "tcp_hash p s = Some (- 1, s)"
  using assms tcp_hash_conn unfolding conn_rep_def hashable_def by fastforce

lemma lookup_conn: "conn_rep s M \<Longrightarrow> tcp_sock_lookup_established a b c d s = Some (M (a, b, c, d))"
  using lookup_established_eq unfolding conn_rep_def by auto

lemma dlist_entry_linked: "dlist h a (as @ n # bs) \<Longrightarrow> list_empty h n = Some False"
  by (cases bs) (auto simp: dlist_def dseg_append list_empty_def)

lemma find_append_split: "find P (xs @ ys) = (case find P xs of None \<Rightarrow> find P ys | Some x \<Rightarrow> Some x)"
  by (induction xs) auto

text \<open>\<^verbatim>\<open>tcp_unhash\<close> of a socket that is referenced elsewhere too.\<close>

lemma tcp_unhash_conn:
  assumes rep: "conn_rep s M" and p: "M key = Some p" "socks s p = Some k" "1 < ref_cnt k"
  shows "\<exists>s'. tcp_unhash p s = Some s' \<and> conn_rep s' (M(key := None))"
proof -
  obtain L where L: "tables_ok L s" "unique_keys L s" "M = (\<lambda>key. conn_of L key s)"
    using rep by (auto simp: conn_rep_def)
  let ?a = "EstablishedTable (key_hash key)"
  have key: "p \<in> set (bucket L ?a)" "key_of k = key"
    using p L(3) by (auto simp: conn_of_def find_Some_iff)
  then obtain as bs where b: "bucket L ?a = as @ p # bs" by (meson split_list)
  have La: "L ?a = Some (map HashList as @ HashList p # map HashList bs)"
    using est_table_ok [OF L(1) key_hash_bound, of key] by (simp add: table_ok_def b)
  have ne: "list_empty (lists s) (HashList p) = Some False"
    using lrep_dlist [OF tables_ok_lrep [OF L(1)] La] by (rule dlist_entry_linked)
  obtain h where h: "list_delete_entry (lists s) (HashList p) = Some h"
    "lrep h (L(?a \<mapsto> map HashList (as @ bs)))" "dom h = dom (lists s)"
    using lrep_delete [OF tables_ok_lrep [OF L(1)] La] by auto
  define s' where "s' = s\<lparr>lists := h, socks := (socks s)(p \<mapsto> k\<lparr>ref_cnt := ref_cnt k - 1\<rparr>)\<rparr>"
  let ?L = "L(?a \<mapsto> map HashList (as @ bs))"
  have kk: "keeps_keys s s'" by (rule keeps_keys_upd [OF p(2)]) (auto simp: s'_def key_of_def)
  have sub: "set (as @ bs) \<subseteq> set (bucket L ?a)" by (auto simp: b)
  note keys = est_keys [OF L(1) kk key_hash_bound sub]
  have u: "distinct (map (\<lambda>p. map_option key_of (socks s p)) (as @ p # bs))"
    using L(2) unfolding unique_keys_def b [symmetric] by simp
  have others: "find (\<lambda>p. map_option key_of (socks s p) = Some x) (as @ bs) = (M(key := None)) x" if "key_hash x = key_hash key" for x
  proof (cases "x = key")
    case True
    then show ?thesis using u key(2) p(2) by (force simp: find_None_iff)
  next
    case False
    then show ?thesis using key(2) p(2) L(3) that by (simp add: conn_of_def b find_append_split split: option.split)
  qed
  have "conn_of ?L x s' = (M(key := None)) x" for x
    unfolding conn_of_replace [OF L(1) kk key_hash_bound] keys(2) using others L(3) by auto
  moreover have "unique_keys ?L s'"
    by (rule unique_keys_replace [OF L(1) kk key_hash_bound L(2)], unfold keys(1), use u in auto)
  moreover have "tables_ok ?L s'"
  proof (rule tables_ok_replace [OF L(1) _ _ _ _ kk])
    show "slot ?a = Some (HashList, \<lambda>k. key_hash (key_of k), key_hash key)" by simp
    show "\<forall>p \<in> set (as @ bs). in_bucket (\<lambda>k. key_hash (key_of k)) (key_hash key) s p"
      using est_table_ok [OF L(1) key_hash_bound, of key] sub unfolding table_ok_def by blast
    show "lists s' Null = None" using h(3) L(1) by (auto simp: s'_def tables_ok_def)
  qed (use h(2) in \<open>simp add: s'_def\<close>)
  ultimately have "conn_rep s' (M(key := None))"
    unfolding conn_rep_def by (intro exI [of _ ?L]) auto
  moreover have "tcp_unhash p s = Some s'"
    using ne h(1) p(2,3) by (simp add: tcp_unhash_def free_tcp_sock_def s'_def)
  ultimately show ?thesis by blast
qed

section \<open>Initialisation\<close>

text \<open>\<^verbatim>\<open>init_tcp_stack\<close> on the zeroed tables of a program start makes them empty.\<close>

definition heads_ready :: "tstack \<Rightarrow> bool" where
  "heads_ready s \<longleftrightarrow> (\<forall>a. slot a \<noteq> None \<longrightarrow> lists s a \<noteq> None) \<and> lists s Null = None"

lemma init_heads:
  assumes "lrep (lists s) L" "\<And>i. i \<in> set is \<Longrightarrow> g i \<in> dom (lists s) \<and> \<not> linked L (g i)" "distinct (map g is)"
  shows "\<exists>h. fold_opt (\<lambda>i. on_lists (\<lambda>h. init_list_head h (g i))) is s = Some (s\<lparr>lists := h\<rparr>)
     \<and> lrep h (\<lambda>a. if a \<in> g ` set is then Some [] else L a) \<and> dom h = dom (lists s)
     \<and> (\<forall>n. n \<notin> g ` set is \<longrightarrow> h n = lists s n)"
  using assms
proof (induction "is" arbitrary: s L)
  case Nil
  then show ?case by (intro exI [of _ "lists s"]) simp
next
  case (Cons i xs)
  obtain h where h: "init_list_head (lists s) (g i) = Some h" "lrep h (L(g i \<mapsto> []))" "dom h = dom (lists s)"
    "\<forall>c. c \<noteq> g i \<longrightarrow> h c = lists s c"
    using lrep_init [OF Cons.prems(1), of "g i"] Cons.prems(2) [of i] by auto
  have ne: "g j \<noteq> g i" if "j \<in> set xs" for j
    using Cons.prems(3) that by (metis distinct.simps(2) image_eqI list.simps(9) set_map)
  have fr: "g j \<in> dom (lists (s\<lparr>lists := h\<rparr>)) \<and> \<not> linked (L(g i \<mapsto> [])) (g j)" if "j \<in> set xs" for j
    using Cons.prems(2) [of j] ne [OF that] that h(3) by (auto simp: linked_def split: if_splits)
  have L: "(\<lambda>a. if a \<in> g ` set xs then Some [] else (L(g i \<mapsto> [])) a) = (\<lambda>a. if a \<in> g ` set (i # xs) then Some [] else L a)"
    by auto
  have "lrep (lists (s\<lparr>lists := h\<rparr>)) (L(g i \<mapsto> []))" "distinct (map g xs)" using h(2) Cons.prems(3) by auto
  from Cons.IH [OF this(1) fr this(2), unfolded L] h(1,3,4) show ?case by auto
qed

lemma init_tcp_stack_rep:
  assumes "heads_ready s"
  shows "\<exists>h. init_tcp_stack s = Some (s\<lparr>lists := h\<rparr>) \<and> conn_rep (s\<lparr>lists := h\<rparr>) (\<lambda>_. None)
     \<and> (\<forall>n. slot n = None \<longrightarrow> h n = lists s n)"
proof -
  let ?L = "\<lambda>g L a. if a \<in> g ` set [0..<TCP_HASH_SIZE] then Some [] else L a"
  define L1 :: lseqs where "L1 = ?L EstablishedTable (\<lambda>_. None)"
  define L2 :: lseqs where "L2 = ?L ListenTable L1"
  define L3 :: lseqs where "L3 = ?L BindTable L2"
  note L = L1_def L2_def L3_def
  have d: "a \<in> dom (lists s)" if "slot a \<noteq> None" for a using assms that by (auto simp: heads_ready_def)
  have rep0: "lrep (lists s) (\<lambda>_. None)" by (simp add: lrep_def)
  obtain h1 where 1: "fold_opt (\<lambda>i. on_lists (\<lambda>h. init_list_head h (EstablishedTable i))) [0..<TCP_HASH_SIZE] s = Some (s\<lparr>lists := h1\<rparr>)"
    "lrep h1 L1" "dom h1 = dom (lists s)" "\<forall>n. n \<notin> EstablishedTable ` set [0..<TCP_HASH_SIZE] \<longrightarrow> h1 n = lists s n"
    using init_heads [OF rep0, of "[0..<TCP_HASH_SIZE]" EstablishedTable, folded L1_def] d
    by (auto simp: linked_def distinct_map inj_on_def)
  obtain h2 where 2: "fold_opt (\<lambda>i. on_lists (\<lambda>h. init_list_head h (ListenTable i))) [0..<TCP_HASH_SIZE] (s\<lparr>lists := h1\<rparr>) = Some (s\<lparr>lists := h2\<rparr>)"
    "lrep h2 L2" "dom h2 = dom (lists s)" "\<forall>n. n \<notin> ListenTable ` set [0..<TCP_HASH_SIZE] \<longrightarrow> h2 n = h1 n"
  proof -
    have "ListenTable i \<in> dom (lists (s\<lparr>lists := h1\<rparr>)) \<and> \<not> linked L1 (ListenTable i)" if "i \<in> set [0..<TCP_HASH_SIZE]" for i
      using 1(3) d [of "ListenTable i"] that by (auto simp: linked_def L1_def split: if_splits)
    from init_heads [of "s\<lparr>lists := h1\<rparr>" L1 "[0..<TCP_HASH_SIZE]" ListenTable, OF _ this, folded L2_def] 1 show ?thesis
      by (auto simp: distinct_map inj_on_def intro: that)
  qed
  obtain h3 where 3: "fold_opt (\<lambda>i. on_lists (\<lambda>h. init_list_head h (BindTable i))) [0..<TCP_HASH_SIZE] (s\<lparr>lists := h2\<rparr>) = Some (s\<lparr>lists := h3\<rparr>)"
    "lrep h3 L3" "dom h3 = dom (lists s)" "\<forall>n. n \<notin> BindTable ` set [0..<TCP_HASH_SIZE] \<longrightarrow> h3 n = h2 n"
  proof -
    have "BindTable i \<in> dom (lists (s\<lparr>lists := h2\<rparr>)) \<and> \<not> linked L2 (BindTable i)" if "i \<in> set [0..<TCP_HASH_SIZE]" for i
      using 2(3) d [of "BindTable i"] that by (auto simp: linked_def L1_def L2_def split: if_splits)
    from init_heads [of "s\<lparr>lists := h2\<rparr>" L2 "[0..<TCP_HASH_SIZE]" BindTable, OF _ this, folded L3_def] 2 show ?thesis
      by (auto simp: distinct_map inj_on_def intro: that)
  qed
  have empty: "L3 a = Some []" if "slot a \<noteq> None" for a
    using that by (cases a) (auto simp: L split: if_splits)
  then have b: "bucket L3 a = []" if "slot a \<noteq> None" for a using that by (simp add: bucket_def)
  have "h3 Null = None" using 3(3) assms by (metis domIff heads_ready_def)
  then have "tables_ok L3 (s\<lparr>lists := h3\<rparr>)"
    using empty b 3(2) by (auto simp: tables_ok_def table_ok_def heads_ready_def)
  moreover have "unique_keys L3 (s\<lparr>lists := h3\<rparr>)" using b by (simp add: unique_keys_def)
  moreover have "conn_of L3 key (s\<lparr>lists := h3\<rparr>) = None" for key using b by (simp add: conn_of_def)
  ultimately have "conn_rep (s\<lparr>lists := h3\<rparr>) (\<lambda>_. None)"
    unfolding conn_rep_def by (intro exI [of _ L3]) auto
  moreover have "h3 n = lists s n" if "slot n = None" for n
  proof -
    have "n \<notin> EstablishedTable ` set [0..<TCP_HASH_SIZE]" "n \<notin> ListenTable ` set [0..<TCP_HASH_SIZE]"
      "n \<notin> BindTable ` set [0..<TCP_HASH_SIZE]" using that by auto
    then show ?thesis using 1(4) 2(4) 3(4) by simp
  qed
  moreover have "init_tcp_stack s = Some (s\<lparr>lists := h3\<rparr>)"
    using 1(1) 2(1) 3(1) by (simp add: init_tcp_stack_def)
  ultimately show ?thesis by blast
qed

section \<open>The contract\<close>

text \<open>
  A table of connections, as the input path and the socket calls see it: \<open>rep s M\<close> says that \<open>s\<close> holds the map
  \<open>M\<close>, \<open>ready s p key\<close> that object \<open>p\<close> may be entered under \<open>key\<close>, and \<open>shared s p\<close> that removing \<open>p\<close> does
  not free it.
\<close>

locale conn_table =
  fixes rep :: "'s \<Rightarrow> ('k \<Rightarrow> 'p option) \<Rightarrow> bool"
    and ready :: "'s \<Rightarrow> 'p \<Rightarrow> 'k \<Rightarrow> bool"
    and shared :: "'s \<Rightarrow> 'p \<Rightarrow> bool"
    and lookup :: "'k \<Rightarrow> 's \<Rightarrow> 'p option option"
    and enter :: "'p \<Rightarrow> 's \<Rightarrow> (int \<times> 's) option"
    and remove :: "'p \<Rightarrow> 's \<Rightarrow> 's option"
  assumes lookup: "rep s M \<Longrightarrow> lookup key s = Some (M key)"
    and enter_new: "rep s M \<Longrightarrow> ready s p key \<Longrightarrow> M key = None \<Longrightarrow> \<exists>s'. enter p s = Some (0, s') \<and> rep s' (M(key \<mapsto> p))"
    and enter_dup: "rep s M \<Longrightarrow> ready s p key \<Longrightarrow> M key \<noteq> None \<Longrightarrow> enter p s = Some (- 1, s)"
    and remove: "rep s M \<Longrightarrow> M key = Some p \<Longrightarrow> shared s p \<Longrightarrow> \<exists>s'. remove p s = Some s' \<and> rep s' (M(key := None))"
begin

text \<open>An entry never displaces another, whether it is accepted or refused.\<close>

lemma enter_lookup:
  assumes "rep s M" "ready s p key"
  shows "\<exists>r s' M'. enter p s = Some (r, s') \<and> rep s' M'
     \<and> (\<forall>k. lookup k s' = Some (if k = key \<and> M key = None then Some p else M k))
     \<and> (r = 0 \<longleftrightarrow> M key = None)"
proof (cases "M key = None")
  case True
  then obtain s' where s': "enter p s = Some (0, s')" "rep s' (M(key \<mapsto> p))"
    using enter_new [OF assms] by blast
  then show ?thesis using lookup [OF s'(2)] True by (intro exI [of _ 0] exI [of _ s'] exI) auto
next
  case False
  then show ?thesis using enter_dup [OF assms] lookup assms(1) by (intro exI [of _ "- 1"] exI [of _ s] exI) auto
qed

lemma enter_remove:
  assumes "rep s M" "ready s p key" "M key = None" "\<And>s'. enter p s = Some (0, s') \<Longrightarrow> shared s' p"
  shows "\<exists>s' s''. enter p s = Some (0, s') \<and> lookup key s' = Some (Some p)
     \<and> remove p s' = Some s'' \<and> (\<forall>k. lookup k s'' = lookup k s)"
proof -
  obtain s' where s': "enter p s = Some (0, s')" "rep s' (M(key \<mapsto> p))"
    using enter_new [OF assms(1-3)] by blast
  obtain s'' where s'': "remove p s' = Some s''" "rep s'' ((M(key \<mapsto> p))(key := None))"
    using remove [of s' "M(key \<mapsto> p)" key p] s'(2) assms(4) [OF s'(1)] by auto
  have "(M(key \<mapsto> p))(key := None) = M" using assms(3) by auto
  then show ?thesis using s' s'' lookup [OF s'(2)] lookup [OF s''(2)] lookup [OF assms(1)] by auto
qed

end

definition shared_sock :: "tstack \<Rightarrow> nat \<Rightarrow> bool" where
  "shared_sock s p \<longleftrightarrow> (\<exists>k. socks s p = Some k \<and> 1 < ref_cnt k)"

definition lookup_key :: "conn_key \<Rightarrow> tstack \<Rightarrow> nat option option" where
  "lookup_key = (\<lambda>(saddr, daddr, sport, dport). tcp_sock_lookup_established saddr daddr sport dport)"

interpretation established: conn_table conn_rep hashable shared_sock lookup_key tcp_hash tcp_unhash
proof
  fix s M key
  show "conn_rep s M \<Longrightarrow> lookup_key key s = Some (M key)"
    by (cases key) (simp add: lookup_key_def lookup_conn)
next
  fix s M p key
  show "conn_rep s M \<Longrightarrow> M key = Some p \<Longrightarrow> shared_sock s p \<Longrightarrow> \<exists>s'. tcp_unhash p s = Some s' \<and> conn_rep s' (M(key := None))"
    unfolding shared_sock_def by (elim exE conjE) (rule tcp_unhash_conn)
qed (use tcp_hash_new tcp_hash_dup in blast)+

text \<open>Tables with socket 0 in the bucket at head \<open>a\<close> and nothing else.\<close>

definition one_lists :: "lptr \<Rightarrow> lptr lheap" where
  "one_lists a n =
     (if n = a then Some \<lparr>lh_next = HashList 0, lh_prev = HashList 0\<rparr>
      else if n = HashList 0 then Some \<lparr>lh_next = a, lh_prev = a\<rparr>
      else if slot n \<noteq> None \<or> n \<in> {ListenQueue 0, AcceptQueue 0, OfoBuf 0} then Some \<lparr>lh_next = n, lh_prev = n\<rparr>
      else None)"

definition one_seqs :: "lptr \<Rightarrow> lseqs" where
  "one_seqs a n =
     (if n = a then Some [HashList 0]
      else if slot n \<noteq> None \<or> n \<in> {ListenQueue 0, AcceptQueue 0, OfoBuf 0} then Some []
      else None)"

lemma one_tables:
  assumes a: "slot a = Some (HashList, f, i)" and k: "socks s 0 = Some k" "f k = i" and h: "lists s = one_lists a"
  shows "tables_ok (one_seqs a) s"
proof -
  have ne: "a \<noteq> HashList 0" "a \<noteq> Null" using a by auto
  have "lrep (one_lists a) (one_seqs a)"
    unfolding lrep_def
  proof (intro allI impI)
    fix b xs assume b: "one_seqs a b = Some xs"
    then show "dlist (one_lists a) b xs \<and> (\<forall>x \<in> set xs. one_seqs a x = None)"
      using ne by (cases "b = a") (auto simp: one_seqs_def one_lists_def dlist_def nxt_def prv_def split: if_splits)
  qed
  moreover have "table_ok b node g j (one_seqs a) s" if b: "slot b = Some (node, g, j)" for b node g j
  proof (cases "b = a")
    case True
    then show ?thesis using a b k by (auto simp: table_ok_def bucket_def one_seqs_def in_bucket_def)
  next
    case False
    then show ?thesis using b by (auto simp: table_ok_def bucket_def one_seqs_def)
  qed
  ultimately show ?thesis using h ne by (simp add: tables_ok_def one_lists_def)
qed

text \<open>C10. The established table of the TCP stack is a map from the connection (both addresses and both
  ports) to the socket: \<^verbatim>\<open>tcp_hash\<close> of a socket whose connection is not in the table returns 0, and then
  \<^verbatim>\<open>tcp_sock_lookup_established\<close> finds exactly that connection in addition; \<^verbatim>\<open>tcp_hash\<close> of a second socket
  for the same connection fails and displaces nothing. The hash function only chooses the bucket.\<close>

theorem tcp_hash_lookup:
  assumes "conn_rep s M" "hashable s p key"
  shows "\<exists>r s' M'. tcp_hash p s = Some (r, s') \<and> conn_rep s' M' \<and> (r = 0 \<longleftrightarrow> M key = None)
       \<and> (\<forall>a b c d. tcp_sock_lookup_established a b c d s' =
             Some (if (a, b, c, d) = key \<and> M key = None then Some p else M (a, b, c, d)))"
proof -
  from established.enter_lookup [OF assms] obtain r s' M' where
    "tcp_hash p s = Some (r, s')" "conn_rep s' M'" "r = 0 \<longleftrightarrow> M key = None"
    "\<forall>k. lookup_key k s' = Some (if k = key \<and> M key = None then Some p else M k)"
    by (elim exE conjE) (rule that)
  then show ?thesis
    by (intro exI [of _ r] exI [of _ s'] exI [of _ M']) (auto simp: lookup_key_def)
qed

text \<open>After \<^verbatim>\<open>init_tcp_stack\<close> the table is empty, and the connection of the one socket can be entered.\<close>

definition tables0 :: tstack where
  "tables0 = tstack0\<lparr>lists := (\<lambda>n. if slot n \<noteq> None \<or> n \<in> set (sock_nodes 0) then Some zero_node else None)\<rparr>"

theorem tcp_hash_lookup_witness:
  "\<exists>s s'. init_tcp_stack tables0 = Some s \<and> conn_rep s (\<lambda>_. None)
     \<and> tcp_sock_lookup_established 0x0A000001 0x0A000102 80 12345 s = Some None
     \<and> tcp_hash 0 s = Some (0, s')
     \<and> tcp_sock_lookup_established 0x0A000001 0x0A000102 80 12345 s' = Some (Some 0)
     \<and> tcp_sock_lookup_established 0x0A000001 0x0A000102 80 12346 s' = Some None"
proof -
  obtain h where h: "init_tcp_stack tables0 = Some (tables0\<lparr>lists := h\<rparr>)" "conn_rep (tables0\<lparr>lists := h\<rparr>) (\<lambda>_. None)"
    "\<forall>n. slot n = None \<longrightarrow> h n = lists tables0 n"
    using init_tcp_stack_rep [of tables0] by (auto simp: heads_ready_def tables0_def sock_nodes_def)
  have "hashable (tables0\<lparr>lists := h\<rparr>) 0 (0x0A000001, 0x0A000102, 80, 12345)"
    using h(3) by (simp add: hashable_def tables0_def tstack0_def sock0_def key_of_def sock_nodes_def)
  from tcp_hash_lookup [OF h(2) this] show ?thesis
    using h(1,2) lookup_conn [OF h(2)] by auto
qed

end
