(* ===== verification/Startup.thy ===== *)
theory Startup
  imports TcpTables TcpIn CString
begin

text \<open>
  The start of the TCP labs (\<^verbatim>\<open>17-tcp_stack/main.c\<close>, \<^verbatim>\<open>get_unparsed_route_info\<close> of \<^verbatim>\<open>rtable_internal.c\<close>): finding and opening the
  interfaces, loading the kernel's routes, and the main loop. What the operating system answers is a record
  of functions; a call that ends the program is an error value.
\<close>

section \<open>The operating system\<close>

record ifaddr =
  ifa_name :: string
  ifa_family :: "int option"

text \<open>What \<^verbatim>\<open>recv\<close> returns on the netlink socket: an error, the end, the messages \<^verbatim>\<open>NLMSG_DONE\<close> and
  \<^verbatim>\<open>NLMSG_ERROR\<close>, or a number of bytes that hold route messages.\<close>

datatype nl_reply = NL_failed | NL_eof | NL_done | NL_error | NL_routes nat "nlmsg list"

text \<open>By name of the interface: the packet socket opened for it (negative for a failure), whether \<^verbatim>\<open>bind\<close> succeeds, and
  the answers to the \<^verbatim>\<open>ioctl\<close> requests, addresses in network order. \<open>os_routes\<close> is \<open>None\<close> where the
  request cannot be sent.\<close>

record os =
  os_ifaddrs :: "ifaddr list"
  os_socket :: "string \<Rightarrow> int"
  os_bind :: "string \<Rightarrow> bool"
  os_index :: "string \<Rightarrow> int option"
  os_hwaddr :: "string \<Rightarrow> mac option"
  os_addr :: "string \<Rightarrow> u32 option"
  os_netmask :: "string \<Rightarrow> u32 option"
  os_if_name :: "int \<Rightarrow> string option"
  os_routes :: "nl_reply list option"

datatype startup_error = No_interfaces | No_address | No_netmask | No_routes | Routes_too_large | Routes_blocked | Undefined
  | Usage | Not_permitted | No_nat_interfaces

type_synonym 'a startup = "startup_error + 'a"

definition and_then :: "'a startup \<Rightarrow> ('a \<Rightarrow> 'b startup) \<Rightarrow> 'b startup" where
  "and_then r f = (case r of Inl e \<Rightarrow> Inl e | Inr a \<Rightarrow> f a)"

lemma and_then_simps [simp]: "and_then (Inl e) f = Inl e" "and_then (Inr a) f = f a"
  by (simp_all add: and_then_def)

definition or_error :: "startup_error \<Rightarrow> 'a option \<Rightarrow> 'a startup" where
  "or_error e r = (case r of None \<Rightarrow> Inl e | Some a \<Rightarrow> Inr a)"

lemma or_error_simps [simp]: "or_error e None = Inl e" "or_error e (Some a) = Inr a"
  by (simp_all add: or_error_def)

fun each :: "('a \<Rightarrow> 'b startup) \<Rightarrow> 'a list \<Rightarrow> 'b list startup" where
  "each f [] = Inr []"
| "each f (x # xs) = and_then (f x) (\<lambda>y. and_then (each f xs) (\<lambda>ys. Inr (y # ys)))"

section \<open>The interfaces\<close>

definition AF_PACKET :: int where "AF_PACKET = 17"

definition open_device :: "os \<Rightarrow> string \<Rightarrow> int" where
  "open_device os name =
     (if os_socket os name < 0 then - 1
      else if os_index os name = None then - 1
      else if \<not> os_bind os name then - 1
      else if os_hwaddr os name = None then - 1
      else os_socket os name)"

text \<open>The result of \<^verbatim>\<open>open_device\<close> is not tested; on the descriptor \<open>-1\<close> the next \<^verbatim>\<open>ioctl\<close> fails and ends the program. Before
  that, the index and the hardware address of a failed request are read out of an uninitialised structure and
  not used.\<close>

definition read_iface_info :: "os \<Rightarrow> string \<Rightarrow> iface_info startup" where
  "read_iface_info os name =
     (let fd = open_device os name in
      if fd < 0 then Inl No_address
      else and_then (or_error Undefined (os_index os name)) (\<lambda>idx.
           and_then (or_error Undefined (os_hwaddr os name)) (\<lambda>hw.
           and_then (or_error No_address (os_addr os name)) (\<lambda>ip.
           and_then (or_error No_netmask (os_netmask os name)) (\<lambda>msk.
             Inr \<lparr>if_fd = fd, if_index = idx, if_mac = hw, if_ip = ntohl ip, if_mask = ntohl msk, if_nm = name\<rparr>)))))"

text \<open>The names go into arrays of 16 bytes, and all of them, with a space in front of each, into one of 1024.\<close>

definition available :: "os \<Rightarrow> string list" where
  "available os = map ifa_name (filter (\<lambda>a. ifa_family a = Some AF_PACKET \<and> has_sub ''-eth'' (ifa_name a)) (os_ifaddrs os))"

definition find_available_ifaces :: "os \<Rightarrow> string list startup" where
  "find_available_ifaces os =
     (let names = available os in
      if list_ex (\<lambda>n. 16 \<le> length n) names then Inl Undefined
      else if names = [] then Inl No_interfaces
      else if 1024 \<le> sum_list (map (\<lambda>n. length n + 1) names) then Inl Undefined
      else Inr names)"

text \<open>The interfaces and the descriptors that \<^verbatim>\<open>poll\<close> watches.\<close>

definition init_all_ifaces :: "os \<Rightarrow> (iface_info list \<times> int list) startup" where
  "init_all_ifaces os =
     and_then (find_available_ifaces os) (\<lambda>names.
     and_then (each (read_iface_info os) names) (\<lambda>ifs. Inr (ifs, map if_fd ifs)))"

section \<open>The routes\<close>

definition ROUTE_BATCH_SIZE :: nat where "ROUTE_BATCH_SIZE = 10240"

text \<open>The loop around \<^verbatim>\<open>recv\<close>, with \<open>left\<close> bytes of the buffer free; a header has 16. A reply that does not fit fills the buffer, and the next
  round gives up. Without a further reply the call blocks.\<close>

fun route_loop :: "nat \<Rightarrow> nl_reply list \<Rightarrow> nlmsg list startup" where
  "route_loop left [] = (if left < 16 then Inl Routes_too_large else Inl Routes_blocked)"
| "route_loop left (r # rs) =
     (if left < 16 then Inl Routes_too_large
      else case r of
        NL_failed \<Rightarrow> Inr []
      | NL_eof \<Rightarrow> Inr []
      | NL_done \<Rightarrow> Inr []
      | NL_error \<Rightarrow> Inl No_routes
      | NL_routes n ms \<Rightarrow>
          if left < n then Inl Routes_too_large
          else and_then (route_loop (left - n) rs) (\<lambda>ms'. Inr (ms @ ms')))"

definition get_unparsed_route_info :: "nl_reply list option \<Rightarrow> nat \<Rightarrow> nlmsg list startup" where
  "get_unparsed_route_info routes sz = and_then (or_error No_routes routes) (route_loop sz)"

definition load_rtable_from_kernel :: "os \<Rightarrow> 'a ustack_scheme \<Rightarrow> 'a ustack_scheme startup" where
  "load_rtable_from_kernel os s =
     and_then (get_unparsed_route_info (os_routes os) ROUTE_BATCH_SIZE) (\<lambda>msgs.
     and_then (or_error Undefined (parse_routing_info (os_if_name os) msgs s)) (\<lambda>(n, s). Inr s))"

section \<open>The program\<close>

text \<open>\<^verbatim>\<open>init_ustack\<close> on the globals \<open>s\<close> of a program that has just been loaded. All but the last call is the same in labs
  10, 11, 12 and 15 to 17.\<close>

definition start_router :: "os \<Rightarrow> 'a ustack_scheme \<Rightarrow> ('a ustack_scheme \<times> int list) startup" where
  "start_router os s =
     and_then (init_all_ifaces os) (\<lambda>(ifs, fds).
       let s = s\<lparr>iface_list := ifs\<rparr>;
           s = arpcache_init s;
           s = init_rtable s in
     and_then (load_rtable_from_kernel os s) (\<lambda>s. Inr (s, fds)))"

definition init_ustack :: "os \<Rightarrow> tstack \<Rightarrow> (tstack \<times> int list) startup" where
  "init_ustack os s =
     and_then (start_router os s) (\<lambda>(s, fds).
     and_then (or_error Undefined (init_tcp_stack s)) (\<lambda>s. Inr (s, fds)))"

text \<open>What one \<^verbatim>\<open>poll\<close> returns: a failure, or for each descriptor a frame with the mark of an outgoing one, where the
  descriptor is ready.\<close>

datatype poll_result = Poll_failed | Poll_ready "(bytes \<times> bool) option list"

fun poll_round ::
  "(iface_info \<Rightarrow> bytes \<Rightarrow> int \<Rightarrow> 'a ustack_scheme \<Rightarrow> 'a ustack_scheme option) \<Rightarrow> (int \<times> (bytes \<times> bool) option) list \<Rightarrow>
   'a ustack_scheme \<Rightarrow> 'a ustack_scheme option" where
  "poll_round handle [] s = Some s"
| "poll_round handle ((fd, None) # rs) s = poll_round handle rs s"
| "poll_round handle ((fd, Some (buf, outgoing)) # rs) s = do {
     s \<leftarrow> ustack_run_step handle fd buf outgoing s;
     poll_round handle rs s }"

text \<open>The loop ends only where \<^verbatim>\<open>poll\<close> fails; otherwise the state after the rounds given is the one in which it waits.\<close>

fun ustack_run ::
  "(iface_info \<Rightarrow> bytes \<Rightarrow> int \<Rightarrow> 'a ustack_scheme \<Rightarrow> 'a ustack_scheme option) \<Rightarrow> int list \<Rightarrow> poll_result list \<Rightarrow>
   'a ustack_scheme \<Rightarrow> 'a ustack_scheme option" where
  "ustack_run handle fds [] s = Some s"
| "ustack_run handle fds (Poll_failed # ps) s = Some s"
| "ustack_run handle fds (Poll_ready rs # ps) s = do {
     s \<leftarrow> poll_round handle (zip fds rs) s;
     ustack_run handle fds ps s }"

text \<open>The handlers of the TCP labs.\<close>

definition handle_packet_17 :: "iface_info \<Rightarrow> bytes \<Rightarrow> int \<Rightarrow> tstack \<Rightarrow> tstack option" where
  "handle_packet_17 = handle_packet (handle_ip_packet handle_tcp_packet) handle_arp_packet"

text \<open>The application to be started; addresses are read by \<^verbatim>\<open>inet_addr\<close>. The ports are in network order.\<close>

datatype application = Run_server u16 | Run_client u32 u16

definition run_application :: "(string \<Rightarrow> u32) \<Rightarrow> string list \<Rightarrow> application startup" where
  "run_application inet_addr args = (case args of
     [] \<Rightarrow> Inl Undefined
   | cmd # rest \<Rightarrow>
       if cmd = ''server'' then
         (if length args \<noteq> 2 then Inl Usage
          else and_then (or_error Undefined (atoi (args ! 1))) (\<lambda>p. Inr (Run_server (htons (of_int p)))))
       else if cmd = ''client'' then
         (if length args \<noteq> 3 then Inl Usage
          else and_then (or_error Undefined (atoi (args ! 2))) (\<lambda>p. Inr (Run_client (inet_addr (args ! 1)) (htons (of_int p)))))
       else Inl Usage)"

definition main_17 :: "bool \<Rightarrow> (string \<Rightarrow> u32) \<Rightarrow> os \<Rightarrow> string list \<Rightarrow> tstack \<Rightarrow> (application \<times> tstack \<times> int list) startup" where
  "main_17 root inet_addr os args s =
     (if \<not> root then Inl Not_permitted
      else if args = [] then Inl Usage
      else and_then (init_ustack os s) (\<lambda>(s, fds).
           and_then (run_application inet_addr args) (\<lambda>app. Inr (app, s, fds))))"

section \<open>A start without failure\<close>

text \<open>What the program needs of the system. The interfaces: at least one whose name contains \<^verbatim>\<open>-eth\<close>, names that fit
  the arrays, every request answered, different sockets. The routes: replies that fit the buffer, ended by \<^verbatim>\<open>NLMSG_DONE\<close>,
  whose messages of the main table carry a known output interface, and a prefix length from 1 to 32 where there is a
  destination.\<close>

definition iface_ready :: "os \<Rightarrow> string \<Rightarrow> bool" where
  "iface_ready os name \<longleftrightarrow> length name < 16 \<and> 0 \<le> os_socket os name \<and> os_bind os name \<and> os_index os name \<noteq> None
     \<and> os_hwaddr os name \<noteq> None \<and> os_addr os name \<noteq> None \<and> os_netmask os name \<noteq> None"

definition route_ok :: "os \<Rightarrow> nlmsg \<Rightarrow> bool" where
  "route_ok os m \<longleftrightarrow> rtm_table m \<noteq> 254 \<or>
     list_ex (\<lambda>a. case a of RTA_OIF i \<Rightarrow> True | _ \<Rightarrow> False) (rtm_attrs m) \<and>
     list_all (\<lambda>a. case a of RTA_DST w \<Rightarrow> 1 \<le> rtm_dst_len m \<and> rtm_dst_len m \<le> 32
                          | RTA_OIF i \<Rightarrow> os_if_name os i \<noteq> None | _ \<Rightarrow> True) (rtm_attrs m)"

definition os_ok :: "os \<Rightarrow> (nat \<times> nlmsg list) list \<Rightarrow> bool" where
  "os_ok os rs \<longleftrightarrow> available os \<noteq> [] \<and> list_all (iface_ready os) (available os)
     \<and> sum_list (map (\<lambda>n. length n + 1) (available os)) < 1024
     \<and> distinct (map (os_socket os) (available os))
     \<and> os_routes os = Some (map (\<lambda>(n, ms). NL_routes n ms) rs @ [NL_done])
     \<and> sum_list (map fst rs) + 16 \<le> ROUTE_BATCH_SIZE
     \<and> list_all (route_ok os) (concat (map snd rs))"

text \<open>The interface the system describes under a name.\<close>

definition iface_of :: "os \<Rightarrow> string \<Rightarrow> iface_info" where
  "iface_of os name = \<lparr>if_fd = os_socket os name, if_index = the (os_index os name), if_mac = the (os_hwaddr os name),
     if_ip = ntohl (the (os_addr os name)), if_mask = ntohl (the (os_netmask os name)), if_nm = name\<rparr>"

lemma read_iface_ready: "iface_ready os name \<Longrightarrow> read_iface_info os name = Inr (iface_of os name)"
  by (auto simp: iface_ready_def read_iface_info_def open_device_def iface_of_def Let_def)

lemma each_ready: "list_all (iface_ready os) names \<Longrightarrow> each (read_iface_info os) names = Inr (map (iface_of os) names)"
  by (induction names) (simp_all add: read_iface_ready)

lemma init_all_ifaces_ok:
  assumes "os_ok os rs"
  shows "init_all_ifaces os = Inr (map (iface_of os) (available os), map (os_socket os) (available os))"
proof -
  have "find_available_ifaces os = Inr (available os)"
    using assms by (auto simp: find_available_ifaces_def os_ok_def iface_ready_def list_all_iff list_ex_iff Let_def)
  then show ?thesis
    using assms by (simp add: init_all_ifaces_def os_ok_def each_ready iface_of_def comp_def)
qed

lemma route_loop_fits:
  "sum_list (map fst rs) + 16 \<le> left \<Longrightarrow>
   route_loop left (map (\<lambda>(n, ms). NL_routes n ms) rs @ [NL_done]) = Inr (concat (map snd rs))"
  by (induction rs arbitrary: left) (auto simp: algebra_simps)

lemma parse_attr_defined:
  assumes "case a of RTA_DST w \<Rightarrow> 1 \<le> l \<and> l \<le> 32 | RTA_OIF i \<Rightarrow> nm i \<noteq> None | _ \<Rightarrow> True"
  shows "\<exists>r'. parse_attr nm l a r = Some r'
     \<and> (ri_if_name r \<noteq> None \<or> (case a of RTA_OIF i \<Rightarrow> True | _ \<Rightarrow> False) \<longrightarrow> ri_if_name r' \<noteq> None)"
  using assms by (cases a) (auto simp: parse_attr_def)

lemma parse_attrs_defined:
  assumes "list_all (\<lambda>a. case a of RTA_DST w \<Rightarrow> 1 \<le> l \<and> l \<le> 32 | RTA_OIF i \<Rightarrow> nm i \<noteq> None | _ \<Rightarrow> True) as"
  shows "\<exists>r'. fold_opt (parse_attr nm l) as r = Some r'
     \<and> (ri_if_name r \<noteq> None \<or> list_ex (\<lambda>a. case a of RTA_OIF i \<Rightarrow> True | _ \<Rightarrow> False) as \<longrightarrow> ri_if_name r' \<noteq> None)"
  using assms
proof (induction as arbitrary: r)
  case (Cons a as)
  obtain r1 where r1: "parse_attr nm l a r = Some r1"
    "ri_if_name r \<noteq> None \<or> (case a of RTA_OIF i \<Rightarrow> True | _ \<Rightarrow> False) \<longrightarrow> ri_if_name r1 \<noteq> None"
    using parse_attr_defined [where a = a and l = l and nm = nm and r = r] Cons.prems by auto
  obtain r2 where r2: "fold_opt (parse_attr nm l) as r1 = Some r2"
    "ri_if_name r1 \<noteq> None \<or> list_ex (\<lambda>a. case a of RTA_OIF i \<Rightarrow> True | _ \<Rightarrow> False) as \<longrightarrow> ri_if_name r2 \<noteq> None"
    using Cons.IH [of r1] Cons.prems by auto
  show ?case
    by (rule exI [of _ r2]) (use r1 r2 in auto)
qed simp

text \<open>Loading the routes changes the routing table only, and every entry leads to an interface of the list.\<close>

definition routes_local :: "'a ustack_scheme \<Rightarrow> bool" where
  "routes_local s \<longleftrightarrow> (\<forall>e \<in> set (rtable s). rt_iface e \<in> set (iface_list s))"

lemma parse_route_step:
  assumes "route_ok os m" "routes_local (snd ns)"
  shows "\<exists>n t. parse_route (os_if_name os) m ns = Some (n, snd ns\<lparr>rtable := t\<rparr>) \<and> routes_local (snd ns\<lparr>rtable := t\<rparr>)"
proof (cases "rtm_table m = 254")
  case False
  then show ?thesis
    using assms(2) by (intro exI [of _ "fst ns"] exI [of _ "rtable (snd ns)"]) (simp add: parse_route_def)
next
  case True
  then obtain r nm where r: "fold_opt (parse_attr (os_if_name os) (rtm_dst_len m)) (rtm_attrs m)
      \<lparr>ri_dest = 0, ri_mask = 0, ri_gw = 0, ri_if_name = None\<rparr> = Some r" "ri_if_name r = Some nm"
    using parse_attrs_defined [of "rtm_dst_len m" "os_if_name os" "rtm_attrs m" "\<lparr>ri_dest = 0, ri_mask = 0, ri_gw = 0, ri_if_name = None\<rparr>"]
      assms(1) by (auto simp: route_ok_def)
  show ?thesis
  proof (cases "if_name_to_iface (snd ns) nm")
    case None
    then show ?thesis
      using assms(2) True r
      by (intro exI [of _ "fst ns"] exI [of _ "rtable (snd ns)"]) (simp add: parse_route_def)
  next
    case (Some i)
    then have "i \<in> set (iface_list (snd ns))" by (auto simp: if_name_to_iface_def find_Some_iff)
    then show ?thesis
      using assms(2) True r Some
      by (intro exI [of _ "Suc (fst ns)"] exI [of _ "rtable (snd ns) @ [new_rt_entry (ri_dest r) (ri_mask r) (ri_gw r) i]"])
         (simp add: parse_route_def add_rt_entry_def new_rt_entry_def routes_local_def)
  qed
qed

lemma parse_routes:
  assumes "list_all (route_ok os) msgs" "routes_local (snd ns)"
  shows "\<exists>n t. fold_opt (parse_route (os_if_name os)) msgs ns = Some (n, snd ns\<lparr>rtable := t\<rparr>) \<and> routes_local (snd ns\<lparr>rtable := t\<rparr>)"
  using assms
proof (induction msgs arbitrary: ns)
  case Nil
  then show ?case by (intro exI [of _ "fst ns"] exI [of _ "rtable (snd ns)"]) simp
next
  case (Cons m msgs)
  obtain n t where 1: "parse_route (os_if_name os) m ns = Some (n, snd ns\<lparr>rtable := t\<rparr>)" "routes_local (snd ns\<lparr>rtable := t\<rparr>)"
    using parse_route_step [of os m ns] Cons.prems by auto
  from Cons.IH [of "(n, snd ns\<lparr>rtable := t\<rparr>)"] Cons.prems 1 show ?case by auto
qed

lemma load_rtable_ok:
  assumes "os_ok os rs"
  shows "\<exists>t. load_rtable_from_kernel os s = Inr (s\<lparr>rtable := t\<rparr>) \<and> routes_local (s\<lparr>rtable := t\<rparr>)"
proof -
  have "get_unparsed_route_info (os_routes os) ROUTE_BATCH_SIZE = Inr (concat (map snd rs))"
    using assms by (simp add: os_ok_def get_unparsed_route_info_def route_loop_fits)
  moreover obtain n t where "parse_routing_info (os_if_name os) (concat (map snd rs)) s = Some (n, s\<lparr>rtable := t\<rparr>)"
    "routes_local (s\<lparr>rtable := t\<rparr>)"
    using parse_routes [of os "concat (map snd rs)" "(0, init_rtable s)"] assms
    by (auto simp: os_ok_def parse_routing_info_def init_rtable_def routes_local_def)
  ultimately show ?thesis by (auto simp: load_rtable_from_kernel_def)
qed

text \<open>The state a router starts in: the interfaces in the order found, an empty cache, routes over own interfaces. The TCP
  labs add empty tables of connections.\<close>

lemma start_router_ok:
  assumes "os_ok os rs"
  shows "\<exists>t. start_router os s = Inr ((arpcache_init s)\<lparr>iface_list := map (iface_of os) (available os), rtable := t\<rparr>,
       map (os_socket os) (available os))
     \<and> routes_local ((arpcache_init s)\<lparr>iface_list := map (iface_of os) (available os), rtable := t\<rparr>)"
proof -
  let ?s1 = "init_rtable (arpcache_init (s\<lparr>iface_list := map (iface_of os) (available os)\<rparr>))"
  have eq: "?s1\<lparr>rtable := t\<rparr> = (arpcache_init s)\<lparr>iface_list := map (iface_of os) (available os), rtable := t\<rparr>" for t
    by (simp add: init_rtable_def arpcache_init_def)
  obtain t where t: "load_rtable_from_kernel os ?s1 = Inr (?s1\<lparr>rtable := t\<rparr>)" "routes_local (?s1\<lparr>rtable := t\<rparr>)"
    using load_rtable_ok [OF assms] by blast
  then have "start_router os s = Inr (?s1\<lparr>rtable := t\<rparr>, map (os_socket os) (available os))"
    by (simp add: start_router_def init_all_ifaces_ok [OF assms] Let_def)
  then show ?thesis using t(2) unfolding eq by blast
qed

lemma init_ustack_ok:
  assumes "os_ok os rs" "heads_ready s"
  shows "\<exists>t h. init_ustack os s = Inr ((arpcache_init s)\<lparr>iface_list := map (iface_of os) (available os), rtable := t, lists := h\<rparr>,
       map (os_socket os) (available os))
     \<and> routes_local ((arpcache_init s)\<lparr>iface_list := map (iface_of os) (available os), rtable := t, lists := h\<rparr>)
     \<and> conn_rep ((arpcache_init s)\<lparr>iface_list := map (iface_of os) (available os), rtable := t, lists := h\<rparr>) (\<lambda>_. None)"
proof -
  let ?s1 = "\<lambda>t. (arpcache_init s)\<lparr>iface_list := map (iface_of os) (available os), rtable := t\<rparr>"
  obtain t where t: "start_router os s = Inr (?s1 t, map (os_socket os) (available os))" "routes_local (?s1 t)"
    using start_router_ok [OF assms(1)] by blast
  have "heads_ready (?s1 t)" using assms(2) by (simp add: heads_ready_def arpcache_init_def)
  from init_tcp_stack_rep [OF this] obtain h where h: "init_tcp_stack (?s1 t) = Some ((?s1 t)\<lparr>lists := h\<rparr>)"
    "conn_rep ((?s1 t)\<lparr>lists := h\<rparr>) (\<lambda>_. None)" by auto
  have "init_ustack os s = Inr ((?s1 t)\<lparr>lists := h\<rparr>, map (os_socket os) (available os))"
    using t(1) h(1) by (simp add: init_ustack_def)
  moreover have "routes_local ((?s1 t)\<lparr>lists := h\<rparr>)" using t(2) by (simp add: routes_local_def)
  ultimately show ?thesis using h(2) by blast
qed

section \<open>The first frame\<close>

text \<open>One round of the loop with a frame on the descriptor of one interface.\<close>

lemma poll_round_nothing: "poll_round handle (zip fds (replicate n None)) s = Some s"
  by (induction n arbitrary: fds) (auto simp: zip_Cons1 split: list.split, case_tac fds, auto)

lemma poll_round_one:
  "k < length fds \<Longrightarrow> poll_round handle (zip fds ((replicate (length fds) None)[k := Some (buf, out)])) s
     = ustack_run_step handle (fds ! k) buf out s"
proof (induction fds arbitrary: k)
  case (Cons fd fds)
  show ?case
  proof (cases k)
    case 0
    then show ?thesis
      using poll_round_nothing [of handle fds "length fds"] by (cases "ustack_run_step handle fd buf out s") auto
  next
    case (Suc j)
    then show ?thesis using Cons by simp
  qed
qed simp

lemma find_nth:
  "k < length xs \<Longrightarrow> distinct (map f xs) \<Longrightarrow> find (\<lambda>x. f x = f (xs ! k)) xs = Some (xs ! k)"
proof (induction xs arbitrary: k)
  case (Cons x xs)
  show ?case
  proof (cases k)
    case (Suc j)
    then have "f x \<noteq> f (xs ! j)" using Cons.prems by auto
    then show ?thesis using Cons Suc by simp
  qed simp
qed simp

lemma arp_request_answered:
  assumes "get_arp f 14 = Some a" "ntohs (arp_op a) = ARPOP_REQUEST" "ntohl (arp_tpa a) = if_ip i"
    and "arp_inv s" "\<exists>e \<in> set (entries (arpcache s)). \<not> ent_valid e" "req_list (arpcache s) = []"
  shows "\<exists>s'. handle_arp_packet i f len s = Some s' \<and> wire s' = wire s @ [(i, arp_reply_packet i a)]
     \<and> arpcache_lookup s' (ntohl (arp_spa a)) = Some (arp_sha a)"
proof -
  let ?s = "s\<lparr>wire := wire s @ [(i, arp_reply_packet i a)]\<rparr>"
  have inv: "arp_inv ?s" using assms(4) by (simp add: arp_inv_def)
  obtain s1 where s1: "insert_entry (ntohl (arp_spa a)) (arp_sha a) ?s = Some s1"
    using insert_entry_defined [OF inv] assms(5) by auto
  note frame = insert_entry_frame [OF s1]
  define s' where "s' = s1\<lparr>arpcache := (arpcache s1)\<lparr>req_list := []\<rparr>\<rparr>"
  have ins: "arpcache_insert (ntohl (arp_spa a)) (arp_sha a) ?s = Some s'"
    using s1 frame(2) assms(6) by (simp add: arpcache_insert_def s'_def)
  have "handle_arp_packet i f len s = Some s'"
    using assms(1-3) ins by (simp add: handle_arp_packet_def arp_send_reply_sent Let_def)
  then show ?thesis
    using arp_insert_step(2) [OF inv ins] frame(1) by (simp add: s'_def)
qed

text \<open>C13. From the start of the program to the first answer. Where the system's interfaces and routes are in order,
  \<^verbatim>\<open>init_ustack\<close> returns: the interfaces are those whose name contains \<^verbatim>\<open>-eth\<close>, in the system's order, every route leads over
  one of them, and no TCP connection is known. If the first frame is an ARP request for the address of interface \<open>k\<close>,
  arriving there, then the loop answers it on that interface, with its hardware address and nothing else sent, and afterwards the cache
  knows the address of the host that asked.\<close>

theorem startup_answers_arp:
  assumes "os_ok os rs" "heads_ready s0" "wire s0 = []" "k < length (available os)"
    and "get_eth f = Some eh" "ntohs (ether_type eh) = ETH_P_ARP"
    and "get_arp f 14 = Some a" "ntohs (arp_op a) = ARPOP_REQUEST"
    and "os_addr os (available os ! k) = Some (arp_tpa a)"
  shows "\<exists>s fds s' i. init_ustack os s0 = Inr (s, fds) \<and> map if_nm (iface_list s) = available os \<and> i = iface_list s ! k
     \<and> routes_local s \<and> conn_rep s (\<lambda>_. None)
     \<and> ustack_run handle_packet_17 fds [Poll_ready ((replicate (length fds) None)[k := Some (f, False)])] s = Some s'
     \<and> wire s' = [(i, arp_reply_packet i a)] \<and> os_hwaddr os (if_nm i) = Some (if_mac i)
     \<and> arpcache_lookup s' (ntohl (arp_spa a)) = Some (arp_sha a)"
proof -
  let ?names = "available os" and ?i = "iface_of os (available os ! k)" and ?fds = "map (os_socket os) (available os)"
  obtain t h where s: "init_ustack os s0 = Inr ((arpcache_init s0)\<lparr>iface_list := map (iface_of os) ?names, rtable := t, lists := h\<rparr>, ?fds)"
    "routes_local ((arpcache_init s0)\<lparr>iface_list := map (iface_of os) ?names, rtable := t, lists := h\<rparr>)"
    "conn_rep ((arpcache_init s0)\<lparr>iface_list := map (iface_of os) ?names, rtable := t, lists := h\<rparr>) (\<lambda>_. None)"
    using init_ustack_ok [OF assms(1,2)] by blast
  define s where "s = (arpcache_init s0)\<lparr>iface_list := map (iface_of os) ?names, rtable := t, lists := h\<rparr>"
  have c: "arp_inv s" "\<exists>e \<in> set (entries (arpcache s)). \<not> ent_valid e" "req_list (arpcache s) = []" "wire s = []"
    using assms(3) by (simp_all add: s_def arpcache_init_def arp_inv_def)
  have ready: "iface_ready os (?names ! k)" using assms(1,4) by (simp add: os_ok_def list_all_length)
  have ip: "ntohl (arp_tpa a) = if_ip ?i" using assms(9) by (simp add: iface_of_def)
  obtain s' where s': "handle_arp_packet ?i f (int (length f)) s = Some s'" "wire s' = [(?i, arp_reply_packet ?i a)]"
    "arpcache_lookup s' (ntohl (arp_spa a)) = Some (arp_sha a)"
    using arp_request_answered [OF assms(7,8) ip c(1-3)] c(4) by auto
  have "distinct (map if_fd (iface_list s))" using assms(1) by (simp add: os_ok_def s_def comp_def iface_of_def)
  from find_nth [OF _ this, of k] have fd: "fd_to_iface s (?fds ! k) = Some ?i"
    using assms(4) by (simp add: fd_to_iface_def s_def iface_of_def)
  have "f \<noteq> []" using assms(5) by (auto simp: load_struct_def load_bytes_def)
  then have "ustack_run_step handle_packet_17 (?fds ! k) f False s = Some s'"
    using fd s'(1) assms(5,6) by (simp add: ustack_run_step_def handle_packet_17_def handle_packet_def ETH_P_ARP_def ETH_P_IP_def)
  then have "poll_round handle_packet_17 (zip ?fds ((replicate (length ?fds) None)[k := Some (f, False)])) s = Some s'"
    using assms(4) poll_round_one [of k ?fds handle_packet_17 f False s] by simp
  then have run: "ustack_run handle_packet_17 ?fds [Poll_ready ((replicate (length ?fds) None)[k := Some (f, False)])] s = Some s'"
    by simp
  have i: "?i = iface_list s ! k" "map if_nm (iface_list s) = ?names" "os_hwaddr os (if_nm ?i) = Some (if_mac ?i)"
    using assms(4) ready by (auto simp: s_def iface_of_def comp_def iface_ready_def)
  show ?thesis
    using s [folded s_def] run s'(2,3) i by blast
qed

text \<open>A host with the loopback device and one interface of the emulator, and one route.\<close>

definition os0 :: os where
  "os0 = \<lparr>os_ifaddrs = [\<lparr>ifa_name = ''lo'', ifa_family = Some AF_PACKET\<rparr>, \<lparr>ifa_name = ''r1-eth0'', ifa_family = Some AF_PACKET\<rparr>],
     os_socket = (\<lambda>_. 3), os_bind = (\<lambda>_. True), os_index = (\<lambda>_. Some 1), os_hwaddr = (\<lambda>_. Some (Mac 0 0 0 0 0 1)),
     os_addr = (\<lambda>_. Some (htonl 0x0A000001)), os_netmask = (\<lambda>_. Some (htonl 0xFFFFFF00)),
     os_if_name = (\<lambda>_. Some ''r1-eth0''), os_routes = Some [NL_routes 60 [msg24], NL_done]\<rparr>"

definition asked :: ether_arp where
  "asked = \<lparr>arp_hrd = 0, arp_pro = 0, arp_hln = 6, arp_pln = 4, arp_op = htons ARPOP_REQUEST,
     arp_sha = Mac 2 2 2 2 2 2, arp_spa = htonl 0x0A000002, arp_tha = Mac 0 0 0 0 0 0, arp_tpa = htonl 0x0A000001\<rparr>"

definition asking :: ether_header where
  "asking = \<lparr>ether_dhost = bc_mac, ether_shost = Mac 2 2 2 2 2 2, ether_type = htons ETH_P_ARP\<rparr>"

definition request0 :: bytes where "request0 = enc_ether asking @ enc_arp asked"

lemma request0: "get_eth request0 = Some asking" "get_arp request0 14 = Some asked"
  by (simp_all add: request0_def load_struct_def load_bytes_def eth.length_enc eth.dec_enc arph.length_enc arph.dec_enc)

lemma available_os0: "available os0 = [''r1-eth0'']"
  by (simp add: available_def os0_def)

lemma os0_ok: "os_ok os0 [(60, [msg24])]"
  unfolding os_ok_def available_os0
  by (simp add: os0_def iface_ready_def route_ok_def msg24_def ROUTE_BATCH_SIZE_def)

theorem startup_answers_arp_witness:
  "\<exists>s fds s' i. init_ustack os0 tables0 = Inr (s, fds) \<and> map if_nm (iface_list s) = available os0 \<and> i = iface_list s ! 0
     \<and> routes_local s \<and> conn_rep s (\<lambda>_. None)
     \<and> ustack_run handle_packet_17 fds [Poll_ready ((replicate (length fds) None)[0 := Some (request0, False)])] s = Some s'
     \<and> wire s' = [(i, arp_reply_packet i asked)] \<and> os_hwaddr os0 (if_nm i) = Some (if_mac i)
     \<and> arpcache_lookup s' (ntohl (arp_spa asked)) = Some (arp_sha asked)"
proof (rule startup_answers_arp [OF os0_ok _ _ _ request0(1) _ request0(2)])
  show "heads_ready tables0" by (auto simp: heads_ready_def tables0_def sock_nodes_def)
  show "wire tables0 = []" by (simp add: tables0_def tstack0_def)
  show "0 < length (available os0)" by (simp add: available_os0)
  show "ntohs (ether_type asking) = ETH_P_ARP" by (simp add: asking_def)
  show "ntohs (arp_op asked) = ARPOP_REQUEST" by (simp add: asked_def)
  show "os_addr os0 (available os0 ! 0) = Some (arp_tpa asked)" by (simp add: os0_def asked_def)
qed

end
