(* ===== verification/NatTable.thy ===== *)
theory NatTable
  imports Net
begin

text \<open>
  Address translation, \<^verbatim>\<open>10-nat/src/nat.c\<close>. The lab is linked with a prebuilt IP stack, so
  \<^verbatim>\<open>longest_prefix_match\<close>, \<^verbatim>\<open>ip_send_packet\<close> and \<^verbatim>\<open>icmp_send_packet\<close> are arguments of the definitions: a
  lookup \<open>lpm\<close>, and senders that act on a state of type \<open>'s\<close>. The time is the argument \<open>t\<close>. The
  hash table is a function from the 8-bit hash to the chain.
\<close>

definition NAT_PORT_MIN :: nat where "NAT_PORT_MIN = 12345"
definition NAT_PORT_MAX :: nat where "NAT_PORT_MAX = 23456"
definition TCP_ESTABLISHED_TIMEOUT :: int where "TCP_ESTABLISHED_TIMEOUT = 60"

datatype packet_dir = DIR_IN | DIR_OUT | DIR_INVALID

record nat_connection =
  internal_fin :: u8
  external_fin :: u8
  internal_seq_end :: u32
  external_seq_end :: u32
  internal_ack :: u32
  external_ack :: u32

record nat_mapping =
  internal_ip :: u32
  external_ip :: u32
  internal_port :: u16
  external_port :: u16
  update_time :: int
  conn :: nat_connection

record nat_table =
  nat_mapping_list :: "u8 \<Rightarrow> nat_mapping list"
  internal_iface :: iface_info
  external_iface :: iface_info
  assigned_ports :: "nat \<Rightarrow> bool"

section \<open>Operations\<close>

definition get_packet_direction :: "(u32 \<Rightarrow> rt_entry option) \<Rightarrow> bytes \<Rightarrow> nat_table \<Rightarrow> packet_dir option" where
  "get_packet_direction lpm packet nt = do {
     ip \<leftarrow> get_ip packet ETHER_HDR_SIZE;
     src \<leftarrow> lpm (ntohl (ip_saddr ip));
     out \<leftarrow> (if rt_iface src = internal_iface nt then do {
               dest \<leftarrow> lpm (ntohl (ip_daddr ip));
               Some (rt_iface dest = external_iface nt) }
             else Some False);
     Some (if out then DIR_OUT
           else if rt_iface src = external_iface nt \<and> ntohl (ip_daddr ip) = if_ip (external_iface nt) then DIR_IN
           else DIR_INVALID) }"

definition getport :: "nat_table \<Rightarrow> nat \<times> nat_table" where
  "getport nt =
     (case find (\<lambda>i. \<not> assigned_ports nt i) [NAT_PORT_MIN..<NAT_PORT_MAX] of
        Some i \<Rightarrow> (i, nt\<lparr>assigned_ports := (assigned_ports nt)(i := True)\<rparr>)
      | None \<Rightarrow> (NAT_PORT_MAX, nt))"

definition conn0 :: nat_connection where
  "conn0 = \<lparr>internal_fin = 0, external_fin = 0, internal_seq_end = 0, external_seq_end = 0, internal_ack = 0, external_ack = 0\<rparr>"

definition insert_nat_entry :: "(u32 \<Rightarrow> rt_entry option) \<Rightarrow> u32 \<Rightarrow> u16 \<Rightarrow> u32 \<Rightarrow> u8 \<Rightarrow> nat_table \<Rightarrow> (nat_mapping \<times> nat_table) option" where
  "insert_nat_entry lpm int_ip sport dest_ip head nt = do {
     rt \<leftarrow> lpm dest_ip;
     let (port, nt) = getport nt;
     let e = \<lparr>internal_ip = int_ip, external_ip = if_ip (rt_iface rt), internal_port = sport,
              external_port = of_nat port, update_time = 0, conn = conn0\<rparr>;
     Some (e, nt\<lparr>nat_mapping_list := (nat_mapping_list nt)(head := nat_mapping_list nt head @ [e])\<rparr>) }"

text \<open>Setting the update time of the entry the search stopped at.\<close>

fun touch :: "int \<Rightarrow> (nat_mapping \<Rightarrow> bool) \<Rightarrow> nat_mapping list \<Rightarrow> nat_mapping list" where
  "touch t P [] = []"
| "touch t P (e # es) = (if P e then e\<lparr>update_time := t\<rparr> # es else e # touch t P es)"

definition touch_nat :: "int \<Rightarrow> u8 \<Rightarrow> (nat_mapping \<Rightarrow> bool) \<Rightarrow> nat_table \<Rightarrow> nat_table" where
  "touch_nat t h P nt = nt\<lparr>nat_mapping_list := (nat_mapping_list nt)(h := touch t P (nat_mapping_list nt h))\<rparr>"

text \<open>Rewriting the headers: the address, the header checksum, the port, the TCP checksum.\<close>

definition rewrite_hdrs :: "(iphdr \<Rightarrow> iphdr) \<Rightarrow> (tcphdr \<Rightarrow> tcphdr) \<Rightarrow> bytes \<Rightarrow> bytes option" where
  "rewrite_hdrs f g packet = do {
     ip \<leftarrow> get_ip packet ETHER_HDR_SIZE;
     let tcp_off = ETHER_HDR_SIZE + IP_HDR_SIZE ip;
     packet \<leftarrow> put_ip packet ETHER_HDR_SIZE (f ip);
     c \<leftarrow> ip_checksum packet ETHER_HDR_SIZE;
     packet \<leftarrow> put_ip packet ETHER_HDR_SIZE ((f ip)\<lparr>ip_checksum_fld := c\<rparr>);
     tcp \<leftarrow> get_tcp packet tcp_off;
     packet \<leftarrow> put_tcp packet tcp_off (g tcp);
     k \<leftarrow> tcp_checksum packet ETHER_HDR_SIZE tcp_off;
     put_tcp packet tcp_off ((g tcp)\<lparr>th_checksum := k\<rparr>) }"

definition rewrite_dst :: "bytes \<Rightarrow> u32 \<Rightarrow> u16 \<Rightarrow> bytes option" where
  "rewrite_dst packet ip4 port =
     rewrite_hdrs (\<lambda>ip. ip\<lparr>ip_daddr := htonl ip4\<rparr>) (\<lambda>tcp. tcp\<lparr>th_dport := htons port\<rparr>) packet"

definition rewrite_src :: "bytes \<Rightarrow> u32 \<Rightarrow> u16 \<Rightarrow> bytes option" where
  "rewrite_src packet ip4 port =
     rewrite_hdrs (\<lambda>ip. ip\<lparr>ip_saddr := htonl ip4\<rparr>) (\<lambda>tcp. tcp\<lparr>th_sport := htons port\<rparr>) packet"

definition in_match :: "u32 \<Rightarrow> u16 \<Rightarrow> nat_mapping \<Rightarrow> bool" where
  "in_match dest dport e \<longleftrightarrow> external_ip e = dest \<and> external_port e = dport"

definition out_match :: "u32 \<Rightarrow> u16 \<Rightarrow> nat_mapping \<Rightarrow> bool" where
  "out_match src sport e \<longleftrightarrow> internal_ip e = src \<and> internal_port e = sport"

text \<open>An incoming packet without a mapping is answered and freed, and then still handed to
  \<^verbatim>\<open>ip_send_packet\<close>: the use of freed memory is \<open>None\<close>.\<close>

definition translate_in :: "int \<Rightarrow> bytes \<Rightarrow> nat_table \<Rightarrow> (bytes \<times> nat_table) option" where
  "translate_in t packet nt = do {
     ip \<leftarrow> get_ip packet ETHER_HDR_SIZE;
     tcp \<leftarrow> get_tcp packet (ETHER_HDR_SIZE + IP_HDR_SIZE ip);
     let h = hash8 (put32 (ntohl (ip_saddr ip)));
     let P = in_match (ntohl (ip_daddr ip)) (ntohs (th_dport tcp));
     e \<leftarrow> find P (nat_mapping_list nt h);
     packet \<leftarrow> rewrite_dst packet (internal_ip e) (internal_port e);
     Some (packet, touch_nat t h P nt) }"

definition translate_out :: "(u32 \<Rightarrow> rt_entry option) \<Rightarrow> int \<Rightarrow> bytes \<Rightarrow> nat_table \<Rightarrow> (bytes \<times> nat_table) option" where
  "translate_out lpm t packet nt = do {
     ip \<leftarrow> get_ip packet ETHER_HDR_SIZE;
     tcp \<leftarrow> get_tcp packet (ETHER_HDR_SIZE + IP_HDR_SIZE ip);
     let dest = ntohl (ip_daddr ip);
     let src = ntohl (ip_saddr ip);
     let sport = ntohs (th_sport tcp);
     let h = hash8 (put32 dest);
     (e, nt) \<leftarrow> (case find (out_match src sport) (nat_mapping_list nt h) of
                    Some e \<Rightarrow> Some (e, nt)
                  | None \<Rightarrow> insert_nat_entry lpm src sport dest h nt);
     packet \<leftarrow> rewrite_src packet (external_ip e) (external_port e);
     Some (packet, touch_nat t h (out_match src sport) nt) }"

definition do_translation ::
  "(u32 \<Rightarrow> rt_entry option) \<Rightarrow> (bytes \<Rightarrow> int \<Rightarrow> 's \<Rightarrow> 's option) \<Rightarrow> int \<Rightarrow> bytes \<Rightarrow> int \<Rightarrow> packet_dir \<Rightarrow>
   nat_table \<times> 's \<Rightarrow> (nat_table \<times> 's) option" where
  "do_translation lpm ip_send t packet len dir ns = do {
     (packet, nt) \<leftarrow> (if dir = DIR_IN then translate_in t packet (fst ns) else translate_out lpm t packet (fst ns));
     s \<leftarrow> ip_send packet len (snd ns);
     Some (nt, s) }"

definition nat_translate_packet ::
  "(u32 \<Rightarrow> rt_entry option) \<Rightarrow> (bytes \<Rightarrow> int \<Rightarrow> 's \<Rightarrow> 's option) \<Rightarrow> (bytes \<Rightarrow> int \<Rightarrow> u8 \<Rightarrow> u8 \<Rightarrow> 's \<Rightarrow> 's option) \<Rightarrow>
   int \<Rightarrow> bytes \<Rightarrow> int \<Rightarrow> nat_table \<times> 's \<Rightarrow> (nat_table \<times> 's) option" where
  "nat_translate_packet lpm ip_send icmp_send t packet len ns = do {
     dir \<leftarrow> get_packet_direction lpm packet (fst ns);
     if dir = DIR_INVALID then do {
       s \<leftarrow> icmp_send packet len ICMP_DEST_UNREACH ICMP_HOST_UNREACH (snd ns);
       Some (fst ns, s) }
     else do {
       ip \<leftarrow> get_ip packet ETHER_HDR_SIZE;
       if ip_protocol ip \<noteq> IPPROTO_TCP then Some ns
       else do_translation lpm ip_send t packet len dir ns } }"

definition conn_finished :: "nat_mapping \<Rightarrow> bool" where
  "conn_finished e \<longleftrightarrow> external_fin (conn e) = 1 \<and> internal_fin (conn e) = 1
     \<and> external_seq_end (conn e) = internal_ack (conn e) \<and> internal_seq_end (conn e) = external_ack (conn e)"

text \<open>One round of the timeout thread.\<close>

definition nat_timeout :: "int \<Rightarrow> nat_table \<Rightarrow> nat_table" where
  "nat_timeout t nt = nt\<lparr>nat_mapping_list := (\<lambda>h. filter (\<lambda>e. \<not> conn_finished e
     \<and> \<not> t - update_time e > TCP_ESTABLISHED_TIMEOUT) (nat_mapping_list nt h))\<rparr>"

definition nat_table_init :: "'a ustack_scheme \<Rightarrow> nat_table option" where
  "nat_table_init s = do {
     i \<leftarrow> if_name_to_iface s ''n1-eth0'';
     e \<leftarrow> if_name_to_iface s ''n1-eth1'';
     Some \<lparr>nat_mapping_list = (\<lambda>h. []), internal_iface = i, external_iface = e, assigned_ports = (\<lambda>p. False)\<rparr> }"

definition nat_table_destroy :: "nat_table \<Rightarrow> nat_table" where
  "nat_table_destroy nt = nt\<lparr>nat_mapping_list := (\<lambda>h. [])\<rparr>"

section \<open>Rewriting\<close>

lemma tcp_checksum_defined:
  assumes "get_ip m i = Some ip" "get_tcp m j = Some tcp" "j + unat (ntohs (ip_tot_len ip) - of_nat (IP_HDR_SIZE ip)) \<le> length m"
  shows "\<exists>c. tcp_checksum m i j = Some c"
proof -
  obtain m' where m': "put_tcp m j (tcp\<lparr>th_checksum := 0\<rparr>) = Some m'"
    using tcph.store_defined [OF tcph.load_bounds [OF assms(2)]] by blast
  have "j + unat (ntohs (ip_tot_len ip) - of_nat (IP_HDR_SIZE ip) :: u16) \<le> length m'"
    using assms(3) tcph.store_length [OF m'] by simp
  then have "checksum m' j (int (unat (ntohs (ip_tot_len ip) - of_nat (IP_HDR_SIZE ip) :: u16))) x \<noteq> None" for x
    by (simp add: checksum_def load_bytes_def Let_def)
  then show ?thesis
    using assms(1,2) m' by (auto simp: tcp_checksum_def Let_def)
qed

text \<open>A TCP segment in an IP packet that was received completely.\<close>

definition segment :: "bytes \<Rightarrow> iphdr \<Rightarrow> tcphdr \<Rightarrow> bool" where
  "segment p ip tcp \<longleftrightarrow> get_ip p 14 = Some ip \<and> 5 \<le> unat (ip_ihl ip) \<and> get_tcp p (14 + IP_HDR_SIZE ip) = Some tcp
     \<and> 14 + IP_HDR_SIZE ip + unat (ntohs (ip_tot_len ip) - of_nat (IP_HDR_SIZE ip)) \<le> length p"

lemma ip_header_ok_load:
  "ip_header_ok m off \<longleftrightarrow> (\<exists>h bs. get_ip m off = Some h \<and> load_bytes m off (IP_HDR_SIZE h) = Some bs
     \<and> oc_norm (word_total bs) = 65535)"
  by (auto simp: ip_header_ok_def load_bytes_def split: option.splits)

lemma rewrite_hdrs_ok:
  assumes seg: "segment p ip tcp" and f: "ip_ihl (f ip) = ip_ihl ip" "ip_tot_len (f ip) = ip_tot_len ip"
  shows "\<exists>p' c k. rewrite_hdrs f g p = Some p' \<and> get_ip p' 14 = Some ((f ip)\<lparr>ip_checksum_fld := c\<rparr>)
     \<and> ip_header_ok p' 14 \<and> get_tcp p' (14 + IP_HDR_SIZE ip) = Some ((g tcp)\<lparr>th_checksum := k\<rparr>) \<and> length p' = length p"
proof -
  define j where "j = 14 + IP_HDR_SIZE ip"
  have s: "get_ip p 14 = Some ip" "5 \<le> unat (ip_ihl ip)" "get_tcp p j = Some tcp"
    "j + unat (ntohs (ip_tot_len ip) - of_nat (IP_HDR_SIZE ip)) \<le> length p"
    using seg by (auto simp: segment_def j_def)
  have j: "34 \<le> j" using s(2) by (simp add: j_def IP_HDR_SIZE_def)
  have size: "IP_HDR_SIZE (f ip) = IP_HDR_SIZE ip" "IP_HDR_SIZE ((f ip)\<lparr>ip_checksum_fld := c\<rparr>) = IP_HDR_SIZE ip" for c
    using f(1) by (simp_all add: IP_HDR_SIZE_def)
  have bounds: "14 + 20 \<le> length p" "j + 20 \<le> length p"
    using iph.load_bounds [OF s(1)] tcph.load_bounds [OF s(3)] by simp_all
  obtain p1 where p1: "put_ip p 14 (f ip) = Some p1" using iph.store_defined [OF bounds(1)] by blast
  note l1 = iph.store_length [OF p1]
  obtain c p2 where p2: "ip_checksum p1 14 = Some c" "put_ip p1 14 ((f ip)\<lparr>ip_checksum_fld := c\<rparr>) = Some p2" "ip_header_ok p2 14"
    using ip_checksum_store_ok [OF iph.load_after_store [OF p1]] s(2) f(1) bounds j_def size(1) l1 by auto
  note l2 = iph.store_length [OF p2(2)]
  have i2: "get_ip p2 14 = Some ((f ip)\<lparr>ip_checksum_fld := c\<rparr>)" by (rule iph.load_after_store [OF p2(2)])
  have t2: "get_tcp p2 j = Some tcp"
    using iph.load_struct_frame [OF p2(2), of j 20 dec_tcp] iph.load_struct_frame [OF p1, of j 20 dec_tcp] s(3) j by simp
  obtain p3 where p3: "put_tcp p2 j (g tcp) = Some p3" using tcph.store_defined [of j p2] bounds(2) l1 l2 by auto
  note l3 = tcph.store_length [OF p3]
  have i3: "get_ip p3 14 = Some ((f ip)\<lparr>ip_checksum_fld := c\<rparr>)"
    using tcph.load_struct_frame [OF p3, of 14 20 dec_ip] i2 j by simp
  have "\<exists>k. tcp_checksum p3 14 j = Some k"
    by (rule tcp_checksum_defined [OF i3 tcph.load_after_store [OF p3]]) (use s(4) f l1 l2 l3 size in simp)
  then obtain k where k: "tcp_checksum p3 14 j = Some k" by blast
  obtain p4 where p4: "put_tcp p3 j ((g tcp)\<lparr>th_checksum := k\<rparr>) = Some p4"
    using tcph.store_defined [of j p3] bounds(2) l1 l2 l3 by auto
  have i4: "get_ip p4 14 = Some ((f ip)\<lparr>ip_checksum_fld := c\<rparr>)"
    using tcph.load_struct_frame [OF p4, of 14 20 dec_ip] i3 j by simp
  have "load_bytes p4 14 (IP_HDR_SIZE ip) = load_bytes p2 14 (IP_HDR_SIZE ip)"
    using tcph.load_bytes_after_store [OF p4, of 14 "IP_HDR_SIZE ip"] tcph.load_bytes_after_store [OF p3, of 14 "IP_HDR_SIZE ip"]
    by (simp add: j_def)
  then have "ip_header_ok p4 14"
    using p2(3) i2 i4 by (simp add: ip_header_ok_load size)
  moreover have "rewrite_hdrs f g p = Some p4"
    using s p1 p2 t2 p3 k p4 by (simp add: rewrite_hdrs_def j_def)
  ultimately show ?thesis
    using i4 tcph.load_after_store [OF p4] tcph.store_length [OF p4] l1 l2 l3 unfolding j_def by metis
qed

section \<open>The table\<close>

definition nat_inv :: "nat_table \<Rightarrow> bool" where
  "nat_inv nt \<longleftrightarrow>
     (\<forall>h. \<forall>e \<in> set (nat_mapping_list nt h). NAT_PORT_MIN \<le> unat (external_port e) \<and> unat (external_port e) < NAT_PORT_MAX
        \<and> assigned_ports nt (unat (external_port e))) \<and>
     (\<forall>h h' i j. i < length (nat_mapping_list nt h) \<longrightarrow> j < length (nat_mapping_list nt h') \<longrightarrow>
        external_port (nat_mapping_list nt h ! i) = external_port (nat_mapping_list nt h' ! j) \<longrightarrow> h = h' \<and> i = j)"

lemma touch_find:
  "find P es = Some e \<Longrightarrow> \<exists>i < length es. es ! i = e \<and> touch t P es = es[i := e\<lparr>update_time := t\<rparr>]"
proof (induction es)
  case (Cons x es)
  show ?case
  proof (cases "P x")
    case True
    then show ?thesis using Cons.prems by (intro exI [of _ 0]) simp
  next
    case False
    then obtain i where "i < length es" "es ! i = e" "touch t P es = es[i := e\<lparr>update_time := t\<rparr>]"
      using Cons by auto
    then show ?thesis using False by (intro exI [of _ "Suc i"]) simp
  qed
qed simp

lemma nat_inv_ports:
  assumes "nat_inv nt" "\<And>h. map external_port (nat_mapping_list nt' h) = map external_port (nat_mapping_list nt h)"
    and "assigned_ports nt' = assigned_ports nt"
  shows "nat_inv nt'"
proof -
  have len: "length (nat_mapping_list nt' h) = length (nat_mapping_list nt h)" for h
    using assms(2) [of h] by (metis length_map)
  have nth: "external_port (nat_mapping_list nt' h ! i) = external_port (nat_mapping_list nt h ! i)"
    if "i < length (nat_mapping_list nt h)" for h i
    using assms(2) [of h] len [of h] that by (metis nth_map)
  have img: "external_port ` set (nat_mapping_list nt' h) = external_port ` set (nat_mapping_list nt h)" for h
    using arg_cong [OF assms(2) [of h], of set] by simp
  have "\<exists>e' \<in> set (nat_mapping_list nt h). external_port e = external_port e'" if "e \<in> set (nat_mapping_list nt' h)" for e h
  proof -
    have "external_port e \<in> external_port ` set (nat_mapping_list nt h)" using that img [of h] by blast
    then show ?thesis by blast
  qed
  then show ?thesis
    using assms(1) len nth unfolding nat_inv_def assms(3) by metis
qed

lemma touch_ports: "map external_port (touch t P es) = map external_port es"
  by (induction es) auto

lemma touch_nat_inv: "nat_inv nt \<Longrightarrow> nat_inv (touch_nat t h P nt)"
  by (rule nat_inv_ports [of nt]) (auto simp: touch_nat_def touch_ports)

lemma getport_free:
  assumes "\<exists>p \<in> {NAT_PORT_MIN..<NAT_PORT_MAX}. \<not> assigned_ports nt p"
  obtains p where "getport nt = (p, nt\<lparr>assigned_ports := (assigned_ports nt)(p := True)\<rparr>)" "NAT_PORT_MIN \<le> p" "p < NAT_PORT_MAX"
    "\<not> assigned_ports nt p"
proof -
  obtain p where p: "find (\<lambda>i. \<not> assigned_ports nt i) [NAT_PORT_MIN..<NAT_PORT_MAX] = Some p"
    using assms by (fastforce simp: find_None_iff)
  then have "\<not> assigned_ports nt p \<and> p \<in> set [NAT_PORT_MIN..<NAT_PORT_MAX]"
    by (metis (mono_tags, lifting) find_Some_iff nth_mem)
  then show ?thesis using p that by (auto simp: getport_def)
qed

lemma insert_nat_entry_inv:
  assumes inv: "nat_inv nt" and free: "\<exists>p \<in> {NAT_PORT_MIN..<NAT_PORT_MAX}. \<not> assigned_ports nt p" and rt: "lpm d = Some rt"
  shows "\<exists>e nt'. insert_nat_entry lpm a sp d h nt = Some (e, nt') \<and> nat_inv nt' \<and> internal_ip e = a \<and> internal_port e = sp
     \<and> external_ip e = if_ip (rt_iface rt) \<and> NAT_PORT_MIN \<le> unat (external_port e) \<and> unat (external_port e) < NAT_PORT_MAX
     \<and> \<not> assigned_ports nt (unat (external_port e)) \<and> nat_mapping_list nt' h = nat_mapping_list nt h @ [e]"
proof -
  obtain p where p: "getport nt = (p, nt\<lparr>assigned_ports := (assigned_ports nt)(p := True)\<rparr>)" "NAT_PORT_MIN \<le> p" "p < NAT_PORT_MAX"
    "\<not> assigned_ports nt p" by (rule getport_free [OF free])
  define e where "e = \<lparr>internal_ip = a, external_ip = if_ip (rt_iface rt), internal_port = sp, external_port = of_nat p,
    update_time = 0, conn = conn0\<rparr>"
  define nt' where "nt' = nt\<lparr>assigned_ports := (assigned_ports nt)(p := True),
    nat_mapping_list := (nat_mapping_list nt)(h := nat_mapping_list nt h @ [e])\<rparr>"
  have ins: "insert_nat_entry lpm a sp d h nt = Some (e, nt')"
    using p(1) rt by (simp add: insert_nat_entry_def e_def nt'_def Let_def)
  have pe: "unat (external_port e) = p"
    using p(3) by (simp add: e_def unat_of_nat NAT_PORT_MAX_def)
  have new: "external_port x \<noteq> external_port e" if "x \<in> set (nat_mapping_list nt k)" for x k
    using inv that p(4) pe by (metis nat_inv_def)
  have "nat_inv nt'"
    unfolding nat_inv_def
  proof (intro conjI allI impI ballI)
    fix k x
    assume "x \<in> set (nat_mapping_list nt' k)"
    then have "x = e \<or> x \<in> set (nat_mapping_list nt k)" by (auto simp: nt'_def split: if_splits)
    then show "NAT_PORT_MIN \<le> unat (external_port x)" "unat (external_port x) < NAT_PORT_MAX"
      "assigned_ports nt' (unat (external_port x))"
      using inv p pe by (auto simp: nat_inv_def nt'_def)
  next
    fix k k' i j
    assume ij: "i < length (nat_mapping_list nt' k)" "j < length (nat_mapping_list nt' k')"
      "external_port (nat_mapping_list nt' k ! i) = external_port (nat_mapping_list nt' k' ! j)"
    have old: "(k = h \<and> i = length (nat_mapping_list nt h) \<and> nat_mapping_list nt' k ! i = e) \<or>
        (i < length (nat_mapping_list nt k) \<and> nat_mapping_list nt' k ! i = nat_mapping_list nt k ! i)"
      if "i < length (nat_mapping_list nt' k)" for k i
      using that by (auto simp: nt'_def nth_append split: if_splits)
    show "k = k'" and "i = j"
      using old [OF ij(1)] old [OF ij(2)] ij(3) inv new nth_mem unfolding nat_inv_def by metis+
  qed
  then show ?thesis using ins p(2-4) pe by (intro exI [of _ e] exI [of _ nt']) (auto simp: e_def nt'_def)
qed

section \<open>Properties\<close>

text \<open>The public address and port of a connection: those of its mapping, or, when it has none, the
  address of the interface of the route and a translation port that was free.\<close>

definition public_end :: "rt_entry \<Rightarrow> nat_table \<Rightarrow> u32 \<Rightarrow> u16 \<Rightarrow> u32 \<Rightarrow> u32 \<Rightarrow> u16 \<Rightarrow> bool" where
  "public_end rt nt src sport dest ext port \<longleftrightarrow>
     (case find (out_match src sport) (nat_mapping_list nt (hash8 (put32 dest))) of
        Some e \<Rightarrow> ext = external_ip e \<and> port = external_port e
      | None \<Rightarrow> ext = if_ip (rt_iface rt) \<and> NAT_PORT_MIN \<le> unat port \<and> unat port < NAT_PORT_MAX \<and> \<not> assigned_ports nt (unat port))"

text \<open>The mapping used for an outgoing segment: the one found, or a new one.\<close>

definition out_entry :: "(u32 \<Rightarrow> rt_entry option) \<Rightarrow> u32 \<Rightarrow> u16 \<Rightarrow> u32 \<Rightarrow> nat_table \<Rightarrow> (nat_mapping \<times> nat_table) option" where
  "out_entry lpm src sport dest nt =
     (case find (out_match src sport) (nat_mapping_list nt (hash8 (put32 dest))) of
        Some e \<Rightarrow> Some (e, nt)
      | None \<Rightarrow> insert_nat_entry lpm src sport dest (hash8 (put32 dest)) nt)"

lemma out_entry_ok:
  assumes inv: "nat_inv nt" and free: "\<exists>p \<in> {NAT_PORT_MIN..<NAT_PORT_MAX}. \<not> assigned_ports nt p" and rt: "lpm dest = Some rt"
  shows "\<exists>e nt1. out_entry lpm src sport dest nt = Some (e, nt1) \<and> nat_inv nt1 \<and> internal_ip e = src \<and> internal_port e = sport
     \<and> find (out_match src sport) (nat_mapping_list nt1 (hash8 (put32 dest))) = Some e
     \<and> public_end rt nt src sport dest (external_ip e) (external_port e)"
proof (cases "find (out_match src sport) (nat_mapping_list nt (hash8 (put32 dest)))")
  case None
  obtain e nt1 where e: "insert_nat_entry lpm src sport dest (hash8 (put32 dest)) nt = Some (e, nt1)" "nat_inv nt1"
    "internal_ip e = src" "internal_port e = sport" "external_ip e = if_ip (rt_iface rt)"
    "NAT_PORT_MIN \<le> unat (external_port e)" "unat (external_port e) < NAT_PORT_MAX" "\<not> assigned_ports nt (unat (external_port e))"
    "nat_mapping_list nt1 (hash8 (put32 dest)) = nat_mapping_list nt (hash8 (put32 dest)) @ [e]"
    using insert_nat_entry_inv [OF inv free, of lpm dest rt src sport "hash8 (put32 dest)"] rt by blast
  have "find (out_match src sport) (xs @ [e]) = Some e" if "find (out_match src sport) xs = None" for xs
    using that e(3,4) by (induction xs) (auto simp: out_match_def split: if_splits)
  then show ?thesis using e None by (simp add: out_entry_def public_end_def)
next
  case (Some e)
  then have "out_match src sport e" by (auto simp: find_Some_iff)
  then show ?thesis using Some inv by (simp add: out_entry_def public_end_def out_match_def)
qed

lemma find_by_port:
  assumes inv: "nat_inv nt" and i: "i < length (nat_mapping_list nt h)" and e: "nat_mapping_list nt h ! i = e"
  shows "find (in_match (external_ip e) (external_port e)) (nat_mapping_list nt h) = Some e"
proof -
  let ?P = "in_match (external_ip e) (external_port e)" and ?es = "nat_mapping_list nt h"
  have "?P (?es ! i)" using e by (simp add: in_match_def)
  then obtain x where x: "find ?P ?es = Some x"
    using i by (metis find_None_iff not_None_eq nth_mem)
  then obtain j where j: "j < length ?es" "?P (?es ! j)" "x = ?es ! j" by (auto simp: find_Some_iff)
  then have "j = i" using inv i e unfolding nat_inv_def in_match_def by blast
  then show ?thesis using x j e by simp
qed

text \<open>C16. Translation is transparent for a connection: while a translation port is free, an outgoing segment to a
  routable destination leaves with the public address and port of its connection as its source and a valid
  header checksum. They are those of the connection's mapping if there is one; a new connection gets the
  address of the interface the destination is routed through and a port of the translation range that no
  connection has had. And every segment that the destination sends back to that address and port
  is delivered to exactly the private address and port the connection came from.\<close>

theorem nat_round_trip:
  assumes "segment p ip tcp" "nat_inv nt" "\<exists>x \<in> {NAT_PORT_MIN..<NAT_PORT_MAX}. \<not> assigned_ports nt x"
    and "lpm (ntohl (ip_daddr ip)) = Some rt"
  shows "\<exists>p' nt' ext port c k. translate_out lpm t p nt = Some (p', nt') \<and> nat_inv nt' \<and> ip_header_ok p' 14
     \<and> public_end rt nt (ntohl (ip_saddr ip)) (ntohs (th_sport tcp)) (ntohl (ip_daddr ip)) ext port
     \<and> get_ip p' 14 = Some (ip\<lparr>ip_saddr := htonl ext, ip_checksum_fld := c\<rparr>)
     \<and> get_tcp p' (14 + IP_HDR_SIZE ip) = Some (tcp\<lparr>th_sport := htons port, th_checksum := k\<rparr>)
     \<and> (\<forall>q rip rtcp t'. segment q rip rtcp \<and> ip_saddr rip = ip_daddr ip \<and> ip_daddr rip = htonl ext \<and> th_dport rtcp = htons port \<longrightarrow>
          (\<exists>q' nt'' c' k'. translate_in t' q nt' = Some (q', nt'')
             \<and> get_ip q' 14 = Some (rip\<lparr>ip_daddr := ip_saddr ip, ip_checksum_fld := c'\<rparr>) \<and> ip_header_ok q' 14
             \<and> get_tcp q' (14 + IP_HDR_SIZE rip) = Some (rtcp\<lparr>th_dport := th_sport tcp, th_checksum := k'\<rparr>)))"
proof -
  define h where "h = hash8 (put32 (ntohl (ip_daddr ip)))"
  define P where "P = out_match (ntohl (ip_saddr ip)) (ntohs (th_sport tcp))"
  obtain e nt1 where e: "out_entry lpm (ntohl (ip_saddr ip)) (ntohs (th_sport tcp)) (ntohl (ip_daddr ip)) nt = Some (e, nt1)"
    "nat_inv nt1" "internal_ip e = ntohl (ip_saddr ip)" "internal_port e = ntohs (th_sport tcp)"
    "find P (nat_mapping_list nt1 h) = Some e"
    "public_end rt nt (ntohl (ip_saddr ip)) (ntohs (th_sport tcp)) (ntohl (ip_daddr ip)) (external_ip e) (external_port e)"
    using out_entry_ok [OF assms(2,3), of lpm "ntohl (ip_daddr ip)" rt "ntohl (ip_saddr ip)" "ntohs (th_sport tcp)"] assms(4)
    unfolding h_def P_def by blast
  obtain p' c k where p': "rewrite_src p (external_ip e) (external_port e) = Some p'"
    "get_ip p' 14 = Some (ip\<lparr>ip_saddr := htonl (external_ip e), ip_checksum_fld := c\<rparr>)" "ip_header_ok p' 14"
    "get_tcp p' (14 + IP_HDR_SIZE ip) = Some (tcp\<lparr>th_sport := htons (external_port e), th_checksum := k\<rparr>)"
    using rewrite_hdrs_ok [OF assms(1), of "\<lambda>ip. ip\<lparr>ip_saddr := htonl (external_ip e)\<rparr>"
        "\<lambda>tcp. tcp\<lparr>th_sport := htons (external_port e)\<rparr>"] unfolding rewrite_src_def by auto
  define nt' where "nt' = touch_nat t h P nt1"
  define e' where "e' = e\<lparr>update_time := t\<rparr>"
  have out: "translate_out lpm t p nt = Some (p', nt')"
    using assms(1) e(1) p'(1)
    by (simp add: translate_out_def segment_def out_entry_def nt'_def P_def h_def Let_def)
  obtain i where "i < length (nat_mapping_list nt1 h)" "touch t P (nat_mapping_list nt1 h) = (nat_mapping_list nt1 h)[i := e']"
    using touch_find [OF e(5), of t] by (auto simp: e'_def)
  then have "i < length (nat_mapping_list nt' h)" "nat_mapping_list nt' h ! i = e'"
    by (simp_all add: nt'_def touch_nat_def)
  moreover have inv': "nat_inv nt'" unfolding nt'_def by (rule touch_nat_inv [OF e(2)])
  ultimately have found: "find (in_match (external_ip e) (external_port e)) (nat_mapping_list nt' h) = Some e'"
    using find_by_port [of nt' i h e'] by (simp add: e'_def)
  have reply: "\<exists>q' nt'' c' k'. translate_in t' q nt' = Some (q', nt'')
             \<and> get_ip q' 14 = Some (rip\<lparr>ip_daddr := ip_saddr ip, ip_checksum_fld := c'\<rparr>) \<and> ip_header_ok q' 14
             \<and> get_tcp q' (14 + IP_HDR_SIZE rip) = Some (rtcp\<lparr>th_dport := th_sport tcp, th_checksum := k'\<rparr>)"
    if q: "segment q rip rtcp" "ip_saddr rip = ip_daddr ip" "ip_daddr rip = htonl (external_ip e)"
      "th_dport rtcp = htons (external_port e)" for q rip rtcp t'
  proof -
    obtain q' c' k' where q': "rewrite_dst q (internal_ip e') (internal_port e') = Some q'"
      "get_ip q' 14 = Some (rip\<lparr>ip_daddr := ip_saddr ip, ip_checksum_fld := c'\<rparr>)" "ip_header_ok q' 14"
      "get_tcp q' (14 + IP_HDR_SIZE rip) = Some (rtcp\<lparr>th_dport := th_sport tcp, th_checksum := k'\<rparr>)"
      using rewrite_hdrs_ok [OF q(1), of "\<lambda>ip. ip\<lparr>ip_daddr := htonl (internal_ip e)\<rparr>"
          "\<lambda>tcp. tcp\<lparr>th_dport := htons (internal_port e)\<rparr>"] e(3,4) unfolding rewrite_dst_def e'_def by auto
    then have "\<exists>nt''. translate_in t' q nt' = Some (q', nt'')"
      using q found by (simp add: translate_in_def segment_def h_def Let_def)
    then show ?thesis using q' by blast
  qed
  show ?thesis
    by (intro exI [of _ p'] exI [of _ nt'] exI [of _ "external_ip e"] exI [of _ "external_port e"] exI [of _ c] exI [of _ k] conjI)
       (use out inv' p' reply e(6) in auto)
qed

definition nat0 :: nat_table where
  "nat0 = \<lparr>nat_mapping_list = (\<lambda>h. []), internal_iface = iface0, external_iface = iface1, assigned_ports = (\<lambda>p. False)\<rparr>"

definition seg_ip :: iphdr where
  "seg_ip = \<lparr>ip_ihl = 5, ip_version = 4, ip_tos = 0, ip_tot_len = htons 40, ip_id = 0, ip_frag_off = 0, ip_ttl = 64,
     ip_protocol = IPPROTO_TCP, ip_checksum_fld = 0, ip_saddr = htonl 0x0A000009, ip_daddr = htonl 0x0B000001\<rparr>"

definition seg_tcp :: tcphdr where
  "seg_tcp = \<lparr>th_sport = htons 4000, th_dport = htons 80, th_seq = 0, th_ack = 0, th_x2 = 0, th_off = 5, th_flags = TCP_SYN,
     th_rwnd = 0, th_checksum = 0, th_urp = 0\<rparr>"

definition seg :: bytes where "seg = replicate 14 0 @ enc_ip seg_ip @ enc_tcp seg_tcp"

definition ext_route :: rt_entry where
  "ext_route = \<lparr>rt_dest = 0, rt_mask = 0, rt_gw = 0, rt_flags = 0, rt_if_name = if_nm iface1, rt_iface = iface1\<rparr>"

lemma seg_segment: "segment seg seg_ip seg_tcp"
  by (simp add: segment_def seg_def load_struct_def load_bytes_def iph.length_enc iph.dec_enc tcph.length_enc tcph.dec_enc
      IP_HDR_SIZE_def) (simp add: seg_ip_def iph.length_enc tcph.length_enc tcph.dec_enc)

lemma nat0_inv: "nat_inv nat0" by (simp add: nat_inv_def nat0_def)

theorem nat_round_trip_witness:
  "\<exists>p' nt' port c. translate_out (\<lambda>d. Some ext_route) 5 seg nat0 = Some (p', nt') \<and> ip_header_ok p' 14
     \<and> get_ip p' 14 = Some (seg_ip\<lparr>ip_saddr := htonl (if_ip iface1), ip_checksum_fld := c\<rparr>)
     \<and> NAT_PORT_MIN \<le> unat port \<and> (\<exists>k. get_tcp p' 34 = Some (seg_tcp\<lparr>th_sport := htons port, th_checksum := k\<rparr>))"
proof -
  have free: "\<exists>x \<in> {NAT_PORT_MIN..<NAT_PORT_MAX}. \<not> assigned_ports nat0 x"
    by (rule bexI [of _ 12345]) (simp_all add: nat0_def NAT_PORT_MIN_def NAT_PORT_MAX_def)
  have new: "public_end ext_route nat0 a b c ext port \<Longrightarrow> ext = if_ip iface1 \<and> NAT_PORT_MIN \<le> unat port" for a b c ext port
    by (simp add: public_end_def nat0_def ext_route_def)
  have "14 + IP_HDR_SIZE seg_ip = 34" by (simp add: IP_HDR_SIZE_def seg_ip_def)
  then show ?thesis
    using nat_round_trip [OF seg_segment nat0_inv free, of "\<lambda>d. Some ext_route" ext_route 5] new by (metis (no_types))
qed

text \<open>Translation ports run out for good: \<^verbatim>\<open>nat_timeout\<close> drops mappings but never frees a port, and once
  the whole range is assigned \<^verbatim>\<open>getport\<close> hands out the same number 23456, outside the range, to every
  new connection, so two connections to the same destination share one public endpoint.\<close>

theorem nat_port_exhaustion:
  assumes "\<forall>x \<in> {NAT_PORT_MIN..<NAT_PORT_MAX}. assigned_ports nt x" "lpm d = Some rt"
  shows "\<exists>e1 e2 nt1 nt2. insert_nat_entry lpm a1 p1 d h (nat_timeout t nt) = Some (e1, nt1)
     \<and> insert_nat_entry lpm a2 p2 d h nt1 = Some (e2, nt2)
     \<and> external_ip e1 = external_ip e2 \<and> external_port e1 = 23456 \<and> external_port e2 = 23456"
proof -
  have full: "getport x = (NAT_PORT_MAX, x)" if "assigned_ports x = assigned_ports nt" for x
  proof -
    have "find (\<lambda>i. \<not> assigned_ports x i) [NAT_PORT_MIN..<NAT_PORT_MAX] = None"
      using assms(1) that by (auto simp: find_None_iff)
    then show ?thesis by (simp add: getport_def)
  qed
  show ?thesis
    using assms(2) full by (simp add: insert_nat_entry_def nat_timeout_def NAT_PORT_MAX_def Let_def)
qed

theorem nat_port_exhaustion_witness:
  "\<exists>e1 e2 nt1 nt2. insert_nat_entry (\<lambda>d. Some ext_route) 1 1 5 0 (nat_timeout 9 (nat0\<lparr>assigned_ports := (\<lambda>p. True)\<rparr>)) = Some (e1, nt1)
     \<and> insert_nat_entry (\<lambda>d. Some ext_route) 2 2 5 0 nt1 = Some (e2, nt2)
     \<and> external_ip e1 = external_ip e2 \<and> external_port e1 = 23456 \<and> external_port e2 = 23456"
  by (rule nat_port_exhaustion) simp_all

text \<open>An incoming segment without a mapping makes the translator use freed memory: \<^verbatim>\<open>do_translation\<close>
  answers with an ICMP message, frees the packet, and then passes it to \<^verbatim>\<open>ip_send_packet\<close>.\<close>

theorem nat_unmapped_use_after_free:
  assumes "segment p ip tcp"
    and "\<forall>e \<in> set (nat_mapping_list nt (hash8 (put32 (ntohl (ip_saddr ip))))).
           \<not> (external_ip e = ntohl (ip_daddr ip) \<and> external_port e = ntohs (th_dport tcp))"
  shows "do_translation lpm ip_send t p len DIR_IN (nt, s) = None"
proof -
  have "find (in_match (ntohl (ip_daddr ip)) (ntohs (th_dport tcp))) (nat_mapping_list nt (hash8 (put32 (ntohl (ip_saddr ip))))) = None"
    using assms(2) by (simp add: find_None_iff in_match_def)
  then show ?thesis
    using assms(1) by (simp add: do_translation_def translate_in_def segment_def Let_def)
qed

theorem nat_unmapped_use_after_free_witness:
  "do_translation (\<lambda>d. Some ext_route) (\<lambda>p l s. Some (p # s)) 1 seg 54 DIR_IN (nat0, []) = None"
  by (rule nat_unmapped_use_after_free [OF seg_segment]) (simp add: nat0_def)

end
