(* ===== verification/StartupLabs.thy ===== *)
theory StartupLabs
  imports Startup Switch Stp NatTable Mospf Router08
begin

text \<open>
  The start of the other labs: the hub and the switches (\<^verbatim>\<open>main.c\<close> of labs 04, 05 and 06), whose interfaces have no address,
  and \<^verbatim>\<open>init_ustack\<close> of the router (08), NAT (10) and link state (11 and 12) labs, with what their last call finds.
\<close>

section \<open>Hub and switches\<close>

text \<open>A failure of \<^verbatim>\<open>open_device\<close> goes unnoticed: \<^verbatim>\<open>poll\<close> ignores the descriptor \<open>-1\<close>.\<close>

definition read_iface_info_04 :: "os \<Rightarrow> string \<Rightarrow> iface_info startup" where
  "read_iface_info_04 os name =
     (let fd = open_device os name in
      and_then (or_error Undefined (os_index os name)) (\<lambda>idx.
      and_then (or_error Undefined (os_hwaddr os name)) (\<lambda>hw.
        Inr \<lparr>if_fd = fd, if_index = idx, if_mac = hw, if_ip = 0, if_mask = 0, if_nm = name\<rparr>)))"

definition init_all_ifaces_04 :: "os \<Rightarrow> (iface_info list \<times> int list) startup" where
  "init_all_ifaces_04 os =
     and_then (find_available_ifaces os) (\<lambda>names.
     and_then (each (read_iface_info_04 os) names) (\<lambda>ifs. Inr (ifs, map if_fd ifs)))"

definition init_ustack_04 :: "os \<Rightarrow> 'a ustack_scheme \<Rightarrow> ('a ustack_scheme \<times> int list) startup" where
  "init_ustack_04 os s = and_then (init_all_ifaces_04 os) (\<lambda>(ifs, fds). Inr (s\<lparr>iface_list := ifs\<rparr>, fds))"

definition init_ustack_05 :: "os \<Rightarrow> switch \<Rightarrow> (switch \<times> int list) startup" where
  "init_ustack_05 os s = and_then (init_ustack_04 os s) (\<lambda>(s, fds). Inr (init_mac_hash_table s, fds))"

definition ustack_init_06 :: "os \<Rightarrow> 'a stp_sys_scheme \<Rightarrow> ('a stp_sys_scheme \<times> int list) startup" where
  "ustack_init_06 os s =
     and_then (init_ustack_04 os s) (\<lambda>(s, fds).
     and_then (or_error Undefined (stp_init s)) (\<lambda>s. Inr (s, fds)))"

text \<open>The program ends when \<^verbatim>\<open>poll\<close> fails; \<open>polls\<close> is what it returns.\<close>

definition main_04 :: "bool \<Rightarrow> os \<Rightarrow> poll_result list \<Rightarrow> 'a ustack_scheme \<Rightarrow> 'a ustack_scheme startup" where
  "main_04 root os polls s =
     (if \<not> root then Inl Not_permitted
      else and_then (init_ustack_04 os s) (\<lambda>(s, fds). or_error Undefined (ustack_run handle_packet_04 fds polls s)))"

section \<open>Routers\<close>

definition init_ustack_08 :: "os \<Rightarrow> 'a router08_scheme \<Rightarrow> ('a router08_scheme \<times> int list) startup" where
  "init_ustack_08 os s =
     and_then (init_all_ifaces os) (\<lambda>(ifs, fds).
       let s = s\<lparr>iface_list := ifs\<rparr>;
           s = arpcache_init_08 s;
           s = init_rtable s in
     and_then (load_rtable_from_kernel os s) (\<lambda>s. Inr (s, fds)))"

definition init_ustack_10 :: "os \<Rightarrow> 'a ustack_scheme \<Rightarrow> (nat_table \<times> 'a ustack_scheme \<times> int list) startup" where
  "init_ustack_10 os s =
     and_then (start_router os s) (\<lambda>(s, fds).
     and_then (or_error No_nat_interfaces (nat_table_init s)) (\<lambda>nt. Inr (nt, s, fds)))"

definition init_ustack_12 :: "os \<Rightarrow> 'a mospf_sys_scheme \<Rightarrow> ('a mospf_sys_scheme \<times> int list) startup" where
  "init_ustack_12 os s =
     and_then (start_router os s) (\<lambda>(s, fds).
     and_then (or_error Undefined (mospf_init s)) (\<lambda>s. Inr (s, fds)))"

section \<open>What they start with\<close>

text \<open>The address of a link state router is the one of the first interface found.\<close>

lemma init_ustack_12_ok:
  assumes "os_ok os rs"
  shows "\<exists>s'. init_ustack_12 os s = Inr (s', map (os_socket os) (available os)) \<and> iface_list s' = map (iface_of os) (available os)
     \<and> routes_local s' \<and> router_id s' = if_ip (iface_of os (hd (available os))) \<and> mospf_db s' = [] \<and> \<not> mospf_locked s'"
proof -
  obtain t where t: "start_router os s = Inr ((arpcache_init s)\<lparr>iface_list := map (iface_of os) (available os), rtable := t\<rparr>,
       map (os_socket os) (available os))"
    "routes_local ((arpcache_init s)\<lparr>iface_list := map (iface_of os) (available os), rtable := t\<rparr>)"
    using start_router_ok [OF assms] by blast
  have "available os \<noteq> []" using assms by (simp add: os_ok_def)
  then show ?thesis
    using t by (simp add: init_ustack_12_def mospf_init_def routes_local_def hd_map)
qed

text \<open>NAT needs the two interfaces of its emulated host, whatever order they are found in.\<close>

lemma find_iface_of:
  "find (\<lambda>i. if_nm i = name) (map (iface_of os) names) = (if name \<in> set names then Some (iface_of os name) else None)"
  by (induction names) (auto simp: iface_of_def)

lemma init_ustack_10_eq:
  assumes "os_ok os rs"
  shows "\<exists>s'. iface_list s' = map (iface_of os) (available os) \<and> init_ustack_10 os s =
     (if ''n1-eth0'' \<in> set (available os) \<and> ''n1-eth1'' \<in> set (available os)
      then Inr (\<lparr>nat_mapping_list = (\<lambda>h. []), internal_iface = iface_of os ''n1-eth0'',
                 external_iface = iface_of os ''n1-eth1'', assigned_ports = (\<lambda>p. False)\<rparr>, s', map (os_socket os) (available os))
      else Inl No_nat_interfaces)"
proof -
  obtain t where t: "start_router os s = Inr ((arpcache_init s)\<lparr>iface_list := map (iface_of os) (available os), rtable := t\<rparr>,
       map (os_socket os) (available os))"
    using start_router_ok [OF assms] by blast
  then show ?thesis
    by (intro exI [of _ "(arpcache_init s)\<lparr>iface_list := map (iface_of os) (available os), rtable := t\<rparr>"])
       (simp add: init_ustack_10_def nat_table_init_def if_name_to_iface_def find_iface_of)
qed

text \<open>The hub, from its start: one frame, repeated on every other interface.\<close>

definition port_of_04 :: "os \<Rightarrow> string \<Rightarrow> iface_info" where
  "port_of_04 os name = \<lparr>if_fd = os_socket os name, if_index = the (os_index os name), if_mac = the (os_hwaddr os name),
     if_ip = 0, if_mask = 0, if_nm = name\<rparr>"

definition port_ready :: "os \<Rightarrow> string \<Rightarrow> bool" where
  "port_ready os name \<longleftrightarrow> length name < 16 \<and> 0 \<le> os_socket os name \<and> os_bind os name \<and> os_index os name \<noteq> None
     \<and> os_hwaddr os name \<noteq> None"

definition hub_ok :: "os \<Rightarrow> bool" where
  "hub_ok os \<longleftrightarrow> available os \<noteq> [] \<and> list_all (port_ready os) (available os)
     \<and> sum_list (map (\<lambda>n. length n + 1) (available os)) < 1024 \<and> distinct (map (os_socket os) (available os))"

lemma each_port_ready: "list_all (port_ready os) names \<Longrightarrow> each (read_iface_info_04 os) names = Inr (map (port_of_04 os) names)"
  by (induction names) (auto simp: port_ready_def read_iface_info_04_def open_device_def port_of_04_def Let_def)

lemma init_ustack_04_ok:
  assumes "hub_ok os"
  shows "init_ustack_04 os s = Inr (s\<lparr>iface_list := map (port_of_04 os) (available os)\<rparr>, map (os_socket os) (available os))"
proof -
  have "find_available_ifaces os = Inr (available os)"
    using assms by (auto simp: find_available_ifaces_def hub_ok_def port_ready_def list_all_iff list_ex_iff Let_def)
  then show ?thesis
    using assms by (simp add: init_ustack_04_def init_all_ifaces_04_def hub_ok_def each_port_ready port_of_04_def comp_def)
qed

lemma hub_loop:
  "whole f len \<Longrightarrow>
   fold_opt (\<lambda>iface_t s. if if_fd iface_t \<noteq> if_fd iface then iface_send_frame iface_t f len s else Some s) ifs s
   = Some (s\<lparr>wire := wire s @ map (\<lambda>i. (i, f)) (filter (\<lambda>i. if_fd i \<noteq> if_fd iface) ifs)\<rparr>)"
  by (induction ifs arbitrary: s) auto

lemma hub_start_floods:
  assumes "hub_ok os" "k < length (available os)" "14 \<le> length f" "wire s = []"
  shows "\<exists>s'. main_04 True os [Poll_ready ((replicate (length (available os)) None)[k := Some (f, False)]), Poll_failed] s = Inr s'
     \<and> wire s' = map (\<lambda>name. (port_of_04 os name, f)) (filter (\<lambda>name. name \<noteq> available os ! k) (available os))"
proof -
  let ?names = "available os" and ?i = "port_of_04 os (available os ! k)" and ?fds = "map (os_socket os) (available os)"
  let ?s = "s\<lparr>iface_list := map (port_of_04 os) ?names\<rparr>"
  have d: "distinct (map if_fd (iface_list ?s))" using assms(1) by (simp add: hub_ok_def comp_def port_of_04_def)
  from find_nth [OF _ this, of k] have fd: "fd_to_iface ?s (?fds ! k) = Some ?i"
    using assms(2) by (simp add: fd_to_iface_def port_of_04_def)
  have w: "whole f (int (length f))" using assms(3) by (simp add: whole_def)
  let ?s' = "?s\<lparr>wire := map (\<lambda>i. (i, f)) (filter (\<lambda>i. if_fd i \<noteq> if_fd ?i) (iface_list ?s))\<rparr>"
  have "ustack_run_step handle_packet_04 (?fds ! k) f False ?s = Some ?s'"
    using fd assms(3,4) hub_loop [OF w, of ?i "iface_list ?s" ?s]
    by (auto simp: ustack_run_step_def handle_packet_04_def broadcast_packet_05_def)
  then have "poll_round handle_packet_04 (zip ?fds ((replicate (length ?names) None)[k := Some (f, False)])) ?s = Some ?s'"
    using assms(2) poll_round_one [of k ?fds handle_packet_04 f False ?s] by simp
  then have run: "main_04 True os [Poll_ready ((replicate (length ?names) None)[k := Some (f, False)]), Poll_failed] s = Inr ?s'"
    by (simp add: main_04_def init_ustack_04_ok [OF assms(1)])
  have "inj_on (os_socket os) (set ?names)" using assms(1) by (simp add: hub_ok_def distinct_map)
  then have "filter (\<lambda>n. os_socket os n \<noteq> os_socket os (?names ! k)) ?names = filter (\<lambda>n. n \<noteq> ?names ! k) ?names"
    using assms(2) by (intro filter_cong) (auto dest: inj_onD)
  then have "wire ?s' = map (\<lambda>name. (port_of_04 os name, f)) (filter (\<lambda>name. name \<noteq> ?names ! k) ?names)"
    by (simp add: filter_map comp_def port_of_04_def)
  with run show ?thesis by blast
qed

end
