(* ===== verification/MospfRun.thy ===== *)
theory MospfRun
  imports NetInv StartupLabs
begin

text \<open>
  The whole program of \<^verbatim>\<open>12-mospf\<close>: the main loop, the sweeping of the ARP cache and the five threads of the link state daemon as
  one transition system, from the start on. The threads take the daemon's mutex for a whole round, so each round is one
  step.
\<close>

definition handle_packet_12 :: "iface_info \<Rightarrow> bytes \<Rightarrow> int \<Rightarrow> 'a mospf_sys_scheme \<Rightarrow> 'a mospf_sys_scheme option" where
  "handle_packet_12 = handle_packet (handle_ip_packet_12 handle_mospf_packet) handle_arp_packet_12"

text \<open>The threads \<^verbatim>\<open>mospf_run\<close> creates, by what one round of each does; \<open>junk\<close> is the content of a fresh block.\<close>

datatype mospf_thread = Hello | Lsu u8 | Nbr | Database | Routes

fun thread_round :: "mospf_thread \<Rightarrow> 'a mospf_sys_scheme \<Rightarrow> 'a mospf_sys_scheme option" where
  "thread_round Hello s = sending_mospf_hello s"
| "thread_round (Lsu junk) s = sending_mospf_lsu junk s"
| "thread_round Nbr s = checking_nbr s"
| "thread_round Database s = checking_database s"
| "thread_round Routes s = caculate_rtable s"

text \<open>The interfaces are zeroed when they are allocated, which sets \<^verbatim>\<open>num_nbr\<close>; nothing has been sent before the start.\<close>

inductive daemon_reach :: "os \<Rightarrow> mospf_sys \<Rightarrow> bool" for os where
  start: "init_ustack_12 os s0 = Inr (s, fds) \<Longrightarrow> wire s0 = [] \<Longrightarrow> num_nbr s0 = (\<lambda>_. 0) \<Longrightarrow> daemon_reach os s"
| receive: "daemon_reach os s \<Longrightarrow> ustack_run_step handle_packet_12 fd buf outgoing s = Some s' \<Longrightarrow> daemon_reach os s'"
| thread: "daemon_reach os s \<Longrightarrow> thread_round th s = Some s' \<Longrightarrow> daemon_reach os s'"
| sweep: "daemon_reach os s \<Longrightarrow> arpcache_sweep_12 s = Some s' \<Longrightarrow> daemon_reach os s'"
| tick: "daemon_reach os s \<Longrightarrow> now s \<le> t \<Longrightarrow> daemon_reach os (s\<lparr>now := t\<rparr>)"

section \<open>The database\<close>

definition db_inv :: "'a mospf_sys_scheme \<Rightarrow> bool" where
  "db_inv s \<longleftrightarrow> distinct (map db_rid (mospf_db s)) \<and> router_id s \<notin> db_rid ` set (mospf_db s)"

definition daemon_inv :: "'a mospf_sys_scheme \<Rightarrow> bool" where
  "daemon_inv s \<longleftrightarrow> net_inv s \<and> nbr_inv s \<and> db_inv s \<and> iface_list s \<noteq> [] \<and> router_id s = if_ip (hd (iface_list s))"

lemma update_db_rids:
  "update_db t rid seq lsas es = Some (es', flag) \<Longrightarrow> map db_rid es' = map db_rid es \<and> (flag \<longleftrightarrow> rid \<in> db_rid ` set es)"
proof (induction es arbitrary: es' flag)
  case (Cons e es)
  obtain fs f where f: "update_db t rid seq lsas es = Some (fs, f)"
    using Cons.prems by (auto simp: bind_eq_Some_conv)
  note IH = Cons.IH [OF f]
  show ?case
  proof (cases "rid = db_rid e")
    case True
    show ?thesis
    proof (cases "seq \<le> int (unat (db_seq e))")
      case le: True
      then have "es' = e # fs" "flag" using Cons.prems f True by auto
      then show ?thesis using True IH by simp
    next
      case False
      then obtain ls where "lsas = Some ls" using Cons.prems f True by (cases lsas) auto
      then have "es' = e\<lparr>db_array := ls, db_add_time := t\<rparr> # fs" "flag" using Cons.prems f True False by auto
      then show ?thesis using True IH by simp
    qed
  next
    case False
    then have "es' = e # fs" "flag = f" using Cons.prems f by auto
    then show ?thesis using False IH by auto
  qed
qed simp

lemma net_inv_daemon [simp]:
  "net_inv (s\<lparr>mospf_locked := b\<rparr>) = net_inv s" "net_inv (s\<lparr>nbr_list := l\<rparr>) = net_inv s" "net_inv (s\<lparr>num_nbr := k\<rparr>) = net_inv s"
  "net_inv (s\<lparr>mospf_db := es\<rparr>) = net_inv s" "net_inv (s\<lparr>sequence_num := q\<rparr>) = net_inv s" "net_inv (s\<lparr>spf_state := g\<rparr>) = net_inv s"
  by (simp_all add: net_inv_def arp_inv_def)

lemma daemon_inv_lock [simp]: "daemon_inv (s\<lparr>mospf_locked := b\<rparr>) = daemon_inv s"
  by (simp add: daemon_inv_def db_inv_def)

lemma daemon_inv_other [simp]:
  "daemon_inv (s\<lparr>sequence_num := q\<rparr>) = daemon_inv s" "daemon_inv (s\<lparr>spf_state := g\<rparr>) = daemon_inv s"
  by (simp_all add: daemon_inv_def db_inv_def nbr_inv_def)

lemma daemon_inv_now [simp]: "daemon_inv (s\<lparr>now := t\<rparr>) = daemon_inv s"
  by (simp add: daemon_inv_def net_inv_def arp_inv_def nbr_inv_def db_inv_def)

lemma lock_Some: "lock s = Some t \<longleftrightarrow> \<not> mospf_locked s \<and> t = s\<lparr>mospf_locked := True\<rparr>"
  by (auto simp: lock_def)

lemma unlock_inv [simp]: "daemon_inv (unlock s) = daemon_inv s"
  by (simp add: unlock_def)

lemma net_step_daemon:
  assumes "net_step s s'" "daemon_inv s"
  shows "daemon_inv s'"
proof -
  obtain c w r where s': "s' = s\<lparr>arpcache := c, wire := w, rand_pos := r\<rparr>" "net_inv s'"
    using assms(1) by (auto simp: net_step_def)
  then have "nbr_inv s' = nbr_inv s" "db_inv s' = db_inv s" by (simp_all add: nbr_inv_def db_inv_def)
  with assms(2) s' show ?thesis by (simp add: daemon_inv_def)
qed

lemma daemon_net: "daemon_inv s \<Longrightarrow> net_inv s"
  by (simp add: daemon_inv_def)

section \<open>Sending\<close>

lemma send_hello_step:
  assumes "send_hello i s = Some s'" "net_inv s" "i \<in> set (iface_list s)"
  shows "net_step s s'"
proof -
  obtain m q t m' l where 1: "ip_init_hdr m ETHER_HDR_SIZE (if_ip i) 0xe0000005 l 90 s = Some (q, t)"
    "iface_send_packet i m' 58 t = Some s'"
    using assms(1) by (auto simp: send_hello_def bind_eq_Some_conv Let_def)
  show ?thesis
    by (rule ip_init_then [OF 1(1) assms(2)])
       (use net_step_same [OF ip_init_step [OF 1(1) assms(2)]] assms(3) in \<open>auto intro: net_send [OF 1(2)]\<close>)
qed

lemma ip_init_send_step:
  assumes "ip_init_hdr m off a d l p s = Some (q, t)" "ip_send_packet_12 m' n t = Some s'" "net_inv s"
  shows "net_step s s'"
  by (rule ip_init_then [OF assms(1,3)]) (rule net_ip_send [OF assms(2)])

lemma send_lsu_step: "send_lsu_to packet n k i x s = Some s' \<Longrightarrow> net_inv s \<Longrightarrow> net_step s s'"
  by (auto simp: send_lsu_to_def bind_eq_Some_conv Let_def intro: ip_init_send_step)

lemma forward_lsu_step: "forward_lsu packet len i x s = Some s' \<Longrightarrow> net_inv s \<Longrightarrow> net_step s s'"
  by (auto simp: forward_lsu_def bind_eq_Some_conv Let_def intro: ip_init_send_step)

lemma flood_step:
  assumes "fold_opt (\<lambda>i s. if P i then Some s else fold_opt (g i) (nbr_list s (if_index i)) s) is s = Some s'" "net_inv s"
    and "\<And>i x s s'. g i x s = Some s' \<Longrightarrow> net_inv s \<Longrightarrow> net_step s s'"
  shows "net_step s s'"
proof (rule net_step_fold [OF _ assms(2) refl assms(1)])
  fix i t t'
  assume t: "net_inv t" "(if P i then Some t else fold_opt (g i) (nbr_list t (if_index i)) t) = Some t'"
  show "net_step t t'"
  proof (cases "P i")
    case False
    then have "fold_opt (g i) (nbr_list t (if_index i)) t = Some t'" using t(2) by simp
    then show ?thesis by (rule net_step_fold [OF assms(3) t(1) refl, rotated -1])
  qed (use t in simp)
qed

section \<open>Every step keeps the invariant\<close>

lemma hello_round_inv:
  assumes "sending_mospf_hello s = Some s'" "daemon_inv s"
  shows "daemon_inv s'"
proof -
  let ?t = "s\<lparr>mospf_locked := True\<rparr>"
  obtain u where u: "fold_opt send_hello (iface_list ?t) ?t = Some u" "s' = unlock u"
    using assms(1) by (auto simp: sending_mospf_hello_def bind_eq_Some_conv lock_Some)
  have inv: "daemon_inv ?t" using assms(2) by simp
  have "net_step ?t u"
    by (rule net_step_fold [OF _ daemon_net [OF inv] refl u(1)]) (simp add: send_hello_step)
  then show ?thesis using net_step_daemon inv u(2) by (metis unlock_inv)
qed

lemma lsu_round_inv:
  assumes "sending_mospf_lsu junk s = Some s'" "daemon_inv s"
  shows "daemon_inv s'"
proof -
  let ?t = "s\<lparr>mospf_locked := True\<rparr>"
  obtain p n k u where u: "fold_opt (\<lambda>i s. fold_opt (send_lsu_to p n k i) (nbr_list s (if_index i)) s) (iface_list ?t) ?t = Some u"
    "s' = unlock (u\<lparr>sequence_num := sequence_num u + 1\<rparr>)"
    using assms(1) by (auto simp: sending_mospf_lsu_def bind_eq_Some_conv lock_Some Let_def)
  have inv: "daemon_inv ?t" using assms(2) by simp
  have "net_step ?t u"
    by (rule flood_step [where P = "\<lambda>_. False", simplified, OF u(1) daemon_net [OF inv]]) (rule send_lsu_step)
  then show ?thesis using net_step_daemon inv u(2) by (metis unlock_inv daemon_inv_other(1))
qed

lemma fold_check_form: "\<exists>l k. fold check_iface is s = s\<lparr>nbr_list := l, num_nbr := k\<rparr>"
proof (induction "is" arbitrary: s)
  case Nil
  show ?case by (intro exI [of _ "nbr_list s"] exI [of _ "num_nbr s"]) simp
next
  case (Cons i xs)
  obtain l k where "check_iface i s = s\<lparr>nbr_list := l, num_nbr := k\<rparr>"
    by (cases "check_nbrs (nbr_list s (if_index i)) (num_nbr s (if_index i))") (simp add: check_iface_def Let_def)
  moreover obtain l' k' where "fold check_iface xs (check_iface i s) = (check_iface i s)\<lparr>nbr_list := l', num_nbr := k'\<rparr>"
    using Cons.IH by blast
  ultimately show ?case by auto
qed

lemma nbr_round_inv:
  assumes "checking_nbr s = Some s'" "daemon_inv s"
  shows "daemon_inv s'"
proof -
  have "nbr_inv s'" using checking_nbr_inv [OF assms(1)] assms(2) by (simp add: daemon_inv_def)
  moreover obtain l k where "s' = unlock (s\<lparr>mospf_locked := True, nbr_list := l, num_nbr := k\<rparr>)"
    using assms(1) fold_check_form [of "iface_list s" "s\<lparr>mospf_locked := True\<rparr>"]
    by (auto simp: checking_nbr_def bind_eq_Some_conv lock_Some)
  ultimately show ?thesis using assms(2) unfolding daemon_inv_def by (auto simp: db_inv_def unlock_def)
qed

lemma database_round_inv:
  assumes "checking_database s = Some s'" "daemon_inv s"
  shows "daemon_inv s'"
proof -
  let ?P = "\<lambda>e. \<not> now s - db_add_time e \<ge> 35"
  let ?t = "if \<exists>e \<in> set (mospf_db s). \<not> ?P e then filter (\<lambda>r. rt_gw r = 0) (rtable s) else rtable s"
  have "s' = unlock (s\<lparr>mospf_locked := True, rtable := ?t, mospf_db := filter ?P (mospf_db s)\<rparr>)" "set ?t \<subseteq> set (rtable s)"
    using assms(1) by (auto simp: checking_database_def lock_def Let_def split: if_splits)
  then obtain t P where s': "s' = unlock (s\<lparr>mospf_locked := True, rtable := t, mospf_db := filter P (mospf_db s)\<rparr>)" "set t \<subseteq> set (rtable s)"
    by blast
  have "distinct (map db_rid (filter P (mospf_db s)))" using assms(2) by (simp add: daemon_inv_def db_inv_def distinct_map_filter)
  then show ?thesis
    using assms(2) s' by (auto simp: daemon_inv_def net_inv_def db_inv_def nbr_inv_def arp_inv_def unlock_def)
qed

text \<open>The route computation adds no route: where one is missing, the search for its interface fails.\<close>

lemma add_route_same: "add_route n e l s = Some s' \<Longrightarrow> s' = s"
  by (auto simp: add_route_def get_iface_and_gw_def bind_eq_Some_conv split: if_splits option.splits)

lemma fold_same:
  assumes "fold_opt f xs s = Some s'" "\<And>x s s'. f x s = Some s' \<Longrightarrow> s' = s"
  shows "s' = s"
  using assms by (induction xs) (auto simp: bind_eq_Some_conv)

lemma routes_round_inv:
  assumes "caculate_rtable s = Some s'" "daemon_inv s"
  shows "daemon_inv s'"
proof -
  obtain n g prev rank u where u: "s' = unlock u"
    "fold_opt (\<lambda>i s. if prev ! (rank ! i) \<noteq> (- 1 :: u32) \<and> mospf_db s \<noteq> [] then
              fold_opt (\<lambda>e s. do {
                 ensure (0 \<le> db_nadv e \<and> db_nadv e \<le> int (length (db_array e)));
                 fold_opt (add_route n e) (take (nat (db_nadv e)) (db_array e)) s }) (mospf_db s) s
            else Some s) [0..<n] (s\<lparr>mospf_locked := True, spf_state := g\<rparr>) = Some u"
    using assms(1) by (auto simp: caculate_rtable_def bind_eq_Some_conv lock_Some Let_def)
  have "u = s\<lparr>mospf_locked := True, spf_state := g\<rparr>"
    by (rule fold_same [OF u(2)]) (auto split: if_splits elim!: fold_same intro: add_route_same dest!: fold_same)
  then show ?thesis using assms(2) u(1) by simp
qed

lemma thread_inv: "thread_round th s = Some s' \<Longrightarrow> daemon_inv s \<Longrightarrow> daemon_inv s'"
  by (cases th) (auto intro: hello_round_inv lsu_round_inv nbr_round_inv database_round_inv routes_round_inv)

section \<open>Received frames\<close>

lemma nbr_inv_reset:
  assumes "nbr_inv s"
  shows "nbr_inv (s\<lparr>nbr_list := (nbr_list s)(i := map (\<lambda>x. if P (nbr_ip x) then x\<lparr>nbr_alive := 0\<rparr> else x) (nbr_list s i))\<rparr>)"
proof -
  have ips: "map nbr_ip (map (\<lambda>x. if P (nbr_ip x) then x\<lparr>nbr_alive := 0\<rparr> else x) xs) = map nbr_ip xs" for xs
    by (simp add: comp_def if_distrib cong: if_cong)
  have "distinct (map nbr_ip (map (\<lambda>x. if P (nbr_ip x) then x\<lparr>nbr_alive := 0\<rparr> else x) (nbr_list s i)))"
    unfolding ips using assms by (simp add: nbr_inv_def)
  then show ?thesis using assms unfolding nbr_inv_def by (auto simp del: map_map)
qed

lemma hello_inv:
  assumes "handle_mospf_hello i p len s = Some s'" "daemon_inv s"
  shows "daemon_inv s'"
proof -
  let ?i = "if_index i" and ?t = "s\<lparr>mospf_locked := True\<rparr>"
  obtain iph moph hello where "get_ip p ETHER_HDR_SIZE = Some iph" "get_mhdr p (ETHER_HDR_SIZE + IP_BASE_HDR_SIZE) = Some moph"
    "load_struct dec_hello 8 p (ETHER_HDR_SIZE + IP_BASE_HDR_SIZE + MOSPF_HDR_SIZE) = Some hello"
    and free: "\<not> mospf_locked s"
    using assms(1) unfolding handle_mospf_hello_def bind_eq_Some_conv lock_Some by blast
  note hdrs = this(1-3)
  let ?ip = "ntohl (ip_saddr iph)"
  have base: "nbr_inv s" "net_inv s" "db_inv s" "iface_list s \<noteq> []" "router_id s = if_ip (hd (iface_list s))"
    using assms(2) by (simp_all add: daemon_inv_def)
  show ?thesis
  proof (cases "\<exists>x \<in> set (nbr_list s ?i). nbr_ip x = ?ip")
    case True
    then have s': "s' = unlock (?t\<lparr>nbr_list := (nbr_list s)(?i := map (\<lambda>x. if nbr_ip x = ?ip then x\<lparr>nbr_alive := 0\<rparr> else x) (nbr_list s ?i))\<rparr>)"
      using assms(1) hdrs free by (simp add: handle_mospf_hello_def lock_def Let_def)
    have "nbr_inv s'"
      using nbr_inv_reset [of s ?i "\<lambda>x. x = ?ip", OF base(1)] unfolding s' by (simp add: unlock_def nbr_inv_def)
    then show ?thesis using base(2-) unfolding daemon_inv_def by (auto simp: s' unlock_def db_inv_def)
  next
    case False
    let ?x = "\<lparr>nbr_id = ntohl (mo_rid moph), nbr_ip = ?ip, nbr_mask = ntohl (he_mask hello), nbr_alive = 0\<rparr>"
    have s': "s' = unlock (?t\<lparr>nbr_list := (nbr_list s)(?i := nbr_list s ?i @ [?x]), num_nbr := (num_nbr s)(?i := num_nbr s ?i + 1)\<rparr>)"
      using assms(1) hdrs free False by (auto simp: handle_mospf_hello_def lock_def Let_def)
    have "nbr_inv s'" using base(1) False by (auto simp: nbr_inv_def s' unlock_def)
    then show ?thesis using base(2-) unfolding daemon_inv_def by (auto simp: s' unlock_def db_inv_def)
  qed
qed

lemma lsu_inv:
  assumes "handle_mospf_lsu i p len s = Some s'" "daemon_inv s"
  shows "daemon_inv s'"
proof -
  let ?t = "s\<lparr>mospf_locked := True\<rparr>"
  obtain h where h: "get_mhdr p (ETHER_HDR_SIZE + IP_BASE_HDR_SIZE) = Some h" and free: "\<not> mospf_locked s"
    using assms(1) unfolding handle_mospf_lsu_def bind_eq_Some_conv lock_Some Let_def by blast
  let ?rid = "ntohl (mo_rid h)"
  show ?thesis
  proof (cases "router_id s = ?rid")
    case True
    then have "s' = ?t" using assms(1) h free by (simp add: handle_mospf_lsu_def lock_def)
    then show ?thesis using assms(2) by simp
  next
    case False
    note run = assms(1) [unfolded handle_mospf_lsu_def lock_def Let_def]
    obtain lsu where l: "get_lsu p (ETHER_HDR_SIZE + IP_BASE_HDR_SIZE + MOSPF_HDR_SIZE) = Some lsu"
      using run h free False by (cases "get_lsu p (ETHER_HDR_SIZE + IP_BASE_HDR_SIZE + MOSPF_HDR_SIZE)") simp_all
    let ?seq = "ntohs (lsu_seq lsu)" and ?nadv = "sint (ntohl (lsu_nadv lsu))"
    let ?lsas = "read_lsas p (ETHER_HDR_SIZE + IP_BASE_HDR_SIZE + MOSPF_HDR_SIZE + MOSPF_LSU_SIZE) (nat ?nadv)"
    let ?new = "\<lambda>ls. \<lparr>db_add_time = now s, db_rid = ?rid, db_seq = ?seq, db_nadv = ?nadv, db_array = ls\<rparr>"
    obtain es flag where 1: "update_db (now s) ?rid (int (unat ?seq)) ?lsas (mospf_db s) = Some (es, flag)"
      using run h free False l by (cases "update_db (now s) ?rid (int (unat ?seq)) ?lsas (mospf_db s)") auto
    obtain db where 2: "(if flag then Some es else do { ls \<leftarrow> ?lsas; Some (es @ [?new ls]) }) = Some db"
      using run h free False l 1
      by (cases "if flag then Some es else do { ls \<leftarrow> ?lsas; Some (es @ [?new ls]) }") (simp_all cong: if_cong)
    let ?l = "lsu\<lparr>lsu_ttl := lsu_ttl lsu - 1\<rparr>"
    obtain q where q: "put_lsu p (ETHER_HDR_SIZE + IP_BASE_HDR_SIZE + MOSPF_HDR_SIZE) ?l = Some q"
      using run h free False l 1 2
      by (cases "put_lsu p (ETHER_HDR_SIZE + IP_BASE_HDR_SIZE + MOSPF_HDR_SIZE) ?l") (simp_all cong: if_cong)
    obtain u where 4: "u = ?t\<lparr>mospf_db := db\<rparr> \<or> fold_opt (\<lambda>j s. if if_index j = if_index i then Some s
           else fold_opt (forward_lsu q len j) (nbr_list s (if_index j)) s) (iface_list s) (?t\<lparr>mospf_db := db\<rparr>) = Some u"
      and 5: "s' = unlock u"
    proof (cases "0 < lsu_ttl ?l")
      case True
      have "Option.bind (fold_opt (\<lambda>j s. if if_index j = if_index i then Some s
           else fold_opt (forward_lsu q len j) (nbr_list s (if_index j)) s) (iface_list s) (?t\<lparr>mospf_db := db\<rparr>)) (\<lambda>s. Some (unlock s)) = Some s'"
        using run h free False l 1 2 q True by (simp cong: if_cong)
      then show ?thesis using that by (auto simp: bind_eq_Some_conv)
    next
      case no: False
      have "s' = unlock (?t\<lparr>mospf_db := db\<rparr>)" using run h free False l 1 2 q no by (simp cong: if_cong)
      then show ?thesis using that [of "?t\<lparr>mospf_db := db\<rparr>"] by simp
    qed
    note u = 1 2 4 5
    note rids = update_db_rids [OF u(1)]
    have "distinct (map db_rid db) \<and> router_id s \<notin> db_rid ` set db"
    proof (cases flag)
      case True
      then have db: "map db_rid db = map db_rid (mospf_db s)" using u(2) rids by simp
      then show ?thesis using assms(2) unfolding daemon_inv_def db_inv_def by (metis list.set_map)
    next
      case flag: False
      then have db: "map db_rid db = map db_rid (mospf_db s) @ [?rid]" using u(2) rids by (auto simp: bind_eq_Some_conv)
      then have "distinct (map db_rid db)" "set (map db_rid db) = insert ?rid (set (map db_rid (mospf_db s)))"
        using assms(2) rids flag by (simp_all add: daemon_inv_def db_inv_def)
      then show ?thesis using assms(2) False by (auto simp: daemon_inv_def db_inv_def)
    qed
    then have inv: "daemon_inv (?t\<lparr>mospf_db := db\<rparr>)"
      using assms(2) unfolding daemon_inv_def by (auto simp: db_inv_def nbr_inv_def)
    have "net_step (?t\<lparr>mospf_db := db\<rparr>) u"
      using u(3)
    proof
      assume "u = ?t\<lparr>mospf_db := db\<rparr>"
      then show ?thesis using net_step_refl [OF daemon_net [OF inv]] by simp
    next
      assume "fold_opt (\<lambda>j s. if if_index j = if_index i then Some s
           else fold_opt (forward_lsu q len j) (nbr_list s (if_index j)) s) (iface_list s) (?t\<lparr>mospf_db := db\<rparr>) = Some u"
      then show ?thesis by (rule flood_step [OF _ daemon_net [OF inv] forward_lsu_step])
    qed
    then show ?thesis using net_step_daemon [OF _ inv] u(4) by simp
  qed
qed

lemma mospf_packet_inv: "handle_mospf_packet i p len s = Some s' \<Longrightarrow> daemon_inv s \<Longrightarrow> daemon_inv s'"
  by (auto simp: handle_mospf_packet_def bind_eq_Some_conv Let_def split: if_splits intro: hello_inv lsu_inv)

lemma handle_packet_inv:
  assumes "handle_packet_12 i p len s = Some s'" "daemon_inv s" "i \<in> set (iface_list s)"
  shows "daemon_inv s'"
proof -
  note net = daemon_net [OF assms(2)]
  have ip: "daemon_inv s'" if "handle_ip_packet_12 handle_mospf_packet i p len s = Some s'"
  proof -
    have "daemon_inv s'" if "icmp_send_packet_12 p len a b s = Some s'" for a b
      using net_icmp [OF that net] assms(2) by (rule net_step_daemon)
    moreover have "daemon_inv s'" if "ip_forward_packet_12 d p len s = Some s'" for d
      using net_forward [OF that net] assms(2) by (rule net_step_daemon)
    ultimately show ?thesis
      using that assms(2) mospf_packet_inv [of i p len s s']
      by (auto simp: handle_ip_packet_12_def bind_eq_Some_conv Let_def split: if_splits)
  qed
  have arp: "daemon_inv s'" if "handle_arp_packet_12 i p len s = Some s'"
    using net_arp [OF that net assms(3)] assms(2) by (rule net_step_daemon)
  show ?thesis
    using assms(1,2) ip arp by (auto simp: handle_packet_12_def handle_packet_def bind_eq_Some_conv split: if_splits)
qed

lemma receive_inv:
  assumes "ustack_run_step handle_packet_12 fd buf outgoing s = Some s'" "daemon_inv s"
  shows "daemon_inv s'"
proof (cases "buf = [] \<or> outgoing")
  case True
  then have "s' = s" using assms(1) by (auto simp: ustack_run_step_def split: if_splits)
  then show ?thesis using assms(2) by simp
next
  case False
  then obtain i where i: "fd_to_iface s fd = Some i" "handle_packet_12 i buf (int (length buf)) s = Some s'"
    using assms(1) by (auto simp: ustack_run_step_def bind_eq_Some_conv)
  have "i \<in> set (iface_list s)" using i(1) by (auto simp: fd_to_iface_def find_Some_iff)
  then show ?thesis by (rule handle_packet_inv [OF i(2) assms(2)])
qed

section \<open>The start\<close>

lemma parse_route_local:
  assumes "parse_route nm m ns = Some ns'" "routes_local (snd ns)"
  shows "\<exists>t. snd ns' = (snd ns)\<lparr>rtable := t\<rparr> \<and> routes_local (snd ns')"
proof (cases "rtm_table m = 254")
  case False
  then have "ns' = ns" using assms(1) by (simp add: parse_route_def)
  then show ?thesis using assms(2) by (intro exI [of _ "rtable (snd ns)"]) simp
next
  case True
  then obtain r where "fold_opt (parse_attr nm (rtm_dst_len m)) (rtm_attrs m)
      \<lparr>ri_dest = 0, ri_mask = 0, ri_gw = 0, ri_if_name = None\<rparr> = Some r"
    using assms(1) unfolding parse_route_def by (cases "fold_opt (parse_attr nm (rtm_dst_len m)) (rtm_attrs m)
      \<lparr>ri_dest = 0, ri_mask = 0, ri_gw = 0, ri_if_name = None\<rparr>") auto
  moreover from this True obtain name where "ri_if_name r = Some name"
    using assms(1) unfolding parse_route_def by (cases "ri_if_name r") auto
  ultimately have r: "(case if_name_to_iface (snd ns) name of None \<Rightarrow> Some ns
      | Some i \<Rightarrow> Some (Suc (fst ns), add_rt_entry (new_rt_entry (ri_dest r) (ri_mask r) (ri_gw r) i) (snd ns))) = Some ns'"
    using assms(1) True unfolding parse_route_def by simp
  show ?thesis
  proof (cases "if_name_to_iface (snd ns) name")
    case None
    then show ?thesis using r assms(2) by (intro exI [of _ "rtable (snd ns)"]) simp
  next
    case (Some i)
    then have "i \<in> set (iface_list (snd ns))" by (auto simp: if_name_to_iface_def find_Some_iff)
    then show ?thesis
      using r assms(2) Some by (auto simp: add_rt_entry_def new_rt_entry_def routes_local_def)
  qed
qed

lemma load_rtable_local:
  assumes "load_rtable_from_kernel os s = Inr s'"
  shows "\<exists>t. s' = s\<lparr>rtable := t\<rparr> \<and> routes_local s'"
proof -
  obtain msgs n where p: "fold_opt (parse_route (os_if_name os)) msgs (0, init_rtable s) = Some (n, s')"
    using assms by (auto simp: load_rtable_from_kernel_def parse_routing_info_def and_then_def or_error_def
        split: sum.splits option.splits)
  have "(\<lambda>ns. \<exists>t. snd ns = s\<lparr>rtable := t\<rparr> \<and> routes_local (snd ns)) (n, s')"
  proof (rule fold_opt_invariant [OF p])
    show "\<exists>t. snd (0, init_rtable s) = s\<lparr>rtable := t\<rparr> \<and> routes_local (snd (0, init_rtable s))"
      by (auto simp: init_rtable_def routes_local_def)
    fix m ns ns'
    assume "\<exists>t. snd ns = s\<lparr>rtable := t\<rparr> \<and> routes_local (snd ns)" "parse_route (os_if_name os) m ns = Some ns'"
    then show "\<exists>t. snd ns' = s\<lparr>rtable := t\<rparr> \<and> routes_local (snd ns')"
      using parse_route_local [of "os_if_name os" m ns ns'] by auto
  qed
  then show ?thesis by simp
qed

lemma start_inv:
  assumes "init_ustack_12 os s0 = Inr (s, fds)" "wire s0 = []" "num_nbr s0 = (\<lambda>_. 0)"
  shows "daemon_inv s"
proof -
  obtain ifs t where t: "load_rtable_from_kernel os (init_rtable (arpcache_init (s0\<lparr>iface_list := ifs\<rparr>))) = Inr t" "mospf_init t = Some s"
    using assms(1) by (auto simp: init_ustack_12_def start_router_def and_then_def or_error_def Let_def
        split: sum.splits option.splits prod.splits)
  obtain rt where rt: "t = (init_rtable (arpcache_init (s0\<lparr>iface_list := ifs\<rparr>)))\<lparr>rtable := rt\<rparr>" "routes_local t"
    using load_rtable_local [OF t(1)] by blast
  have c: "arpcache t = arpcache (arpcache_init s0)" "wire t = []" "num_nbr t = (\<lambda>_. 0)"
    using assms(2,3) by (simp_all add: rt(1) init_rtable_def arpcache_init_def)
  have s: "s = t\<lparr>mospf_locked := False, area_id := 0, router_id := if_ip (hd (iface_list t)), sequence_num := 0,
      lsuint := MOSPF_DEFAULT_LSUINT, nbr_list := (\<lambda>i. []), mospf_db := []\<rparr>" "iface_list t \<noteq> []"
    using t(2) by (auto simp: mospf_init_def split: if_splits)
  have "arp_inv s" using c(1) by (auto simp: arp_inv_def s(1) arpcache_init_def)
  moreover have "req_list (arpcache s) = []" "wire s = []" using c by (simp_all add: s(1) arpcache_init_def)
  moreover have "\<forall>e \<in> set (rtable s). rt_iface e \<in> set (iface_list s)" using rt(2) by (simp add: s(1) routes_local_def)
  ultimately have "net_inv s" by (simp add: net_inv_def)
  then show ?thesis
    using s(2) c(3) by (simp add: daemon_inv_def db_inv_def nbr_inv_def s(1))
qed

text \<open>C14. In every state the link state program of lab 12 reaches, whatever frames arrive and however its threads take
  turns: the ARP cache has no two entries for an address; routes, waiting packets and frames sent belong to interfaces of
  the router; the counter of each interface's neighbours is the length of the list, which has no address twice and no
  neighbour older than 16 rounds; the database has at most one entry for a router and none for this router itself; and the router is known by the address of its first
  interface.\<close>

theorem link_state_program_inv:
  assumes "daemon_reach os s"
  shows "net_inv s \<and> nbr_inv s \<and> db_inv s \<and> iface_list s \<noteq> [] \<and> router_id s = if_ip (hd (iface_list s))"
proof -
  have "daemon_inv s"
    using assms
  proof induction
    case (start s0 s fds)
    then show ?case by (rule start_inv)
  next
    case (receive s fd buf outgoing s')
    then show ?case by (blast intro: receive_inv)
  next
    case (thread s th s')
    then show ?case by (blast intro: thread_inv)
  next
    case (sweep s s')
    then show ?case using net_step_daemon [OF net_sweep [OF sweep.hyps(2) daemon_net]] by blast
  next
    case (tick s t)
    then show ?case by simp
  qed
  then show ?thesis by (simp add: daemon_inv_def)
qed

text \<open>The router of one interface, after an ARP request.\<close>

lemma arp_request_answered_12:
  assumes "get_arp f 14 = Some a" "ntohs (arp_op a) = ARPOP_REQUEST" "ntohl (arp_tpa a) = if_ip i"
    and "arp_inv s" "\<exists>e \<in> set (entries (arpcache s)). \<not> ent_valid e" "req_list (arpcache s) = []"
  shows "\<exists>s'. handle_arp_packet_12 i f len s = Some s' \<and> wire s' = wire s @ [(i, arp_reply_packet i a)]"
proof -
  obtain s' where "handle_arp_packet i f len s = Some s'" "wire s' = wire s @ [(i, arp_reply_packet i a)]"
    using arp_request_answered [OF assms] by blast
  moreover have "handle_arp_packet_12 i f len s = handle_arp_packet i f len s"
    using assms(1-3) by (simp add: handle_arp_packet_12_def handle_arp_packet_def)
  ultimately show ?thesis by simp
qed

theorem link_state_program_inv_witness:
  "\<exists>s. daemon_reach os0 s \<and> length (wire s) = 1 \<and> net_inv s \<and> nbr_inv s \<and> db_inv s
     \<and> iface_list s \<noteq> [] \<and> router_id s = if_ip (hd (iface_list s))"
proof -
  obtain s where s: "init_ustack_12 os0 mospf0 = Inr (s, map (os_socket os0) (available os0))"
    "iface_list s = map (iface_of os0) (available os0)"
    using init_ustack_12_ok [OF os0_ok] by blast
  have 0: "wire mospf0 = []" "num_nbr mospf0 = (\<lambda>_. 0)" by (simp_all add: mospf0_def ustack0_def ustack.defs)
  have r: "daemon_reach os0 s" by (rule daemon_reach.start [OF s(1) 0])
  have c: "entries (arpcache s) = replicate 32 \<lparr>ent_ip4 = 0, ent_mac = Mac 0 0 0 0 0 0, ent_added = 0, ent_valid = False\<rparr>"
    "req_list (arpcache s) = []" "wire s = []"
    using s(1) 0 start_router_ok [OF os0_ok, of mospf0] by (auto simp: init_ustack_12_def mospf_init_def arpcache_init_def split: if_splits)
  let ?i = "iface_of os0 ''r1-eth0''"
  have "if_fd ?i = 3" by (simp add: iface_of_def os0_def)
  then have i: "fd_to_iface s 3 = Some ?i" using s(2) by (simp add: fd_to_iface_def available_os0)
  have tpa: "ntohl (arp_tpa asked) = if_ip ?i" by (simp add: asked_def iface_of_def os0_def)
  have op: "ntohs (arp_op asked) = ARPOP_REQUEST" by (simp add: asked_def)
  have inv: "arp_inv s" "\<exists>e \<in> set (entries (arpcache s)). \<not> ent_valid e" using c(1) by (simp_all add: arp_inv_def)
  obtain s' where s': "handle_arp_packet_12 ?i request0 (int (length request0)) s = Some s'"
    "wire s' = wire s @ [(?i, arp_reply_packet ?i asked)]"
    using arp_request_answered_12 [OF request0(2) op tpa inv c(2)] by blast
  have "request0 \<noteq> []" using request0(1) by (auto simp: load_struct_def load_bytes_def)
  then have "ustack_run_step handle_packet_12 3 request0 False s = Some s'"
    using i s'(1) request0(1)
    by (simp add: ustack_run_step_def handle_packet_12_def handle_packet_def asking_def ETH_P_ARP_def ETH_P_IP_def)
  from daemon_reach.receive [OF r this] have "daemon_reach os0 s'" .
  moreover from link_state_program_inv [OF this] have "net_inv s' \<and> nbr_inv s' \<and> db_inv s' \<and> iface_list s' \<noteq> [] \<and> router_id s' = if_ip (hd (iface_list s'))" .
  ultimately show ?thesis using s'(2) c(3) by auto
qed

end
