(* ===== verification/TcpHandshake.thy ===== *)
theory TcpHandshake
  imports TcpTables
begin

text \<open>
  Opening a connection on the server side. In lab 16 a SYN to a listening port creates a child socket
  that answers with SYN and ACK, the ACK of the client moves the child to the accept queue, and
  \<^verbatim>\<open>tcp_sock_accept\<close> hands it out. In lab 17 the same SYN makes the stack dereference a null pointer,
  because \<^verbatim>\<open>alloc_tcp_sock\<close> does not initialise the list \<^verbatim>\<open>send_buf\<close> that the retransmission code appends to.
\<close>

section \<open>Allocation\<close>

definition sock_init :: "ring_buffer \<Rightarrow> tcp_sock" where
  "sock_init rb = \<lparr>sk_sip = 0, sk_sport = 0, sk_dip = 0, sk_dport = 0, parent = None, ref_cnt = 0,
     accept_backlog = 0, backlog = 0, timewait = timer0, retrans_timer = timer0,
     wait_connect = alloc_wait_struct, wait_accept = alloc_wait_struct,
     wait_recv = alloc_wait_struct, wait_send = alloc_wait_struct, rcv_buf = rb,
     state = TCP_CLOSED, iss = 0, snd_una = 0, snd_nxt = 0, rcv_nxt = 0, snd_wnd = 0,
     rcv_wnd = TCP_DEFAULT_WINDOW\<rparr>"

text \<open>The next address to be allocated is in use nowhere.\<close>

definition fresh_sock :: "tstack \<Rightarrow> bool" where
  "fresh_sock s \<longleftrightarrow> socks s (brk s) = None \<and> (\<forall>n \<in> set (sock_nodes (brk s)). lists s n = None)"

lemma fold_map_upd: "fold (\<lambda>n h. h(n \<mapsto> z)) ns h = (\<lambda>n. if n \<in> set ns then Some z else h n)"
  by (induction ns arbitrary: h) auto

lemma unlinked_upd: "\<not> linked L n \<Longrightarrow> n \<noteq> a \<Longrightarrow> \<not> linked (L(a \<mapsto> [])) n"
  by (auto simp: linked_def split: if_splits)

lemma alloc_sock_ok:
  assumes ok: "tables_ok L s" and fr: "fresh_sock s"
  defines "c \<equiv> brk s"
  shows "\<exists>h rb. alloc_tcp_sock s = Some (c, s\<lparr>brk := Suc c, lists := h, socks := (socks s)(c \<mapsto> sock_init rb)\<rparr>)
     \<and> lrep h (L(ListenQueue c \<mapsto> [], AcceptQueue c \<mapsto> [])) \<and> h Null = None \<and> SkList c \<in> dom h
     \<and> (\<forall>n \<in> {HashList c, BindHashList c, SendBuf c}. h n = Some zero_node)
     \<and> (\<forall>n. n \<notin> set (sock_nodes c) \<longrightarrow> h n = lists s n)"
proof -
  define h0 where "h0 = fold (\<lambda>n h. h(n \<mapsto> zero_node)) (sock_nodes c) (lists s)"
  have h0: "h0 n = (if n \<in> set (sock_nodes c) then Some zero_node else lists s n)" for n
    by (simp add: h0_def fold_map_upd)
  have un: "\<not> linked L n" if "n \<in> set (sock_nodes c)" for n
    using lrep_linked_dom [OF tables_ok_lrep [OF ok]] fr that unfolding fresh_sock_def c_def by blast
  have r0: "lrep h0 L"
    using un by (intro lrep_frame [OF tables_ok_lrep [OF ok]]) (auto simp: h0)
  have "set (sock_nodes c) \<subseteq> dom h0" by (auto simp: h0)
  then have dom: "SkList c \<in> dom h0" "ListenQueue c \<in> dom h0" "AcceptQueue c \<in> dom h0" by (simp_all add: sock_nodes_def)
  have un3: "\<not> linked L (SkList c)" "\<not> linked L (ListenQueue c)" "\<not> linked L (AcceptQueue c)"
    using un by (simp_all add: sock_nodes_def)
  obtain h1 where h1: "init_list_head h0 (SkList c) = Some h1" "lrep h1 (L(SkList c \<mapsto> []))" "dom h1 = dom h0"
    "\<forall>n. n \<noteq> SkList c \<longrightarrow> h1 n = h0 n"
    using lrep_init [OF r0 dom(1) un3(1)] by blast
  obtain h2 where h2: "init_list_head h1 (ListenQueue c) = Some h2" "lrep h2 (L(SkList c \<mapsto> [], ListenQueue c \<mapsto> []))"
    "dom h2 = dom h1" "\<forall>n. n \<noteq> ListenQueue c \<longrightarrow> h2 n = h1 n"
    using lrep_init [OF h1(2) _ unlinked_upd [OF un3(2)]] dom(2) h1(3) by auto
  obtain h3 where h3: "init_list_head h2 (AcceptQueue c) = Some h3"
    "lrep h3 (L(SkList c \<mapsto> [], ListenQueue c \<mapsto> [], AcceptQueue c \<mapsto> []))"
    "dom h3 = dom h2" "\<forall>n. n \<noteq> AcceptQueue c \<longrightarrow> h3 n = h2 n"
    using lrep_init [OF h2(2) _ unlinked_upd [OF unlinked_upd [OF un3(3)]]] dom(3) h1(3) h2(3) by auto
  have "L (SkList c) = None" using un3(1) by (auto simp: linked_def)
  then have "(L(SkList c \<mapsto> [], ListenQueue c \<mapsto> [], AcceptQueue c \<mapsto> []))(SkList c := None)
      = L(ListenQueue c \<mapsto> [], AcceptQueue c \<mapsto> [])" by auto
  then have "lrep h3 (L(ListenQueue c \<mapsto> [], AcceptQueue c \<mapsto> []))"
    using lrep_forget [OF h3(2), of "SkList c"] by simp
  moreover obtain rb where "alloc_ring_buffer (int (unat TCP_DEFAULT_WINDOW)) = Some rb"
    by (simp add: alloc_ring_buffer_def TCP_DEFAULT_WINDOW_def)
  then have "alloc_tcp_sock s = Some (c, s\<lparr>brk := Suc c, lists := h3, socks := (socks s)(c \<mapsto> sock_init rb)\<rparr>)"
    using h1(1) h2(1) h3(1)
    by (simp add: alloc_tcp_sock_def c_def [symmetric] h0_def [symmetric] sock_init_def)
  moreover have "h3 Null = None" using h1(4) h2(4) h3(4) ok by (simp add: h0 tables_ok_def sock_nodes_def)
  moreover have "SkList c \<in> dom h3" unfolding h3(3) h2(3) h1(3) by (rule dom(1))
  moreover have "\<forall>n \<in> {HashList c, BindHashList c, SendBuf c}. h3 n = Some zero_node"
    "\<forall>n. n \<notin> set (sock_nodes c) \<longrightarrow> h3 n = lists s n"
    using h1(4) h2(4) h3(4) by (auto simp: h0 sock_nodes_def)
  ultimately show ?thesis by blast
qed

section \<open>Binding\<close>

lemma port_in_use_total:
  assumes ok: "tables_ok L s"
  shows "\<exists>b. tcp_port_in_use port s = Some b"
proof -
  let ?a = "BindTable (tcp_hash_function 0 0 port 0)"
  have t: "table_ok ?a BindHashList (\<lambda>k. tcp_hash_function 0 0 port 0) (tcp_hash_function 0 0 port 0) L s"
    using tables_okD [OF ok, of ?a] by simp
  let ?P = "\<lambda>n. case n of BindHashList p \<Rightarrow> (\<exists>k. socks s p = Some k \<and> misread_sport k s = port) | _ \<Rightarrow> False"
  have "list_find_entry (lists s) ?a (\<lambda>n. case n of BindHashList p \<Rightarrow> map_option (\<lambda>k. misread_sport k s = port) (socks s p)
        | _ \<Rightarrow> None) = Some (find ?P (map BindHashList (bucket L ?a)))"
    using table_ok_alloc [OF t] by (intro list_find_entry_dlist(1) [OF table_ok_dlist [OF ok t]]) fastforce
  then show ?thesis by (simp add: tcp_port_in_use_def)
qed

lemma bind_ok:
  assumes ok: "tables_ok L s" and k: "socks s c = Some k" "sk_sport k = port" "port \<noteq> 0"
    and z: "lists s (BindHashList c) = Some zero_node"
  shows "\<exists>r h x L'. tcp_sock_bind c (htons port) s = Some (r, s\<lparr>lists := h, socks := (socks s)(c \<mapsto> k\<lparr>ref_cnt := x\<rparr>)\<rparr>)
     \<and> tables_ok L' (s\<lparr>lists := h, socks := (socks s)(c \<mapsto> k\<lparr>ref_cnt := x\<rparr>)\<rparr>)
     \<and> (\<forall>a. (\<forall>i. a \<noteq> BindTable i) \<longrightarrow> L' a = L a)
     \<and> (\<forall>n. n \<noteq> BindHashList c \<longrightarrow> \<not> linked L n \<longrightarrow> h n = lists s n \<and> \<not> linked L' n)"
proof -
  obtain b where b: "tcp_port_in_use port s = Some b" using port_in_use_total [OF ok] by blast
  have kk: "k\<lparr>sk_sport := port\<rparr> = k" using k(2) by simp
  show ?thesis
  proof (cases b)
    case True
    have "tcp_sock_bind c (htons port) s = Some (- 1, s)"
      using b True k(3) by (simp add: tcp_sock_bind_def tcp_sock_set_sport_def)
    moreover have "s\<lparr>lists := lists s, socks := (socks s)(c \<mapsto> k\<lparr>ref_cnt := ref_cnt k\<rparr>)\<rparr> = s"
      using k(1) by (simp add: fun_upd_idem)
    ultimately show ?thesis
      using ok by (intro exI [of _ "- 1"] exI [of _ "lists s"] exI [of _ "ref_cnt k"] exI [of _ L]) simp
  next
    case False
    define s1 where "s1 = s\<lparr>socks := (socks s)(c \<mapsto> k)\<rparr>"
    have s1: "s1 = s" using k(1) by (simp add: s1_def fun_upd_idem)
    let ?i = "tcp_hash_function 0 0 port 0"
    let ?a = "BindTable ?i"
    have "in_bucket (\<lambda>k. ?i) ?i s c" using k(1) by (simp add: in_bucket_def)
    from tables_ok_enter [OF ok, of ?a BindHashList, OF _ this] obtain h where
      h: "list_add_head (lists s) (BindHashList c) ?a = Some h" "\<forall>n. n \<noteq> BindHashList c \<longrightarrow> \<not> linked L n \<longrightarrow> h n = lists s n"
      "\<forall>s'. lists s' = h \<and> keeps_keys s s' \<longrightarrow> tables_ok (L(?a \<mapsto> map BindHashList (c # bucket L ?a))) s'"
      using zero_node_unlinked [OF ok z] z by auto
    let ?s = "s\<lparr>lists := h, socks := (socks s)(c \<mapsto> k\<lparr>ref_cnt := ref_cnt k + 1\<rparr>)\<rparr>"
    have "keeps_keys s ?s" by (rule keeps_keys_upd [OF k(1)]) (auto simp: key_of_def)
    then have "tables_ok (L(?a \<mapsto> map BindHashList (c # bucket L ?a))) ?s" using h(3) by simp
    moreover have "tcp_sock_bind c (htons port) s = Some (0, ?s)"
      using b False k h(1) s1 unfolding s1_def
      by (simp add: tcp_sock_bind_def tcp_sock_set_sport_def tcp_bind_hash_def tcp_sock_inc_ref_cnt_def kk)
    moreover have "\<not> linked (L(?a \<mapsto> map BindHashList (c # bucket L ?a))) n" if "n \<noteq> BindHashList c" "\<not> linked L n" for n
      using that tables_okD [OF ok, of ?a] by (fastforce simp: linked_def table_ok_def split: if_splits)
    ultimately show ?thesis
      using h(2) by (intro exI [of _ 0] exI [of _ h] exI [of _ "ref_cnt k + 1"] exI [of _ "L(?a \<mapsto> map BindHashList (c # bucket L ?a))"]) auto
  qed
qed

section \<open>A SYN to a listening socket\<close>

definition child_sock :: "ring_buffer \<Rightarrow> int \<Rightarrow> u32 \<Rightarrow> nat \<Rightarrow> tcp_cb \<Rightarrow> tcp_sock" where
  "child_sock rb refs x p cb = (sock_init rb)\<lparr>sk_sip := cb_daddr cb, sk_sport := cb_dport cb, sk_dip := cb_saddr cb,
     sk_dport := cb_sport cb, parent := Some p, rcv_nxt := cb_seq_end cb, iss := x, snd_nxt := x,
     ref_cnt := refs, state := TCP_SYN_RECV\<rparr>"

text \<open>Everything before the answer is sent; both labs share it.\<close>

lemma listen_prefix:
  assumes ok: "tables_ok L s" and fr: "fresh_sock s" and q: "L (ListenQueue p) = Some qs" "socks s p \<noteq> None"
    and cb: "has_flag (cb_flags cb) TCP_SYN" "cb_dport cb \<noteq> 0"
  defines "c \<equiv> brk s" and "x \<equiv> of_nat (rand_fn s (rand_pos s))"
  obtains h rb refs L1 s1 where "s1 = s\<lparr>brk := Suc c, rand_pos := Suc (rand_pos s),
         socks := (socks s)(c \<mapsto> child_sock rb refs x p cb), lists := h\<rparr>"
    "\<And>send. tcp_state_listen_with send p cb s = do {
          s \<leftarrow> send c (TCP_SYN OR TCP_ACK) s1; (r, s) \<leftarrow> tcp_hash c s; Some s }"
    "tables_ok L1 s1" "L1 (ListenQueue p) = Some (qs @ [SkList c])"
    "\<And>a. (\<forall>i. a \<noteq> BindTable i) \<Longrightarrow> a \<notin> {ListenQueue p, ListenQueue c, AcceptQueue c} \<Longrightarrow> L1 a = L a"
    "h (HashList c) = Some zero_node" "h (SendBuf c) = Some zero_node"
proof -
  obtain h rb where h: "alloc_tcp_sock s = Some (c, s\<lparr>brk := Suc c, lists := h, socks := (socks s)(c \<mapsto> sock_init rb)\<rparr>)"
    "lrep h (L(ListenQueue c \<mapsto> [], AcceptQueue c \<mapsto> []))" "h Null = None" "SkList c \<in> dom h"
    "h (HashList c) = Some zero_node" "h (BindHashList c) = Some zero_node" "h (SendBuf c) = Some zero_node"
    using alloc_sock_ok [OF ok fr] unfolding c_def by auto
  have pc: "p \<noteq> c" using fr q(2) by (auto simp: fresh_sock_def c_def)
  let ?L = "L(ListenQueue c \<mapsto> [], AcceptQueue c \<mapsto> [])"
  let ?k = "child_sock rb 0 x p cb\<lparr>state := TCP_CLOSED\<rparr>"
  define s2 where "s2 = s\<lparr>brk := Suc c, lists := h, rand_pos := Suc (rand_pos s), socks := (socks s)(c \<mapsto> ?k)\<rparr>"
  have new: "keeps_keys s s'" if "socks s' = (socks s)(c \<mapsto> k')" for s' k'
    by (rule keeps_keys_new [OF _ that]) (use fr in \<open>simp add: fresh_sock_def c_def\<close>)
  have ok2: "tables_ok ?L s2"
  proof (rule tables_ok_change [OF ok])
    show "slot a \<noteq> None \<Longrightarrow> ?L a = L a" for a by (cases a) auto
  qed (use h(2,3) in \<open>auto simp: s2_def intro: new\<close>)
  have un: "\<not> linked ?L (SkList c)"
  proof -
    have "lists s (SkList c) = None" using fr by (simp add: fresh_sock_def sock_nodes_def c_def)
    then have "\<not> linked L (SkList c)" using lrep_linked_dom [OF tables_ok_lrep [OF ok]] by blast
    then show ?thesis by (intro unlinked_upd) auto
  qed
  have k2: "socks s2 c = Some ?k" by (simp add: s2_def)
  have "sk_sport ?k = cb_dport cb" by (simp add: child_sock_def)
  from bind_ok [OF ok2 k2 this cb(2)] h(6) obtain r h' refs L' where
    b: "tcp_sock_bind c (htons (cb_dport cb)) s2 = Some (r, s2\<lparr>lists := h', socks := (socks s2)(c \<mapsto> ?k\<lparr>ref_cnt := refs\<rparr>)\<rparr>)"
    "tables_ok L' (s2\<lparr>lists := h', socks := (socks s2)(c \<mapsto> ?k\<lparr>ref_cnt := refs\<rparr>)\<rparr>)"
    "\<forall>a. (\<forall>i. a \<noteq> BindTable i) \<longrightarrow> L' a = ?L a"
    "\<forall>n. n \<noteq> BindHashList c \<longrightarrow> \<not> linked ?L n \<longrightarrow> h' n = lists s2 n \<and> \<not> linked L' n"
    unfolding s2_def by auto
  have z: "h' n = Some zero_node \<and> \<not> linked L' n" if "n \<in> {HashList c, SendBuf c}" for n
    using zero_node_unlinked [OF ok2, of n] that h(5,7) b(4) by (auto simp: s2_def)
  have sk: "h' (SkList c) = h (SkList c)" "\<not> linked L' (SkList c)" using b(4) un by (auto simp: s2_def)
  have lq: "L' (ListenQueue p) = Some qs" using b(3) q(1) pc by simp
  have lr: "lrep h' L'" "h' Null = None" using b(2) by (auto simp: tables_ok_def)
  have "SkList c \<in> dom h'" using sk(1) h(4) by (simp add: domIff)
  then obtain h3 where h3: "list_add_tail h' (SkList c) (ListenQueue p) = Some h3" "lrep h3 (L'(ListenQueue p \<mapsto> qs @ [SkList c]))"
    "dom h3 = dom h'" "\<forall>n. n \<noteq> SkList c \<longrightarrow> \<not> linked L' n \<longrightarrow> h3 n = h' n"
    using lrep_add_tail [OF lr(1) lq _ sk(2)] by blast
  define s1 where "s1 = s\<lparr>brk := Suc c, rand_pos := Suc (rand_pos s), socks := (socks s)(c \<mapsto> child_sock rb refs x p cb), lists := h3\<rparr>"
  have "tables_ok (L'(ListenQueue p \<mapsto> qs @ [SkList c])) s1"
  proof (rule tables_ok_change [OF b(2)])
    show "slot a \<noteq> None \<Longrightarrow> (L'(ListenQueue p \<mapsto> qs @ [SkList c])) a = L' a" for a by (cases a) auto
    show "lists s1 Null = None" using h3(3) lr(2) by (auto simp: s1_def)
  qed (use h3(2) in \<open>auto simp: s1_def s2_def keeps_keys_def key_of_def child_sock_def\<close>)
  moreover have "tcp_state_listen_with send p cb s = do { s \<leftarrow> send c (TCP_SYN OR TCP_ACK) s1; (r, s) \<leftarrow> tcp_hash c s; Some s }" for send
  proof -
    have 1: "tcp_state_listen_with send p cb s = do { (r, s) \<leftarrow> tcp_sock_bind c (htons (cb_dport cb)) s2;
        s \<leftarrow> tcp_set_state c TCP_SYN_RECV s;
        s \<leftarrow> on_lists (\<lambda>h. list_add_tail h (SkList c) (ListenQueue p)) s;
        s \<leftarrow> send c (TCP_SYN OR TCP_ACK) s; (r, s) \<leftarrow> tcp_hash c s; Some s }"
      using cb(1) h(1) by (simp add: tcp_state_listen_with_def tcp_new_iss_def rand_def s2_def x_def child_sock_def sock_init_def)
    show ?thesis unfolding 1 b(1)
      using h3(1) by (simp add: tcp_set_state_def s1_def s2_def child_sock_def)
  qed
  moreover have "h3 (HashList c) = Some zero_node" "h3 (SendBuf c) = Some zero_node" using z h3(4) by auto
  ultimately show ?thesis
    using b(3) by (intro that [OF s1_def, of "L'(ListenQueue p \<mapsto> qs @ [SkList c])"]) auto
qed

text \<open>The situation in which a SYN arrives: \<open>p\<close> listens on the port, the connection is unknown.\<close>

definition syn_for :: "lseqs \<Rightarrow> nat \<Rightarrow> tcp_cb \<Rightarrow> tstack \<Rightarrow> bool" where
  "syn_for L p cb s \<longleftrightarrow> tables_ok L s \<and> unique_keys L s \<and> fresh_sock s
     \<and> map_option state (socks s p) = Some TCP_LISTEN \<and> L (ListenQueue p) \<noteq> None
     \<and> listener_of L (cb_dport cb) s = Some p
     \<and> conn_of L (cb_daddr cb, cb_saddr cb, cb_dport cb, cb_sport cb) s = None
     \<and> has_flag (cb_flags cb) TCP_SYN \<and> cb_dport cb \<noteq> 0"

lemma handle_received:
  assumes "tcp_received_as m cb" "tcp_sock_lookup cb s = Some (Some p)"
  shows "handle_tcp_packet_with process m 14 34 s = process p cb m s"
  using assms by (auto simp: handle_tcp_packet_with_def tcp_received_as_def)

lemma append_send_buf_crash:
  assumes "lists s (SendBuf p) = Some zero_node" "lists s Null = None"
  shows "append_send_buf p m len s = None"
  using assms
  by (auto simp: append_send_buf_def on_lists_def list_add_tail_def list_insert_def prv_def zero_node_def set_nxt_def set_prv_def
      split: option.split bind_split)

section \<open>The handshake of lab 16\<close>

lemma send_control_16_total:
  assumes k: "socks s p = Some k" and f: "has_flag flags (TCP_SYN OR TCP_FIN)"
  shows "\<exists>A w m. (let t = s\<lparr>rand_pos := Suc (rand_pos s), socks := (socks s)(p \<mapsto> k\<lparr>snd_nxt := snd_nxt k + 1\<rparr>)\<rparr> in
       tcp_send_control_packet_16 p flags s = Some (t\<lparr>arpcache := A, wire := w\<rparr>)
     \<and> ip_send_packet m 54 t = Some (t\<lparr>arpcache := A, wire := w\<rparr>)) \<and> whole m 54
     \<and> (\<forall>q. forwarded_copy m q \<longrightarrow> tcp_received_as q
           (segment_cb (sk_sip k) (sk_dip k) (sk_sport k) (sk_dport k) (snd_nxt k) (rcv_nxt k) flags (rcv_wnd k) 0))"
proof -
  obtain m where m: "control_packet p flags s = Some (m, s\<lparr>rand_pos := Suc (rand_pos s)\<rparr>)" "whole m 54" "length m = 54"
    "\<forall>q. forwarded_copy m q \<longrightarrow> tcp_received_as q
           (segment_cb (sk_sip k) (sk_dip k) (sk_sport k) (sk_dport k) (snd_nxt k) (rcv_nxt k) flags (rcv_wnd k) 0)"
    using control_packet_ok [OF k, of flags] by blast
  let ?t = "s\<lparr>rand_pos := Suc (rand_pos s), socks := (socks s)(p \<mapsto> k\<lparr>snd_nxt := snd_nxt k + 1\<rparr>)\<rparr>"
  obtain A w where aw: "ip_send_packet m 54 ?t = Some (?t\<lparr>arpcache := A, wire := w\<rparr>)"
    using ip_send_packet_total [OF m(2), of ?t] m(3) by auto
  then have "tcp_send_control_packet_16 p flags s = Some (?t\<lparr>arpcache := A, wire := w\<rparr>)"
    using m(1) k f by (simp add: tcp_send_control_packet_16_def)
  with aw m(2,4) show ?thesis unfolding Let_def by blast
qed

lemma fill_eth_forwarded:
  assumes "whole m len" "get_ip m 14 = Some ip"
  shows "forwarded_copy m (fill_eth mac i m)"
proof -
  have "14 \<le> length m" using iph.load_bounds [OF assms(2)] by simp
  have d: "drop 14 (fill_eth mac i m) = drop 14 m" by (simp add: fill_eth_def eth.length_enc)
  then have "drop (n + 14) (fill_eth mac i m) = drop (n + 14) m" for n by (metis drop_drop)
  from this [of 0] this [of 20] have "drop 34 (fill_eth mac i m) = drop 34 m" "get_ip (fill_eth mac i m) 14 = get_ip m 14"
    using \<open>14 \<le> length m\<close> by (simp_all add: load_struct_def load_bytes_def fill_eth_def eth.length_enc)
  moreover have "length (fill_eth mac i m) = length m"
    using \<open>14 \<le> length m\<close> by (simp add: fill_eth_def eth.length_enc)
  ultimately show ?thesis
    using assms(2) by (auto simp: forwarded_copy_def intro!: exI [of _ "ip_ttl ip"] exI [of _ "ip_checksum_fld ip"])
qed

text \<open>Where the answer goes when the route and the hardware address are known.\<close>

lemma control_answer_sent:
  fixes s :: tstack
  assumes m: "whole m 54" "tcp_received_as m cb"
    and r: "longest_prefix_match s (cb_daddr cb) = Some e" "arpcache_lookup s (get_next_hop e (cb_daddr cb)) = Some mac"
    and t: "ip_send_packet m 54 (s\<lparr>lists := h, socks := K, brk := b, rand_pos := j\<rparr>) = Some t'"
  shows "arpcache t' = arpcache s \<and> wire t' = wire s @ [(rt_iface e, fill_eth mac (rt_iface e) m)]
     \<and> forwarded_copy m (fill_eth mac (rt_iface e) m)"
proof -
  obtain ip where ip: "get_ip m 14 = Some ip" "ntohl (ip_daddr ip) = cb_daddr cb"
    using m(2) by (auto simp: tcp_received_as_def tcp_cb_init_def Let_def split: bind_split_asm)
  have "longest_prefix_match (s\<lparr>lists := h, socks := K, brk := b, rand_pos := j\<rparr>) (ntohl (ip_daddr ip)) = Some e"
    "arpcache_lookup (s\<lparr>lists := h, socks := K, brk := b, rand_pos := j\<rparr>) (get_next_hop e (ntohl (ip_daddr ip))) = Some mac"
    using r by (simp_all add: ip(2) longest_prefix_match_def arpcache_lookup_def)
  from ip_send_packet_known [OF m(1) ip(1) this] t
  have "t' = s\<lparr>lists := h, socks := K, brk := b, rand_pos := j, wire := wire s @ [(rt_iface e, fill_eth mac (rt_iface e) m)]\<rparr>"
    by simp
  moreover have "forwarded_copy m (fill_eth mac (rt_iface e) m)"
    using fill_eth_forwarded [OF m(1) ip(1)] by blast
  ultimately show ?thesis by simp
qed

text \<open>What the SYN leaves behind: the child \<open>c\<close> with the fields \<open>k\<close>, known to the tables and waiting in the
  listen queue.\<close>

definition half_open :: "lseqs \<Rightarrow> nat \<Rightarrow> nat \<Rightarrow> lptr list \<Rightarrow> tcp_cb \<Rightarrow> u32 \<Rightarrow> tstack \<Rightarrow> bool" where
  "half_open L p c qs cb x s \<longleftrightarrow> tables_ok L s \<and> unique_keys L s \<and> L (ListenQueue p) = Some (qs @ [SkList c])
     \<and> map_option state (socks s p) = Some TCP_LISTEN
     \<and> conn_of L (cb_daddr cb, cb_saddr cb, cb_dport cb, cb_sport cb) s = Some c
     \<and> (\<exists>k. socks s c = Some k \<and> key_of k = (cb_daddr cb, cb_saddr cb, cb_dport cb, cb_sport cb) \<and> state k = TCP_SYN_RECV
          \<and> parent k = Some p \<and> rcv_nxt k = cb_seq_end cb \<and> snd_nxt k = x + 1 \<and> rcv_wnd k = TCP_DEFAULT_WINDOW)"

lemma syn_16:
  assumes syn: "syn_for L p cb s" and m: "tcp_received_as m cb" and q: "L (ListenQueue p) = Some qs"
  defines "c \<equiv> brk s" and "x \<equiv> of_nat (rand_fn s (rand_pos s))"
  obtains s1 L1 m' b j K h t' where "handle_tcp_packet_16 m 14 34 s = Some s1" "half_open L1 p c qs cb x s1"
    "\<forall>a. a \<noteq> c \<longrightarrow> socks s1 a = socks s a" "L1 (AcceptQueue p) = L (AcceptQueue p)"
    "ip_send_packet m' 54 (s\<lparr>lists := h, socks := K, brk := b, rand_pos := j\<rparr>) = Some t'"
    "wire s1 = wire t'" "arpcache s1 = arpcache t'" "whole m' 54"
    "\<forall>q. forwarded_copy m' q \<longrightarrow> tcp_received_as q (segment_cb (cb_daddr cb) (cb_saddr cb) (cb_dport cb) (cb_sport cb)
         x (cb_seq_end cb) (TCP_SYN OR TCP_ACK) TCP_DEFAULT_WINDOW 0)"
proof -
  let ?key = "(cb_daddr cb, cb_saddr cb, cb_dport cb, cb_sport cb)"
  have a: "tables_ok L s" "fresh_sock s" "map_option state (socks s p) = Some TCP_LISTEN" "listener_of L (cb_dport cb) s = Some p"
    "conn_of L ?key s = None" "has_flag (cb_flags cb) TCP_SYN" "cb_dport cb \<noteq> 0" "unique_keys L s"
    using syn by (auto simp: syn_for_def)
  have p: "socks s p \<noteq> None" "p \<noteq> c" using a(2,3) by (auto simp: fresh_sock_def c_def)
  obtain h rb refs L1 s1 where
    s1: "s1 = s\<lparr>brk := Suc c, rand_pos := Suc (rand_pos s), socks := (socks s)(c \<mapsto> child_sock rb refs x p cb), lists := h\<rparr>"
      "\<And>send. tcp_state_listen_with send p cb s = do { s \<leftarrow> send c (TCP_SYN OR TCP_ACK) s1; (r, s) \<leftarrow> tcp_hash c s; Some s }"
      "tables_ok L1 s1" "L1 (ListenQueue p) = Some (qs @ [SkList c])"
      "\<And>a. (\<forall>i. a \<noteq> BindTable i) \<Longrightarrow> a \<notin> {ListenQueue p, ListenQueue c, AcceptQueue c} \<Longrightarrow> L1 a = L a"
      "h (HashList c) = Some zero_node"
    by (rule listen_prefix [OF a(1,2) q p(1) a(6,7), folded c_def x_def]) (rule that)
  let ?k = "child_sock rb refs x p cb"
  have f: "has_flag (TCP_SYN OR TCP_ACK) (TCP_SYN OR TCP_FIN)" by (simp add: has_flag_def TCP_SYN_def TCP_ACK_def TCP_FIN_def)
  have "socks s1 c = Some ?k" by (simp add: s1(1))
  from send_control_16_total [OF this f] obtain A w m' t where
    t: "t = s1\<lparr>rand_pos := Suc (rand_pos s1), socks := (socks s1)(c \<mapsto> ?k\<lparr>snd_nxt := snd_nxt ?k + 1\<rparr>)\<rparr>"
      "tcp_send_control_packet_16 c (TCP_SYN OR TCP_ACK) s1 = Some (t\<lparr>arpcache := A, wire := w\<rparr>)"
      "ip_send_packet m' 54 t = Some (t\<lparr>arpcache := A, wire := w\<rparr>)" "whole m' 54"
      "\<forall>q. forwarded_copy m' q \<longrightarrow> tcp_received_as q
         (segment_cb (sk_sip ?k) (sk_dip ?k) (sk_sport ?k) (sk_dport ?k) (snd_nxt ?k) (rcv_nxt ?k) (TCP_SYN OR TCP_ACK) (rcv_wnd ?k) 0)"
    unfolding Let_def by blast
  define t' where "t' = t\<lparr>arpcache := A, wire := w\<rparr>"
  have t_s: "t = s\<lparr>lists := h, socks := socks t, brk := Suc c, rand_pos := rand_pos t\<rparr>"
    by (simp add: t(1) s1(1))
  define k' where "k' = ?k\<lparr>snd_nxt := snd_nxt ?k + 1\<rparr>"
  have key: "key_of k' = ?key" by (simp add: k'_def key_of_def child_sock_def)
  have t': "lists t' = h" "socks t' = (socks s)(c \<mapsto> k')" by (simp_all add: t'_def t(1) s1(1) k'_def)
  have kk: "keeps_keys s t'" "keeps_keys s1 t'"
    using a(2) t'(2) by (auto simp: keeps_keys_def fresh_sock_def c_def s1(1) k'_def key_of_def child_sock_def)
  have ok: "tables_ok L1 t'"
    using s1(3) by (intro tables_ok_change [OF s1(3) _ _ _ kk(2)]) (auto simp: t'(1) s1(1) tables_ok_def)
  have est: "L1 (EstablishedTable i) = L (EstablishedTable i)" for i by (rule s1(5)) auto
  have new: "conn_of L1 (key_of k') t' = None" unfolding conn_of_change [OF a(1) kk(1) est] key by (rule a(5))
  have u: "unique_keys L1 t'" by (rule unique_keys_change [OF a(1) kk(1) est a(8)])
  have "socks t' c = Some k'" "state k' \<noteq> TCP_CLOSED" "state k' \<noteq> TCP_LISTEN" "lists t' (HashList c) = Some zero_node"
    by (simp_all add: t' k'_def child_sock_def s1(6))
  from tcp_hash_enter [OF ok u this new] obtain h2 L2 s2 where
    s2: "s2 = t'\<lparr>lists := h2, socks := (socks t')(c \<mapsto> k'\<lparr>ref_cnt := ref_cnt k' + 1\<rparr>)\<rparr>"
      "tcp_hash c t' = Some (0, s2)" "tables_ok L2 s2" "unique_keys L2 s2" "conn_of L2 ?key s2 = Some c"
      "\<forall>a. (\<forall>i. a \<noteq> EstablishedTable i) \<longrightarrow> L2 a = L1 a"
    unfolding Let_def key by auto
  have "tcp_sock_lookup cb s = Some (Some p)" using tcp_sock_lookup_eq [OF a(1), of cb] a(4,5) by simp
  then have "handle_tcp_packet_16 m 14 34 s = Some s2"
    using a(3) t(2) s2(2)
    by (auto simp: handle_tcp_packet_16_def handle_received [OF m] tcp_process_16_def tcp_state_listen_16_def s1(2) t'_def)
  moreover have "half_open L2 p c qs cb x s2"
    using s2(3-6) s1(4) key a(3) p(2) by (auto simp: half_open_def s2(1) t'(2) k'_def child_sock_def key_of_def sock_init_def)
  moreover have "L2 (AcceptQueue p) = L (AcceptQueue p)" using s2(6) s1(5) [of "AcceptQueue p"] p(2) by auto
  moreover have "\<forall>a. a \<noteq> c \<longrightarrow> socks s2 a = socks s a" by (simp add: s2(1) t'(2))
  ultimately show ?thesis
    using t(3-5) t_s by (intro that [of s2 L2 m' "rand_pos t" "Suc c" "socks t" h t'])
      (auto simp: s2(1) t'(2) t'_def child_sock_def sock_init_def)
qed

lemma ack_seq_valid:
  assumes "socks s c = Some k" "cb_seq cb = rcv_nxt k" "cb_seq_end cb = rcv_nxt k" "rcv_wnd k = TCP_DEFAULT_WINDOW"
    and "sint (rcv_nxt k) + 65535 < 2 ^ 31"
  shows "is_tcp_seq_valid c cb s = Some True"
proof -
  have "sint (rcv_nxt k + 65535) = sint (rcv_nxt k) + 65535"
    using assms(5) sint_ge [of "rcv_nxt k"] by (simp add: sint_word_ariths signed_take_bit_int_eq_self)
  then show ?thesis
    using assms(1-4) by (simp add: is_tcp_seq_valid_def less_than_32b_def less_or_equal_32b_def seq_diff_def TCP_DEFAULT_WINDOW_def)
qed

text \<open>The client's ACK moves the child to the end of the accept queue and wakes the listener.\<close>

lemma ack_16:
  assumes ho: "half_open L p c qs cb x s" and m: "tcp_received_as m cb2"
    and cb2: "cb_daddr cb2 = cb_daddr cb" "cb_saddr cb2 = cb_saddr cb" "cb_dport cb2 = cb_dport cb" "cb_sport cb2 = cb_sport cb"
      "cb_flags cb2 = TCP_ACK" "cb_seq cb2 = cb_seq_end cb" "cb_seq_end cb2 = cb_seq_end cb" "cb_ack cb2 = x + 1"
    and w: "sint (cb_seq_end cb) + 65535 < 2 ^ 31" and q: "L (AcceptQueue p) = Some as" "socks s p = Some lk"
  obtains s2 L2 where "handle_tcp_packet_16 m 14 34 s = Some s2" "tables_ok L2 s2"
    "L2 (ListenQueue p) = Some qs" "L2 (AcceptQueue p) = Some (as @ [SkList c])"
    "conn_of L2 (cb_daddr cb, cb_saddr cb, cb_dport cb, cb_sport cb) s2 = Some c"
    "socks s2 p = Some (lk\<lparr>accept_backlog := accept_backlog lk + 1, wait_accept := snd (wake_up (wait_accept lk))\<rparr>)"
    "socks s2 c \<noteq> None"
proof -
  let ?key = "(cb_daddr cb, cb_saddr cb, cb_dport cb, cb_sport cb)"
  obtain k where k: "socks s c = Some k" "key_of k = ?key" "state k = TCP_SYN_RECV" "parent k = Some p"
    "rcv_nxt k = cb_seq_end cb" "snd_nxt k = x + 1" "rcv_wnd k = TCP_DEFAULT_WINDOW"
    and ok: "tables_ok L s" "conn_of L ?key s = Some c" "L (ListenQueue p) = Some (qs @ [SkList c])"
    using ho by (auto simp: half_open_def)
  have pc: "p \<noteq> c" using ho k(1,3) by (auto simp: half_open_def)
  have lr: "lrep (lists s) L" by (rule tables_ok_lrep [OF ok(1)])
  have L: "L (ListenQueue p) = Some (qs @ SkList c # [])" using ok(3) by simp
  have ne: "list_empty (lists s) (SkList c) = Some False" using lrep_dlist [OF lr L] by (rule dlist_entry_linked)
  obtain h1 where h1: "list_delete_entry (lists s) (SkList c) = Some h1" "lrep h1 (L(ListenQueue p \<mapsto> qs))"
    "dom h1 = dom (lists s)" using lrep_delete [OF lr L] by auto
  have "\<not> linked (L(ListenQueue p \<mapsto> qs)) (SkList c)"
    using lrep_deleted_unlinked [OF lr L] by simp
  moreover have "SkList c \<in> dom h1"
    unfolding h1(3) by (rule lrep_linked_dom [OF lr]) (use ok(3) in \<open>fastforce simp: linked_def\<close>)
  ultimately obtain h2 where h2: "list_add_tail h1 (SkList c) (AcceptQueue p) = Some h2"
    "lrep h2 (L(ListenQueue p \<mapsto> qs, AcceptQueue p \<mapsto> as @ [SkList c]))" "dom h2 = dom h1"
    using lrep_add_tail [OF h1(2), of "AcceptQueue p" as "SkList c"] q(1) by auto
  let ?L = "L(ListenQueue p \<mapsto> qs, AcceptQueue p \<mapsto> as @ [SkList c])"
  let ?k = "k\<lparr>snd_una := x + 1, rcv_nxt := cb_seq_end cb\<rparr>"
  let ?lk = "lk\<lparr>accept_backlog := accept_backlog lk + 1, wait_accept := snd (wake_up (wait_accept lk))\<rparr>"
  define s2 where "s2 = s\<lparr>lists := h2, socks := (socks s)(c \<mapsto> ?k, p \<mapsto> ?lk)\<rparr>"
  have kk: "keeps_keys s s2" using k(1) q(2) pc by (auto simp: keeps_keys_def s2_def key_of_def)
  have "tables_ok ?L s2"
  proof (rule tables_ok_change [OF ok(1) _ _ _ kk])
    show "slot a \<noteq> None \<Longrightarrow> ?L a = L a" for a by (cases a) auto
    show "lists s2 Null = None" using h1(3) h2(3) ok(1) by (auto simp: s2_def tables_ok_def)
  qed (simp add: s2_def h2(2))
  moreover have "conn_of ?L ?key s2 = Some c"
    using conn_of_change [OF ok(1) kk, of ?L ?key] ok(2) by simp
  moreover have "handle_tcp_packet_16 m 14 34 s = Some s2"
  proof -
    have lk: "tcp_sock_lookup cb2 s = Some (Some c)" using tcp_sock_lookup_eq [OF ok(1), of cb2] ok(2) cb2(1-4) by simp
    have v: "is_tcp_seq_valid c cb2 s = Some True"
      using ack_seq_valid [OF k(1), of cb2] cb2(6,7) k(5,7) w by simp
    define s1 where "s1 = s\<lparr>socks := (socks s)(c \<mapsto> ?k)\<rparr>"
    have s1: "lists s1 = lists s" "socks s1 c = Some ?k" "socks s1 p = Some lk" using q(2) pc by (simp_all add: s1_def)
    define t where "t = s1\<lparr>lists := h2, socks := (socks s1)(p \<mapsto> lk\<lparr>accept_backlog := accept_backlog lk + 1\<rparr>)\<rparr>"
    have en: "tcp_sock_accept_enqueue c s1 = Some t"
      using ne h1(1) h2(1) k(4) s1 by (simp add: tcp_sock_accept_enqueue_def t_def)
    have tc: "socks t c = Some ?k" using s1(2) pc by (simp add: t_def)
    have wa: "wait_accept_update (\<lambda>w. snd (wake_up w)) (lk\<lparr>accept_backlog := accept_backlog lk + 1\<rparr>) = ?lk"
      by (cases lk) simp
    have wk: "wake f_accept p t = Some s2"
      by (simp add: wake_def f_accept_def t_def s1_def s2_def wa)
    have r: "tcp_state_syn_recv_16 c cb2 s1 = Some s2"
      using k(4) cb2(5) en tc wk by (simp add: tcp_state_syn_recv_16_def has_flag_def TCP_ACK_def)
    have "on_sock c (\<lambda>k. k\<lparr>snd_una := cb_ack cb2, rcv_nxt := cb_seq_end cb2\<rparr>) s = Some s1"
      using k(1) cb2(7,8) by (simp add: s1_def)
    moreover have "socks s2 c = Some ?k" using pc by (simp add: s2_def)
    ultimately have "tcp_process_acked_16 c cb2 TCP_SYN_RECV s = Some s2"
      using k(6) cb2(8) s1(2) r by (simp add: tcp_process_acked_16_def)
    then show ?thesis
      using k(1,3) cb2(5) lk v
      by (simp add: handle_tcp_packet_16_def handle_received [OF m] tcp_process_16_def has_flag_def
        TCP_ACK_def TCP_RST_def TCP_SYN_def)
  qed
  ultimately show ?thesis
    by (intro that [of s2 ?L]) (auto simp: s2_def pc)
qed

lemma accept_first:
  assumes ok: "tables_ok L s" and q: "L (AcceptQueue p) = Some (SkList c # cs)"
    and k: "socks s p = Some lk" "accept_backlog lk \<noteq> 0" "socks s c = Some k"
  obtains s' L' k' where "tcp_sock_accept env p s = Some (Some c, s')" "tables_ok L' s'" "L' (AcceptQueue p) = Some cs"
    "socks s' c = Some k'" "state k' = TCP_ESTABLISHED" "key_of k' = key_of k" "\<And>key. conn_of L' key s' = conn_of L key s"
proof -
  have lr: "lrep (lists s) L" by (rule tables_ok_lrep [OF ok])
  have L: "L (AcceptQueue p) = Some ([] @ SkList c # cs)" using q by simp
  have nx: "nxt (lists s) (AcceptQueue p) = Some (SkList c)" using lrep_dlist [OF lr q] by (auto simp: dlist_def)
  obtain h1 where h1: "list_delete_entry (lists s) (SkList c) = Some h1" "lrep h1 (L(AcceptQueue p \<mapsto> cs))"
    "dom h1 = dom (lists s)" using lrep_delete [OF lr L] by auto
  have un: "\<not> linked (L(AcceptQueue p \<mapsto> cs)) (SkList c)" using lrep_deleted_unlinked [OF lr L] by simp
  have d: "SkList c \<in> dom h1"
    unfolding h1(3) by (rule lrep_linked_dom [OF lr]) (use q in \<open>fastforce simp: linked_def\<close>)
  obtain h2 where h2: "init_list_head h1 (SkList c) = Some h2" "lrep h2 (L(AcceptQueue p \<mapsto> cs, SkList c \<mapsto> []))" "dom h2 = dom h1"
    using lrep_init [OF h1(2) d un] by auto
  let ?L = "L(AcceptQueue p \<mapsto> cs, SkList c \<mapsto> [])"
  define t where "t = s\<lparr>lists := h2, socks := (socks s)(p \<mapsto> lk\<lparr>accept_backlog := accept_backlog lk - 1\<rparr>)\<rparr>"
  have dq: "tcp_sock_accept_dequeue p s = Some (c, t)"
    using nx h1(1) h2(1) k(1) by (simp add: tcp_sock_accept_dequeue_def sk_entry_def t_def)
  obtain kc where kc: "socks t c = Some kc" "key_of kc = key_of k" using k by (cases "c = p") (auto simp: t_def key_of_def)
  define s' where "s' = t\<lparr>socks := (socks t)(c \<mapsto> kc\<lparr>state := TCP_ESTABLISHED\<rparr>)\<rparr>"
  have "tcp_sock_accept env p s = Some (Some c, s')"
    using k(1,2) dq kc by (simp add: tcp_sock_accept_def tcp_set_state_def s'_def)
  moreover have kk: "keeps_keys s s'"
    using k kc by (auto simp: keeps_keys_def s'_def t_def key_of_def)
  moreover have "tables_ok ?L s'"
  proof (rule tables_ok_change [OF ok _ _ _ kk])
    show "slot a \<noteq> None \<Longrightarrow> ?L a = L a" for a by (cases a) auto
    show "lists s' Null = None" using h1(3) h2(3) ok by (auto simp: s'_def t_def tables_ok_def)
  qed (simp add: s'_def t_def h2(2))
  moreover have "conn_of ?L key s' = conn_of L key s" for key
    by (rule conn_of_change [OF ok kk]) simp
  ultimately show ?thesis
    using kc by (intro that [of s' ?L "kc\<lparr>state := TCP_ESTABLISHED\<rparr>"]) (auto simp: s'_def key_of_def)
qed

section \<open>A listening stack\<close>

text \<open>A stack with one socket, listening on port 80, and the route and hardware address of a client.\<close>

definition client_route :: rt_entry where "client_route = new_rt_entry 0x0A000100 (prefix_mask 24) 0 iface1"

definition listener0 :: tcp_sock where
  "listener0 = sock0\<lparr>sk_dip := 0, sk_dport := 0, state := TCP_LISTEN, backlog := 10\<rparr>"

definition listen0 :: tstack where
  "listen0 = tstack0\<lparr>rtable := [client_route],
     arpcache := \<lparr>entries = [\<lparr>ent_ip4 = 0x0A000102, ent_mac = Mac 2 0 0 0 0 7, ent_added = 0, ent_valid = True\<rparr>], req_list = []\<rparr>,
     lists := one_lists (ListenTable (port_hash 80)), socks := [0 \<mapsto> listener0]\<rparr>"

lemma listen0_syn:
  assumes "cb_dport cb = 80" "has_flag (cb_flags cb) TCP_SYN"
  shows "syn_for (one_seqs (ListenTable (port_hash 80))) 0 cb listen0"
proof -
  let ?L = "one_seqs (ListenTable (port_hash 80))"
  have e: "bucket ?L (EstablishedTable i) = []" for i by (simp add: bucket_def one_seqs_def)
  have "bucket ?L (ListenTable (port_hash 80)) = [0]" by (simp add: bucket_def one_seqs_def)
  moreover have "tables_ok ?L listen0"
    by (rule one_tables [where f = "\<lambda>k. port_hash (sk_sport k)" and k = listener0]) (simp_all add: listen0_def listener0_def sock0_def)
  ultimately show ?thesis
    using assms
    by (simp add: syn_for_def unique_keys_def e conn_of_def listener_of_def fresh_sock_def listen0_def tstack0_def one_lists_def
        listener0_def sock0_def sock_nodes_def one_seqs_def)
qed

text \<open>A control packet as a client sends it.\<close>

lemma control_received:
  obtains m where "tcp_received_as m (segment_cb saddr daddr sport dport seq ack flags rwnd 0)"
proof -
  obtain m where "ip_header_ok m 14"
    "\<forall>q. forwarded_copy m q \<longrightarrow> tcp_received_as q (segment_cb saddr daddr sport dport seq ack flags rwnd 0)"
    using tcp_control_segment_ok [of "replicate 54 0" saddr daddr sport dport seq ack flags rwnd tstack0] by auto
  then show ?thesis using forwarded_copy_refl that by blast
qed

section \<open>Opening a connection\<close>

text \<open>C40. Lab 17 cannot accept a connection: whatever the state of its tables, a SYN for a listening port
  makes the stack follow a null pointer, because the child socket is allocated with a zeroed
  \<^verbatim>\<open>send_buf\<close> list head and the answer is appended to that list for retransmission.\<close>

theorem tcp17_syn_crashes:
  assumes "syn_for L p cb s" "tcp_received_as m cb"
  shows "handle_tcp_packet m 14 34 s = None"
proof -
  have a: "tables_ok L s" "fresh_sock s" "map_option state (socks s p) = Some TCP_LISTEN" "listener_of L (cb_dport cb) s = Some p"
    "conn_of L (cb_daddr cb, cb_saddr cb, cb_dport cb, cb_sport cb) s = None" "has_flag (cb_flags cb) TCP_SYN" "cb_dport cb \<noteq> 0"
    using assms(1) by (auto simp: syn_for_def)
  obtain qs where qs: "L (ListenQueue p) = Some qs" using assms(1) by (auto simp: syn_for_def)
  have "socks s p \<noteq> None" using a(3) by auto
  define c where "c = brk s"
  obtain h rb refs L1 s1 where
    s: "s1 = s\<lparr>brk := Suc c, rand_pos := Suc (rand_pos s),
          socks := (socks s)(c \<mapsto> child_sock rb refs (of_nat (rand_fn s (rand_pos s))) p cb), lists := h\<rparr>"
      "\<And>send. tcp_state_listen_with send p cb s = do { s \<leftarrow> send c (TCP_SYN OR TCP_ACK) s1; (r, s) \<leftarrow> tcp_hash c s; Some s }"
      "tables_ok L1 s1" "h (SendBuf c) = Some zero_node"
    by (rule listen_prefix [OF a(1,2) qs \<open>socks s p \<noteq> None\<close> a(6,7), folded c_def]) (rule that)
  then obtain k where s1: "socks s1 c = Some k" "lists s1 (SendBuf c) = Some zero_node" by simp
  obtain m' where m': "control_packet c (TCP_SYN OR TCP_ACK) s1 = Some (m', s1\<lparr>rand_pos := Suc (rand_pos s1)\<rparr>)"
    using control_packet_ok [OF s1(1)] by blast
  have "append_send_buf c m' 54 t = None" if "lists t = lists s1" for t
    using that s(3) s1(2) by (intro append_send_buf_crash) (auto simp: tables_ok_def)
  then have "tcp_send_control_packet c (TCP_SYN OR TCP_ACK) s1 = None"
    using m' s1(1) by (simp add: tcp_send_control_packet_def has_flag_def TCP_SYN_def TCP_ACK_def TCP_FIN_def)
  then have "tcp_state_listen p cb s = None" using s(2) by (simp add: tcp_state_listen_def)
  moreover have "tcp_sock_lookup cb s = Some (Some p)" using tcp_sock_lookup_eq [OF a(1), of cb] a(4,5) by simp
  ultimately show ?thesis
    using a(3) by (auto simp: handle_tcp_packet_def handle_received [OF assms(2)] tcp_process_def)
qed

theorem tcp17_syn_crashes_witness:
  "\<exists>m. tcp_received_as m (segment_cb 0x0A000102 0x0A000001 12345 80 1000 0 TCP_SYN 65535 0) \<and> handle_tcp_packet m 14 34 listen0 = None"
proof -
  obtain m where m: "tcp_received_as m (segment_cb 0x0A000102 0x0A000001 12345 80 1000 0 TCP_SYN 65535 0)" by (rule control_received)
  have "syn_for (one_seqs (ListenTable (port_hash 80))) 0 (segment_cb 0x0A000102 0x0A000001 12345 80 1000 0 TCP_SYN 65535 0) listen0"
    by (rule listen0_syn) (simp_all add: segment_cb_def has_flag_def TCP_SYN_def)
  from tcp17_syn_crashes [OF this m] m show ?thesis by blast
qed

text \<open>C2. The three-way handshake on the server side of lab 16. The answer to a SYN for a listening port
  goes through the IP layer of the very stack that got it (its routes, interfaces, ARP cache and frames
  sent; only the sockets, lists, allocations and random numbers have moved on): when it knows the route to
  the client and the hardware address of the next hop, exactly one frame leaves, on the interface
  of the route, and carries the packet; otherwise the packet is given to the routing and ARP code. The packet is
  a SYN|ACK from the listener to the client that acknowledges the SYN and that the client, behind any
  number of routers, receives as such. When the client's ACK of the announced sequence number arrives, the new socket is in the
  accept queue, \<^verbatim>\<open>tcp_sock_accept\<close> returns it in state ESTABLISHED, and the packets of the connection are
  looked up to it. (The sequence number must be clear of the sign change at \<open>2^31\<close>, where the code's
  signed comparison overflows.)\<close>

theorem tcp16_handshake:
  assumes syn: "syn_for L p cb s" "tcp_received_as m1 cb" and q: "L (AcceptQueue p) = Some []"
    and b: "map_option accept_backlog (socks s p) = Some 0" and w: "sint (cb_seq_end cb) + 65535 < 2 ^ 31"
  defines "x \<equiv> of_nat (rand_fn s (rand_pos s))"
  shows "\<exists>s1 m' b' j K h t'. handle_tcp_packet_16 m1 14 34 s = Some s1
     \<and> ip_send_packet m' 54 (s\<lparr>lists := h, socks := K, brk := b', rand_pos := j\<rparr>) = Some t'
     \<and> wire s1 = wire t' \<and> arpcache s1 = arpcache t'
     \<and> (\<forall>e mac. longest_prefix_match s (cb_saddr cb) = Some e \<and> arpcache_lookup s (get_next_hop e (cb_saddr cb)) = Some mac
          \<longrightarrow> arpcache s1 = arpcache s \<and> wire s1 = wire s @ [(rt_iface e, fill_eth mac (rt_iface e) m')]
              \<and> forwarded_copy m' (fill_eth mac (rt_iface e) m'))
     \<and> (\<forall>q. forwarded_copy m' q \<longrightarrow> tcp_received_as q (segment_cb (cb_daddr cb) (cb_saddr cb) (cb_dport cb) (cb_sport cb)
           x (cb_seq_end cb) (TCP_SYN OR TCP_ACK) TCP_DEFAULT_WINDOW 0))
     \<and> (\<forall>m2 rwnd env. tcp_received_as m2 (segment_cb (cb_saddr cb) (cb_daddr cb) (cb_sport cb) (cb_dport cb)
           (cb_seq_end cb) (x + 1) TCP_ACK rwnd 0) \<longrightarrow>
         (\<exists>s2 s3 k. handle_tcp_packet_16 m2 14 34 s1 = Some s2
            \<and> tcp_sock_accept env p s2 = Some (Some (brk s), s3)
            \<and> socks s3 (brk s) = Some k \<and> state k = TCP_ESTABLISHED
            \<and> tcp_sock_lookup_established (cb_daddr cb) (cb_saddr cb) (cb_dport cb) (cb_sport cb) s3 = Some (Some (brk s))))"
proof -
  obtain qs where qs: "L (ListenQueue p) = Some qs" using syn(1) by (auto simp: syn_for_def)
  obtain lk where lk: "socks s p = Some lk" "accept_backlog lk = 0" using b by auto
  have "p \<noteq> brk s" using lk(1) syn(1) by (auto simp: syn_for_def fresh_sock_def)
  obtain s1 L1 m' b' j K h t' where
    1: "handle_tcp_packet_16 m1 14 34 s = Some s1" "half_open L1 p (brk s) qs cb x s1"
    "\<forall>a. a \<noteq> brk s \<longrightarrow> socks s1 a = socks s a" "L1 (AcceptQueue p) = L (AcceptQueue p)"
    "ip_send_packet m' 54 (s\<lparr>lists := h, socks := K, brk := b', rand_pos := j\<rparr>) = Some t'"
    "wire s1 = wire t'" "arpcache s1 = arpcache t'" "whole m' 54"
    "\<forall>q. forwarded_copy m' q \<longrightarrow> tcp_received_as q (segment_cb (cb_daddr cb) (cb_saddr cb) (cb_dport cb) (cb_sport cb)
         x (cb_seq_end cb) (TCP_SYN OR TCP_ACK) TCP_DEFAULT_WINDOW 0)"
    by (rule syn_16 [OF syn qs, folded x_def]) (rule that)
  have "\<exists>s2 s3 k. handle_tcp_packet_16 m2 14 34 s1 = Some s2 \<and> tcp_sock_accept env p s2 = Some (Some (brk s), s3)
        \<and> socks s3 (brk s) = Some k \<and> state k = TCP_ESTABLISHED
        \<and> tcp_sock_lookup_established (cb_daddr cb) (cb_saddr cb) (cb_dport cb) (cb_sport cb) s3 = Some (Some (brk s))"
    if m2: "tcp_received_as m2 (segment_cb (cb_saddr cb) (cb_daddr cb) (cb_sport cb) (cb_dport cb) (cb_seq_end cb) (x + 1) TCP_ACK rwnd 0)"
    for m2 rwnd env
  proof -
    let ?cb2 = "segment_cb (cb_saddr cb) (cb_daddr cb) (cb_sport cb) (cb_dport cb) (cb_seq_end cb) (x + 1) TCP_ACK rwnd 0"
    have f: "\<not> has_flag TCP_ACK (TCP_SYN OR TCP_FIN)" by (simp add: has_flag_def TCP_ACK_def TCP_SYN_def TCP_FIN_def)
    have qq: "L1 (AcceptQueue p) = Some []" "socks s1 p = Some lk" using 1(3,4) q lk \<open>p \<noteq> brk s\<close> by auto
    obtain s2 L2 where 2: "handle_tcp_packet_16 m2 14 34 s1 = Some s2" "tables_ok L2 s2"
      "L2 (AcceptQueue p) = Some ([] @ [SkList (brk s)])"
      "conn_of L2 (cb_daddr cb, cb_saddr cb, cb_dport cb, cb_sport cb) s2 = Some (brk s)"
      "socks s2 p = Some (lk\<lparr>accept_backlog := accept_backlog lk + 1, wait_accept := snd (wake_up (wait_accept lk))\<rparr>)"
      "socks s2 (brk s) \<noteq> None"
      by (rule ack_16 [OF 1(2) m2 _ _ _ _ _ _ _ _ w qq]) (use f in \<open>auto simp: segment_cb_def\<close>)
    obtain k2 where k2: "socks s2 (brk s) = Some k2" using 2(6) by auto
    have qu: "L2 (AcceptQueue p) = Some (SkList (brk s) # [])" using 2(3) by simp
    have bl: "accept_backlog (lk\<lparr>accept_backlog := accept_backlog lk + 1, wait_accept := snd (wake_up (wait_accept lk))\<rparr>) \<noteq> 0"
      using lk(2) by simp
    obtain s3 L3 k where "tcp_sock_accept env p s2 = Some (Some (brk s), s3)" "tables_ok L3 s3"
      "socks s3 (brk s) = Some k" "state k = TCP_ESTABLISHED" "\<And>key. conn_of L3 key s3 = conn_of L2 key s2"
      by (rule accept_first [OF 2(2) qu 2(5) bl k2]) (rule that)
    then show ?thesis using 2(1,4) lookup_established_eq [of L3 s3] by simp
  qed
  moreover have "arpcache s1 = arpcache s \<and> wire s1 = wire s @ [(rt_iface e, fill_eth mac (rt_iface e) m')]
      \<and> forwarded_copy m' (fill_eth mac (rt_iface e) m')"
    if "longest_prefix_match s (cb_saddr cb) = Some e \<and> arpcache_lookup s (get_next_hop e (cb_saddr cb)) = Some mac" for e mac
  proof -
    obtain ip where "get_ip m' 14 = Some ip" using 1(8) iph.load_defined [of 14 m'] by (auto simp: whole_def)
    then have "forwarded_copy m' m'"
      by (auto simp: forwarded_copy_def intro!: exI [of _ "ip_ttl ip"] exI [of _ "ip_checksum_fld ip"])
    then have m': "tcp_received_as m' (segment_cb (cb_daddr cb) (cb_saddr cb) (cb_dport cb) (cb_sport cb)
        x (cb_seq_end cb) (TCP_SYN OR TCP_ACK) TCP_DEFAULT_WINDOW 0)" using 1(9) by blast
    have "cb_daddr (segment_cb (cb_daddr cb) (cb_saddr cb) (cb_dport cb) (cb_sport cb)
        x (cb_seq_end cb) (TCP_SYN OR TCP_ACK) TCP_DEFAULT_WINDOW 0) = cb_saddr cb" by (simp add: segment_cb_def)
    from control_answer_sent [OF 1(8) m' _ _ 1(5), unfolded this] that 1(6,7) show ?thesis by simp
  qed
  ultimately show ?thesis using 1(1,5-7,9) by blast
qed

theorem tcp16_handshake_witness:
  "\<exists>m1 m2 f s1 s2 s3. tcp_received_as m1 (segment_cb 0x0A000102 0x0A000001 12345 80 1000 0 TCP_SYN 65535 0)
     \<and> handle_tcp_packet_16 m1 14 34 listen0 = Some s1 \<and> wire s1 = [(iface1, f)]
     \<and> tcp_received_as f (segment_cb 0x0A000001 0x0A000102 80 12345 0 1001 (TCP_SYN OR TCP_ACK) TCP_DEFAULT_WINDOW 0)
     \<and> handle_tcp_packet_16 m2 14 34 s1 = Some s2
     \<and> tcp_sock_accept (\<lambda>s. None) 0 s2 = Some (Some 1, s3) \<and> map_option state (socks s3 1) = Some TCP_ESTABLISHED"
proof -
  let ?cb = "segment_cb 0x0A000102 0x0A000001 12345 80 1000 0 TCP_SYN 65535 0"
  obtain m1 where m1: "tcp_received_as m1 ?cb" by (rule control_received)
  have f: "has_flag TCP_SYN (TCP_SYN OR TCP_FIN)" by (simp add: has_flag_def TCP_SYN_def TCP_FIN_def)
  have syn: "syn_for (one_seqs (ListenTable (port_hash 80))) 0 ?cb listen0"
    by (rule listen0_syn) (simp_all add: segment_cb_def has_flag_def TCP_SYN_def)
  obtain m2 where m2: "tcp_received_as m2 (segment_cb 0x0A000102 0x0A000001 12345 80 1001 1 TCP_ACK 65535 0)"
    by (rule control_received)
  have se: "cb_seq_end ?cb = 1001" "cb_saddr ?cb = 0x0A000102" "cb_daddr ?cb = 0x0A000001" "cb_sport ?cb = 12345" "cb_dport ?cb = 80"
    using f by (simp_all add: segment_cb_def)
  have q: "one_seqs (ListenTable (port_hash 80)) (AcceptQueue 0) = Some []" by (simp add: one_seqs_def)
  have b: "map_option accept_backlog (socks listen0 0) = Some 0"
    by (simp add: listen0_def listener0_def sock0_def)
  have x: "brk listen0 = 1" "of_nat (rand_fn listen0 (rand_pos listen0)) + 1 = (1 :: u32)"
    by (simp_all add: listen0_def tstack0_def)
  have w: "sint (cb_seq_end ?cb) + 65535 < 2 ^ 31" unfolding se by simp
  from tcp16_handshake [OF syn m1 q b w, unfolded se x] obtain s1 m' where
    s1: "handle_tcp_packet_16 m1 14 34 listen0 = Some s1"
    "\<forall>e mac. longest_prefix_match listen0 0x0A000102 = Some e \<and> arpcache_lookup listen0 (get_next_hop e 0x0A000102) = Some mac
          \<longrightarrow> arpcache s1 = arpcache listen0 \<and> wire s1 = wire listen0 @ [(rt_iface e, fill_eth mac (rt_iface e) m')]
              \<and> forwarded_copy m' (fill_eth mac (rt_iface e) m')"
    "\<forall>q. forwarded_copy m' q \<longrightarrow> tcp_received_as q (segment_cb 0x0A000001 0x0A000102 80 12345
           (of_nat (rand_fn listen0 (rand_pos listen0))) 1001 (TCP_SYN OR TCP_ACK) TCP_DEFAULT_WINDOW 0)"
    "\<forall>m2 rwnd env. tcp_received_as m2 (segment_cb 0x0A000102 0x0A000001 12345 80 1001 1 TCP_ACK rwnd 0) \<longrightarrow>
       (\<exists>s2 s3 k. handle_tcp_packet_16 m2 14 34 s1 = Some s2 \<and> tcp_sock_accept env 0 s2 = Some (Some 1, s3)
          \<and> socks s3 1 = Some k \<and> state k = TCP_ESTABLISHED
          \<and> tcp_sock_lookup_established 0x0A000001 0x0A000102 80 12345 s3 = Some (Some 1))"
    by (elim exE conjE) (rule that)
  have r: "longest_prefix_match listen0 0x0A000102 = Some client_route"
    "arpcache_lookup listen0 (get_next_hop client_route 0x0A000102) = Some (Mac 2 0 0 0 0 7)"
    by (simp_all add: listen0_def client_route_def new_rt_entry_def longest_prefix_match_def prefix_mask_def get_next_hop_def
        arpcache_lookup_def ent_hit_def)
  have i: "rt_iface client_route = iface1" "wire listen0 = []" "of_nat (rand_fn listen0 (rand_pos listen0)) = (0 :: u32)"
    by (simp_all add: client_route_def new_rt_entry_def listen0_def tstack0_def)
  obtain f where f: "wire s1 = [(iface1, f)]" "forwarded_copy m' f"
    using s1(2) r i(1,2) by auto
  have "tcp_received_as f (segment_cb 0x0A000001 0x0A000102 80 12345 0 1001 (TCP_SYN OR TCP_ACK) TCP_DEFAULT_WINDOW 0)"
    using s1(3) f(2) unfolding i(3) by blast
  moreover from s1(4) m2 obtain s2 s3 k where "handle_tcp_packet_16 m2 14 34 s1 = Some s2"
    "tcp_sock_accept (\<lambda>s. None) 0 s2 = Some (Some 1, s3)" "socks s3 1 = Some k" "state k = TCP_ESTABLISHED" by blast
  ultimately show ?thesis using m1 s1(1) f(1) by (intro exI [of _ m1] exI [of _ m2] exI [of _ f] exI [of _ s1] exI [of _ s2] exI [of _ s3]) simp
qed

end
