(* ===== verification/Tcp15.thy ===== *)
theory Tcp15
  imports TcpHandshake
begin

text \<open>
  The first TCP lab, \<^verbatim>\<open>15-tcp_stack\<close>: connections are opened and closed but carry no data. Sockets, tables,
  timers and output are those of lab 16 (theory TcpSock); the state machine of \<^verbatim>\<open>tcp_in.c\<close> differs. The
  main theorem follows the closing of a connection through both stacks.
\<close>

section \<open>The state machine\<close>

text \<open>The conditional steps after the acknowledgement has been taken over. The state was read at the
  beginning of \<^verbatim>\<open>tcp_process\<close>.\<close>

definition tcp_process_acked_15 :: "nat \<Rightarrow> tcp_cb \<Rightarrow> tcp_state \<Rightarrow> tstack \<Rightarrow> tstack option" where
  "tcp_process_acked_15 p cb st s = do {
     s \<leftarrow> on_sock p (\<lambda>k. k\<lparr>snd_una := cb_ack cb, rcv_nxt := cb_seq_end cb\<rparr>) s;
     k \<leftarrow> socks s p;
     s \<leftarrow> (if st = TCP_SYN_RECV \<and> cb_ack cb = snd_nxt k then tcp_state_syn_recv_16 p cb s else Some s);
     k \<leftarrow> socks s p;
     s \<leftarrow> (if st = TCP_FIN_WAIT_1 \<and> cb_ack cb = snd_nxt k then tcp_set_state p TCP_FIN_WAIT_2 s else Some s);
     s \<leftarrow> (if st = TCP_FIN_WAIT_2 \<and> has_flag (cb_flags cb) TCP_FIN then do {
             s \<leftarrow> tcp_set_state p TCP_TIME_WAIT s;
             s \<leftarrow> tcp_set_timewait_timer p s;
             tcp_send_control_packet_16 p TCP_ACK s } else Some s);
     s \<leftarrow> (if st = TCP_ESTABLISHED \<and> has_flag (cb_flags cb) TCP_FIN then do {
             s \<leftarrow> tcp_set_state p TCP_CLOSE_WAIT s; tcp_send_control_packet_16 p TCP_ACK s } else Some s);
     k \<leftarrow> socks s p;
     s \<leftarrow> (if st = TCP_LAST_ACK \<and> cb_ack cb = snd_nxt k then tcp_set_state p TCP_CLOSED s else Some s);
     if st = TCP_ESTABLISHED \<and> cb_flags cb = TCP_ACK then tcp_send_control_packet_16 p TCP_ACK s else Some s }"

definition tcp_process_15 :: "nat \<Rightarrow> tcp_cb \<Rightarrow> bytes \<Rightarrow> tstack \<Rightarrow> tstack option" where
  "tcp_process_15 p cb packet s = do {
     k \<leftarrow> socks s p;
     let st = state k;
     if st = TCP_CLOSED then tcp_state_closed p cb s
     else if st = TCP_LISTEN then tcp_state_listen_16 p cb s
     else if st = TCP_SYN_SENT then tcp_state_syn_sent_16 p cb s
     else do {
       ok \<leftarrow> is_tcp_seq_valid p cb s;
       if \<not> ok then Some s
       else if has_flag (cb_flags cb) TCP_RST then do { s \<leftarrow> tcp_set_state p TCP_CLOSED s; tcp_unhash p s }
       else if has_flag (cb_flags cb) TCP_SYN then do { s \<leftarrow> tcp_send_reset cb s; tcp_set_state p TCP_CLOSED s }
       else if \<not> has_flag (cb_flags cb) TCP_ACK then tcp_send_reset cb s
       else tcp_process_acked_15 p cb st s } }"

definition handle_tcp_packet_15 where
  "handle_tcp_packet_15 = handle_tcp_packet_with tcp_process_15"

section \<open>Sending\<close>

text \<open>From \<open>s\<close> to \<open>s'\<close> one segment was handed to IP, and whoever receives it, behind any number of routers,
  reads \<open>cb\<close>.\<close>

definition emits :: "tstack \<Rightarrow> tstack \<Rightarrow> tcp_cb \<Rightarrow> bool" where
  "emits s s' cb \<longleftrightarrow> (\<exists>m t t'. ip_send_packet m 54 (t :: tstack) = Some t'
     \<and> wire t = wire s \<and> arpcache t = arpcache s \<and> rtable t = rtable s
     \<and> wire s' = wire t' \<and> arpcache s' = arpcache t' \<and> (\<forall>q. forwarded_copy m q \<longrightarrow> tcp_received_as q cb))"

lemma emits_state:
  "emits s s' cb \<Longrightarrow> wire t = wire s \<Longrightarrow> arpcache t = arpcache s \<Longrightarrow> rtable t = rtable s \<Longrightarrow> wire t' = wire s' \<Longrightarrow> arpcache t' = arpcache s' \<Longrightarrow>
     emits t t' cb"
  by (auto simp: emits_def)

definition seg_of :: "tcp_sock \<Rightarrow> u8 \<Rightarrow> tcp_cb" where
  "seg_of k flags = segment_cb (sk_sip k) (sk_dip k) (sk_sport k) (sk_dport k) (snd_nxt k) (rcv_nxt k) flags (rcv_wnd k) 0"

lemma send_16:
  fixes flags :: u8
  assumes k: "socks s p = Some k"
  defines "k' \<equiv> (if has_flag flags (TCP_SYN OR TCP_FIN) then k\<lparr>snd_nxt := snd_nxt k + 1\<rparr> else k)"
  obtains s' where "tcp_send_control_packet_16 p flags s = Some s'" "socks s' = (socks s)(p \<mapsto> k')" "lists s' = lists s"
    "emits s s' (seg_of k flags)" "rtable s' = rtable s"
proof -
  obtain m where m: "control_packet p flags s = Some (m, s\<lparr>rand_pos := Suc (rand_pos s)\<rparr>)" "whole m 54" "length m = 54"
    "\<forall>q. forwarded_copy m q \<longrightarrow> tcp_received_as q (seg_of k flags)"
    using control_packet_ok [OF k, of flags] unfolding seg_of_def by blast
  define t where "t = s\<lparr>rand_pos := Suc (rand_pos s), socks := (socks s)(p \<mapsto> k')\<rparr>"
  have upd: "(socks s)(p \<mapsto> k) = socks s" using k by (rule fun_upd_idem)
  obtain A w where aw: "ip_send_packet m 54 t = Some (t\<lparr>arpcache := A, wire := w\<rparr>)"
    using ip_send_packet_total [OF m(2), of t] m(3) by auto
  have "tcp_send_control_packet_16 p flags s = Some (t\<lparr>arpcache := A, wire := w\<rparr>)"
    using m(1) k aw by (simp add: tcp_send_control_packet_16_def t_def k'_def upd split: if_splits)
  moreover have "emits s (t\<lparr>arpcache := A, wire := w\<rparr>) (seg_of k flags)"
    unfolding emits_def using aw m(4) by (intro exI [of _ m] exI [of _ t] exI [of _ "t\<lparr>arpcache := A, wire := w\<rparr>"]) (simp add: t_def)
  ultimately show ?thesis
    by (intro that [of "t\<lparr>arpcache := A, wire := w\<rparr>"]) (auto simp: t_def)
qed

section \<open>A connection in a stack\<close>

definition conn_at :: "lseqs \<Rightarrow> nat \<Rightarrow> tcp_sock \<Rightarrow> tstack \<Rightarrow> bool" where
  "conn_at L p k s \<longleftrightarrow> tables_ok L s \<and> socks s p = Some k \<and> conn_of L (key_of k) s = Some p"

lemma conn_at_upd:
  assumes "conn_at L p k s" "socks s' = (socks s)(p \<mapsto> k')" "key_of k' = key_of k" "lists s' = lists s"
  shows "conn_at L p k' s'"
proof -
  have ok: "tables_ok L s" using assms(1) by (simp add: conn_at_def)
  have kk: "keeps_keys s s'" using assms by (intro keeps_keys_upd) (auto simp: conn_at_def)
  have "tables_ok L s'" using ok assms(4) by (intro tables_ok_change [OF ok _ _ _ kk]) (auto simp: tables_ok_def)
  moreover have "conn_of L (key_of k') s' = conn_of L (key_of k) s"
    unfolding assms(3) by (rule conn_of_change [OF ok kk]) simp
  ultimately show ?thesis using assms by (simp add: conn_at_def)
qed

lemma conn_at_timer:
  assumes "conn_at L p k s" "L TimerList = Some xs" "Timewait p \<in> dom (lists s)" "\<not> linked L (Timewait p)"
  obtains s' L' k' where "tcp_set_timewait_timer p s = Some s'" "conn_at L' p k' s'" "L' TimerList = Some (xs @ [Timewait p])"
    "key_of k' = key_of k" "snd_nxt k' = snd_nxt k" "rcv_nxt k' = rcv_nxt k" "rcv_wnd k' = rcv_wnd k" "state k' = state k"
    "tm_type (timewait k') = 0" "tm_timeout (timewait k') = TCP_TIMEWAIT_TIMEOUT"
    "wire s' = wire s" "arpcache s' = arpcache s" "rtable s' = rtable s"
proof -
  have a: "tables_ok L s" "socks s p = Some k" "conn_of L (key_of k) s = Some p" using assms(1) by (auto simp: conn_at_def)
  obtain h where h: "list_add_tail (lists s) (Timewait p) TimerList = Some h" "lrep h (L(TimerList \<mapsto> xs @ [Timewait p]))"
    "dom h = dom (lists s)"
    using lrep_add_tail [OF tables_ok_lrep [OF a(1)] assms(2-4)] by blast
  define k' where "k' = k\<lparr>timewait := (timewait k)\<lparr>tm_type := 0, tm_timeout := TCP_TIMEWAIT_TIMEOUT\<rparr>, ref_cnt := ref_cnt k + 1\<rparr>"
  define s' where "s' = s\<lparr>lists := h, socks := (socks s)(p \<mapsto> k')\<rparr>"
  have kk: "keeps_keys s s'" by (rule keeps_keys_upd [OF a(2)]) (auto simp: s'_def k'_def key_of_def)
  have "tables_ok (L(TimerList \<mapsto> xs @ [Timewait p])) s'"
  proof (rule tables_ok_change [OF a(1) _ _ _ kk])
    show "slot b \<noteq> None \<Longrightarrow> (L(TimerList \<mapsto> xs @ [Timewait p])) b = L b" for b by (cases b) auto
    show "lists s' Null = None" using h(3) a(1) by (auto simp: s'_def tables_ok_def)
  qed (simp add: s'_def h(2))
  moreover have "conn_of (L(TimerList \<mapsto> xs @ [Timewait p])) (key_of k) s' = Some p"
    using conn_of_change [OF a(1) kk, of "L(TimerList \<mapsto> xs @ [Timewait p])"] a(3) by simp
  moreover have "tcp_set_timewait_timer p s = Some s'"
    using a(2) h(1) by (simp add: tcp_set_timewait_timer_def tcp_sock_inc_ref_cnt_def s'_def k'_def)
  ultimately show ?thesis
    by (intro that [of s' "L(TimerList \<mapsto> xs @ [Timewait p])" k']) (auto simp: conn_at_def s'_def k'_def key_of_def)
qed

text \<open>A segment for the connection reaches its socket.\<close>

lemma handle_conn_15:
  assumes "conn_at L p k s" "tcp_received_as m cb" "key_of k = (cb_daddr cb, cb_saddr cb, cb_dport cb, cb_sport cb)"
  shows "handle_tcp_packet_15 m 14 34 s = tcp_process_15 p cb m s"
proof -
  have "tcp_sock_lookup cb s = Some (Some p)"
    using assms tcp_sock_lookup_eq [of L s cb] by (simp add: conn_at_def)
  then show ?thesis by (simp add: handle_tcp_packet_15_def handle_received [OF assms(2)])
qed

lemma seq_valid:
  assumes "socks s c = Some k" "cb_seq cb = rcv_nxt k" "cb_seq_end cb = rcv_nxt k \<or> cb_seq_end cb = rcv_nxt k + 1"
    and "rcv_wnd k = TCP_DEFAULT_WINDOW" "sint (rcv_nxt k) + 65535 < 2 ^ 31"
  shows "is_tcp_seq_valid c cb s = Some True"
proof -
  have "sint (rcv_nxt k + 65535) = sint (rcv_nxt k) + 65535" "sint (rcv_nxt k + 1) = sint (rcv_nxt k) + 1"
    using assms(5) sint_ge [of "rcv_nxt k"] by (simp_all add: sint_word_ariths signed_take_bit_int_eq_self)
  then show ?thesis
    using assms(1-4) by (auto simp: is_tcp_seq_valid_def less_than_32b_def less_or_equal_32b_def seq_diff_def TCP_DEFAULT_WINDOW_def)
qed

section \<open>The steps of a close\<close>

abbreviation FIN_ACK :: u8 where
  "FIN_ACK \<equiv> TCP_FIN OR TCP_ACK"

lemma flag_tests [simp]:
  "has_flag FIN_ACK TCP_RST = False" "has_flag FIN_ACK TCP_SYN = False" "has_flag FIN_ACK TCP_ACK = True"
  "has_flag FIN_ACK TCP_FIN = True" "has_flag TCP_ACK TCP_RST = False" "has_flag TCP_ACK TCP_SYN = False"
  "has_flag TCP_ACK TCP_ACK = True" "has_flag TCP_ACK TCP_FIN = False" "FIN_ACK \<noteq> TCP_ACK"
  "has_flag FIN_ACK (TCP_SYN OR TCP_FIN) = True" "has_flag TCP_ACK (TCP_SYN OR TCP_FIN) = False"
  by (simp_all add: has_flag_def TCP_RST_def TCP_SYN_def TCP_ACK_def TCP_FIN_def)

text \<open>Closing from ESTABLISHED, and from CLOSE_WAIT: a FIN with an acknowledgement goes out.\<close>

lemma close_step:
  assumes c: "conn_at L p k s" and st: "state k = TCP_ESTABLISHED \<and> st = TCP_FIN_WAIT_1 \<or> state k = TCP_CLOSE_WAIT \<and> st = TCP_LAST_ACK"
  obtains s' where "tcp_sock_close_16 p s = Some s'" "conn_at L p (k\<lparr>snd_nxt := snd_nxt k + 1, state := st\<rparr>) s'"
    "emits s s' (seg_of k FIN_ACK)" "lists s' = lists s"
proof -
  have k: "socks s p = Some k" using c by (simp add: conn_at_def)
  obtain s1 where s1: "tcp_send_control_packet_16 p FIN_ACK s = Some s1" "socks s1 = (socks s)(p \<mapsto> k\<lparr>snd_nxt := snd_nxt k + 1\<rparr>)"
    "lists s1 = lists s" "emits s s1 (seg_of k FIN_ACK)" "rtable s1 = rtable s"
    using send_16 [OF k, of FIN_ACK] by auto
  let ?k = "k\<lparr>snd_nxt := snd_nxt k + 1, state := st\<rparr>"
  define s' where "s' = s1\<lparr>socks := (socks s1)(p \<mapsto> ?k)\<rparr>"
  have "tcp_sock_close_16 p s = Some s'"
    using st k s1(1,2) by (auto simp: tcp_sock_close_16_def tcp_sock_close_with_def tcp_set_state_def s'_def)
  moreover have "conn_at L p ?k s'"
    by (rule conn_at_upd [OF c]) (simp_all add: s'_def s1(2,3) key_of_def)
  moreover have "emits s s' (seg_of k FIN_ACK)" by (rule emits_state [OF s1(4)]) (simp_all add: s'_def)
  ultimately show ?thesis by (intro that [of s']) (simp_all add: s'_def s1(3))
qed

text \<open>A segment in order for connection \<open>k\<close>: it comes from the peer and its numbers are the expected ones.\<close>

definition in_order :: "tcp_sock \<Rightarrow> tcp_cb \<Rightarrow> bool" where
  "in_order k cb \<longleftrightarrow> key_of k = (cb_daddr cb, cb_saddr cb, cb_dport cb, cb_sport cb)
     \<and> cb_seq cb = rcv_nxt k \<and> (cb_seq_end cb = rcv_nxt k \<or> cb_seq_end cb = rcv_nxt k + 1)
     \<and> cb_ack cb = snd_nxt k \<and> rcv_wnd k = TCP_DEFAULT_WINDOW \<and> sint (rcv_nxt k) + 65535 < 2 ^ 31"

definition acked :: "tcp_sock \<Rightarrow> tcp_cb \<Rightarrow> tcp_sock" where
  "acked k cb = k\<lparr>snd_una := cb_ack cb, rcv_nxt := cb_seq_end cb\<rparr>"

lemma acked_simps [simp]:
  "snd_nxt (acked k cb) = snd_nxt k" "rcv_nxt (acked k cb) = cb_seq_end cb" "state (acked k cb) = state k"
  "key_of (acked k cb) = key_of k" "rcv_wnd (acked k cb) = rcv_wnd k"
  by (simp_all add: acked_def key_of_def)

lemma seg_of_simps [simp]:
  "cb_daddr (seg_of k f) = sk_dip k" "cb_saddr (seg_of k f) = sk_sip k" "cb_dport (seg_of k f) = sk_dport k"
  "cb_sport (seg_of k f) = sk_sport k" "cb_flags (seg_of k f) = f" "cb_seq (seg_of k f) = snd_nxt k"
  "cb_seq_end (seg_of k f) = (if has_flag f (TCP_SYN OR TCP_FIN) then snd_nxt k + 1 else snd_nxt k)"
  "cb_ack (seg_of k f) = rcv_nxt k"
  by (simp_all add: seg_of_def segment_cb_def)

lemma seg_of_state [simp]: "seg_of (k\<lparr>state := st\<rparr>) f = seg_of k f"
  by (simp add: seg_of_def)

lemma in_order_acked:
  assumes c: "conn_at L p k s" and m: "tcp_received_as m cb" and o: "in_order k cb" and f: "cb_flags cb = TCP_ACK \<or> cb_flags cb = FIN_ACK"
    and st: "state k \<notin> {TCP_CLOSED, TCP_LISTEN, TCP_SYN_SENT}"
  defines "s1 \<equiv> s\<lparr>socks := (socks s)(p \<mapsto> acked k cb)\<rparr>"
  shows "handle_tcp_packet_15 m 14 34 s = tcp_process_acked_15 p cb (state k) s"
    and "on_sock p (\<lambda>k. k\<lparr>snd_una := cb_ack cb, rcv_nxt := cb_seq_end cb\<rparr>) s = Some s1"
    and "conn_at L p (acked k cb) s1"
proof -
  have k: "socks s p = Some k" using c by (simp add: conn_at_def)
  have v: "is_tcp_seq_valid p cb s = Some True" using o by (intro seq_valid [OF k]) (auto simp: in_order_def)
  have "handle_tcp_packet_15 m 14 34 s = tcp_process_15 p cb m s"
    using o by (intro handle_conn_15 [OF c m]) (simp add: in_order_def)
  also have "\<dots> = tcp_process_acked_15 p cb (state k) s"
    using st f by (auto simp: tcp_process_15_def k v)
  finally show "handle_tcp_packet_15 m 14 34 s = tcp_process_acked_15 p cb (state k) s" .
  show "on_sock p (\<lambda>k. k\<lparr>snd_una := cb_ack cb, rcv_nxt := cb_seq_end cb\<rparr>) s = Some s1"
    using k by (simp add: s1_def acked_def)
  show "conn_at L p (acked k cb) s1" by (rule conn_at_upd [OF c]) (simp_all add: s1_def)
qed

text \<open>What the other side answers: the FIN of an established connection, the acknowledgement of our FIN, the FIN of
  the peer after that, and the last acknowledgement.\<close>

lemma recv_fin:
  assumes c: "conn_at L p k s" and m: "tcp_received_as m cb" and o: "in_order k cb" and f: "cb_flags cb = FIN_ACK"
    and st: "state k = TCP_ESTABLISHED"
  obtains s' where "handle_tcp_packet_15 m 14 34 s = Some s'" "conn_at L p ((acked k cb)\<lparr>state := TCP_CLOSE_WAIT\<rparr>) s'"
    "emits s s' (seg_of (acked k cb) TCP_ACK)" "lists s' = lists s"
proof -
  let ?s1 = "s\<lparr>socks := (socks s)(p \<mapsto> acked k cb)\<rparr>" and ?k = "(acked k cb)\<lparr>state := TCP_CLOSE_WAIT\<rparr>"
  note a = in_order_acked [OF c m o disjI2 [OF f]]
  define s2 where "s2 = ?s1\<lparr>socks := (socks ?s1)(p \<mapsto> ?k)\<rparr>"
  have k2: "socks s2 p = Some ?k" by (simp add: s2_def)
  obtain s3 where s3: "tcp_send_control_packet_16 p TCP_ACK s2 = Some s3" "socks s3 = (socks s2)(p \<mapsto> ?k)"
    "lists s3 = lists s2" "emits s2 s3 (seg_of ?k TCP_ACK)" "rtable s3 = rtable s2"
    using send_16 [OF k2, of TCP_ACK] by auto
  have "tcp_process_acked_15 p cb TCP_ESTABLISHED s = Some s3"
    using a(2) s3(1,2) f st by (simp add: tcp_process_acked_15_def tcp_set_state_def s2_def)
  moreover have "conn_at L p ?k s3" using a(3) st s3(2,3) by (intro conn_at_upd [OF c]) (simp_all add: s2_def key_of_def acked_def)
  moreover have "emits s s3 (seg_of (acked k cb) TCP_ACK)"
    using s3(4) unfolding seg_of_state by (rule emits_state) (simp_all add: s2_def)
  ultimately show ?thesis
    using a(1) st by (intro that [of s3]) (simp_all add: s3(3) s2_def)
qed

lemma recv_ack:
  assumes c: "conn_at L p k s" and m: "tcp_received_as m cb" and o: "in_order k cb" and f: "cb_flags cb = TCP_ACK"
    and st: "state k = TCP_FIN_WAIT_1 \<and> st = TCP_FIN_WAIT_2 \<or> state k = TCP_LAST_ACK \<and> st = TCP_CLOSED"
  obtains s' where "handle_tcp_packet_15 m 14 34 s = Some s'" "conn_at L p ((acked k cb)\<lparr>state := st\<rparr>) s'"
    "wire s' = wire s" "arpcache s' = arpcache s" "lists s' = lists s"
proof -
  let ?s1 = "s\<lparr>socks := (socks s)(p \<mapsto> acked k cb)\<rparr>" and ?k = "(acked k cb)\<lparr>state := st\<rparr>"
  note a = in_order_acked [OF c m o disjI1 [OF f]]
  define s2 where "s2 = ?s1\<lparr>socks := (socks ?s1)(p \<mapsto> ?k)\<rparr>"
  have ack: "cb_ack cb = snd_nxt k" using o by (simp add: in_order_def)
  have "tcp_process_acked_15 p cb (state k) s = Some s2"
    using a(2) f st ack by (auto simp: tcp_process_acked_15_def tcp_set_state_def s2_def)
  moreover have "conn_at L p ?k s2" by (rule conn_at_upd [OF c]) (simp_all add: s2_def key_of_def acked_def)
  ultimately show ?thesis using a(1) st by (intro that [of s2]) (auto simp: s2_def)
qed

lemma recv_last_fin:
  assumes c: "conn_at L p k s" and m: "tcp_received_as m cb" and o: "in_order k cb" and f: "cb_flags cb = FIN_ACK"
    and st: "state k = TCP_FIN_WAIT_2"
    and tm: "L TimerList = Some xs" "Timewait p \<in> dom (lists s)" "\<not> linked L (Timewait p)"
  obtains s' L' k' where "handle_tcp_packet_15 m 14 34 s = Some s'" "conn_at L' p k' s'" "state k' = TCP_TIME_WAIT"
    "L' TimerList = Some (xs @ [Timewait p])" "tm_timeout (timewait k') = TCP_TIMEWAIT_TIMEOUT"
    "emits s s' (seg_of (acked k cb) TCP_ACK)"
proof -
  let ?s1 = "s\<lparr>socks := (socks s)(p \<mapsto> acked k cb)\<rparr>" and ?k = "(acked k cb)\<lparr>state := TCP_TIME_WAIT\<rparr>"
  note a = in_order_acked [OF c m o disjI2 [OF f]]
  define s2 where "s2 = ?s1\<lparr>socks := (socks ?s1)(p \<mapsto> ?k)\<rparr>"
  have c2: "conn_at L p ?k s2" by (rule conn_at_upd [OF c]) (simp_all add: s2_def key_of_def acked_def)
  have d2: "Timewait p \<in> dom (lists s2)" using tm(2) by (simp add: s2_def)
  obtain s3 L3 k3 where s3: "tcp_set_timewait_timer p s2 = Some s3" "conn_at L3 p k3 s3" "L3 TimerList = Some (xs @ [Timewait p])"
    "key_of k3 = key_of ?k" "snd_nxt k3 = snd_nxt ?k" "rcv_nxt k3 = rcv_nxt ?k" "rcv_wnd k3 = rcv_wnd ?k" "state k3 = state ?k"
    "tm_timeout (timewait k3) = TCP_TIMEWAIT_TIMEOUT" "wire s3 = wire s2" "arpcache s3 = arpcache s2" "rtable s3 = rtable s2"
    using conn_at_timer [OF c2 tm(1) d2 tm(3)] by metis
  have k3: "socks s3 p = Some k3" using s3(2) by (simp add: conn_at_def)
  obtain s4 where s4: "tcp_send_control_packet_16 p TCP_ACK s3 = Some s4" "socks s4 = (socks s3)(p \<mapsto> k3)"
    "lists s4 = lists s3" "emits s3 s4 (seg_of k3 TCP_ACK)"
    using send_16 [OF k3, of TCP_ACK] by auto
  have e: "seg_of k3 TCP_ACK = seg_of (acked k cb) TCP_ACK"
    using s3(4-7) by (simp add: seg_of_def key_of_def)
  have "tcp_process_acked_15 p cb TCP_FIN_WAIT_2 s = Some s4"
    using a(2) s3(1) s4(1,2) f st by (simp add: tcp_process_acked_15_def tcp_set_state_def s2_def)
  moreover have "conn_at L3 p k3 s4" by (rule conn_at_upd [OF s3(2)]) (simp_all add: s4(2,3))
  moreover have "emits s s4 (seg_of (acked k cb) TCP_ACK)"
    using s4(4) unfolding e by (rule emits_state) (simp_all add: s3 s2_def)
  ultimately show ?thesis using a(1) st s3(3,8,9) by (intro that [of s4 L3 k3]) simp_all
qed

section \<open>Closing a connection\<close>

text \<open>Socket \<open>p\<close> is one end of connection \<open>key\<close>, in state \<open>st\<close>, about to send \<open>sn\<close> and expecting \<open>rn\<close>; \<open>seg\<close> is what
  the peer reads of a control packet it sends then, and \<open>mirror\<close> the connection as the peer sees it.\<close>

definition endpoint :: "lseqs \<Rightarrow> nat \<Rightarrow> conn_key \<Rightarrow> u32 \<Rightarrow> u32 \<Rightarrow> tcp_state \<Rightarrow> tstack \<Rightarrow> bool" where
  "endpoint L p key sn rn st s \<longleftrightarrow> (\<exists>k. conn_at L p k s \<and> key_of k = key \<and> snd_nxt k = sn \<and> rcv_nxt k = rn \<and> state k = st
     \<and> rcv_wnd k = TCP_DEFAULT_WINDOW)"

fun mirror :: "conn_key \<Rightarrow> conn_key" where
  "mirror (sip, dip, sport, dport) = (dip, sip, dport, sport)"

fun seg :: "conn_key \<Rightarrow> u32 \<Rightarrow> u32 \<Rightarrow> u8 \<Rightarrow> tcp_cb" where
  "seg (sip, dip, sport, dport) sn rn flags = segment_cb sip dip sport dport sn rn flags TCP_DEFAULT_WINDOW 0"

definition sock_state :: "tstack \<Rightarrow> nat \<Rightarrow> tcp_state option" where
  "sock_state s p = map_option state (socks s p)"

lemma mirror_mirror [simp]: "mirror (mirror key) = key"
  by (cases key) simp

lemma endpoint_state: "endpoint L p key sn rn st s \<Longrightarrow> sock_state s p = Some st"
  by (auto simp: endpoint_def conn_at_def sock_state_def)

lemma seg_of_seg: "rcv_wnd k = TCP_DEFAULT_WINDOW \<Longrightarrow> seg_of k f = seg (key_of k) (snd_nxt k) (rcv_nxt k) f"
  by (simp add: seg_of_def key_of_def)

lemma in_order_seg:
  assumes "rcv_wnd k = TCP_DEFAULT_WINDOW" "sint (rcv_nxt k) + 65535 < 2 ^ 31"
  shows "in_order k (seg (mirror (key_of k)) (rcv_nxt k) (snd_nxt k) f)"
  using assms by (simp add: in_order_def key_of_def segment_cb_def)

lemma seg_simps [simp]:
  "cb_flags (seg key sn rn f) = f" "cb_seq_end (seg key sn rn f) = (if has_flag f (TCP_SYN OR TCP_FIN) then sn + 1 else sn)"
  by (cases key; simp add: segment_cb_def)+

lemma endpoint_close:
  assumes "endpoint L p key sn rn st s" "st = TCP_ESTABLISHED \<and> st' = TCP_FIN_WAIT_1 \<or> st = TCP_CLOSE_WAIT \<and> st' = TCP_LAST_ACK"
  obtains s' where "tcp_sock_close_16 p s = Some s'" "endpoint L p key (sn + 1) rn st' s'" "emits s s' (seg key sn rn FIN_ACK)"
    "lists s' = lists s"
proof -
  obtain k where k: "conn_at L p k s" "key_of k = key" "snd_nxt k = sn" "rcv_nxt k = rn" "state k = st" "rcv_wnd k = TCP_DEFAULT_WINDOW"
    using assms(1) by (auto simp: endpoint_def)
  obtain s' where s': "tcp_sock_close_16 p s = Some s'" "conn_at L p (k\<lparr>snd_nxt := snd_nxt k + 1, state := st'\<rparr>) s'"
    "emits s s' (seg_of k FIN_ACK)" "lists s' = lists s"
    using close_step [OF k(1)] assms(2) k(5) by blast
  have "endpoint L p key (sn + 1) rn st' s'"
    unfolding endpoint_def by (rule exI, rule conjI, rule s'(2)) (use k in \<open>simp add: key_of_def\<close>)
  then show ?thesis using s' k(2-4,6) by (intro that [of s']) (simp_all add: seg_of_seg)
qed

lemma endpoint_fin:
  assumes "endpoint L p key sn rn TCP_ESTABLISHED s" "tcp_received_as m (seg (mirror key) rn sn FIN_ACK)" "sint rn + 65535 < 2 ^ 31"
  obtains s' where "handle_tcp_packet_15 m 14 34 s = Some s'" "endpoint L p key sn (rn + 1) TCP_CLOSE_WAIT s'"
    "emits s s' (seg key sn (rn + 1) TCP_ACK)" "lists s' = lists s"
proof -
  obtain k where k: "conn_at L p k s" "key_of k = key" "snd_nxt k = sn" "rcv_nxt k = rn" "state k = TCP_ESTABLISHED"
    "rcv_wnd k = TCP_DEFAULT_WINDOW" using assms(1) by (auto simp: endpoint_def)
  let ?cb = "seg (mirror key) rn sn FIN_ACK"
  have o: "in_order k ?cb" using in_order_seg [OF k(6), of FIN_ACK] k assms(3) by simp
  obtain s' where s': "handle_tcp_packet_15 m 14 34 s = Some s'" "conn_at L p ((acked k ?cb)\<lparr>state := TCP_CLOSE_WAIT\<rparr>) s'"
    "emits s s' (seg_of (acked k ?cb) TCP_ACK)" "lists s' = lists s"
    using recv_fin [OF k(1) assms(2) o _ k(5)] by auto
  have "endpoint L p key sn (rn + 1) TCP_CLOSE_WAIT s'"
    unfolding endpoint_def by (rule exI, rule conjI, rule s'(2)) (use k in \<open>simp add: key_of_def acked_def\<close>)
  then show ?thesis using s' k(2-4,6) by (intro that [of s']) (simp_all add: seg_of_seg)
qed

lemma endpoint_ack:
  assumes "endpoint L p key sn rn st s" "tcp_received_as m (seg (mirror key) rn sn TCP_ACK)" "sint rn + 65535 < 2 ^ 31"
    and st: "st = TCP_FIN_WAIT_1 \<and> st' = TCP_FIN_WAIT_2 \<or> st = TCP_LAST_ACK \<and> st' = TCP_CLOSED"
  obtains s' where "handle_tcp_packet_15 m 14 34 s = Some s'" "endpoint L p key sn rn st' s'" "lists s' = lists s"
proof -
  obtain k where k: "conn_at L p k s" "key_of k = key" "snd_nxt k = sn" "rcv_nxt k = rn" "state k = st"
    "rcv_wnd k = TCP_DEFAULT_WINDOW" using assms(1) by (auto simp: endpoint_def)
  let ?cb = "seg (mirror key) rn sn TCP_ACK"
  have o: "in_order k ?cb" using in_order_seg [OF k(6), of TCP_ACK] k assms(3) by simp
  obtain s' where s': "handle_tcp_packet_15 m 14 34 s = Some s'" "conn_at L p ((acked k ?cb)\<lparr>state := st'\<rparr>) s'" "lists s' = lists s"
    using recv_ack [OF k(1) assms(2) o] st k(5) by auto
  have "endpoint L p key sn rn st' s'"
    unfolding endpoint_def by (rule exI, rule conjI, rule s'(2)) (use k in \<open>simp add: key_of_def acked_def\<close>)
  then show ?thesis using s' by (intro that [of s'])
qed

lemma endpoint_last_fin:
  assumes "endpoint L p key sn rn TCP_FIN_WAIT_2 s" "tcp_received_as m (seg (mirror key) rn sn FIN_ACK)" "sint rn + 65535 < 2 ^ 31"
    and tm: "L TimerList = Some xs" "Timewait p \<in> dom (lists s)" "\<not> linked L (Timewait p)"
  obtains s' L' where "handle_tcp_packet_15 m 14 34 s = Some s'" "sock_state s' p = Some TCP_TIME_WAIT" "tables_ok L' s'"
    "L' TimerList = Some (xs @ [Timewait p])" "map_option (\<lambda>k. tm_timeout (timewait k)) (socks s' p) = Some TCP_TIMEWAIT_TIMEOUT"
    "emits s s' (seg key sn (rn + 1) TCP_ACK)"
proof -
  obtain k where k: "conn_at L p k s" "key_of k = key" "snd_nxt k = sn" "rcv_nxt k = rn" "state k = TCP_FIN_WAIT_2"
    "rcv_wnd k = TCP_DEFAULT_WINDOW" using assms(1) by (auto simp: endpoint_def)
  let ?cb = "seg (mirror key) rn sn FIN_ACK"
  have o: "in_order k ?cb" using in_order_seg [OF k(6), of FIN_ACK] k assms(3) by simp
  obtain s' L' k' where s': "handle_tcp_packet_15 m 14 34 s = Some s'" "conn_at L' p k' s'" "state k' = TCP_TIME_WAIT"
    "L' TimerList = Some (xs @ [Timewait p])" "tm_timeout (timewait k') = TCP_TIMEWAIT_TIMEOUT" "emits s s' (seg_of (acked k ?cb) TCP_ACK)"
    using recv_last_fin [OF k(1) assms(2) o _ k(5) tm] by auto
  then show ?thesis using k(2-4,6) by (intro that [of s' L']) (simp_all add: seg_of_seg conn_at_def sock_state_def)
qed

lemma sint_suc: "sint (x :: u32) + 65536 < 2 ^ 31 \<Longrightarrow> sint (x + 1) + 65535 < 2 ^ 31"
  using sint_ge [of x] by (simp add: sint_word_ariths signed_take_bit_int_eq_self)

text \<open>C3. In the first TCP lab, a connection that both applications close is closed on both sides. The client's
  \<^verbatim>\<open>tcp_sock_close\<close> sends a FIN and enters FIN_WAIT_1; whatever copy of it reaches the server puts the server in
  CLOSE_WAIT and is acknowledged; the acknowledgement puts the client in FIN_WAIT_2; the server's
  \<^verbatim>\<open>tcp_sock_close\<close> sends its own FIN and enters LAST_ACK; that FIN puts the client in TIME_WAIT, with the
  timer armed at the end of the timer list, and is acknowledged; the last acknowledgement closes the
  server's socket. No step of either stack fails, whatever its ARP cache and routing table hold. (The
  sequence numbers are clear of the sign change at \<open>2^31\<close>, where the code's signed comparison overflows.)\<close>

theorem tcp15_orderly_close:
  assumes a: "endpoint LA p key sn rn TCP_ESTABLISHED a" and b: "endpoint LB q (mirror key) rn sn TCP_ESTABLISHED b"
    and w: "sint sn + 65536 < 2 ^ 31" "sint rn + 65536 < 2 ^ 31"
    and tm: "LA TimerList = Some xs" "Timewait p \<in> dom (lists a)" "\<not> linked LA (Timewait p)"
  shows "\<exists>a1. tcp_sock_close_16 p a = Some a1 \<and> sock_state a1 p = Some TCP_FIN_WAIT_1 \<and> emits a a1 (seg key sn rn FIN_ACK) \<and>
    (\<forall>m1. tcp_received_as m1 (seg key sn rn FIN_ACK) \<longrightarrow>
      (\<exists>b1. handle_tcp_packet_15 m1 14 34 b = Some b1 \<and> sock_state b1 q = Some TCP_CLOSE_WAIT \<and>
         emits b b1 (seg (mirror key) rn (sn + 1) TCP_ACK) \<and>
      (\<forall>m2. tcp_received_as m2 (seg (mirror key) rn (sn + 1) TCP_ACK) \<longrightarrow>
        (\<exists>a2 b2. handle_tcp_packet_15 m2 14 34 a1 = Some a2 \<and> sock_state a2 p = Some TCP_FIN_WAIT_2 \<and>
           tcp_sock_close_16 q b1 = Some b2 \<and> sock_state b2 q = Some TCP_LAST_ACK \<and>
           emits b1 b2 (seg (mirror key) rn (sn + 1) FIN_ACK) \<and>
        (\<forall>m3. tcp_received_as m3 (seg (mirror key) rn (sn + 1) FIN_ACK) \<longrightarrow>
          (\<exists>a3 L3. handle_tcp_packet_15 m3 14 34 a2 = Some a3 \<and> sock_state a3 p = Some TCP_TIME_WAIT \<and>
             tables_ok L3 a3 \<and> L3 TimerList = Some (xs @ [Timewait p]) \<and>
             map_option (\<lambda>k. tm_timeout (timewait k)) (socks a3 p) = Some TCP_TIMEWAIT_TIMEOUT \<and>
             emits a2 a3 (seg key (sn + 1) (rn + 1) TCP_ACK) \<and>
          (\<forall>m4. tcp_received_as m4 (seg key (sn + 1) (rn + 1) TCP_ACK) \<longrightarrow>
            (\<exists>b3. handle_tcp_packet_15 m4 14 34 b2 = Some b3 \<and> sock_state b3 q = Some TCP_CLOSED))))))))"
proof -
  have w': "sint sn + 65535 < 2 ^ 31" "sint rn + 65535 < 2 ^ 31" "sint (sn + 1) + 65535 < 2 ^ 31" "sint (rn + 1) + 65535 < 2 ^ 31"
    using w sint_suc by auto
  let ?P4 = "\<lambda>b2. \<forall>m4. tcp_received_as m4 (seg key (sn + 1) (rn + 1) TCP_ACK) \<longrightarrow>
            (\<exists>b3. handle_tcp_packet_15 m4 14 34 b2 = Some b3 \<and> sock_state b3 q = Some TCP_CLOSED)"
  let ?E3 = "\<lambda>a2 a3 L3 m3. handle_tcp_packet_15 m3 14 34 a2 = Some a3 \<and> sock_state a3 p = Some TCP_TIME_WAIT \<and>
             tables_ok L3 a3 \<and> L3 TimerList = Some (xs @ [Timewait p]) \<and>
             map_option (\<lambda>k. tm_timeout (timewait k)) (socks a3 p) = Some TCP_TIMEWAIT_TIMEOUT \<and>
             emits a2 a3 (seg key (sn + 1) (rn + 1) TCP_ACK)"
  let ?P3 = "\<lambda>a2 b2. \<forall>m3. tcp_received_as m3 (seg (mirror key) rn (sn + 1) FIN_ACK) \<longrightarrow> (\<exists>a3 L3. ?E3 a2 a3 L3 m3 \<and> ?P4 b2)"
  let ?E2 = "\<lambda>a1 b1 a2 b2 m2. handle_tcp_packet_15 m2 14 34 a1 = Some a2 \<and> sock_state a2 p = Some TCP_FIN_WAIT_2 \<and>
           tcp_sock_close_16 q b1 = Some b2 \<and> sock_state b2 q = Some TCP_LAST_ACK \<and>
           emits b1 b2 (seg (mirror key) rn (sn + 1) FIN_ACK)"
  let ?P2 = "\<lambda>a1 b1. \<forall>m2. tcp_received_as m2 (seg (mirror key) rn (sn + 1) TCP_ACK) \<longrightarrow> (\<exists>a2 b2. ?E2 a1 b1 a2 b2 m2 \<and> ?P3 a2 b2)"
  obtain a1 where a1: "tcp_sock_close_16 p a = Some a1" "endpoint LA p key (sn + 1) rn TCP_FIN_WAIT_1 a1"
    "emits a a1 (seg key sn rn FIN_ACK)" "lists a1 = lists a"
    using endpoint_close [OF a, of TCP_FIN_WAIT_1] by auto
  have "\<exists>b1. handle_tcp_packet_15 m1 14 34 b = Some b1 \<and> sock_state b1 q = Some TCP_CLOSE_WAIT \<and>
      emits b b1 (seg (mirror key) rn (sn + 1) TCP_ACK) \<and> ?P2 a1 b1"
    if m1: "tcp_received_as m1 (seg key sn rn FIN_ACK)" for m1
  proof -
    obtain b1 where b1: "handle_tcp_packet_15 m1 14 34 b = Some b1" "endpoint LB q (mirror key) rn (sn + 1) TCP_CLOSE_WAIT b1"
      "emits b b1 (seg (mirror key) rn (sn + 1) TCP_ACK)"
      using endpoint_fin [OF b _ w'(1)] m1 by auto
    obtain b2 where b2: "tcp_sock_close_16 q b1 = Some b2" "endpoint LB q (mirror key) (rn + 1) (sn + 1) TCP_LAST_ACK b2"
      "emits b1 b2 (seg (mirror key) rn (sn + 1) FIN_ACK)"
      using endpoint_close [OF b1(2), of TCP_LAST_ACK] by auto
    have P4: "?P4 b2"
      using endpoint_ack [OF b2(2) _ w'(3), of _ TCP_CLOSED] endpoint_state by (metis mirror_mirror)
    have P2: "\<exists>a2 b2. ?E2 a1 b1 a2 b2 m2 \<and> ?P3 a2 b2" if m2: "tcp_received_as m2 (seg (mirror key) rn (sn + 1) TCP_ACK)" for m2
    proof -
      obtain a2 where a2: "handle_tcp_packet_15 m2 14 34 a1 = Some a2" "endpoint LA p key (sn + 1) rn TCP_FIN_WAIT_2 a2" "lists a2 = lists a1"
        using endpoint_ack [OF a1(2) m2 w'(2), of TCP_FIN_WAIT_2] by auto
      have d2: "Timewait p \<in> dom (lists a2)" using tm(2) a1(4) a2(3) by simp
      have "\<exists>a3 L3. ?E3 a2 a3 L3 m3" if "tcp_received_as m3 (seg (mirror key) rn (sn + 1) FIN_ACK)" for m3
        by (rule endpoint_last_fin [OF a2(2) that w'(2) tm(1) d2 tm(3)]) blast
      then show ?thesis
        using a2(1) endpoint_state [OF a2(2)] b2(1,3) endpoint_state [OF b2(2)] P4
        by (intro exI [of _ a2] exI [of _ b2]) simp
    qed
    show ?thesis using b1(1,3) endpoint_state [OF b1(2)] P2 by (intro exI [of _ b1]) simp
  qed
  then show ?thesis using a1(1,3) endpoint_state [OF a1(2)] by (intro exI [of _ a1]) simp
qed

text \<open>Two stacks with one socket each, the two ends of a connection.\<close>

definition end_sock :: "conn_key \<Rightarrow> u32 \<Rightarrow> u32 \<Rightarrow> tcp_sock" where
  "end_sock = (\<lambda>(sip, dip, sport, dport) sn rn. sock0\<lparr>sk_sip := sip, sk_dip := dip, sk_sport := sport, sk_dport := dport,
     snd_nxt := sn, rcv_nxt := rn, rcv_wnd := TCP_DEFAULT_WINDOW\<rparr>)"

definition end_stack :: "conn_key \<Rightarrow> u32 \<Rightarrow> u32 \<Rightarrow> tstack" where
  "end_stack key sn rn = tstack0\<lparr>lists := (one_lists (EstablishedTable (key_hash key)))
     (TimerList \<mapsto> \<lparr>lh_next = TimerList, lh_prev = TimerList\<rparr>, Timewait 0 \<mapsto> zero_node), socks := [0 \<mapsto> end_sock key sn rn]\<rparr>"

definition end_seqs :: "conn_key \<Rightarrow> lseqs" where
  "end_seqs key = (one_seqs (EstablishedTable (key_hash key)))(TimerList \<mapsto> [])"

lemma end_stack_endpoint:
  "endpoint (end_seqs key) 0 key sn rn TCP_ESTABLISHED (end_stack key sn rn)"
  "end_seqs key TimerList = Some []" "Timewait 0 \<in> dom (lists (end_stack key sn rn))" "\<not> linked (end_seqs key) (Timewait 0)"
proof -
  let ?a = "EstablishedTable (key_hash key)"
  let ?h0 = "(one_lists ?a)(TimerList \<mapsto> zero_node, Timewait 0 \<mapsto> zero_node)"
  let ?s0 = "(end_stack key sn rn)\<lparr>lists := one_lists ?a\<rparr>"
  have k: "key_of (end_sock key sn rn) = key" by (cases key) (simp add: end_sock_def key_of_def)
  have t: "tables_ok (one_seqs ?a) ?s0"
    by (rule one_tables [where f = "\<lambda>k. key_hash (key_of k)" and k = "end_sock key sn rn" and i = "key_hash key"])
      (simp_all add: end_stack_def k)
  have un: "\<not> linked (one_seqs ?a) TimerList" "\<not> linked (one_seqs ?a) (Timewait 0)"
    by (auto simp: linked_def one_seqs_def split: if_splits)
  then have "lrep ?h0 (one_seqs ?a)"
    by (intro lrep_frame [OF tables_ok_lrep [OF t]]) (auto simp: end_stack_def)
  from lrep_init [OF this _ un(1)] obtain h where h: "init_list_head ?h0 TimerList = Some h" "lrep h (end_seqs key)"
    by (auto simp: end_seqs_def)
  have "h = lists (end_stack key sn rn)"
    using h(1) by (auto simp: init_list_head_def set_nxt_def set_prv_def end_stack_def zero_node_def split: option.splits if_splits)
  then have l: "lrep (lists (end_stack key sn rn)) (end_seqs key)" using h(2) by simp
  have "tables_ok (end_seqs key) (end_stack key sn rn)"
  proof (rule tables_ok_change [OF t l])
    show "slot a \<noteq> None \<Longrightarrow> end_seqs key a = one_seqs ?a a" for a by (cases a) (auto simp: end_seqs_def)
  qed (auto simp: end_stack_def one_lists_def)
  moreover have "conn_of (end_seqs key) key (end_stack key sn rn) = Some 0"
    by (simp add: conn_of_def bucket_def end_seqs_def one_seqs_def end_stack_def k)
  ultimately show "endpoint (end_seqs key) 0 key sn rn TCP_ESTABLISHED (end_stack key sn rn)"
    unfolding endpoint_def conn_at_def
    by (intro exI [of _ "end_sock key sn rn"]) (cases key; simp add: k end_stack_def end_sock_def sock0_def key_of_def)
  show "end_seqs key TimerList = Some []" "Timewait 0 \<in> dom (lists (end_stack key sn rn))" "\<not> linked (end_seqs key) (Timewait 0)"
    using un(2) by (auto simp: end_seqs_def end_stack_def linked_def split: if_splits)
qed

lemma seg_received:
  obtains m where "tcp_received_as m (seg key sn rn flags)"
  by (cases key) (auto intro: control_received)

theorem tcp15_orderly_close_witness:
  "\<exists>a1 b1 a2 b2 a3 b3 m1 m2 m3 m4. tcp_sock_close_16 0 (end_stack (0x0A000102, 0x0A000001, 12345, 80) 2000 1000) = Some a1
     \<and> handle_tcp_packet_15 m1 14 34 (end_stack (0x0A000001, 0x0A000102, 80, 12345) 1000 2000) = Some b1
     \<and> handle_tcp_packet_15 m2 14 34 a1 = Some a2 \<and> tcp_sock_close_16 0 b1 = Some b2
     \<and> handle_tcp_packet_15 m3 14 34 a2 = Some a3 \<and> sock_state a3 0 = Some TCP_TIME_WAIT
     \<and> handle_tcp_packet_15 m4 14 34 b2 = Some b3 \<and> sock_state b3 0 = Some TCP_CLOSED"
proof -
  let ?a = "(0x0A000102, 0x0A000001, 12345, 80) :: conn_key" and ?b = "(0x0A000001, 0x0A000102, 80, 12345) :: conn_key"
  have e: "endpoint (end_seqs ?b) 0 (mirror ?a) 1000 2000 TCP_ESTABLISHED (end_stack ?b 1000 2000)"
    using end_stack_endpoint(1) [of ?b] by simp
  have w: "sint (2000 :: u32) + 65536 < 2 ^ 31" "sint (1000 :: u32) + 65536 < 2 ^ 31" by simp_all
  obtain m1 m2 m3 m4 where "tcp_received_as m1 (seg ?a 2000 1000 FIN_ACK)" "tcp_received_as m2 (seg (mirror ?a) 1000 (2000 + 1) TCP_ACK)"
    "tcp_received_as m3 (seg (mirror ?a) 1000 (2000 + 1) FIN_ACK)" "tcp_received_as m4 (seg ?a (2000 + 1) (1000 + 1) TCP_ACK)"
    by (metis seg_received)
  with tcp15_orderly_close [OF end_stack_endpoint(1) e w end_stack_endpoint(2-4)] show ?thesis by blast
qed

text \<open>An established socket answers every acknowledgement with an acknowledgement, which the peer, when it is
  established too, answers in the same way.\<close>

lemma ack_answered_15:
  assumes "endpoint L p key sn rn TCP_ESTABLISHED s" "tcp_received_as m (seg (mirror key) rn sn TCP_ACK)" "sint rn + 65535 < 2 ^ 31"
  obtains s' where "handle_tcp_packet_15 m 14 34 s = Some s'" "endpoint L p key sn rn TCP_ESTABLISHED s'" "emits s s' (seg key sn rn TCP_ACK)"
proof -
  obtain k where k: "conn_at L p k s" "key_of k = key" "snd_nxt k = sn" "rcv_nxt k = rn" "state k = TCP_ESTABLISHED"
    "rcv_wnd k = TCP_DEFAULT_WINDOW" using assms(1) by (auto simp: endpoint_def)
  let ?cb = "seg (mirror key) rn sn TCP_ACK" and ?k = "acked k (seg (mirror key) rn sn TCP_ACK)"
  let ?s1 = "s\<lparr>socks := (socks s)(p \<mapsto> ?k)\<rparr>"
  have o: "in_order k ?cb" using in_order_seg [OF k(6), of TCP_ACK] k assms(3) by simp
  have "cb_flags ?cb = TCP_ACK" by simp
  note a = in_order_acked [OF k(1) assms(2) o disjI1 [OF this]]
  have k1: "socks ?s1 p = Some ?k" by simp
  obtain s' where s': "tcp_send_control_packet_16 p TCP_ACK ?s1 = Some s'" "socks s' = (socks ?s1)(p \<mapsto> ?k)" "lists s' = lists ?s1"
    "emits ?s1 s' (seg_of ?k TCP_ACK)"
    using send_16 [OF k1, of TCP_ACK] by auto
  have "handle_tcp_packet_15 m 14 34 s = Some s'"
    using a(1,2) s'(1) k(5) by (simp add: tcp_process_acked_15_def)
  moreover have "conn_at L p ?k s'" using s'(2,3) k(5) a(3) by (intro conn_at_upd [OF k(1)]) simp_all
  then have "endpoint L p key sn rn TCP_ESTABLISHED s'"
    unfolding endpoint_def by (rule_tac exI, rule_tac conjI, assumption) (use k in simp)
  moreover have "emits s s' (seg key sn rn TCP_ACK)"
    using emits_state [OF s'(4), of s s'] k by (simp add: seg_of_seg)
  ultimately show ?thesis by (intro that [of s'])
qed

end
