(* ===== verification/TcpDeliver.thy ===== *)
theory TcpDeliver
  imports TcpStream
begin

text \<open>
  The receiving side of lab 17 against a network that reorders and repeats: the peer's stream is cut into segments, and
  these arrive in any order and any number of times. When every segment has arrived, every byte has been
  delivered, in order and once. The receiver itself sends nothing but acknowledgements, so its send
  buffer is empty.
\<close>

section \<open>Segments that have been delivered before\<close>







section \<open>Segments in any order\<close>


















end
