(* ===== verification/TcpApps.thy ===== *)
theory TcpApps
  imports Tcp15 "HOL-Library.Extended_Nat" TcpDeliver
begin

text \<open>
  The application threads of the TCP labs, \<^verbatim>\<open>tcp_server\<close> and \<^verbatim>\<open>tcp_client\<close> in \<^verbatim>\<open>tcp_apps.c\<close>: an orderly open and
  close in lab 15, an echo service in lab 16, a file transfer in lab 17. \<open>env i\<close> is what the other threads (the
  packet handler and the timers) do the \<open>i\<close>-th time the application lets them run: while it waits, while it
  sleeps, and between two rounds of a loop. The loops of the servers have no exit of their own, so they are
  run for a number of rounds, and the result says whether they are still running.
\<close>

section \<open>Rounds\<close>

type_synonym app_env = "nat \<Rightarrow> tstack \<Rightarrow> tstack option"

datatype outcome = Exited int | Returned | Running

fun app_loop :: "(nat \<Rightarrow> 'r \<Rightarrow> (bool \<times> 'r) option) \<Rightarrow> nat \<Rightarrow> nat \<Rightarrow> 'r \<Rightarrow> (bool \<times> 'r) option" where
  "app_loop step i 0 r = Some (True, r)"
| "app_loop step i (Suc n) r = do {
     (go_on, r) \<leftarrow> step i r;
     if go_on then app_loop step (Suc i) n r else Some (False, r) }"

section \<open>Servers\<close>

text \<open>Up to the accepted connection the three servers are the same. \<open>Inl\<close> is an exit with that code; the
  accepted socket may be null.\<close>

definition server_open :: "(tstack \<Rightarrow> tstack option) \<Rightarrow> u16 \<Rightarrow> tstack \<Rightarrow> ((int + nat option) \<times> tstack) option" where
  "server_open env port s = do {
     (tsk, s) \<leftarrow> alloc_tcp_sock s;
     (r, s) \<leftarrow> tcp_sock_bind tsk port s;
     if r < 0 then Some (Inl 1, s)
     else do {
       (r, s) \<leftarrow> tcp_sock_listen tsk 3 s;
       if r < 0 then Some (Inl 1, s)
       else do {
         (csk, s) \<leftarrow> tcp_sock_accept env tsk s;
         Some (Inr csk, s) } } }"

definition tcp_server_15 :: "app_env \<Rightarrow> u16 \<Rightarrow> tstack \<Rightarrow> (outcome \<times> tstack) option" where
  "tcp_server_15 env port s = do {
     (r, s) \<leftarrow> server_open (env 0) port s;
     (case r of
        Inl e \<Rightarrow> Some (Exited e, s)
      | Inr None \<Rightarrow> None
      | Inr (Some csk) \<Rightarrow> do {
          s \<leftarrow> env 1 s;
          s \<leftarrow> tcp_sock_close_16 csk s;
          Some (Returned, s) }) }"

definition c_text :: "bytes \<Rightarrow> bytes" where
  "c_text buf = takeWhile (\<lambda>b. b \<noteq> 0) buf"

definition echo_prefix :: bytes where
  "echo_prefix = map (\<lambda>c. of_char c) ''server echoes: ''"

definition echo_round :: "app_env \<Rightarrow> nat \<Rightarrow> nat \<Rightarrow> tstack \<Rightarrow> (bool \<times> tstack) option" where
  "echo_round env csk i s = do {
     s \<leftarrow> env i s;
     (rlen, rbuf, s) \<leftarrow> tcp_sock_read (env i) csk 1000 s;
     if rlen < 0 then Some (False, s)
     else if rlen > 0 then do {
       let wbuf = echo_prefix @ c_text rbuf;
       (r, s) \<leftarrow> tcp_sock_write_16 (env i) csk wbuf (int (length wbuf)) s;
       Some (\<not> r < 0, s) }
     else Some (True, s) }"

definition tcp_server_16 :: "app_env \<Rightarrow> u16 \<Rightarrow> nat \<Rightarrow> tstack \<Rightarrow> (outcome \<times> tstack) option" where
  "tcp_server_16 env port n s = do {
     (r, s) \<leftarrow> server_open (env 0) port s;
     (case r of
        Inl e \<Rightarrow> Some (Exited e, s)
      | Inr None \<Rightarrow> None
      | Inr (Some csk) \<Rightarrow> do {
          (running, s) \<leftarrow> app_loop (echo_round env csk) 1 n s;
          if running then Some (Running, s)
          else do { s \<leftarrow> tcp_sock_close_16 csk s; Some (Returned, s) } }) }"

text \<open>The file server of lab 17; the first component of the state is the content of \<^verbatim>\<open>server-output.dat\<close>, and
  \<open>opened\<close> says whether \<^verbatim>\<open>fopen\<close> succeeded.\<close>

definition file_round :: "app_env \<Rightarrow> nat \<Rightarrow> nat \<Rightarrow> bytes \<times> tstack \<Rightarrow> (bool \<times> bytes \<times> tstack) option" where
  "file_round env csk i = (\<lambda>(out, s). do {
     s \<leftarrow> env i s;
     (rlen, rbuf, s) \<leftarrow> tcp_sock_read (env i) csk 1000 s;
     if rlen < 0 then Some (False, out, s)
     else if rlen > 0 then Some (True, out @ c_text rbuf, s)
     else Some (True, out, s) })"

definition tcp_server :: "app_env \<Rightarrow> u16 \<Rightarrow> bool \<Rightarrow> nat \<Rightarrow> tstack \<Rightarrow> (outcome \<times> bytes \<times> tstack) option" where
  "tcp_server env port opened n s = do {
     (r, s) \<leftarrow> server_open (env 0) port s;
     (case r of
        Inl e \<Rightarrow> Some (Exited e, [], s)
      | Inr csk \<Rightarrow>
          if \<not> opened then Some (Exited 0, [], s)
          else (case csk of
            None \<Rightarrow> None
          | Some c \<Rightarrow> do {
              (running, out, s) \<leftarrow> app_loop (file_round env c) 1 n ([], s);
              if running then Some (Running, out, s)
              else do { s \<leftarrow> tcp_sock_close c s; Some (Returned, out, s) } })) }"

section \<open>Clients\<close>

definition tcp_client_15 :: "app_env \<Rightarrow> u32 \<Rightarrow> u16 \<Rightarrow> tstack \<Rightarrow> (outcome \<times> tstack) option" where
  "tcp_client_15 env skip skport s = do {
     (tsk, s) \<leftarrow> alloc_tcp_sock s;
     (r, s) \<leftarrow> tcp_sock_connect_16 (env 0) tsk skip skport s;
     if r < 0 then Some (Exited 1, s)
     else do {
       s \<leftarrow> env 1 s;
       s \<leftarrow> tcp_sock_close_16 tsk s;
       Some (Returned, s) } }"

text \<open>Ten rounds, each with 52 of the 62 characters; the first component of the state is what is printed.\<close>

definition client_text :: bytes where
  "client_text = map (\<lambda>c. of_char c) ''0123456789abcdefghijklmnopqrstuvwxyzABCDEFGHIJKLMNOPQRSTUVWXYZ''"

definition client_round :: "app_env \<Rightarrow> nat \<Rightarrow> nat \<Rightarrow> bytes list \<times> tstack \<Rightarrow> (bool \<times> bytes list \<times> tstack) option" where
  "client_round env tsk i = (\<lambda>(out, s). do {
     (r, s) \<leftarrow> tcp_sock_write_16 (env (Suc i)) tsk (drop i client_text) (int (length client_text) - 10) s;
     if r < 0 then Some (False, out, s)
     else do {
       (rlen, rbuf, s) \<leftarrow> tcp_sock_read (env (Suc i)) tsk 1000 s;
       if rlen < 0 then Some (False, out, s)
       else do {
         let out = out @ [if rlen > 0 then c_text rbuf else map (\<lambda>c. of_char c) ''*** read data == 0.''];
         s \<leftarrow> env (Suc i) s;
         Some (True, out, s) } } })"

definition tcp_client_16 :: "app_env \<Rightarrow> u32 \<Rightarrow> u16 \<Rightarrow> tstack \<Rightarrow> (outcome \<times> bytes list \<times> tstack) option" where
  "tcp_client_16 env skip skport s = do {
     (tsk, s) \<leftarrow> alloc_tcp_sock s;
     (r, s) \<leftarrow> tcp_sock_connect_16 (env 0) tsk skip skport s;
     if r < 0 then Some (Exited 1, [], s)
     else do {
       (completed, out, s) \<leftarrow> app_loop (client_round env tsk) 0 10 ([], s);
       s \<leftarrow> tcp_sock_close_16 tsk s;
       Some (Returned, out, s) } }"

text \<open>A file open for reading, \<^verbatim>\<open>fread\<close> of \<open>n\<close> bytes to the start of a buffer, and \<^verbatim>\<open>feof\<close>.\<close>

record c_file =
  f_data :: bytes
  f_pos :: nat
  f_eof :: bool

definition c_fread :: "bytes \<Rightarrow> nat \<Rightarrow> c_file \<Rightarrow> nat \<times> bytes \<times> c_file" where
  "c_fread buf n f =
     (let got = take n (drop (f_pos f) (f_data f))
      in (length got, got @ drop (length got) buf,
          f\<lparr>f_pos := f_pos f + length got, f_eof := f_eof f \<or> length got < n\<rparr>))"

function client_send :: "app_env \<Rightarrow> nat \<Rightarrow> nat \<Rightarrow> bytes \<Rightarrow> c_file \<Rightarrow> tstack \<Rightarrow> (nat \<times> tstack) option" where
  "client_send env tsk i rbuf fp s =
     (if f_eof fp then Some (i, s)
      else let (j, rbuf', fp') = c_fread rbuf 1000 fp in
        Option.bind (tcp_sock_write (env i) tsk rbuf' 1000 s) (\<lambda>(r, s).
        if r < 0 then Some (i, s)
        else Option.bind (env i s) (client_send env tsk (Suc i) rbuf' fp')))"
  by pat_completeness auto

termination
  by (relation "measure (\<lambda>(env, tsk, i, rbuf, fp, s). if f_eof fp then 0 else Suc (length (f_data fp) - f_pos fp))")
     (auto simp: c_fread_def Let_def)

declare client_send.simps [simp del]

partial_function (option) client_wait :: "app_env \<Rightarrow> nat \<Rightarrow> nat \<Rightarrow> tstack \<Rightarrow> tstack option" where
  "client_wait env tsk i s =
     Option.bind (tcp_trans_finish tsk s) (\<lambda>finished.
     if finished then Some s else Option.bind (env i s) (client_wait env tsk (Suc i)))"

text \<open>\<open>content\<close> is the content of \<^verbatim>\<open>1.dat\<close>, when it can be opened, and \<open>stale\<close> what the stack holds where the
  buffer \<^verbatim>\<open>rbuf\<close> comes to lie.\<close>

definition tcp_client :: "app_env \<Rightarrow> u32 \<Rightarrow> u16 \<Rightarrow> bytes option \<Rightarrow> bytes \<Rightarrow> tstack \<Rightarrow> (outcome \<times> tstack) option" where
  "tcp_client env skip skport content stale s = do {
     (tsk, s) \<leftarrow> alloc_tcp_sock s;
     (r, s) \<leftarrow> tcp_sock_connect (env 0) tsk skip skport s;
     if r < 0 then Some (Exited 1, s)
     else (case content of
        None \<Rightarrow> Some (Exited 0, s)
      | Some d \<Rightarrow> do {
          (i, s) \<leftarrow> client_send env tsk 1 stale \<lparr>f_data = d, f_pos = 0, f_eof = False\<rparr> s;
          s \<leftarrow> client_wait env tsk i s;
          s \<leftarrow> tcp_sock_close tsk s;
          Some (Returned, s) }) }"

section \<open>Loops that go on\<close>

text \<open>A loop whose rounds, up to the \<open>m\<close>-th, succeed, keep an invariant and do not ask to stop runs through all of
  them.\<close>

locale running_loop =
  fixes step :: "nat \<Rightarrow> 'r \<Rightarrow> (bool \<times> 'r) option"
    and I :: "nat \<Rightarrow> 'r \<Rightarrow> bool"
    and m :: enat
  assumes round: "enat i < m \<Longrightarrow> I i r \<Longrightarrow> \<exists>r'. step i r = Some (True, r') \<and> I (Suc i) r'"
begin

lemma running: "I i r \<Longrightarrow> enat (i + n) \<le> m \<Longrightarrow> \<exists>r'. app_loop step i n r = Some (True, r') \<and> I (i + n) r'"
proof (induction n arbitrary: i r)
  case (Suc n)
  have "enat i < enat (i + Suc n)" by simp
  then have "enat i < m" using Suc.prems(2) by (rule less_le_trans)
  then obtain r' where "step i r = Some (True, r')" "I (Suc i) r'" using round Suc.prems(1) by blast
  then show ?case using Suc.IH [of "Suc i" r'] Suc.prems(2) by simp
qed simp

end

text \<open>A socket with a well-formed receive buffer, and other threads that neither fail nor destroy it. (Step 0 of the
  environment, the wait for the connection, is not concerned.)\<close>

definition buf_ok :: "nat \<Rightarrow> tstack \<Rightarrow> bool" where
  "buf_ok c s \<longleftrightarrow> (\<exists>k. socks s c = Some k \<and> rb_inv (rcv_buf k))"

definition env_keeps :: "(tstack \<Rightarrow> bool) \<Rightarrow> app_env \<Rightarrow> bool" where
  "env_keeps I env \<longleftrightarrow> (\<forall>i s. 0 < i \<longrightarrow> I s \<longrightarrow> (\<exists>s'. env i s = Some s' \<and> I s'))"

lemma wait_updates [simp]:
  "rcv_buf (snd f_recv g k) = rcv_buf k" "rcv_buf (snd f_send g k) = rcv_buf k"
  by (simp_all add: f_recv_def f_send_def)

lemma sleep_buf_ok:
  assumes e: "env_keeps (buf_ok c) env" "0 < i" and s: "buf_ok c s" and f: "f = f_recv \<or> f = f_send"
  shows "\<exists>s'. sleep_on f (env i) c s = Some s' \<and> buf_ok c s'"
proof -
  have f': "rcv_buf (snd f g k) = rcv_buf k" for g k using f by auto
  obtain k where k: "socks s c = Some k" "rb_inv (rcv_buf k)" using s by (auto simp: buf_ok_def)
  obtain wait w where w: "sleep_enter (fst f k) = (wait, w)" by (cases "sleep_enter (fst f k)")
  define s1 where "s1 = s\<lparr>socks := (socks s)(c \<mapsto> snd f (\<lambda>_. w) k)\<rparr>"
  have s1: "buf_ok c s1" using k(2) by (simp add: buf_ok_def s1_def f')
  obtain s2 where s2: "env i s1 = Some s2" "buf_ok c s2" using e s1 by (auto simp: env_keeps_def)
  then obtain k2 where k2: "socks s2 c = Some k2" "rb_inv (rcv_buf k2)" by (auto simp: buf_ok_def)
  show ?thesis
    using k w s1 s2(1) k2 by (cases wait) (auto simp: sleep_on_def s1_def [symmetric] buf_ok_def f')
qed

lemma read_buf_ok:
  assumes e: "env_keeps (buf_ok c) env" "0 < i" and s: "buf_ok c s" and len: "0 < len"
  shows "\<exists>out s'. tcp_sock_read (env i) c len s = Some (int (length out), out, s') \<and> int (length out) \<le> len \<and> buf_ok c s'"
proof -
  obtain k where k: "socks s c = Some k" "rb_inv (rcv_buf k)" using s by (auto simp: buf_ok_def)
  define em where "em = (rb_data (rcv_buf k) = [])"
  obtain s1 where s1: "(if em then sleep_on f_recv (env i) c s else Some s) = Some s1" "buf_ok c s1"
    using sleep_buf_ok [OF e s, of f_recv] s by (cases em) auto
  then obtain k1 where k1: "socks s1 c = Some k1" "rb_inv (rcv_buf k1)" by (auto simp: buf_ok_def)
  obtain out rb where rb: "read_ring_buffer (rcv_buf k1) len = Some (int (length out), out, rb)" "rb_inv rb" "int (length out) \<le> len"
    using read_data [OF k1(2), of len] len by auto
  have "ring_buffer_empty (rcv_buf k) = Some em" using used_eq [OF k(2)] by (simp add: ring_buffer_empty_def em_def)
  then have "tcp_sock_read (env i) c len s = Some (int (length out), out, s1\<lparr>socks := (socks s1)(c \<mapsto> k1\<lparr>rcv_buf := rb\<rparr>)\<rparr>)"
    using k(1) s1(1) k1(1) rb(1) by (simp add: tcp_sock_read_def)
  then show ?thesis using rb(2,3) by (auto simp: buf_ok_def)
qed

lemma send_packet_16_ok:
  assumes k: "socks s c = Some k" and len: "length data \<le> 1446"
  shows "\<exists>A w k'. tcp_send_packet_16 c (replicate CTL_SIZE 0 @ data) (int CTL_SIZE + int (length data)) s
      = Some (s\<lparr>rand_pos := Suc (rand_pos s), socks := (socks s)(c \<mapsto> k'), arpcache := A, wire := w\<rparr>)
    \<and> rcv_buf k' = rcv_buf k"
proof -
  define m0 where "m0 = replicate CTL_SIZE (0 :: u8) @ data"
  have l: "length m0 = 54 + length data" by (simp add: m0_def)
  then have size: "54 \<le> length m0" "length m0 < 65536 + 14" using len by simp_all
  obtain m where m: "tcp_data_segment m0 (int (length m0)) (sk_sip k) (sk_dip k) (sk_sport k) (sk_dport k) (snd_nxt k) (rcv_nxt k) (rcv_wnd k) s
      = Some (m, s\<lparr>rand_pos := Suc (rand_pos s)\<rparr>)" "length m = length m0"
    using tcp_data_segment_ok [OF size, of "sk_sip k" "sk_dip k"] by blast
  define n where "n = int (length m0) - int ETHER_HDR_SIZE - int IP_BASE_HDR_SIZE - int TCP_BASE_HDR_SIZE"
  define k' where "k' = k\<lparr>snd_nxt := snd_nxt k + of_int n, snd_wnd := snd_wnd k - of_int n\<rparr>"
  define t where "t = s\<lparr>rand_pos := Suc (rand_pos s), socks := (socks s)(c \<mapsto> k')\<rparr>"
  have "data_packet c m0 (int (length m0)) s = Some (m, t)"
    unfolding data_packet_def k m(1) n_def [symmetric] using k
    by (simp add: m(1) t_def k'_def n_def [symmetric] del: of_int_of_nat_eq)
  moreover have "whole m (int (length m0))" "34 \<le> length m" using m(2) l len by (auto simp: whole_def)
  then obtain A w where "ip_send_packet m (int (length m0)) t = Some (t\<lparr>arpcache := A, wire := w\<rparr>)"
    using ip_send_packet_total by blast
  moreover have "int CTL_SIZE + int (length data) = int (length m0)" using l by simp
  ultimately have "tcp_send_packet_16 c m0 (int CTL_SIZE + int (length data)) s = Some (t\<lparr>arpcache := A, wire := w\<rparr>)"
    unfolding tcp_send_packet_16_def by simp
  then show ?thesis
    unfolding m0_def [symmetric] by (intro exI [of _ A] exI [of _ w] exI [of _ k']) (simp add: t_def k'_def)
qed

lemma write_16_buf_ok:
  assumes e: "env_keeps (buf_ok c) env" "0 < i" and s: "buf_ok c s" and len: "0 \<le> len" "nat len \<le> length buf"
  shows "\<exists>r s'. tcp_sock_write_16 (env i) c buf len s = Some (r, s') \<and> 0 \<le> r \<and> buf_ok c s'"
proof -
  define n where "n = min len 1446"
  have n: "0 \<le> n" "nat n \<le> length buf" "length (take (nat n) buf) = nat n" using len by (auto simp: n_def)
  obtain k where k: "socks s c = Some k" "rb_inv (rcv_buf k)" using s by (auto simp: buf_ok_def)
  obtain s1 where s1: "tcp_send_packet_16 c (replicate CTL_SIZE 0 @ take (nat n) buf) (int CTL_SIZE + n) s = Some s1" "buf_ok c s1"
  proof -
    have "length (take (nat n) buf) \<le> 1446" "int (length (take (nat n) buf)) = n" using n by (simp_all add: n_def)
    then show ?thesis
      using send_packet_16_ok [OF k(1), of "take (nat n) buf"] k(2) that unfolding buf_ok_def by fastforce
  qed
  obtain s2 where "sleep_on f_send (env i) c s1 = Some s2" "buf_ok c s2" using sleep_buf_ok [OF e s1(2)] by blast
  moreover have "min len (1500 - int CTL_SIZE) = n" by (simp add: n_def)
  moreover have "load_bytes buf 0 (nat n) = Some (take (nat n) buf)" using n(2) by (simp add: load_bytes_def)
  ultimately show ?thesis using s1(1) n(1) by (simp add: tcp_sock_write_16_def Let_def)
qed

section \<open>The servers never close\<close>

interpretation echo: running_loop "echo_round env csk" "\<lambda>i s. 0 < i \<and> env_keeps (buf_ok csk) env \<and> buf_ok csk s" \<infinity> for env csk
proof
  fix s :: tstack and i :: nat assume "0 < i \<and> env_keeps (buf_ok csk) env \<and> buf_ok csk s"
  then have e: "env_keeps (buf_ok csk) env" "0 < i" and s: "buf_ok csk s" by auto
  obtain s1 where s1: "env i s = Some s1" "buf_ok csk s1" using e s by (auto simp: env_keeps_def)
  obtain out s2 where s2: "tcp_sock_read (env i) csk 1000 s1 = Some (int (length out), out, s2)" "buf_ok csk s2"
    using read_buf_ok [OF e s1(2), of 1000] by auto
  obtain r s3 where s3: "tcp_sock_write_16 (env i) csk (echo_prefix @ c_text out) (int (length (echo_prefix @ c_text out))) s2 = Some (r, s3)"
    "0 \<le> r" "buf_ok csk s3"
    by (rule exE [OF write_16_buf_ok [OF e s2(2), of "int (length (echo_prefix @ c_text out))" "echo_prefix @ c_text out"]])
      auto
  show "\<exists>r'. echo_round env csk i s = Some (True, r') \<and> 0 < Suc i \<and> env_keeps (buf_ok csk) env \<and> buf_ok csk r'"
    using e s1(1) s2 s3 by (cases "out = []") (auto simp: echo_round_def Let_def)
qed

definition client_inv :: "app_env \<Rightarrow> nat \<Rightarrow> nat \<Rightarrow> bytes list \<times> tstack \<Rightarrow> bool" where
  "client_inv env tsk i = (\<lambda>(out, s). env_keeps (buf_ok tsk) env \<and> buf_ok tsk s \<and> length out = i)"

interpretation client: running_loop "client_round env tsk" "client_inv env tsk" 10 for env tsk
proof
  fix i r assume i: "enat i < 10" and r: "client_inv env tsk i r"
  obtain out s where rs: "r = (out, s)" by (cases r)
  have e: "env_keeps (buf_ok tsk) env" "0 < Suc i" and s: "buf_ok tsk s" "length out = i" using r by (auto simp: client_inv_def rs)
  have i: "i < 10" using i by (simp add: numeral_eq_enat)
  have l: "length client_text = 62" by (simp add: client_text_def)
  obtain k s1 where s1: "tcp_sock_write_16 (env (Suc i)) tsk (drop i client_text) (int (length client_text) - 10) s = Some (k, s1)"
    "0 \<le> k" "buf_ok tsk s1"
  proof -
    have len: "int (length client_text) - 10 = 52" "nat 52 \<le> length (drop i client_text)" using i l by simp_all
    show ?thesis using write_16_buf_ok [OF e s(1) _ len(2)] that unfolding len(1) by auto
  qed
  obtain got s2 where s2: "tcp_sock_read (env (Suc i)) tsk 1000 s1 = Some (int (length got), got, s2)" "buf_ok tsk s2"
    using read_buf_ok [OF e s1(3), of 1000] by auto
  obtain s3 where s3: "env (Suc i) s2 = Some s3" "buf_ok tsk s3" using e s2(2) by (auto simp: env_keeps_def)
  show "\<exists>r'. client_round env tsk i r = Some (True, r') \<and> client_inv env tsk (Suc i) r'"
    using s1 s2 s3 e s(2) by (simp add: rs client_round_def client_inv_def Let_def)
qed

text \<open>C27. The echo server of lab 16 never closes its connection, and never answers a client that does: from an
  accepted socket with a well-formed buffer, as long as the other threads keep running, every round
  succeeds and none ends the loop, because \<^verbatim>\<open>tcp_sock_read\<close> and \<^verbatim>\<open>tcp_sock_write\<close> never return the negative value
  that the loop waits for. The whole thread is then still running after any number of rounds.\<close>

theorem echo_server_never_closes:
  assumes "env_keeps (buf_ok csk) env" "buf_ok csk s"
  shows "\<exists>s'. app_loop (echo_round env csk) 1 n s = Some (True, s') \<and> buf_ok csk s'
    \<and> (\<forall>port s0. server_open (env 0) port s0 = Some (Inr (Some csk), s) \<longrightarrow> tcp_server_16 env port n s0 = Some (Running, s'))"
proof -
  obtain s' where "app_loop (echo_round env csk) 1 n s = Some (True, s')" "buf_ok csk s'"
    using echo.running [where i = 1 and r = s and n = n and env = env and csk = csk] assms by auto
  then show ?thesis by (intro exI [of _ s']) (simp add: tcp_server_16_def)
qed

theorem echo_server_never_closes_witness:
  "\<exists>s'. app_loop (echo_round (\<lambda>_. Some) 0) 1 5 tstack_data = Some (True, s')"
proof -
  have "rb_inv \<lparr>rb_size = 8, rb_head = 6, rb_tail = 1, rb_buf = [2, 0, 0, 0, 0, 0, 0, 1, 0]\<rparr>" by (simp add: rb_inv_def)
  then have "buf_ok 0 tstack_data" by (simp add: buf_ok_def tstack_data_def)
  moreover have "env_keeps (buf_ok 0) (\<lambda>_. Some)" by (simp add: env_keeps_def)
  ultimately show ?thesis using echo_server_never_closes [of 0 "\<lambda>_. Some" tstack_data 5] by auto
qed

text \<open>The client of lab 16 gets through its ten rounds and prints ten lines.\<close>

lemma client_16_rounds:
  assumes "env_keeps (buf_ok tsk) env" "buf_ok tsk s"
  shows "\<exists>out s'. app_loop (client_round env tsk) 0 10 ([], s) = Some (True, out, s') \<and> length out = 10 \<and> buf_ok tsk s'"
  using client.running [where i = 0 and r = "([], s)" and n = 10 and env = env and tsk = tsk] assms by (auto simp: client_inv_def numeral_eq_enat)

section \<open>What the file server writes\<close>


















section \<open>What the file client sends\<close>

lemma write_returns_1: "tcp_sock_write env c buf len s = Some (r, s') \<Longrightarrow> r = 1"
proof -
  have "fst x = 1" if "tcp_write_loop env c buf len k s = Some x" for k x
  proof (rule tcp_write_loop.raw_induct [where P = "\<lambda>env c buf len k s x. fst x = 1", OF _ that])
    fix loop env p buf len k s x
    assume IH: "\<And>env c buf len k s x. loop env c buf len k s = Some x \<Longrightarrow> fst x = 1"
      and e: "(if k < len then Option.bind (socks s p) (\<lambda>y. Option.bind (if snd_wnd y = 0 then sleep_on f_send env p s else Some s) (\<lambda>s.
          Option.bind (socks s p) (\<lambda>y. let data_len = min (int (unat (snd_wnd y))) (min len (1500 - int CTL_SIZE)) in
          Option.bind (load_bytes buf (nat k) (nat data_len)) (\<lambda>data.
          Option.bind (tcp_send_packet p (replicate CTL_SIZE 0 @ data) (int CTL_SIZE + data_len) s) (loop env p buf len (k + data_len))))))
        else Some (1, s)) = Some x"
    show "fst x = 1"
    proof (cases "k < len")
      case True
      then show ?thesis using e unfolding Let_def by (clarsimp simp: bind_eq_Some_conv) (erule IH)
    qed (use e in auto)
  qed
  then show "tcp_sock_write env c buf len s = Some (r, s') \<Longrightarrow> r = 1" by (fastforce simp: tcp_sock_write_def)
qed

text \<open>A file of fewer than 1000 bytes leaves as a block of 1000 bytes all the same: its content, and behind it what lay in the
  uninitialised buffer.\<close>

lemma client_send_short_file:
  assumes "length d < 1000"
  shows "client_send env tsk i stale \<lparr>f_data = d, f_pos = 0, f_eof = False\<rparr> s
    = do { (r, s) \<leftarrow> tcp_sock_write (env i) tsk (d @ drop (length d) stale) 1000 s; s \<leftarrow> env i s; Some (Suc i, s) }"
proof (cases "tcp_sock_write (env i) tsk (d @ drop (length d) stale) 1000 s")
  case None
  then show ?thesis using assms by (subst client_send.simps) (simp add: c_fread_def Let_def)
next
  case (Some x)
  obtain r s' where x: "x = (r, s')" by (cases x)
  then have "r = 1" using write_returns_1 Some by blast
  moreover have "client_send env tsk (Suc i) b \<lparr>f_data = d, f_pos = length d, f_eof = True\<rparr> = (\<lambda>t. Some (Suc i, t))" for b
    by (intro ext, subst client_send.simps) simp
  ultimately show ?thesis using assms Some x by (subst client_send.simps) (simp add: c_fread_def Let_def)
qed

section \<open>The client of lab 17 cannot connect\<close>

lemma port_in_use_frame:
  assumes ok: "tables_ok L s" "tables_ok L' s'" and b: "\<And>i. L' (BindTable i) = L (BindTable i)"
    and k: "\<And>p k. socks s p = Some k \<Longrightarrow> \<exists>k'. socks s' p = Some k' \<and> parent k' = parent k" and a: "addr_of s' = addr_of s"
  shows "tcp_port_in_use port s' = tcp_port_in_use port s"
proof -
  let ?a = "BindTable (tcp_hash_function 0 0 port 0)"
  let ?Q = "\<lambda>s p. \<exists>k. socks s p = Some k \<and> misread_sport k s = port"
  let ?P = "\<lambda>s n. case n of BindHashList p \<Rightarrow> ?Q s p | _ \<Rightarrow> False"
  have find: "list_find_entry (lists s) ?a (\<lambda>n. case n of BindHashList p \<Rightarrow> map_option (\<lambda>k. misread_sport k s = port) (socks s p) | _ \<Rightarrow> None)
      = Some (find (?P s) (map BindHashList (bucket L ?a)))" if ok: "tables_ok L s" for L s
  proof -
    have t: "table_ok ?a BindHashList (\<lambda>k. tcp_hash_function 0 0 port 0) (tcp_hash_function 0 0 port 0) L s"
      using tables_okD [OF ok, of ?a] by simp
    show ?thesis
      using table_ok_alloc [OF t] by (intro list_find_entry_dlist(1) [OF table_ok_dlist [OF ok t]]) fastforce
  qed
  have t: "table_ok ?a BindHashList (\<lambda>k. tcp_hash_function 0 0 port 0) (tcp_hash_function 0 0 port 0) L s"
    using tables_okD [OF ok(1), of ?a] by simp
  have "?Q s' p = ?Q s p" if p: "p \<in> set (bucket L ?a)" for p
  proof -
    obtain x where x: "socks s p = Some x" using table_ok_alloc [OF t p] by auto
    then obtain y where "socks s' p = Some y" "parent y = parent x" using k by blast
    then show ?thesis using x by (simp add: misread_sport_def a split: option.split)
  qed
  then have "find (?P s') (map BindHashList (bucket L ?a)) = find (?P s) (map BindHashList (bucket L ?a))"
    by (intro find_cong) auto
  moreover have "bucket L' ?a = bucket L ?a" by (simp add: bucket_def b)
  ultimately show ?thesis using find [OF ok(1)] find [OF ok(2)] by (simp add: tcp_port_in_use_def)
qed

lemma get_port_from_frame:
  assumes "\<And>port. tcp_port_in_use port s' = tcp_port_in_use port s"
  shows "get_port_from n s' = get_port_from n s"
proof (induction "PORT_MAX - n" arbitrary: n rule: less_induct)
  case less
  have "get_port_from (Suc n) s' = get_port_from (Suc n) s" if "n < PORT_MAX" using less that by simp
  then show ?case by (cases "n < PORT_MAX"; subst (1 2) get_port_from.simps) (simp_all add: assms cong: if_cong)
qed

lemma get_port_from_free:
  assumes "get_port_from n s = Some q" "q \<noteq> 0"
  shows "tcp_port_in_use q s = Some False"
  using assms(1)
proof (induction "PORT_MAX - n" arbitrary: n rule: less_induct)
  case less
  have n: "n < PORT_MAX" using less(2) assms(2) by (subst (asm) get_port_from.simps) (auto split: if_splits)
  then obtain b where b: "tcp_port_in_use (of_nat n) s = Some b" "(if b then get_port_from (Suc n) s else Some (of_nat n)) = Some q"
    using less(2) by (subst (asm) get_port_from.simps) (auto simp: bind_eq_Some_conv)
  then show ?case using less(1) [of "Suc n"] n by (cases b) auto
qed

lemma tcp_hash_keeps_zero:
  assumes ok: "tables_ok L s" and k: "socks s c = Some k" "state k = TCP_SYN_SENT"
    and z: "lists s (HashList c) = Some zero_node" "lists s n = Some zero_node" "n \<noteq> HashList c"
    and r: "tcp_hash c s = Some (r, s')"
  shows "lists s' n = Some zero_node" "lists s' Null = None" "socks s' c \<noteq> None"
proof -
  let ?i = "key_hash (key_of k)"
  have slot: "slot (EstablishedTable ?i) = Some (HashList, \<lambda>k. key_hash (key_of k), ?i)" by simp
  have "in_bucket (\<lambda>k. key_hash (key_of k)) ?i s c" using k(1) by (simp add: in_bucket_def)
  from tables_ok_enter [OF ok slot this _ zero_node_unlinked [OF ok z(1)]] obtain h where
    h: "list_add_head (lists s) (HashList c) (EstablishedTable ?i) = Some h" "dom h = dom (lists s)"
    "\<forall>m. m \<noteq> HashList c \<longrightarrow> \<not> linked L m \<longrightarrow> h m = lists s m" using z(1) by auto
  have hn: "h n = Some zero_node" using h(3) z(2,3) zero_node_unlinked [OF ok z(2)] by simp
  have Null: "lists s Null = None" using ok by (simp add: tables_ok_def)
  have e: "EstablishedTable (tcp_hash_function (sk_sip k) (sk_dip k) (sk_sport k) (sk_dport k)) = EstablishedTable ?i"
    by (simp add: key_hash_def key_of_def)
  have "lists s' = lists s \<and> socks s' c \<noteq> None \<or> lists s' = h \<and> socks s' c \<noteq> None"
    using r k h(1) unfolding tcp_hash_def
    by (auto simp: e Let_def tcp_sock_inc_ref_cnt_def bind_eq_Some_conv split: if_splits)
  then show "lists s' n = Some zero_node" "lists s' Null = None" "socks s' c \<noteq> None"
    using hn z(2) Null h(2) by auto
qed

lemma send_syn_crashes:
  assumes "socks s c \<noteq> None" "lists s (SendBuf c) = Some zero_node" "lists s Null = None"
  shows "tcp_send_control_packet c TCP_SYN s = None"
proof -
  obtain k where k: "socks s c = Some k" using assms(1) by blast
  obtain m where m: "control_packet c TCP_SYN s = Some (m, s\<lparr>rand_pos := Suc (rand_pos s)\<rparr>)"
    using control_packet_ok [OF k] by blast
  have "append_send_buf c m 54 t = None" if "lists t = lists s" for t
    using that assms(2,3) by (intro append_send_buf_crash) auto
  then show ?thesis
    using m k by (simp add: tcp_send_control_packet_def has_flag_def TCP_SYN_def TCP_FIN_def)
qed

text \<open>The client of lab 17 cannot connect: while a port is free, \<^verbatim>\<open>tcp_client\<close> crashes whatever the state of the
  tables, because \<^verbatim>\<open>tcp_sock_connect\<close> appends the SYN to the zeroed list \<^verbatim>\<open>send_buf\<close> of the new socket.\<close>

theorem file_client_cannot_connect:
  assumes ok: "tables_ok L s" "fresh_sock s" and port: "tcp_get_port s = Some q" "q \<noteq> 0"
  shows "tcp_client env skip skport content stale s = None"
proof -
  define c where "c = brk s"
  obtain h rb where h: "alloc_tcp_sock s = Some (c, s\<lparr>brk := Suc c, lists := h, socks := (socks s)(c \<mapsto> sock_init rb)\<rparr>)"
    "lrep h (L(ListenQueue c \<mapsto> [], AcceptQueue c \<mapsto> []))" "h Null = None" "h (HashList c) = Some zero_node"
    "h (BindHashList c) = Some zero_node" "h (SendBuf c) = Some zero_node"
    using alloc_sock_ok [OF ok] unfolding c_def by auto
  let ?L = "L(ListenQueue c \<mapsto> [], AcceptQueue c \<mapsto> [])"
  show ?thesis
  proof (cases "iface_list s")
    case Nil
    then show ?thesis using h(1) by (simp add: tcp_client_def tcp_sock_connect_def tcp_sock_connect_with_def)
  next
    case (Cons i ifs)
    define k where "k = (sock_init rb)\<lparr>sk_dip := ntohl skip, sk_dport := ntohs skport, sk_sip := if_ip i\<rparr>"
    define s1 where "s1 = s\<lparr>brk := Suc c, lists := h, socks := (socks s)(c \<mapsto> k)\<rparr>"
    define s2 where "s2 = s\<lparr>brk := Suc c, lists := h, socks := (socks s)(c \<mapsto> k\<lparr>sk_sport := q\<rparr>)\<rparr>"
    have new: "keeps_keys s s'" if "socks s' = (socks s)(c \<mapsto> k')" for s' k'
      by (rule keeps_keys_new [OF _ that]) (use ok(2) in \<open>simp add: fresh_sock_def c_def\<close>)
    have okn: "tables_ok ?L s'" if "lists s' = h" "socks s' = (socks s)(c \<mapsto> k')" for s' k'
    proof (rule tables_ok_change [OF ok(1)])
      show "slot a \<noteq> None \<Longrightarrow> ?L a = L a" for a by (cases a) auto
    qed (use h(2,3) that new in auto)
    have ok12: "tables_ok ?L s1" "tables_ok ?L s2" by (rule okn; simp add: s1_def s2_def)+
    have fresh: "socks s c = None" using ok(2) by (simp add: fresh_sock_def c_def)
    have use1: "tcp_port_in_use p s1 = tcp_port_in_use p s" for p
      by (rule port_in_use_frame [OF ok(1) ok12(1)]) (use fresh in \<open>auto simp: s1_def\<close>)
    have use2: "tcp_port_in_use p s2 = tcp_port_in_use p s" for p
      by (rule port_in_use_frame [OF ok(1) ok12(2)]) (use fresh in \<open>auto simp: s2_def\<close>)
    have gp: "tcp_get_port s1 = Some q" using port(1) get_port_from_frame [OF use1] by (simp add: tcp_get_port_def)
    have k2: "socks s2 c = Some (k\<lparr>sk_sport := q\<rparr>)" "sk_sport (k\<lparr>sk_sport := q\<rparr>) = q" by (simp_all add: s2_def)
    have z2: "lists s2 (BindHashList c) = Some zero_node" using h(5) by (simp add: s2_def)
    obtain r h3 x L3 where b: "tcp_sock_bind c (htons q) s2 = Some (r, s2\<lparr>lists := h3, socks := (socks s2)(c \<mapsto> k\<lparr>sk_sport := q, ref_cnt := x\<rparr>)\<rparr>)"
      "tables_ok L3 (s2\<lparr>lists := h3, socks := (socks s2)(c \<mapsto> k\<lparr>sk_sport := q, ref_cnt := x\<rparr>)\<rparr>)"
      "\<forall>n. n \<noteq> BindHashList c \<longrightarrow> \<not> linked ?L n \<longrightarrow> h3 n = lists s2 n \<and> \<not> linked L3 n"
      using bind_ok [OF ok12(2) k2 port(2) z2] by auto
    have un: "\<not> linked ?L n" if "h n = Some zero_node" for n using zero_node_unlinked [OF ok12(2)] that by (simp add: s2_def)
    have z3: "h3 (HashList c) = Some zero_node" "h3 (SendBuf c) = Some zero_node"
      using b(3) un h(4,6) by (auto simp: s2_def)
    have free: "tcp_port_in_use q s1 = Some False" "tcp_port_in_use q s2 = Some False"
      using get_port_from_free [OF port [unfolded tcp_get_port_def]] use1 use2 by simp_all
    have set: "tcp_sock_set_sport c q s1 = tcp_sock_set_sport c q s2"
      using free port(2) by (simp add: tcp_sock_set_sport_def) (simp add: s1_def s2_def)
    define s3 where "s3 = s2\<lparr>lists := h3, socks := (socks s2)(c \<mapsto> k\<lparr>sk_sport := q, ref_cnt := x\<rparr>)\<rparr>"
    have s3: "tcp_sock_set_sport c q s1 = Some (r, s3)" using b(1) unfolding set by (simp add: tcp_sock_bind_def s3_def)
    have r: "r = 0" using s3 free port(2) by (auto simp: tcp_sock_set_sport_def bind_eq_Some_conv)
    define y :: u32 where "y = of_nat (rand_fn s3 (rand_pos s3))"
    define k4 where "k4 = k\<lparr>sk_sport := q, ref_cnt := x, iss := y, snd_nxt := y, state := TCP_SYN_SENT\<rparr>"
    define s4 where "s4 = s3\<lparr>rand_pos := Suc (rand_pos s3), socks := (socks s2)(c \<mapsto> k4)\<rparr>"
    have ok3: "tables_ok L3 s3" using b(2) by (simp add: s3_def)
    have "keeps_keys s3 s4"
      by (rule keeps_keys_upd [of _ c "k\<lparr>sk_sport := q, ref_cnt := x\<rparr>" k4]) (simp_all add: s3_def s4_def k4_def key_of_def)
    then have ok4: "tables_ok L3 s4"
      using ok3 by (intro tables_ok_change [OF ok3]) (auto simp: s4_def tables_ok_def)
    have k4: "socks s4 c = Some k4" "state k4 = TCP_SYN_SENT" by (simp_all add: s4_def k4_def)
    have z4: "lists s4 (HashList c) = Some zero_node" "lists s4 (SendBuf c) = Some zero_node" using z3 by (simp_all add: s4_def s3_def)
    have crash: "tcp_send_control_packet c TCP_SYN s5 = None" if "tcp_hash c s4 = Some (e, s5)" for e s5
      by (rule send_syn_crashes) (use tcp_hash_keeps_zero [OF ok4 k4 z4 _ that] in auto)
    let ?rest = "\<lambda>(r :: int) s. if r < 0 then Some (- 1, s)
      else do {
        let (x, s) = tcp_new_iss s;
        s \<leftarrow> on_sock c (\<lambda>k. k\<lparr>iss := x, snd_nxt := x\<rparr>) s;
        s \<leftarrow> tcp_set_state c TCP_SYN_SENT s;
        (r, s) \<leftarrow> tcp_hash c s;
        s \<leftarrow> tcp_send_control_packet c TCP_SYN s;
        s \<leftarrow> sleep_on f_connect (env 0) c s;
        Some (1, s) }"
    have to1: "tcp_sock_connect (env 0) c skip skport (s\<lparr>brk := Suc c, lists := h, socks := (socks s)(c \<mapsto> sock_init rb)\<rparr>)
        = do { port \<leftarrow> tcp_get_port s1; (r, s) \<leftarrow> tcp_sock_set_sport c port s1; ?rest r s }"
      by (simp add: tcp_sock_connect_def tcp_sock_connect_with_def Cons s1_def k_def)
    have "?rest 0 s3 = do { (e, s5) \<leftarrow> tcp_hash c s4; s6 \<leftarrow> tcp_send_control_packet c TCP_SYN s5; s7 \<leftarrow> sleep_on f_connect (env 0) c s6; Some (1, s7) }"
      by (simp add: tcp_new_iss_def rand_def tcp_set_state_def s4_def k4_def y_def s3_def s2_def)
    then have conn: "tcp_sock_connect (env 0) c skip skport (s\<lparr>brk := Suc c, lists := h, socks := (socks s)(c \<mapsto> sock_init rb)\<rparr>)
        = do { (e, s5) \<leftarrow> tcp_hash c s4; s6 \<leftarrow> tcp_send_control_packet c TCP_SYN s5; s7 \<leftarrow> sleep_on f_connect (env 0) c s6; Some (1, s7) }"
      unfolding to1 gp s3 r bind.simps prod.case .
    have "\<dots> = None" using crash by (cases "tcp_hash c s4") (auto simp: split_beta)
    then show ?thesis using h(1) conn by (simp add: tcp_client_def)
  qed
qed

theorem file_client_cannot_connect_witness:
  "tcp_client (\<lambda>_. Some) 0x0100000A 0x5000 (Some [1, 2, 3]) (replicate 1001 0) listen0 = None"
proof -
  let ?L = "one_seqs (ListenTable (port_hash 80))"
  have syn: "syn_for ?L 0 (segment_cb 0x0A000102 0x0A000001 12345 80 1000 0 TCP_SYN 65535 0) listen0"
    by (rule listen0_syn) (simp_all add: segment_cb_def has_flag_def TCP_SYN_def)
  then have ok: "tables_ok ?L listen0" "fresh_sock listen0" by (auto simp: syn_for_def)
  have "dlist (lists listen0) (BindTable i) []" if "i < TCP_HASH_SIZE" for i
    using lrep_dlist [OF tables_ok_lrep [OF ok(1)], of "BindTable i" "[]"] that by (simp add: one_seqs_def)
  then have "tcp_port_in_use 12345 listen0 = Some False"
    using list_find_entry_dlist(1) [of "lists listen0" "BindTable (tcp_hash_function 0 0 12345 0)" "[]"]
    by (simp add: tcp_port_in_use_def)
  then have "tcp_get_port listen0 = Some 12345"
    by (simp add: tcp_get_port_def get_port_from.simps PORT_MIN_def PORT_MAX_def)
  from file_client_cannot_connect [OF ok this] show ?thesis by simp
qed

end

