(* ===== verification/Spec2Isabelle.thy ===== *)
theory Spec2Isabelle
  imports Clist RingBuffer Switch TableFile LetterCount Router08 Stp MospfFlood MospfRun NatTable TcpApps StartupLabs
begin

text \<open>
  A verification development for the Computer Network Lab: a sequence of user-space network stacks in C,
  from an Ethernet hub to TCP. Each lab under \<^verbatim>\<open>src/\<close> is a program of its own that repeats and extends the
  code of the earlier ones, so a component is modelled from its latest version (mostly \<^verbatim>\<open>17-tcp_stack\<close>) and
  the earlier version is modelled beside it where it behaves differently.

  \<^bold>\<open>The parts and how they interact.\<close> \<^verbatim>\<open>main.c\<close> polls the interfaces and gives each frame to
  \<^verbatim>\<open>handle_packet\<close>, which dispatches on the Ethernet type to ARP or IP. IP delivers to ICMP or TCP, or forwards:
  it looks up the routing table, decrements the time to live, fixes the checksum and sends through
  ARP, which either knows the hardware address or queues the packet until a reply or a timeout. The
  routing labs compute the table: from kernel routes, or by a link state protocol with Dijkstra's
  algorithm. The NAT lab rewrites packets between forwarding and sending. TCP keeps sockets in three
  hash tables and several intrusive lists, buffers received data in a ring buffer, and blocks the
  socket calls on small wait structures. The spanning tree lab runs on frames alone.

  \<^bold>\<open>Conventions.\<close> Machine integers are words (\<open>u8\<close> to \<open>u64\<close>) where they wrap, \<open>int\<close> for C \<open>int\<close> where the code
  stays in range or the range is tested (\<open>ensure\<close>). A function that may crash (null or wild pointer,
  index out of range, signed overflow, failed assertion) or not return has an option result, and
  \<open>None\<close> is that outcome. Memory is explicit where aliasing matters: the list nodes of theory Clist, and
  the sockets of theory TcpSock. Packets are byte lists; a struct is read and written through a layout (theory
  Headers), so byte order and padding are those of the wire. Time, \<^verbatim>\<open>rand()\<close> and the frames sent are
  fields of the state (theory Net). Loops over lists are structural; a loop whose end depends on the heap
  is a \<open>partial_function\<close>, and that it returns is proved where a property needs it.

  \<^bold>\<open>The theories.\<close>

  \<^item> Prelude: byte order, words, loads and stores on byte lists, folds in the option monad.
  \<^item> Clist (\<^verbatim>\<open>include/list.h\<close>): the circular list on a heap of nodes. \<open>dlist\<close> relates a head to its sequence,
    \<open>lrep\<close> all lists of one heap; locale \<open>clist_ops\<close> is the contract its users rely on.
  \<^item> Checksum (\<^verbatim>\<open>checksum.h\<close>, \<^verbatim>\<open>hash.h\<close>): the Internet checksum against a one's complement reference, and the hashes.
  \<^item> RingBuffer (\<^verbatim>\<open>ring_buffer.h\<close>): refines a byte queue (locale \<open>byte_fifo\<close>); a write that does not fit aborts.
  \<^item> Headers: Ethernet, ARP, IP, ICMP and TCP headers as layouts (locale \<open>layout\<close>: store and load are inverse).
  \<^item> Net (\<^verbatim>\<open>base.h\<close>, \<^verbatim>\<open>packet.c\<close>, \<^verbatim>\<open>main.c\<close>): the state of a stack, sending, flooding, dispatch of frames.
  \<^item> Rtable (\<^verbatim>\<open>rtable.c\<close>, \<^verbatim>\<open>rtable_internal.c\<close>, \<^verbatim>\<open>ip.c\<close>): the routing table, the longest prefix match of labs 08 and 10 to 17,
    and the translation of kernel route messages.
  \<^item> Arp (\<^verbatim>\<open>arp.c\<close>, \<^verbatim>\<open>arpcache.c\<close>): requests, replies, the cache (locale \<open>lossy_table\<close>) and the waiting packets.
  \<^item> Ip (\<^verbatim>\<open>ip.c\<close>, \<^verbatim>\<open>icmp.c\<close>, \<^verbatim>\<open>arpcache_sweep\<close>): headers, forwarding, ICMP messages, giving up on unanswered requests.
  \<^item> Ip12 (\<^verbatim>\<open>12-mospf\<close>): the functions of the routing labs that differ.
  \<^item> Router08 (\<^verbatim>\<open>08-router\<close>): the first router, with the mutex of its cache as part of the state.
  \<^item> LetterCount (\<^verbatim>\<open>03-socket\<close>): the master and worker programs that count letters.
  \<^item> Switch (\<^verbatim>\<open>04-broadcast\<close>, \<^verbatim>\<open>05-switching\<close>): the hub and the learning switch with its address table.
  \<^item> PrefixTree (\<^verbatim>\<open>09-lookup\<close>): the prefix trees of the lookup benchmark and their compression.
    LeafPush: the leaf push, which shares nodes, on a heap. LookupTest: the main function, which compares the answers of the trees.
    TableFile: the parsing of the table file, with the main function from its text on, and the destruction of trees.
  \<^item> CString: the string functions the programs call (\<^verbatim>\<open>atoi\<close>, \<^verbatim>\<open>strstr\<close>) and decimal notation.
  \<^item> Stp (\<^verbatim>\<open>06-stp\<close>): the spanning tree protocol as a transition system over received configurations and timer ticks.
  \<^item> Dijkstra and Mospf (\<^verbatim>\<open>12-mospf\<close>): shortest paths; hello and link state messages, neighbours, database, routes.
  \<^item> Mospf11 (\<^verbatim>\<open>11-mospf\<close>): the handler of updates of the earlier link state lab, against that of lab 12.
    MospfFlood: an update from the router that sends it to the database of its neighbour. MospfRun: the whole program of
    lab 12, with its threads, as a transition system, over the invariant of the network layer in NetInv.
  \<^item> NatTable (\<^verbatim>\<open>10-nat\<close>): translation in both directions; the functions of the course's object files are arguments.
  \<^item> SynchWait (\<^verbatim>\<open>synch_wait.h\<close>): sleepers and wakers as a transition system.
  \<^item> Tcp (\<^verbatim>\<open>tcp.h\<close>, \<^verbatim>\<open>tcp.c\<close>, \<^verbatim>\<open>tcp_out.c\<close>): segments and control blocks.
  \<^item> TcpSock (\<^verbatim>\<open>tcp_sock.c\<close>, \<^verbatim>\<open>tcp_timer.c\<close>, \<^verbatim>\<open>tcp_out.c\<close>, \<^verbatim>\<open>tcp_apps.c\<close>): sockets, tables, timers, output, socket calls, labs 16 and 17.
  \<^item> TcpIn (\<^verbatim>\<open>tcp_in.c\<close>, \<^verbatim>\<open>tcp.c\<close>, \<^verbatim>\<open>tcp_timer.c\<close>): the state machines, reassembly, reading and writing, the timer scan.
  \<^item> TcpStream: one segment of the peer's stream, and what the application reads. TcpDeliver: the segments in any order and with
    repetitions. TcpTables: the hash tables are maps
    (locale \<open>conn_table\<close>). TcpHandshake: opening a connection, lab 16, and why lab 17 crashes there.
  \<^item> Tcp15 (\<^verbatim>\<open>15-tcp_stack\<close>): the state machine of the first TCP lab, and the closing of a connection through both stacks.
  \<^item> TcpApps (\<^verbatim>\<open>tcp_apps.c\<close> of labs 15, 16 and 17): the server and client threads; their loops as rounds (locale
    \<open>running_loop\<close>), with the other threads as an argument; for the file server they are the arrival of the peer's segments.
  \<^item> Startup (\<^verbatim>\<open>17-tcp_stack/main.c\<close>, \<^verbatim>\<open>rtable_internal.c\<close>): finding and opening the interfaces, loading the kernel's routes,
    the loop around \<^verbatim>\<open>poll\<close>; the answers of the system are a record of functions. StartupLabs: the start of the
    hub, the switches, the router, NAT and the link state labs.

  \<^bold>\<open>What the theorems show.\<close> Functional correctness of the data path: lookup picks the longest matching
  prefix, forwarding changes time to live and checksum only, ARP releases every waiting packet, an echo
  request is answered in kind, a segment built by the stack is accepted by the peer's stack behind any
  number of routers, reassembly delivers the stream in order and once however the network reorders and repeats its segments, a router's link state arrives unchanged in
  the database of its neighbours, the letter counters add up to the count of the whole file,
  the self-test of the lookup benchmark, from the text of its table file on, finds no difference on tables
  without nested prefixes, and a stack that starts on a healthy system answers the first ARP request. Invariants of the stateful protocols:
  the spanning tree ports, the link state program from its start on, the ARP cache, the TCP receive state. Refinement: ring
  buffer and queue, ARP cache and lossy table, established table and map. Termination and liveness:
  unanswered requests are given up and their senders told by ICMP over any sequence of sweeps, no wake-up is lost, an acknowledged handshake yields an
  accepted connection, a connection of lab 15 is closed by both sides down to the end of TIME_WAIT, the
  file server writes the stream that arrives. The flaws found are theorems too: each states the exact situation
  in which the code misbehaves.

  \<^bold>\<open>Bounds.\<close> The theorems on TCP sequence numbers assume that the numbers in play stay below \<open>2^31\<close>
  (the code compares them with signed arithmetic). Segments are bounded by the maximal packet of 1500
  bytes. Dijkstra's array is the \<open>MAX_NUM\<close> by \<open>MAX_NUM\<close> matrix of the source. The timer and checking
  threads are modelled by one round each; theorems quantify over any number of rounds.

  \<^bold>\<open>Not modelled.\<close> What the system does behind \<^verbatim>\<open>socket\<close>, \<^verbatim>\<open>ioctl\<close>, \<^verbatim>\<open>poll\<close> and netlink (its answers are
  arguments); logging and the code that prints tables, in the handler of link state updates too, whose print loop
  can read behind an array (theorem \<open>mospf_lsu_stale_count\<close> of theory Mospf gives the situation); the object files of labs 10 and 11 that are linked without source; in lab 09
  a second leaf push that is never called, and the destruction of the compressed tree, which only frees;
  \<^verbatim>\<open>async_wait.h\<close>, which is included nowhere, and the two example programs of labs 04 and 05.
  Concurrency is modelled where a property is about it (SynchWait, the mutex of the link state daemon);
  elsewhere each handler is atomic, and what other threads do during a blocking call is an argument.
\<close>

section \<open>A TCP segment through a router\<close>

lemma fill_macs_copy:
  assumes "14 \<le> length p"
  shows "length (fill_macs m i p) = length p" "drop 34 (fill_macs m i p) = drop 34 p" "get_ip (fill_macs m i p) 14 = get_ip p 14"
proof -
  have "drop 14 (fill_macs m i p) = drop 14 p" by (simp add: fill_macs_def)
  then have "drop (n + 14) (fill_macs m i p) = drop (n + 14) p" for n by (metis drop_drop)
  from this [of 0] this [of 20] show "drop 34 (fill_macs m i p) = drop 34 p" "get_ip (fill_macs m i p) 14 = get_ip p 14"
    using assms by (simp_all add: load_struct_def load_bytes_def fill_macs_def)
  show "length (fill_macs m i p) = length p" using assms by (simp add: fill_macs_def)
qed

text \<open>What a router does with a packet that is not for it and whose next hop it knows.\<close>

lemma routed_copy:
  assumes p: "whole p len" "get_ip p 14 = Some (own_hdr saddr daddr n proto i c)" "34 \<le> length p"
    and r: "daddr \<noteq> if_ip iface" "longest_prefix_match r daddr = Some e" "arpcache_lookup r (get_next_hop e daddr) = Some mac"
  shows "\<exists>f. handle_ip_packet h iface p len r = Some (r\<lparr>wire := wire r @ [(rt_iface e, f)]\<rparr>) \<and> forwarded_copy p f
     \<and> (\<exists>c'. get_ip f 14 = Some ((own_hdr saddr daddr n proto i c)\<lparr>ip_ttl := DEFAULT_TTL - 1, ip_checksum_fld := c'\<rparr>))"
proof -
  let ?h = "own_hdr saddr daddr n proto i c"
  have h: "1 < ip_ttl ?h" "5 \<le> unat (ip_ihl ?h)" "14 + IP_HDR_SIZE ?h \<le> length p"
    using p(3) by (simp_all add: own_hdr_def DEFAULT_TTL_def IP_HDR_SIZE_def)
  obtain p' c' where p': "get_ip p' 14 = Some (?h\<lparr>ip_ttl := ip_ttl ?h - 1, ip_checksum_fld := c'\<rparr>)" "length p' = length p"
    "drop 34 p' = drop 34 p"
    "ip_forward_packet daddr p len r = Some (r\<lparr>wire := wire r @ [(rt_iface e, fill_macs mac (rt_iface e) p')]\<rparr>)"
    using ip_forward_packet_ok [OF p(1,2) h r(2)] r(3) by auto
  have "handle_ip_packet h iface p len r = ip_forward_packet daddr p len r"
    using p(2) r(1) by (simp add: handle_ip_packet_def own_hdr_def ETHER_HDR_SIZE_def)
  moreover have "14 \<le> length p'" using p'(2) p(3) by simp
  moreover have "ip_ttl ?h = DEFAULT_TTL" by (simp add: own_hdr_def)
  ultimately show ?thesis
    using p' p(2) fill_macs_copy by (intro exI [of _ "fill_macs mac (rt_iface e) p'"]) (auto simp: forwarded_copy_def)
qed

text \<open>C1. A piece of a byte stream crosses the network: the sender's data segment, built from any
  state, is put on the wire by the router on its way (route and hardware address known) with the time to
  live one lower and otherwise, up to the header checksum, unchanged from the IP header on, and the receiving stack, handed that frame, finds the connection's
  socket through its hash table and processes the segment. A segment that continues the stream
  is delivered, and after it, in stream order, the buffered segments that fit behind it: each segment that was
  in the out-of-order buffer has been delivered at its place or is still there, and none left continues
  the stream. A segment further ahead is kept with its place and bytes.
  In both cases the bytes read so far and the receive buffer are exactly the stream so far.\<close>

theorem tcp_segment_across_router:
  assumes seq: "unat r0 + N < 2 ^ 31" and inv: "rcv_inv r0 S N rd n p ns s"
    and conn: "conn_rep s M" "M (daddr, saddr, dport, sport) = Some p" and me: "if_ip iface_s = daddr"
    and piece: "n \<le> off" "0 < l" "off + l \<le> N" "l \<le> 1446" and hdr: "length hdr = 54"
    and rt: "daddr \<noteq> if_ip iface_r" "longest_prefix_match r daddr = Some e" "arpcache_lookup r (get_next_hop e daddr) = Some mac"
  shows "\<exists>m sender' f hm c s' n' ds ns'.
       tcp_data_segment (hdr @ piece S off l) (54 + int l) saddr daddr sport dport (r0 + of_nat off) ack rwnd sender = Some (m, sender')
     \<and> handle_ip_packet h iface_r m (54 + int l) r = Some (r\<lparr>wire := wire r @ [(rt_iface e, f)]\<rparr>)
     \<and> get_ip m 14 = Some hm \<and> get_ip f 14 = Some (hm\<lparr>ip_ttl := ip_ttl hm - 1, ip_checksum_fld := c\<rparr>)
     \<and> ip_ttl hm = DEFAULT_TTL \<and> length f = length m \<and> drop 34 f = drop 34 m
     \<and> handle_ip_packet handle_tcp_packet iface_s f (54 + int l) s = Some s'
     \<and> rcv_inv r0 S N rd n' p ns' s'
     \<and> (if off = n
        then n + l \<le> n' \<and> delivered r0 S N s (n + l) ds n' \<and> mset ns = mset ds + mset ns'
          \<and> no_next r0 n' ns' s' \<and> opkts s' = opkts s
        else n' = n \<and> ns' = ns @ [brk s] \<and> (\<exists>e. opkts s' = (opkts s)(brk s \<mapsto> e) \<and> seg_ok r0 S N off l e))"
proof -
  let ?cb = "segment_cb saddr daddr sport dport (r0 + of_nat off) ack (TCP_PSH OR TCP_ACK) rwnd l"
  let ?m = "hdr @ piece S off l"
  have len: "length ?m = 54 + l" using hdr by simp
  obtain m i c where m: "tcp_data_segment ?m (54 + int l) saddr daddr sport dport (r0 + of_nat off) ack rwnd sender
      = Some (m, sender\<lparr>rand_pos := Suc (rand_pos sender)\<rparr>)" "length m = 54 + l"
    "\<forall>q. forwarded_copy m q \<longrightarrow> drop 54 q = piece S off l \<and> tcp_received_as q ?cb"
    "get_ip m 14 = Some (own_hdr saddr daddr (of_nat (40 + l)) IPPROTO_TCP i c)"
    using tcp_data_segment_hdr [of ?m saddr daddr sport dport "r0 + of_nat off" ack rwnd sender] len hdr piece(4) by auto
  have "whole m (54 + int l)" "34 \<le> length m" using m(2) by (simp_all add: whole_def)
  from routed_copy [OF this(1) m(4) this(2) rt, of h] obtain f c' where
    f: "handle_ip_packet h iface_r m (54 + int l) r = Some (r\<lparr>wire := wire r @ [(rt_iface e, f)]\<rparr>)" "forwarded_copy m f"
    "get_ip f 14 = Some ((own_hdr saddr daddr (of_nat (40 + l)) IPPROTO_TCP i c)\<lparr>ip_ttl := DEFAULT_TTL - 1, ip_checksum_fld := c'\<rparr>)" by blast
  have r: "drop 54 f = piece S off l" "tcp_received_as f ?cb" using m(3) f(2) by auto
  have fl: "length f = 54 + l" using f(2) m(2) by (simp add: forwarded_copy_def)
  have flags: "\<not> has_flag (TCP_PSH OR TCP_ACK) (TCP_SYN OR TCP_FIN)"
    by (simp add: has_flag_def TCP_PSH_def TCP_ACK_def TCP_SYN_def TCP_FIN_def)
  have "stream_segment r0 S N off l ?cb f"
    using piece r(1) fl flags by (simp add: stream_segment_def segment_cb_def cb_data_def load_bytes_def)
  from tcp_process_stream [OF seq inv this piece(1)] obtain s' n' ds ns' where
    s': "tcp_process p ?cb f s = Some s'" "rcv_inv r0 S N rd n' p ns' s'" "ofo_frame p (lists s) (lists s')"
    "if off = n
        then n + l \<le> n' \<and> delivered r0 S N s (n + l) ds n' \<and> mset ns = mset ds + mset ns'
          \<and> no_next r0 n' ns' s' \<and> opkts s' = opkts s
        else n' = n \<and> ns' = ns @ [brk s] \<and> (\<exists>e. opkts s' = (opkts s)(brk s \<mapsto> e) \<and> seg_ok r0 S N off l e)"
    by (elim exE conjE) (rule that)
  have "tcp_sock_lookup ?cb s = Some (Some p)"
    using lookup_conn [OF conn(1)] conn(2) by (simp add: tcp_sock_lookup_def segment_cb_def)
  then have "handle_ip_packet handle_tcp_packet iface_s f (54 + int l) s = tcp_process p ?cb f s"
    using f(3) me by (simp add: handle_ip_packet_def handle_tcp_packet_def handle_received [OF r(2)] own_hdr_def
        ETHER_HDR_SIZE_def IP_HDR_SIZE_def IPPROTO_TCP_def IPPROTO_ICMP_def)
  moreover have "ip_ttl (own_hdr saddr daddr (of_nat (40 + l)) IPPROTO_TCP i c) = DEFAULT_TTL" by (simp add: own_hdr_def)
  moreover have "length f = length m" "drop 34 f = drop 34 m" using f(2) by (simp_all add: forwarded_copy_def)
  ultimately show ?thesis using m(1,4) f(1,3) s'
    by (intro exI [of _ m] exI [of _ f] exI [of _ "own_hdr saddr daddr (of_nat (40 + l)) IPPROTO_TCP i c"] exI [of _ c']
        exI [of _ s'] exI [of _ n'] exI [of _ ds] exI [of _ ns'] exI [of _ "sender\<lparr>rand_pos := Suc (rand_pos sender)\<rparr>"] conjI) simp_all
qed

text \<open>The receiver of the witness: socket 0 of theory TcpStream, registered under its connection.\<close>

definition receiver0 :: tstack where
  "receiver0 = tstack0\<lparr>lists := one_lists (EstablishedTable (key_hash (key_of sock0)))\<rparr>"

definition router0 :: ustack where
  "router0 = ustack0\<lparr>rtable := [route24, route_default],
     arpcache := \<lparr>entries = [\<lparr>ent_ip4 = 0x0A000001, ent_mac = Mac 2 0 0 0 0 7, ent_added = 0, ent_valid = True\<rparr>], req_list = []\<rparr>\<rparr>"

lemma receiver0_ok:
  shows "rcv_inv 1000 (\<lambda>i. of_nat i) 7 [] 0 0 [] receiver0"
    and "conn_rep receiver0 (\<lambda>k. if k = (0x0A000001, 0x0A000102, 80, 12345) then Some 0 else None)"
proof -
  let ?a = "EstablishedTable (key_hash (key_of sock0))"
  have "nxt (one_lists ?a) (OfoBuf 0) = Some (OfoBuf 0)" "prv (one_lists ?a) (OfoBuf 0) = Some (OfoBuf 0)"
    by (simp_all add: nxt_def prv_def one_lists_def)
  then show "rcv_inv 1000 (\<lambda>i. of_nat i) 7 [] 0 0 [] receiver0"
    by (simp add: rcv_inv_def receiver0_def tstack0_def sock0_def rcv_core_def rb_inv_def rb_data_def piece_def ofo_ok_def dlist_def)
  have s: "socks receiver0 0 = Some sock0" "lists receiver0 = one_lists ?a" by (simp_all add: receiver0_def tstack0_def)
  have b: "bucket (one_seqs ?a) (EstablishedTable j) = (if EstablishedTable j = ?a then [0] else [])" for j
    by (simp add: bucket_def one_seqs_def)
  have "tables_ok (one_seqs ?a) receiver0" by (rule one_tables [where f = "\<lambda>k. key_hash (key_of k)", OF _ s(1) _ s(2)]) simp_all
  moreover have "unique_keys (one_seqs ?a) receiver0" by (simp add: unique_keys_def b)
  moreover have "(\<lambda>key. conn_of (one_seqs ?a) key receiver0) = (\<lambda>k. if k = key_of sock0 then Some 0 else None)"
    using s(1) by (auto simp: conn_of_def b fun_eq_iff)
  moreover have "key_of sock0 = (0x0A000001, 0x0A000102, 80, 12345)" by (simp add: key_of_def sock0_def)
  ultimately show "conn_rep receiver0 (\<lambda>k. if k = (0x0A000001, 0x0A000102, 80, 12345) then Some 0 else None)"
    unfolding conn_rep_def by metis
qed

theorem tcp_segment_across_router_witness:
  "\<exists>m sender' f s'.
       tcp_data_segment (replicate 54 0 @ [0, 1, 2]) 57 0x0A000102 0x0A000001 12345 80 1000 0 65535 ustack0 = Some (m, sender')
     \<and> handle_ip_packet (\<lambda>_ _ _ _. None) iface1 m 57 router0 = Some (router0\<lparr>wire := [(iface0, f)]\<rparr>)
     \<and> handle_ip_packet handle_tcp_packet iface0 f 57 receiver0 = Some s'
     \<and> rcv_inv 1000 (\<lambda>i. of_nat i) 7 [] 3 0 [] s'"
proof -
  let ?S = "\<lambda>i. of_nat i :: u8"
  have p: "piece ?S 0 3 = [0, 1, 2]" by (simp add: piece_def upt_rec)
  have r: "longest_prefix_match router0 0x0A000001 = Some route24" "arpcache_lookup router0 (get_next_hop route24 0x0A000001) = Some (Mac 2 0 0 0 0 7)"
    "wire router0 = []" "rt_iface route24 = iface0"
    by (simp_all add: router0_def ustack0_def longest_prefix_match_def route_examples prefix_mask_def get_next_hop_def
        arpcache_lookup_def ent_hit_def)
  have "if_ip iface0 = 0x0A000001" "0x0A000001 \<noteq> if_ip iface1" "unat (1000 :: u32) + 7 < 2 ^ 31"
    by (simp_all add: iface0_def iface1_def)
  from tcp_segment_across_router [where off = 0 and l = 3 and hdr = "replicate 54 0" and ack = 0 and rwnd = 65535
      and sender = ustack0 and h = "\<lambda>_ _ _ _. None" and saddr = "0x0A000102" and sport = 12345 and dport = 80,
      OF this(3) receiver0_ok(1,2) _ this(1) _ _ _ _ _ this(2) r(1,2)]
  show ?thesis unfolding p r(3,4) by simp blast
qed

end
